(* ===== verification/Prelude.thy ===== *)
theory Prelude
  imports Main "HOL-Library.Word"
begin

text \<open>
  Shared vocabulary of the development: the fixed-width integer types the C code uses, error
  numbers as a datatype, 64-bit arithmetic on natural numbers with its wrap-around written out,
  and the generic lemmas on lists and words that the component theories build on.
\<close>

unbundle bit_operations_syntax

named_theorems u64_simps \<open>64-bit arithmetic that does not wrap\<close>

section \<open>Types\<close>

type_synonym u8 = "8 word"
type_synonym u16 = "16 word"
type_synonym u32 = "32 word"
type_synonym u64 = "64 word"

type_synonym bytes = "u8 list"

text \<open>A byte-addressed memory, as the routines that take pointers see it.\<close>

type_synonym memory = "nat \<Rightarrow> u8"

text \<open>
  The error numbers the modelled code returns.  A C function that returns a negative error
  number yields \<open>Inl\<close> of it, any other return value is \<open>Inr\<close>.
\<close>

datatype errno =
    EPERM | ENOENT | EIO | E2BIG | ENOMEM | EFAULT | EBUSY | EEXIST | EINVAL | ENOSPC | ERANGE
  | EBADMSG | EADDRNOTAVAIL | EPROTONOSUPPORT | ENODATA | ESHUTDOWN | EHOSTDOWN | ECHILD | ESTALE | ENOBUFS | EAGAIN | ENOTSUP

type_synonym 'a res = "errno + 'a"

section \<open>64-bit arithmetic on natural numbers\<close>

text \<open>
  Offsets, sizes and counters of a journal file are \<open>uint64_t\<close>.  They are modelled by natural
  numbers below \<open>two64\<close>; every operation of the code that may wrap is written with the functions
  below.
\<close>

definition two64 :: nat where
  "two64 = 2 ^ 64"

definition add64 :: "nat \<Rightarrow> nat \<Rightarrow> nat" where
  "add64 a b = (a + b) mod two64"

definition sub64 :: "nat \<Rightarrow> nat \<Rightarrow> nat" where
  "sub64 a b = (a + two64 - b mod two64) mod two64"

definition mul64 :: "nat \<Rightarrow> nat \<Rightarrow> nat" where
  "mul64 a b = (a * b) mod two64"

lemma two64_pos [simp]: "0 < two64"
  by (simp add: two64_def)

lemma add64_eq [u64_simps]: "a + b < two64 \<Longrightarrow> add64 a b = a + b"
  by (simp add: add64_def)

lemma mul64_eq [u64_simps]: "a * b < two64 \<Longrightarrow> mul64 a b = a * b"
  by (simp add: mul64_def)

lemma sub64_eq [u64_simps]: "b \<le> a \<Longrightarrow> a < two64 \<Longrightarrow> sub64 a b = a - b"
proof -
  assume "b \<le> a" "a < two64"
  then have "a + two64 - b mod two64 = (a - b) + two64" by simp
  then show ?thesis using \<open>a < two64\<close> by (simp add: sub64_def)
qed

lemma add64_less [simp]: "add64 a b < two64"
  by (simp add: add64_def)

lemma sub64_less [simp]: "sub64 a b < two64"
  by (simp add: sub64_def)

lemma mul64_less [simp]: "mul64 a b < two64"
  by (simp add: mul64_def)

section \<open>Lists\<close>

text \<open>Reading a byte list with zero padding after its end.\<close>

definition byte_at :: "bytes \<Rightarrow> nat \<Rightarrow> u8" where
  "byte_at bs i = (if i < length bs then bs ! i else 0)"

lemma byte_at_drop: "byte_at (drop n bs) i = byte_at bs (n + i)"
  by (auto simp: byte_at_def)

text \<open>The bytes of a memory range.\<close>

definition mem_bytes :: "memory \<Rightarrow> nat \<Rightarrow> nat \<Rightarrow> bytes" where
  "mem_bytes m p n = map m [p..<p + n]"

lemma length_mem_bytes [simp]: "length (mem_bytes m p n) = n"
  by (simp add: mem_bytes_def)

lemma mem_bytes_eq_Nil [simp]: "mem_bytes m p n = [] \<longleftrightarrow> n = 0"
  by (auto simp: mem_bytes_def)

lemma byte_at_mem_bytes [simp]:
  "byte_at (mem_bytes m p n) i = (if i < n then m (p + i) else 0)"
  by (simp add: byte_at_def mem_bytes_def)

lemma drop_mem_bytes: "drop j (mem_bytes m p n) = mem_bytes m (p + j) (n - j)"
  by (rule nth_equalityI) (auto simp: mem_bytes_def add.assoc)

section \<open>Words\<close>

lemma push_bit_nat_eq: "push_bit k (n :: nat) = n * 2 ^ k"
  by (rule push_bit_eq_mult)

lemma drop_bit_nat_eq: "drop_bit k (n :: nat) = n div 2 ^ k"
  by (rule drop_bit_eq_div)

lemma unat_and_not_mask:
  fixes x :: u64
  assumes "k \<le> 64"
  shows "unat (x AND NOT (mask k)) = unat x div 2 ^ k * 2 ^ k"
proof -
  have "x AND NOT (mask k) = push_bit k (drop_bit k x)"
    by (rule bit_word_eqI) (auto simp: bit_simps)
  moreover have "unat (push_bit k (drop_bit k x)) = (unat x div 2 ^ k * 2 ^ k) mod 2 ^ 64"
    by (simp add: unsigned_push_bit_eq unat_drop_bit_eq take_bit_eq_mod push_bit_nat_eq drop_bit_nat_eq)
  moreover have "unat x div 2 ^ k * 2 ^ k < 2 ^ 64"
    using unsigned_less [of x, where 'a = nat] by (simp add: order_le_less_trans [OF div_times_less_eq_dividend])
  ultimately show ?thesis by simp
qed

lemma unat_of_nat64: "n < two64 \<Longrightarrow> unat (of_nat n :: u64) = n"
  by (simp add: unat_of_nat two64_def take_bit_nat_eq_self)

end
