(* ===== verification/Lookup3.thy ===== *)
theory Lookup3
  imports Prelude
begin

text \<open>
  The hash functions of \<open>lib/hash\<close>: Bob Jenkins' lookup3 (\<open>mix\<close>, \<open>final\<close>, \<open>hashword\<close>,
  \<open>hashword2\<close>, \<open>hashlittle\<close>, \<open>hashlittle2\<close>, \<open>hashbig\<close>) and \<open>hash64\<close>, the hash that journal
  files store.  A key is an address in a byte memory, so that the alignment cases of the C code
  and its reads beyond the end of the key are part of the model.
\<close>

section \<open>Loads\<close>

datatype endian = LittleEndian | BigEndian

text \<open>Aligned 16-bit and 32-bit loads, which read the bytes in the machine's byte order.\<close>

definition load_u16 :: "endian \<Rightarrow> memory \<Rightarrow> nat \<Rightarrow> u16" where
  "load_u16 en m p =
     (case en of
        LittleEndian \<Rightarrow> ucast (m p) OR push_bit 8 (ucast (m (p + 1)))
      | BigEndian \<Rightarrow> push_bit 8 (ucast (m p)) OR ucast (m (p + 1)))"

definition load_u32 :: "endian \<Rightarrow> memory \<Rightarrow> nat \<Rightarrow> u32" where
  "load_u32 en m p =
     (case en of
        LittleEndian \<Rightarrow>
          ucast (m p) OR push_bit 8 (ucast (m (p + 1))) OR
          push_bit 16 (ucast (m (p + 2))) OR push_bit 24 (ucast (m (p + 3)))
      | BigEndian \<Rightarrow>
          push_bit 24 (ucast (m p)) OR push_bit 16 (ucast (m (p + 1))) OR
          push_bit 8 (ucast (m (p + 2))) OR ucast (m (p + 3)))"

section \<open>mix and final\<close>

type_synonym hstate = "u32 \<times> u32 \<times> u32"

definition rot :: "u32 \<Rightarrow> nat \<Rightarrow> u32" where
  "rot x k = push_bit k x OR drop_bit (32 - k) x"

text \<open>One line of the macro: \<open>x -= z; x ^= rot(z, k); z += y;\<close>.\<close>

definition mix_row :: "nat \<Rightarrow> u32 \<Rightarrow> u32 \<Rightarrow> u32 \<Rightarrow> u32 \<times> u32" where
  "mix_row k x y z = (let x = x - z; x = x XOR rot z k; z = z + y in (x, z))"

definition mix :: "hstate \<Rightarrow> hstate" where
  "mix = (\<lambda>(a, b, c).
     let (a, c) = mix_row 4 a b c;
         (b, a) = mix_row 6 b c a;
         (c, b) = mix_row 8 c a b;
         (a, c) = mix_row 16 a b c;
         (b, a) = mix_row 19 b c a;
         (c, b) = mix_row 4 c a b
     in (a, b, c))"

text \<open>One line of the macro: \<open>x ^= y; x -= rot(y, k);\<close>.\<close>

definition final_row :: "nat \<Rightarrow> u32 \<Rightarrow> u32 \<Rightarrow> u32" where
  "final_row k x y = (let x = x XOR y in x - rot y k)"

definition final :: "hstate \<Rightarrow> hstate" where
  "final = (\<lambda>(a, b, c).
     let c = final_row 14 c b;
         a = final_row 11 a c;
         b = final_row 25 b a;
         c = final_row 16 c b;
         a = final_row 4 a c;
         b = final_row 14 b a;
         c = final_row 24 c b
     in (a, b, c))"

section \<open>hashword and hashword2\<close>

text \<open>
  The key is an array of 32-bit words at address \<open>k\<close>; \<open>len\<close> counts words.  The loop returns the
  advanced pointer, the remaining length and the state.
\<close>

function hashword_loop ::
  "endian \<Rightarrow> memory \<Rightarrow> nat \<Rightarrow> nat \<Rightarrow> hstate \<Rightarrow> nat \<times> nat \<times> hstate" where
  "hashword_loop en m k len (a, b, c) =
     (if len > 3
      then hashword_loop en m (k + 12) (len - 3)
             (mix (a + load_u32 en m k, b + load_u32 en m (k + 4), c + load_u32 en m (k + 8)))
      else (k, len, (a, b, c)))"
  by pat_completeness auto
termination
  by (relation "measure (\<lambda>(en, m, k, len, s). len)") auto

text \<open>The \<open>switch\<close> on the rest: case \<open>n\<close> falls through to the lower cases.\<close>

definition hashword_tail :: "endian \<Rightarrow> memory \<Rightarrow> nat \<Rightarrow> nat \<Rightarrow> hstate \<Rightarrow> hstate" where
  "hashword_tail en m k len = (\<lambda>(a, b, c).
     let c = (if len \<ge> 3 then c + load_u32 en m (k + 8) else c);
         b = (if len \<ge> 2 then b + load_u32 en m (k + 4) else b);
         a = (if len \<ge> 1 then a + load_u32 en m k else a)
     in if len \<ge> 1 then final (a, b, c) else (a, b, c))"

definition hashword :: "endian \<Rightarrow> memory \<Rightarrow> nat \<Rightarrow> nat \<Rightarrow> u32 \<Rightarrow> u32" where
  "hashword en m k len initval =
     (let a = 0xdeadbeef + push_bit 2 (of_nat len) + initval;
          (k, len, s) = hashword_loop en m k len (a, a, a);
          (a, b, c) = hashword_tail en m k len s
      in c)"

definition hashword2 :: "endian \<Rightarrow> memory \<Rightarrow> nat \<Rightarrow> nat \<Rightarrow> u32 \<Rightarrow> u32 \<Rightarrow> u32 \<times> u32" where
  "hashword2 en m k len pc pb =
     (let a = 0xdeadbeef + ucast (push_bit 2 (of_nat len :: u64)) + pc;
          c = a + pb;
          (k, len, s) = hashword_loop en m k len (a, a, c);
          (a, b, c) = hashword_tail en m k len s
      in (c, b))"

section \<open>hashlittle2\<close>

text \<open>One full block of 12 bytes, in the three ways the code reads it.\<close>

definition little_block32 :: "endian \<Rightarrow> memory \<Rightarrow> nat \<Rightarrow> hstate \<Rightarrow> hstate" where
  "little_block32 en m k = (\<lambda>(a, b, c).
     (a + load_u32 en m k, b + load_u32 en m (k + 4), c + load_u32 en m (k + 8)))"

definition little_block16 :: "endian \<Rightarrow> memory \<Rightarrow> nat \<Rightarrow> hstate \<Rightarrow> hstate" where
  "little_block16 en m k = (\<lambda>(a, b, c).
     (a + (ucast (load_u16 en m k) + push_bit 16 (ucast (load_u16 en m (k + 2)))),
      b + (ucast (load_u16 en m (k + 4)) + push_bit 16 (ucast (load_u16 en m (k + 6)))),
      c + (ucast (load_u16 en m (k + 8)) + push_bit 16 (ucast (load_u16 en m (k + 10))))))"

definition little_block8 :: "memory \<Rightarrow> nat \<Rightarrow> hstate \<Rightarrow> hstate" where
  "little_block8 m k = (\<lambda>(a, b, c).
     let a = a + ucast (m k);
         a = a + push_bit 8 (ucast (m (k + 1)));
         a = a + push_bit 16 (ucast (m (k + 2)));
         a = a + push_bit 24 (ucast (m (k + 3)));
         b = b + ucast (m (k + 4));
         b = b + push_bit 8 (ucast (m (k + 5)));
         b = b + push_bit 16 (ucast (m (k + 6)));
         b = b + push_bit 24 (ucast (m (k + 7)));
         c = c + ucast (m (k + 8));
         c = c + push_bit 8 (ucast (m (k + 9)));
         c = c + push_bit 16 (ucast (m (k + 10)));
         c = c + push_bit 24 (ucast (m (k + 11)))
     in (a, b, c))"

text \<open>The loop \<open>while (length > 12)\<close> over a block step.\<close>

function hash_loop :: "(nat \<Rightarrow> hstate \<Rightarrow> hstate) \<Rightarrow> nat \<Rightarrow> nat \<Rightarrow> hstate \<Rightarrow> nat \<times> nat \<times> hstate" where
  "hash_loop blk k len s =
     (if len > 12 then hash_loop blk (k + 12) (len - 12) (mix (blk k s)) else (k, len, s))"
  by pat_completeness auto
termination
  by (relation "measure (\<lambda>(blk, k, len, s). len)") auto

declare hash_loop.simps [simp del] hashword_loop.simps [simp del]

text \<open>The last block, read by aligned 32-bit words and masked.\<close>

definition little_tail32 :: "endian \<Rightarrow> memory \<Rightarrow> nat \<Rightarrow> nat \<Rightarrow> hstate \<Rightarrow> hstate" where
  "little_tail32 en m k len = (\<lambda>(a, b, c).
     let k0 = load_u32 en m k; k1 = load_u32 en m (k + 4); k2 = load_u32 en m (k + 8) in
     if len = 12 then (a + k0, b + k1, c + k2)
     else if len = 11 then (a + k0, b + k1, c + (k2 AND 0xffffff))
     else if len = 10 then (a + k0, b + k1, c + (k2 AND 0xffff))
     else if len = 9 then (a + k0, b + k1, c + (k2 AND 0xff))
     else if len = 8 then (a + k0, b + k1, c)
     else if len = 7 then (a + k0, b + (k1 AND 0xffffff), c)
     else if len = 6 then (a + k0, b + (k1 AND 0xffff), c)
     else if len = 5 then (a + k0, b + (k1 AND 0xff), c)
     else if len = 4 then (a + k0, b, c)
     else if len = 3 then (a + (k0 AND 0xffffff), b, c)
     else if len = 2 then (a + (k0 AND 0xffff), b, c)
     else if len = 1 then (a + (k0 AND 0xff), b, c)
     else (a, b, c))"

text \<open>The variant compiled with \<open>VALGRIND\<close>, which reads no byte beyond the key.\<close>

definition little_tail32_valgrind :: "endian \<Rightarrow> memory \<Rightarrow> nat \<Rightarrow> nat \<Rightarrow> hstate \<Rightarrow> hstate" where
  "little_tail32_valgrind en m k len = (\<lambda>(a, b, c).
     if len = 12
     then (a + load_u32 en m k, b + load_u32 en m (k + 4), c + load_u32 en m (k + 8))
     else
       let c = (if len \<ge> 11 then c + push_bit 16 (ucast (m (k + 10))) else c);
           c = (if len \<ge> 10 then c + push_bit 8 (ucast (m (k + 9))) else c);
           c = (if len \<ge> 9 then c + ucast (m (k + 8)) else c)
       in if len \<ge> 8 then (a + load_u32 en m k, b + load_u32 en m (k + 4), c)
          else
            let b = (if len \<ge> 7 then b + push_bit 16 (ucast (m (k + 6))) else b);
                b = (if len \<ge> 6 then b + push_bit 8 (ucast (m (k + 5))) else b);
                b = (if len \<ge> 5 then b + ucast (m (k + 4)) else b)
            in if len \<ge> 4 then (a + load_u32 en m k, b, c)
               else
                 let a = (if len \<ge> 3 then a + push_bit 16 (ucast (m (k + 2))) else a);
                     a = (if len \<ge> 2 then a + push_bit 8 (ucast (m (k + 1))) else a);
                     a = (if len \<ge> 1 then a + ucast (m k) else a)
                 in (a, b, c))"

text \<open>The last block, read by 16-bit words.\<close>

definition little_tail16 :: "endian \<Rightarrow> memory \<Rightarrow> nat \<Rightarrow> nat \<Rightarrow> hstate \<Rightarrow> hstate" where
  "little_tail16 en m k len = (\<lambda>(a, b, c).
     let k0 = ucast (load_u16 en m k); k1 = ucast (load_u16 en m (k + 2));
         k2 = ucast (load_u16 en m (k + 4)); k3 = ucast (load_u16 en m (k + 6));
         k4 = ucast (load_u16 en m (k + 8)); k5 = ucast (load_u16 en m (k + 10)) in
     if len = 12 then (a + (k0 + push_bit 16 k1), b + (k2 + push_bit 16 k3), c + (k4 + push_bit 16 k5))
     else if len = 11
     then (a + (k0 + push_bit 16 k1), b + (k2 + push_bit 16 k3),
           c + push_bit 16 (ucast (m (k + 10))) + k4)
     else if len = 10 then (a + (k0 + push_bit 16 k1), b + (k2 + push_bit 16 k3), c + k4)
     else if len = 9
     then (a + (k0 + push_bit 16 k1), b + (k2 + push_bit 16 k3), c + ucast (m (k + 8)))
     else if len = 8 then (a + (k0 + push_bit 16 k1), b + (k2 + push_bit 16 k3), c)
     else if len = 7 then (a + (k0 + push_bit 16 k1), b + push_bit 16 (ucast (m (k + 6))) + k2, c)
     else if len = 6 then (a + (k0 + push_bit 16 k1), b + k2, c)
     else if len = 5 then (a + (k0 + push_bit 16 k1), b + ucast (m (k + 4)), c)
     else if len = 4 then (a + (k0 + push_bit 16 k1), b, c)
     else if len = 3 then (a + push_bit 16 (ucast (m (k + 2))) + k0, b, c)
     else if len = 2 then (a + k0, b, c)
     else if len = 1 then (a + ucast (m k), b, c)
     else (a, b, c))"

text \<open>The last block, read byte by byte; every case falls through.\<close>

definition little_tail8 :: "memory \<Rightarrow> nat \<Rightarrow> nat \<Rightarrow> hstate \<Rightarrow> hstate" where
  "little_tail8 m k len = (\<lambda>(a, b, c).
     let c = (if len \<ge> 12 then c + push_bit 24 (ucast (m (k + 11))) else c);
         c = (if len \<ge> 11 then c + push_bit 16 (ucast (m (k + 10))) else c);
         c = (if len \<ge> 10 then c + push_bit 8 (ucast (m (k + 9))) else c);
         c = (if len \<ge> 9 then c + ucast (m (k + 8)) else c);
         b = (if len \<ge> 8 then b + push_bit 24 (ucast (m (k + 7))) else b);
         b = (if len \<ge> 7 then b + push_bit 16 (ucast (m (k + 6))) else b);
         b = (if len \<ge> 6 then b + push_bit 8 (ucast (m (k + 5))) else b);
         b = (if len \<ge> 5 then b + ucast (m (k + 4)) else b);
         a = (if len \<ge> 4 then a + push_bit 24 (ucast (m (k + 3))) else a);
         a = (if len \<ge> 3 then a + push_bit 16 (ucast (m (k + 2))) else a);
         a = (if len \<ge> 2 then a + push_bit 8 (ucast (m (k + 1))) else a);
         a = (if len \<ge> 1 then a + ucast (m k) else a)
     in (a, b, c))"

text \<open>
  The body of \<open>hashlittle\<close> and \<open>hashlittle2\<close> after the state is set up: the three branches on
  byte order and alignment, and the early return on an empty key.
\<close>

definition little_body :: "endian \<Rightarrow> memory \<Rightarrow> nat \<Rightarrow> nat \<Rightarrow> hstate \<Rightarrow> hstate" where
  "little_body en m key len s =
     (if en = LittleEndian \<and> key mod 4 = 0 then
        (let (k, len, s) = hash_loop (little_block32 en m) key len s
         in if len = 0 then s else final (little_tail32 en m k len s))
      else if en = LittleEndian \<and> key mod 2 = 0 then
        (let (k, len, s) = hash_loop (little_block16 en m) key len s
         in if len = 0 then s else final (little_tail16 en m k len s))
      else
        (let (k, len, s) = hash_loop (little_block8 m) key len s
         in if len = 0 then s else final (little_tail8 m k len s)))"

definition hashlittle2 :: "endian \<Rightarrow> memory \<Rightarrow> nat \<Rightarrow> nat \<Rightarrow> u32 \<Rightarrow> u32 \<Rightarrow> u32 \<times> u32" where
  "hashlittle2 en m key len pc pb =
     (let a = 0xdeadbeef + of_nat len + pc;
          c = a + pb;
          (a, b, c) = little_body en m key len (a, a, c)
      in (c, b))"

definition hashlittle :: "endian \<Rightarrow> memory \<Rightarrow> nat \<Rightarrow> nat \<Rightarrow> u32 \<Rightarrow> u32" where
  "hashlittle en m key len initval =
     (let a = 0xdeadbeef + of_nat len + initval;
          (a, b, c) = little_body en m key len (a, a, a)
      in c)"

text \<open>
  \<open>hash64\<close> lets \<open>hashlittle2\<close> write its two results into the halves of a zeroed 64-bit word:
  the primary hash into the second 32-bit unit in memory, the secondary into the first.
\<close>

definition hash64 :: "endian \<Rightarrow> memory \<Rightarrow> nat \<Rightarrow> nat \<Rightarrow> u64" where
  "hash64 en m data len =
     (let (pc, pb) = hashlittle2 en m data len 0 0
      in case en of
           LittleEndian \<Rightarrow> push_bit 32 (ucast pc) OR ucast pb
         | BigEndian \<Rightarrow> push_bit 32 (ucast pb) OR ucast pc)"

section \<open>hashbig\<close>

definition big_block32 :: "endian \<Rightarrow> memory \<Rightarrow> nat \<Rightarrow> hstate \<Rightarrow> hstate" where
  "big_block32 en m k = (\<lambda>(a, b, c).
     (a + load_u32 en m k, b + load_u32 en m (k + 4), c + load_u32 en m (k + 8)))"

definition big_block8 :: "memory \<Rightarrow> nat \<Rightarrow> hstate \<Rightarrow> hstate" where
  "big_block8 m k = (\<lambda>(a, b, c).
     let a = a + push_bit 24 (ucast (m k));
         a = a + push_bit 16 (ucast (m (k + 1)));
         a = a + push_bit 8 (ucast (m (k + 2)));
         a = a + ucast (m (k + 3));
         b = b + push_bit 24 (ucast (m (k + 4)));
         b = b + push_bit 16 (ucast (m (k + 5)));
         b = b + push_bit 8 (ucast (m (k + 6)));
         b = b + ucast (m (k + 7));
         c = c + push_bit 24 (ucast (m (k + 8)));
         c = c + push_bit 16 (ucast (m (k + 9)));
         c = c + push_bit 8 (ucast (m (k + 10)));
         c = c + ucast (m (k + 11))
     in (a, b, c))"

definition big_tail32 :: "endian \<Rightarrow> memory \<Rightarrow> nat \<Rightarrow> nat \<Rightarrow> hstate \<Rightarrow> hstate" where
  "big_tail32 en m k len = (\<lambda>(a, b, c).
     let k0 = load_u32 en m k; k1 = load_u32 en m (k + 4); k2 = load_u32 en m (k + 8) in
     if len = 12 then (a + k0, b + k1, c + k2)
     else if len = 11 then (a + k0, b + k1, c + (k2 AND 0xffffff00))
     else if len = 10 then (a + k0, b + k1, c + (k2 AND 0xffff0000))
     else if len = 9 then (a + k0, b + k1, c + (k2 AND 0xff000000))
     else if len = 8 then (a + k0, b + k1, c)
     else if len = 7 then (a + k0, b + (k1 AND 0xffffff00), c)
     else if len = 6 then (a + k0, b + (k1 AND 0xffff0000), c)
     else if len = 5 then (a + k0, b + (k1 AND 0xff000000), c)
     else if len = 4 then (a + k0, b, c)
     else if len = 3 then (a + (k0 AND 0xffffff00), b, c)
     else if len = 2 then (a + (k0 AND 0xffff0000), b, c)
     else if len = 1 then (a + (k0 AND 0xff000000), b, c)
     else (a, b, c))"

definition big_tail8 :: "memory \<Rightarrow> nat \<Rightarrow> nat \<Rightarrow> hstate \<Rightarrow> hstate" where
  "big_tail8 m k len = (\<lambda>(a, b, c).
     let c = (if len \<ge> 12 then c + ucast (m (k + 11)) else c);
         c = (if len \<ge> 11 then c + push_bit 8 (ucast (m (k + 10))) else c);
         c = (if len \<ge> 10 then c + push_bit 16 (ucast (m (k + 9))) else c);
         c = (if len \<ge> 9 then c + push_bit 24 (ucast (m (k + 8))) else c);
         b = (if len \<ge> 8 then b + ucast (m (k + 7)) else b);
         b = (if len \<ge> 7 then b + push_bit 8 (ucast (m (k + 6))) else b);
         b = (if len \<ge> 6 then b + push_bit 16 (ucast (m (k + 5))) else b);
         b = (if len \<ge> 5 then b + push_bit 24 (ucast (m (k + 4))) else b);
         a = (if len \<ge> 4 then a + ucast (m (k + 3)) else a);
         a = (if len \<ge> 3 then a + push_bit 8 (ucast (m (k + 2))) else a);
         a = (if len \<ge> 2 then a + push_bit 16 (ucast (m (k + 1))) else a);
         a = (if len \<ge> 1 then a + push_bit 24 (ucast (m k)) else a)
     in (a, b, c))"

definition hashbig :: "endian \<Rightarrow> memory \<Rightarrow> nat \<Rightarrow> nat \<Rightarrow> u32 \<Rightarrow> u32" where
  "hashbig en m key len initval =
     (let a = 0xdeadbeef + of_nat len + initval;
          (a, b, c) =
            (if en = BigEndian \<and> key mod 4 = 0 then
               (let (k, len, s) = hash_loop (big_block32 en m) key len (a, a, a)
                in if len = 0 then s else final (big_tail32 en m k len s))
             else
               (let (k, len, s) = hash_loop (big_block8 m) key len (a, a, a)
                in if len = 0 then s else final (big_tail8 m k len s)))
      in c)"

section \<open>Reference definition\<close>

text \<open>
  What lookup3 computes, without memory, alignment or fall-through: the key is cut into blocks of
  12 bytes, the last one padded with zeros; the three words of a block are added to the state,
  which is then mixed (all but the last block) or finalised (the last block).  \<open>word_at\<close> is the
  byte order of the words.
\<close>

definition le32 :: "bytes \<Rightarrow> nat \<Rightarrow> u32" where
  "le32 bs i =
     ucast (byte_at bs i) + push_bit 8 (ucast (byte_at bs (i + 1))) +
     push_bit 16 (ucast (byte_at bs (i + 2))) + push_bit 24 (ucast (byte_at bs (i + 3)))"

definition be32 :: "bytes \<Rightarrow> nat \<Rightarrow> u32" where
  "be32 bs i =
     push_bit 24 (ucast (byte_at bs i)) + push_bit 16 (ucast (byte_at bs (i + 1))) +
     push_bit 8 (ucast (byte_at bs (i + 2))) + ucast (byte_at bs (i + 3))"

definition add_block :: "(bytes \<Rightarrow> nat \<Rightarrow> u32) \<Rightarrow> bytes \<Rightarrow> hstate \<Rightarrow> hstate" where
  "add_block word_at bs = (\<lambda>(a, b, c). (a + word_at bs 0, b + word_at bs 4, c + word_at bs 8))"

function hash_ref :: "(bytes \<Rightarrow> nat \<Rightarrow> u32) \<Rightarrow> bytes \<Rightarrow> hstate \<Rightarrow> hstate" where
  "hash_ref word_at bs s =
     (if length bs > 12 then hash_ref word_at (drop 12 bs) (mix (add_block word_at bs s))
      else if bs = [] then s
      else final (add_block word_at bs s))"
  by pat_completeness auto
termination
  by (relation "measure (\<lambda>(word_at, bs, s). length bs)") auto

declare hash_ref.simps [simp del]

section \<open>Every way of reading the key computes the reference\<close>

text \<open>
  The contract of a branch of the code: its full-block step and its treatment of the rest add the
  words of the (zero-padded) block to the state.
\<close>

locale block_reader =
  fixes word_at :: "bytes \<Rightarrow> nat \<Rightarrow> u32"
    and m :: memory
    and blk :: "nat \<Rightarrow> hstate \<Rightarrow> hstate"
    and tail :: "nat \<Rightarrow> nat \<Rightarrow> hstate \<Rightarrow> hstate"
  assumes blk_full: "12 \<le> len \<Longrightarrow> blk k s = add_block word_at (mem_bytes m k len) s"
    and tail_rest: "0 < len \<Longrightarrow> len \<le> 12 \<Longrightarrow> tail k len s = add_block word_at (mem_bytes m k len) s"
begin

lemma run_ref:
  "(case hash_loop blk k len s of (k, len, s) \<Rightarrow> if len = 0 then s else final (tail k len s)) =
   hash_ref word_at (mem_bytes m k len) s"
proof (induction len arbitrary: k s rule: less_induct)
  case (less len)
  show ?case
  proof (cases "len > 12")
    case True
    then have "len - 12 < len" by simp
    from less.IH [OF this] True show ?thesis
      by (simp add: hash_loop.simps [of blk k len] hash_ref.simps [of word_at "mem_bytes m k len"]
          drop_mem_bytes blk_full [of len k s, symmetric])
  next
    case False
    then show ?thesis
      by (simp add: hash_loop.simps [of blk k len] hash_ref.simps [of word_at "mem_bytes m k len"]
          tail_rest)
  qed
qed

end

subsection \<open>Words, bytes and masks\<close>

named_theorems load_simps \<open>loads as sums of shifted bytes\<close>

lemma or_bytes_le:
  "(ucast (b0 :: u8) :: u32) OR push_bit 8 (ucast (b1 :: u8)) OR push_bit 16 (ucast (b2 :: u8)) OR
     push_bit 24 (ucast (b3 :: u8)) =
   ucast b0 + push_bit 8 (ucast b1) + push_bit 16 (ucast b2) + push_bit 24 (ucast b3)"
  by (subst disjunctive_add_eq_or,
      (rule bit_word_eqI; auto simp: bit_simps dest: bit_imp_le_length; fail)?)+
    (simp add: ac_simps)

lemma load_u32_le [load_simps]:
  "load_u32 LittleEndian m p =
     ucast (m p) + push_bit 8 (ucast (m (p + 1))) + push_bit 16 (ucast (m (p + 2))) +
     push_bit 24 (ucast (m (p + 3)))"
  unfolding load_u32_def endian.case by (rule or_bytes_le)

lemma load_u32_be [load_simps]:
  "load_u32 BigEndian m p =
     push_bit 24 (ucast (m p)) + push_bit 16 (ucast (m (p + 1))) + push_bit 8 (ucast (m (p + 2))) +
     ucast (m (p + 3))"
  using or_bytes_le [of "m (p + 3)" "m (p + 2)" "m (p + 1)" "m p"]
  by (simp add: load_u32_def ac_simps)

lemma load_u16_le [load_simps]:
  "(ucast (load_u16 LittleEndian m p) :: u32) = ucast (m p) + push_bit 8 (ucast (m (p + 1)))"
proof -
  have "(ucast (load_u16 LittleEndian m p) :: u32) = ucast (m p) OR push_bit 8 (ucast (m (p + 1)))"
    by (rule bit_word_eqI) (auto simp: load_u16_def bit_simps dest: bit_imp_le_length)
  also have "\<dots> = ucast (m p) + push_bit 8 (ucast (m (p + 1)))"
    using or_bytes_le [of "m p" "m (p + 1)" 0 0] by simp
  finally show ?thesis .
qed

lemma masks_le:
  "(0xffffff :: u32) = mask 24" "(0xffff :: u32) = mask 16" "(0xff :: u32) = mask 8"
  by (simp_all add: mask_eq_exp_minus_1)

lemma masked_le:
  "load_u32 LittleEndian m p AND 0xffffff =
     ucast (m p) + push_bit 8 (ucast (m (p + 1))) + push_bit 16 (ucast (m (p + 2)))"
  "load_u32 LittleEndian m p AND 0xffff = ucast (m p) + push_bit 8 (ucast (m (p + 1)))"
  "load_u32 LittleEndian m p AND 0xff = ucast (m p)"
proof -
  have 1: "load_u32 LittleEndian m p AND mask 24 =
      ucast (m p) OR push_bit 8 (ucast (m (p + 1))) OR push_bit 16 (ucast (m (p + 2)))"
    by (rule bit_word_eqI) (auto simp: load_u32_def bit_simps dest: bit_imp_le_length)
  have 2: "load_u32 LittleEndian m p AND mask 16 = ucast (m p) OR push_bit 8 (ucast (m (p + 1)))"
    by (rule bit_word_eqI) (auto simp: load_u32_def bit_simps dest: bit_imp_le_length)
  have 3: "load_u32 LittleEndian m p AND mask 8 = ucast (m p)"
    by (rule bit_word_eqI) (auto simp: load_u32_def bit_simps dest: bit_imp_le_length)
  show "load_u32 LittleEndian m p AND 0xffffff =
      ucast (m p) + push_bit 8 (ucast (m (p + 1))) + push_bit 16 (ucast (m (p + 2)))"
    using 1 or_bytes_le [of "m p" "m (p + 1)" "m (p + 2)" 0] by (simp add: masks_le)
  show "load_u32 LittleEndian m p AND 0xffff = ucast (m p) + push_bit 8 (ucast (m (p + 1)))"
    using 2 or_bytes_le [of "m p" "m (p + 1)" 0 0] by (simp add: masks_le)
  show "load_u32 LittleEndian m p AND 0xff = ucast (m p)"
    using 3 by (simp add: masks_le)
qed

lemma masks_be:
  "(0xffffff00 :: u32) = NOT (mask 8)" "(0xffff0000 :: u32) = NOT (mask 16)"
  "(0xff000000 :: u32) = NOT (mask 24)"
  by (simp_all add: mask_eq_exp_minus_1)

lemma masked_be:
  "load_u32 BigEndian m p AND 0xffffff00 =
     push_bit 24 (ucast (m p)) + push_bit 16 (ucast (m (p + 1))) + push_bit 8 (ucast (m (p + 2)))"
  "load_u32 BigEndian m p AND 0xffff0000 =
     push_bit 24 (ucast (m p)) + push_bit 16 (ucast (m (p + 1)))"
  "load_u32 BigEndian m p AND 0xff000000 = push_bit 24 (ucast (m p))"
proof -
  have 1: "load_u32 BigEndian m p AND NOT (mask 8) =
      push_bit 24 (ucast (m p)) OR push_bit 16 (ucast (m (p + 1))) OR push_bit 8 (ucast (m (p + 2)))"
    by (rule bit_word_eqI) (auto simp: load_u32_def bit_simps dest: bit_imp_le_length)
  have 2: "load_u32 BigEndian m p AND NOT (mask 16) =
      push_bit 24 (ucast (m p)) OR push_bit 16 (ucast (m (p + 1)))"
    by (rule bit_word_eqI) (auto simp: load_u32_def bit_simps dest: bit_imp_le_length)
  have 3: "load_u32 BigEndian m p AND NOT (mask 24) = push_bit 24 (ucast (m p))"
    by (rule bit_word_eqI) (auto simp: load_u32_def bit_simps dest: bit_imp_le_length)
  show "load_u32 BigEndian m p AND 0xffffff00 =
     push_bit 24 (ucast (m p)) + push_bit 16 (ucast (m (p + 1))) + push_bit 8 (ucast (m (p + 2)))"
    using 1 or_bytes_le [of 0 "m (p + 2)" "m (p + 1)" "m p"] by (simp add: masks_be ac_simps)
  show "load_u32 BigEndian m p AND 0xffff0000 =
     push_bit 24 (ucast (m p)) + push_bit 16 (ucast (m (p + 1)))"
    using 2 or_bytes_le [of 0 0 "m (p + 1)" "m p"] by (simp add: masks_be ac_simps)
  show "load_u32 BigEndian m p AND 0xff000000 = push_bit 24 (ucast (m p))"
    using 3 by (simp add: masks_be)
qed

lemma push_bit_add: "push_bit n (a + b :: u32) = push_bit n a + push_bit n b"
  by (simp add: push_bit_eq_mult distrib_right)

lemma rest_cases:
  fixes len :: nat
  assumes "0 < len" and "len \<le> 12"
  shows "len = 1 \<or> len = 2 \<or> len = 3 \<or> len = 4 \<or> len = 5 \<or> len = 6 \<or> len = 7 \<or> len = 8 \<or>
    len = 9 \<or> len = 10 \<or> len = 11 \<or> len = 12"
  using assms by arith

lemmas block_defs = add_block_def le32_def be32_def

subsection \<open>The branches\<close>

interpretation little32:
  block_reader le32 m "little_block32 LittleEndian m" "little_tail32 LittleEndian m" for m
proof
  show "little_block32 LittleEndian m k s = add_block le32 (mem_bytes m k len) s"
    if "12 \<le> len" for len k s
    using that by (cases s) (simp add: little_block32_def block_defs load_simps add_ac del: One_nat_def add_2_eq_Suc add_2_eq_Suc')
  show "little_tail32 LittleEndian m k len s = add_block le32 (mem_bytes m k len) s"
    if "0 < len" "len \<le> 12" for len k s
    using rest_cases [OF that] unfolding little_tail32_def Let_def masked_le
    by (cases s) (elim disjE; simp add: block_defs load_simps add_ac del: One_nat_def add_2_eq_Suc add_2_eq_Suc')
qed

interpretation little32_valgrind:
  block_reader le32 m "little_block32 LittleEndian m" "little_tail32_valgrind LittleEndian m" for m
proof
  show "little_block32 LittleEndian m k s = add_block le32 (mem_bytes m k len) s"
    if "12 \<le> len" for len k s
    using that by (rule little32.blk_full)
  show "little_tail32_valgrind LittleEndian m k len s = add_block le32 (mem_bytes m k len) s"
    if "0 < len" "len \<le> 12" for len k s
    using rest_cases [OF that]
    by (cases s) (elim disjE; simp add: little_tail32_valgrind_def block_defs load_simps add_ac del: One_nat_def add_2_eq_Suc add_2_eq_Suc')
qed

interpretation little16:
  block_reader le32 m "little_block16 LittleEndian m" "little_tail16 LittleEndian m" for m
proof
  show "little_block16 LittleEndian m k s = add_block le32 (mem_bytes m k len) s"
    if "12 \<le> len" for len k s
    using that
    by (cases s) (simp add: little_block16_def block_defs load_simps push_bit_add add_ac del: One_nat_def add_2_eq_Suc add_2_eq_Suc')
  show "little_tail16 LittleEndian m k len s = add_block le32 (mem_bytes m k len) s"
    if "0 < len" "len \<le> 12" for len k s
    using rest_cases [OF that]
    by (cases s)
      (elim disjE; simp add: little_tail16_def block_defs load_simps push_bit_add add_ac del: One_nat_def add_2_eq_Suc add_2_eq_Suc')
qed

interpretation little8: block_reader le32 m "little_block8 m" "little_tail8 m" for m
proof
  show "little_block8 m k s = add_block le32 (mem_bytes m k len) s" if "12 \<le> len" for len k s
    using that by (cases s) (simp add: little_block8_def block_defs add_ac del: One_nat_def add_2_eq_Suc add_2_eq_Suc')
  show "little_tail8 m k len s = add_block le32 (mem_bytes m k len) s"
    if "0 < len" "len \<le> 12" for len k s
    using rest_cases [OF that]
    by (cases s) (elim disjE; simp add: little_tail8_def block_defs add_ac del: One_nat_def add_2_eq_Suc add_2_eq_Suc')
qed

interpretation big32: block_reader be32 m "big_block32 BigEndian m" "big_tail32 BigEndian m" for m
proof
  show "big_block32 BigEndian m k s = add_block be32 (mem_bytes m k len) s"
    if "12 \<le> len" for len k s
    using that by (cases s) (simp add: big_block32_def block_defs load_simps add_ac del: One_nat_def add_2_eq_Suc add_2_eq_Suc')
  show "big_tail32 BigEndian m k len s = add_block be32 (mem_bytes m k len) s"
    if "0 < len" "len \<le> 12" for len k s
    using rest_cases [OF that] unfolding big_tail32_def Let_def masked_be
    by (cases s) (elim disjE; simp add: block_defs load_simps add_ac del: One_nat_def add_2_eq_Suc add_2_eq_Suc')
qed

interpretation big8: block_reader be32 m "big_block8 m" "big_tail8 m" for m
proof
  show "big_block8 m k s = add_block be32 (mem_bytes m k len) s" if "12 \<le> len" for len k s
    using that by (cases s) (simp add: big_block8_def block_defs add_ac del: One_nat_def add_2_eq_Suc add_2_eq_Suc')
  show "big_tail8 m k len s = add_block be32 (mem_bytes m k len) s"
    if "0 < len" "len \<le> 12" for len k s
    using rest_cases [OF that]
    by (cases s) (elim disjE; simp add: big_tail8_def block_defs add_ac del: One_nat_def add_2_eq_Suc add_2_eq_Suc')
qed

lemma little_body_ref: "little_body en m key len s = hash_ref le32 (mem_bytes m key len) s"
  unfolding little_body_def Let_def by (cases en; hypsubst; simp add: little32.run_ref little16.run_ref little8.run_ref)

lemma hashbig_ref:
  "hashbig en m key len initval =
     (let a = 0xdeadbeef + of_nat len + initval;
          (a, b, c) = hash_ref be32 (mem_bytes m key len) (a, a, a) in c)"
  unfolding hashbig_def Let_def by (cases en; hypsubst; simp add: big32.run_ref big8.run_ref)

subsection \<open>hashword is the same loop over words\<close>

lemma little_block32_apply:
  "little_block32 en m k (a, b, c) =
     (a + load_u32 en m k, b + load_u32 en m (k + 4), c + load_u32 en m (k + 8))"
  by (simp add: little_block32_def)

lemma hashword_loop_eq:
  "hashword_loop en m k len s =
     (case hash_loop (little_block32 en m) k (4 * len) s of (k, l, s) \<Rightarrow> (k, l div 4, s))"
proof (induction len arbitrary: k s rule: less_induct)
  case (less len)
  obtain a b c where s: "s = (a, b, c)" by (cases s)
  show ?case
  proof (cases "len > 3")
    case True
    have "4 * len - 12 = 4 * (len - 3)" by simp
    with True less.IH [of "len - 3"] show ?thesis
      by (simp add: s hashword_loop.simps [of en m k len a b c]
          hash_loop.simps [of "little_block32 en m" k "4 * len"] little_block32_apply)
  next
    case False
    then show ?thesis
      by (simp add: s hashword_loop.simps [of en m k len a b c]
          hash_loop.simps [of "little_block32 en m" k "4 * len"])
  qed
qed

lemma hash_loop_rest:
  "hash_loop blk k len s = (k', len', s') \<Longrightarrow> len' \<le> 12 \<and> len' mod 4 = len mod 4"
proof (induction len arbitrary: k s rule: less_induct)
  case (less len)
  show ?case
  proof (cases "len > 12")
    case True
    with less.prems have r: "hash_loop blk (k + 12) (len - 12) (mix (blk k s)) = (k', len', s')"
      by (simp add: hash_loop.simps [of blk k len])
    from True have "len - 12 < len" by simp
    from less.IH [OF this r] have "len' \<le> 12 \<and> len' mod 4 = (len - 12) mod 4" .
    moreover have "(len - 12) mod 4 = ((len - 12) + 3 * 4) mod 4"
      by (rule mod_mult_self1 [symmetric])
    with True have "(len - 12) mod 4 = len mod 4" by simp
    ultimately show ?thesis by simp
  next
    case False
    with less.prems show ?thesis by (simp add: hash_loop.simps [of blk k len])
  qed
qed

lemma rest_of_words: "(l :: nat) \<le> 12 \<Longrightarrow> l mod 4 = 0 \<Longrightarrow> l = 0 \<or> l = 4 \<or> l = 8 \<or> l = 12"
  by presburger

definition hashword_words :: "endian \<Rightarrow> memory \<Rightarrow> nat \<Rightarrow> nat \<Rightarrow> hstate \<Rightarrow> hstate" where
  "hashword_words en m k l = (\<lambda>(a, b, c).
     (a + load_u32 en m k, if l \<ge> 2 then b + load_u32 en m (k + 4) else b,
      if l \<ge> 3 then c + load_u32 en m (k + 8) else c))"

lemma hashword_tail_words:
  "hashword_tail en m k l s = (if l = 0 then s else final (hashword_words en m k l s))"
  by (cases s) (auto simp: hashword_tail_def hashword_words_def Let_def)

lemma hashword_run:
  assumes tail: "\<And>k l s. l \<in> {4, 8, 12} \<Longrightarrow> tail k l s = hashword_words en m k (l div 4) s"
  shows "(case hashword_loop en m k len s of (k, l, s) \<Rightarrow> hashword_tail en m k l s) =
    (case hash_loop (little_block32 en m) k (4 * len) s of
       (k, l, s) \<Rightarrow> if l = 0 then s else final (tail k l s))"
proof -
  obtain k' l' s' where r: "hash_loop (little_block32 en m) k (4 * len) s = (k', l', s')"
    by (cases "hash_loop (little_block32 en m) k (4 * len) s")
  from hash_loop_rest [OF r] have "l' = 0 \<or> l' = 4 \<or> l' = 8 \<or> l' = 12"
    by (intro rest_of_words) auto
  then show ?thesis
    unfolding hashword_loop_eq r by (auto simp: hashword_tail_words tail)
qed

lemma little_tail32_words:
  "l \<in> {4, 8, 12} \<Longrightarrow> little_tail32 en m k l s = hashword_words en m k (l div 4) s"
  by (cases s) (auto simp: little_tail32_def hashword_words_def)

lemma big_tail32_words:
  "l \<in> {4, 8, 12} \<Longrightarrow> big_tail32 en m k l s = hashword_words en m k (l div 4) s"
  by (cases s) (auto simp: big_tail32_def hashword_words_def)

lemma hashword_run_ref:
  "(case hashword_loop en m k len s of (k, l, s) \<Rightarrow> hashword_tail en m k l s) =
     hash_ref (case en of LittleEndian \<Rightarrow> le32 | BigEndian \<Rightarrow> be32) (mem_bytes m k (4 * len)) s"
proof (cases en)
  case LittleEndian
  then show ?thesis
    using hashword_run [OF little_tail32_words, of LittleEndian m k len s]
    by (simp add: little32.run_ref)
next
  case BigEndian
  have "little_block32 BigEndian m = big_block32 BigEndian m"
    by (rule ext) (simp add: little_block32_def big_block32_def)
  with BigEndian show ?thesis
    using hashword_run [OF big_tail32_words, of BigEndian m k len s]
    by (simp add: big32.run_ref)
qed

lemma of_nat_words: "of_nat (4 * len) = push_bit 2 (of_nat len :: 'a::len word)"
  by (simp add: push_bit_eq_mult mult.commute)

section \<open>mix is reversible\<close>

definition unmix_row :: "nat \<Rightarrow> u32 \<Rightarrow> u32 \<Rightarrow> u32 \<Rightarrow> u32 \<times> u32" where
  "unmix_row k x y z = (let z = z - y; x = x XOR rot z k; x = x + z in (x, z))"

definition unmix :: "hstate \<Rightarrow> hstate" where
  "unmix = (\<lambda>(a, b, c).
     let (c, b) = unmix_row 4 c a b;
         (b, a) = unmix_row 19 b c a;
         (a, c) = unmix_row 16 a b c;
         (c, b) = unmix_row 8 c a b;
         (b, a) = unmix_row 6 b c a;
         (a, c) = unmix_row 4 a b c
     in (a, b, c))"

lemma xor_cancel: "(x XOR y) XOR y = (x :: u32)"
  by (simp add: xor.assoc)

lemma unmix_row_mix_row: "mix_row k x y z = (x', z') \<Longrightarrow> unmix_row k x' y z' = (x, z)"
  by (auto simp: mix_row_def unmix_row_def Let_def xor_cancel)

lemma mix_row_unmix_row: "unmix_row k x y z = (x', z') \<Longrightarrow> mix_row k x' y z' = (x, z)"
  by (auto simp: mix_row_def unmix_row_def Let_def xor_cancel)

lemma unmix_mix: "unmix (mix s) = s"
proof -
  obtain a b c where s: "s = (a, b, c)" by (cases s)
  obtain a1 c1 where r1: "mix_row 4 a b c = (a1, c1)"
    by fastforce
  obtain b2 a2 where r2: "mix_row 6 b c1 a1 = (b2, a2)"
    by fastforce
  obtain c3 b3 where r3: "mix_row 8 c1 a2 b2 = (c3, b3)"
    by fastforce
  obtain a4 c4 where r4: "mix_row 16 a2 b3 c3 = (a4, c4)"
    by fastforce
  obtain b5 a5 where r5: "mix_row 19 b3 c4 a4 = (b5, a5)"
    by fastforce
  obtain c6 b6 where r6: "mix_row 4 c4 a5 b5 = (c6, b6)"
    by fastforce
  note rows = r1 r2 r3 r4 r5 r6
  show ?thesis
    unfolding s mix_def unmix_def by (simp add: rows rows [THEN unmix_row_mix_row])
qed

lemma mix_unmix: "mix (unmix s) = s"
proof -
  obtain a b c where s: "s = (a, b, c)" by (cases s)
  obtain c1 b1 where r1: "unmix_row 4 c a b = (c1, b1)"
    by fastforce
  obtain b2 a2 where r2: "unmix_row 19 b1 c1 a = (b2, a2)"
    by fastforce
  obtain a3 c3 where r3: "unmix_row 16 a2 b2 c1 = (a3, c3)"
    by fastforce
  obtain c4 b4 where r4: "unmix_row 8 c3 a3 b2 = (c4, b4)"
    by fastforce
  obtain b5 a5 where r5: "unmix_row 6 b4 c4 a3 = (b5, a5)"
    by fastforce
  obtain a6 c6 where r6: "unmix_row 4 a5 b5 c4 = (a6, c6)"
    by fastforce
  note rows = r1 r2 r3 r4 r5 r6
  show ?thesis
    unfolding s unmix_def mix_def by (simp add: rows rows [THEN mix_row_unmix_row])
qed

section \<open>Properties\<close>

text \<open>
  C24: \<open>hashlittle2\<close> computes the reference hash of the key's bytes: the result depends neither on
  the byte order of the machine, nor on the alignment of the key, nor on the bytes after the key
  that the 32-bit branch reads and masks off.
\<close>

theorem hashlittle2_reference:
  "hashlittle2 en m key len pc pb =
     (let a = 0xdeadbeef + of_nat len + pc;
          (a, b, c) = hash_ref le32 (mem_bytes m key len) (a, a, a + pb)
      in (c, b))"
  by (simp add: hashlittle2_def little_body_ref Let_def)

text \<open>
  \<open>hashlittle\<close> is the primary result of \<open>hashlittle2\<close> with a zero secondary seed.
\<close>

theorem hashlittle_hashlittle2:
  "hashlittle en m key len initval = fst (hashlittle2 en m key len initval 0)"
  by (simp add: hashlittle_def hashlittle2_def Let_def split: prod.splits)

text \<open>
  C25: \<open>hashword\<close> on \<open>len\<close> words is \<open>hashlittle\<close> on the \<open>4 * len\<close> bytes of the key on little-endian
  machines and \<open>hashbig\<close> on big-endian machines, as the comment on \<open>hashword\<close> says.
\<close>

theorem hashword_equivalence:
  "hashword en m k len initval =
     (case en of
        LittleEndian \<Rightarrow> hashlittle en m k (4 * len) initval
      | BigEndian \<Rightarrow> hashbig en m k (4 * len) initval)"
proof -
  have "hashword en m k len initval =
      (let a = 0xdeadbeef + of_nat (4 * len) + initval;
           (a, b, c) = (case hashword_loop en m k len (a, a, a) of
              (k, l, s) \<Rightarrow> hashword_tail en m k l s) in c)"
    by (simp add: hashword_def Let_def of_nat_words del: of_nat_mult split: prod.splits)
  then show ?thesis
    by (cases en) (simp_all add: hashword_run_ref hashlittle_def little_body_ref hashbig_ref Let_def)
qed

text \<open>
  \<open>mix\<close> is reversible, so no information of the state is lost between blocks: \<open>unmix\<close> is its
  inverse on both sides.
\<close>

theorem mix_reversible: "unmix (mix s) = s \<and> mix (unmix s) = s"
  by (simp add: unmix_mix mix_unmix)

end
