(* ===== verification/Utils.thy ===== *)
theory Utils
  imports Prelude
begin

text \<open>
  The small string and identifier helpers of \<open>lib/utils.h\<close> and \<open>lib/utils/\<close>: hexadecimal digits,
  comparison and copying of C strings, parsing of numbers and booleans, and 128-bit identifiers.

  A C string is the list of its bytes before the terminating zero; \<open>None\<close> is the null pointer.
  Reading the position after the last byte gives the zero (\<open>byte_at\<close>).
\<close>

section \<open>Operations\<close>

subsection \<open>Hexadecimal digits\<close>

definition char_hex :: "u8 \<Rightarrow> u8" where
  "char_hex val = (if val < 10 then 0x30 + val else 0x61 + (val - 10))"

definition hex_char :: "u8 \<Rightarrow> u8" where
  "hex_char c =
     (if c < 0x30 \<or> c > 0x66 then -1
      else if c \<ge> 0x61 then c - 0x61 + 10
      else if c \<le> 0x39 then c - 0x30
      else if c \<ge> 0x41 \<and> c \<le> 0x46 then c - 0x41 + 10
      else -1)"

subsection \<open>Strings\<close>

definition str_empty :: "bytes option \<Rightarrow> bool" where
  "str_empty str = (case str of None \<Rightarrow> True | Some s \<Rightarrow> byte_at s 0 = 0)"

fun str_eq_loop :: "bytes \<Rightarrow> bytes \<Rightarrow> bool" where
  "str_eq_loop str1 str2 =
     (if byte_at str1 0 \<noteq> byte_at str2 0 then False
      else case str1 of [] \<Rightarrow> True | _ # str1' \<Rightarrow> str_eq_loop str1' (drop 1 str2))"

definition str_eq :: "bytes option \<Rightarrow> bytes option \<Rightarrow> bool" where
  "str_eq str1 str2 =
     (case (str1, str2) of
        (Some s1, Some s2) \<Rightarrow> str_eq_loop s1 s2
      | _ \<Rightarrow> str1 = str2)"

fun str_caseeq_loop :: "bytes \<Rightarrow> bytes \<Rightarrow> bool" where
  "str_caseeq_loop str1 str2 =
     (let val = byte_at str2 0;
          val = (if val > 0x60 \<and> val < 0x7b then val - 0x20 else val);
          val = (if byte_at str1 0 > 0x60 \<and> byte_at str1 0 < 0x7b then val + 0x20 else val)
      in if byte_at str1 0 \<noteq> val then False
         else case str1 of [] \<Rightarrow> True | _ # str1' \<Rightarrow> str_caseeq_loop str1' (drop 1 str2))"

definition str_caseeq :: "bytes option \<Rightarrow> bytes option \<Rightarrow> bool" where
  "str_caseeq str1 str2 =
     (case (str1, str2) of
        (Some s1, Some s2) \<Rightarrow> str_caseeq_loop s1 s2
      | _ \<Rightarrow> str1 = str2)"

text \<open>The copy and its length; at least one byte is written, so that \<open>size\<close> has to be positive.\<close>

fun str_copy_loop :: "bytes \<Rightarrow> nat \<Rightarrow> bytes" where
  "str_copy_loop [] sz = []"
| "str_copy_loop (c # src) sz = (if sz > 1 then c # str_copy_loop src (sz - 1) else [])"

definition str_copy :: "bytes \<Rightarrow> nat \<Rightarrow> bytes \<times> nat" where
  "str_copy src sz = (let dst = str_copy_loop src sz in (dst, sz - (sz - length dst)))"

subsection \<open>Numbers and booleans\<close>

fun parse_uint_loop :: "bytes \<Rightarrow> u64 \<Rightarrow> u64 res" where
  "parse_uint_loop [] val = Inr val"
| "parse_uint_loop (c # p) val =
     (if c < 0x30 \<or> c > 0x39 then Inl EINVAL
      else parse_uint_loop p ((if val > 0 then val * 10 else val) + of_nat (unat c - 0x30)))"

definition parse_uint :: "bytes option \<Rightarrow> u64 res" where
  "parse_uint str = (case str of None \<Rightarrow> Inl EINVAL | Some s \<Rightarrow> parse_uint_loop s 0)"

definition ascii :: "string \<Rightarrow> bytes" where
  "ascii s = map (of_nat \<circ> of_char) s"

definition parse_bool :: "bytes option \<Rightarrow> bool res" where
  "parse_bool str =
     (if str_empty str then Inl EINVAL
      else
        let s = (case str of Some s \<Rightarrow> s | None \<Rightarrow> []) in
        if byte_at s 1 = 0 then
          (if byte_at s 0 \<in> {0x31, 0x79, 0x59} then Inr True
           else if byte_at s 0 \<in> {0x30, 0x6e, 0x4e} then Inr False
           else Inl EINVAL)
        else if str_caseeq str (Some (ascii ''yes'')) \<or> str_caseeq str (Some (ascii ''true'')) \<or>
                str_caseeq str (Some (ascii ''on'')) then Inr True
        else if str_caseeq str (Some (ascii ''no'')) \<or> str_caseeq str (Some (ascii ''false'')) \<or>
                str_caseeq str (Some (ascii ''off'')) then Inr False
        else Inl EINVAL)"

subsection \<open>Identifiers\<close>

text \<open>An identifier is its 16 bytes; comparison looks at them as two words of 8 bytes.\<close>

definition uuid_equal :: "bytes \<Rightarrow> bytes \<Rightarrow> bool" where
  "uuid_equal id1 id2 = (if take 8 id1 \<noteq> take 8 id2 then False else if drop 8 id1 \<noteq> drop 8 id2 then False else True)"

definition uuid_is_null :: "bytes \<Rightarrow> bool" where
  "uuid_is_null id1 =
     (if take 8 id1 \<noteq> replicate 8 0 then False else if drop 8 id1 \<noteq> replicate 8 0 then False else True)"

text \<open>The bytes are set at random by the system; the version and the variant are set here.\<close>

definition uuid_gen_rand :: "bytes \<Rightarrow> bytes" where
  "uuid_gen_rand rand =
     (let uid = rand[6 := (rand ! 6 AND 0x0F) OR 0x40] in uid[8 := (uid ! 8 AND 0x3F) OR 0x80])"

definition hex_table :: bytes where
  "hex_table = ascii ''0123456789abcdef''"

definition uuid_to_str :: "bytes \<Rightarrow> bytes" where
  "uuid_to_str uid =
     concat (map (\<lambda>b. [hex_table ! unat (drop_bit 4 b AND 15), hex_table ! unat ((b AND 0xf) AND 15)]) uid)"

text \<open>
  The result of \<open>hex_char\<close> is unsigned, so that the two tests for a negative value, both of \<open>a\<close>,
  never succeed.
\<close>

function uuid_parse_loop :: "bytes \<Rightarrow> nat \<Rightarrow> nat \<Rightarrow> bytes \<Rightarrow> bytes option" where
  "uuid_parse_loop inp i n uid =
     (if n < 16 then
        if (i = 8 \<or> i = 13 \<or> i = 18 \<or> i = 23) \<and> byte_at inp i = 0x2d
        then uuid_parse_loop inp (i + 1) n uid
        else
          let a = hex_char (byte_at inp i) in
          if a < 0 then None
          else
            let b = hex_char (byte_at inp (i + 1)) in
            if a < 0 then None
            else uuid_parse_loop inp (i + 2) (n + 1) (uid @ [push_bit 4 a OR b])
      else Some uid)"
  by pat_completeness auto
termination
  by (relation "measures [\<lambda>(inp, i, n, uid). 16 - n, \<lambda>(inp, i, n, uid). 24 - i]") auto

definition uuid_parse :: "bytes \<Rightarrow> bytes option" where
  "uuid_parse inp = uuid_parse_loop inp 0 0 []"

subsection \<open>Numbers as bytes\<close>

text \<open>A 64-bit number as eight bytes, the lowest first.\<close>

primrec le_bytes :: "nat \<Rightarrow> nat \<Rightarrow> bytes" where
  "le_bytes 0 n = []"
| "le_bytes (Suc k) n = of_nat n # le_bytes k (n div 256)"

definition le64_bytes :: "nat \<Rightarrow> bytes" where
  "le64_bytes n = le_bytes 8 n"

section \<open>Lemmas\<close>

declare uuid_parse_loop.simps [simp del] str_eq_loop.simps [simp del] str_caseeq_loop.simps [simp del]

subsection \<open>Hexadecimal digits\<close>

lemma all_nibbles: "(\<forall>v::u8 < 16. P v) \<longleftrightarrow> (\<forall>n<16. P (of_nat n))"
proof
  assume l: "\<forall>v::u8 < 16. P v"
  show "\<forall>n<16. P (of_nat n)"
  proof (intro allI impI)
    fix n :: nat assume "n < 16"
    then have "(of_nat n :: u8) < 16" by (simp add: word_less_nat_alt unat_of_nat)
    with l show "P (of_nat n)" by blast
  qed
next
  assume r: "\<forall>n<16. P (of_nat n)"
  show "\<forall>v::u8 < 16. P v"
  proof (intro allI impI)
    fix v :: u8 assume "v < 16"
    then have "unat v < 16" by (simp add: word_less_nat_alt)
    with r have "P (of_nat (unat v))" by blast
    then show "P v" by simp
  qed
qed

lemma nibble_table:
  assumes "v < 16"
  shows "hex_char (char_hex v) = v" "hex_table ! unat v = char_hex v" "char_hex v \<noteq> 0x2d"
proof -
  have "list_all (\<lambda>n. hex_char (char_hex (of_nat n)) = of_nat n \<and>
      hex_table ! unat (of_nat n :: u8) = char_hex (of_nat n) \<and> char_hex (of_nat n) \<noteq> 0x2d) [0..<16]"
    by (simp add: upt_rec char_hex_def hex_char_def hex_table_def ascii_def)
  then have "\<forall>v::u8 < 16. hex_char (char_hex v) = v \<and> hex_table ! unat v = char_hex v \<and> char_hex v \<noteq> 0x2d"
    unfolding all_nibbles by (simp add: list_all_iff)
  with assms show "hex_char (char_hex v) = v" "hex_table ! unat v = char_hex v" "char_hex v \<noteq> 0x2d" by blast+
qed

lemma nibbles:
  fixes b :: u8
  shows "drop_bit 4 b AND 15 < 16" "(b AND 0xf) AND 15 < 16" "(b AND 0xf) AND 15 = b AND 15"
    "push_bit 4 (drop_bit 4 b AND 15) OR (b AND 15) = b" "b AND 15 < 16"
proof -
  have m: "(15 :: u8) = mask 4" by (simp add: mask_eq_exp_minus_1)
  have lt: "x AND 15 < 16" for x :: u8
    unfolding m using and_mask_less' [of 4 x] by simp
  show "drop_bit 4 b AND 15 < 16" "(b AND 0xf) AND 15 < 16" "b AND 15 < 16" by (rule lt)+
  show "(b AND 0xf) AND 15 = b AND 15" by (simp add: and.assoc)
  show "push_bit 4 (drop_bit 4 b AND 15) OR (b AND 15) = b"
    unfolding m by (rule bit_word_eqI) (auto simp: bit_simps)
qed

subsection \<open>Strings\<close>

text \<open>Strings do not contain the terminating zero.\<close>

definition c_string :: "bytes \<Rightarrow> bool" where
  "c_string s \<longleftrightarrow> 0 \<notin> set s"

definition to_lower :: "u8 \<Rightarrow> u8" where
  "to_lower c = (if c > 0x40 \<and> c < 0x5b then c + 0x20 else c)"

lemma byte_at_simps [simp]: "byte_at [] i = 0" "byte_at (c # s) 0 = c" "byte_at (c # s) (Suc i) = byte_at s i"
  by (simp_all add: byte_at_def)

lemma str_eq_loop_iff:
  "c_string s1 \<Longrightarrow> c_string s2 \<Longrightarrow> str_eq_loop s1 s2 \<longleftrightarrow> s1 = s2"
proof (induction s1 arbitrary: s2)
  case Nil
  then show ?case by (cases s2) (auto simp: str_eq_loop.simps c_string_def)
next
  case (Cons c s1)
  then show ?case by (cases s2) (auto simp: str_eq_loop.simps [of "c # s1"] c_string_def)
qed

lemma caseeq_char:
  fixes a b :: u8
  defines "v \<equiv> (if b > 0x60 \<and> b < 0x7b then b - 0x20 else b)"
  shows "a = (if a > 0x60 \<and> a < 0x7b then v + 0x20 else v) \<longleftrightarrow> to_lower a = to_lower b"
proof -
  have b: "unat b < 256" using unsigned_less [of b] by simp
  have wrap: False if "\<not> unat b < 123" "96 < (unat b + 32) mod 256" "(unat b + 32) mod 256 < 123"
  proof (cases "unat b < 224")
    case True
    then have "(unat b + 32) mod 256 = unat b + 32" by simp
    with that show ?thesis by linarith
  next
    case False
    then have "(unat b + 32) mod 256 = unat b - 224"
      using b mod_if [of "unat b + 32" 256] by simp
    with that b show ?thesis by linarith
  qed
  show ?thesis
    unfolding v_def to_lower_def word_less_nat_alt word_arith_nat_add unat_arith_simps
    by (auto simp: unat_sub_if' unat_word_ariths word_unat_eq_iff dest: wrap)
qed

lemma to_lower_zero: "to_lower c = 0 \<longleftrightarrow> c = 0"
  by (auto simp: to_lower_def word_less_nat_alt unat_word_ariths word_unat_eq_iff)

lemma str_caseeq_loop_iff:
  "c_string s1 \<Longrightarrow> c_string s2 \<Longrightarrow> str_caseeq_loop s1 s2 \<longleftrightarrow> map to_lower s1 = map to_lower s2"
proof (induction s1 arbitrary: s2)
  case Nil
  have "str_caseeq_loop [] s2 \<longleftrightarrow> to_lower 0 = to_lower (byte_at s2 0)"
    unfolding str_caseeq_loop.simps [of "[]"] Let_def using caseeq_char [of 0 "byte_at s2 0"] by auto
  then show ?case using Nil.prems(2) to_lower_zero by (cases s2) (auto simp: c_string_def to_lower_def)
next
  case (Cons c s1)
  have step: "str_caseeq_loop (c # s1) s2 \<longleftrightarrow> to_lower c = to_lower (byte_at s2 0) \<and> str_caseeq_loop s1 (drop 1 s2)"
    unfolding str_caseeq_loop.simps [of "c # s1"] Let_def using caseeq_char [of c "byte_at s2 0"] by auto
  show ?case
  proof (cases s2)
    case Nil
    then show ?thesis using step Cons.prems(1) to_lower_zero [of c] by (auto simp: c_string_def to_lower_def)
  next
    case (Cons d s2')
    then show ?thesis using step Cons.IH [of s2'] Cons.prems by (simp add: c_string_def)
  qed
qed

lemma str_copy_loop_eq: "0 < n \<Longrightarrow> str_copy_loop s n = take (n - 1) s"
proof (induction s n rule: str_copy_loop.induct)
  case (2 c src n)
  obtain m where "n = Suc m" using 2(2) by (cases n) auto
  with 2 show ?case by (cases m) auto
qed simp

subsection \<open>Numbers\<close>

definition digit :: "u8 \<Rightarrow> bool" where
  "digit c \<longleftrightarrow> 0x30 \<le> c \<and> c \<le> 0x39"

definition decimal :: "bytes \<Rightarrow> nat" where
  "decimal s = foldl (\<lambda>v c. v * 10 + (unat c - 0x30)) 0 s"

lemma parse_uint_loop_eq:
  "parse_uint_loop s val =
     (if list_all digit s then Inr (of_nat (foldl (\<lambda>v c. v * 10 + (unat c - 0x30)) (unat val) s)) else Inl EINVAL)"
proof (induction s arbitrary: val)
  case (Cons c s)
  let ?v = "(if val > 0 then val * 10 else val) + of_nat (unat c - 0x30) :: u64"
  have v: "?v = of_nat (unat val * 10 + (unat c - 0x30))" by (cases "val > 0") (auto simp: word_gt_0)
  have fold: "(of_nat (foldl (\<lambda>v c. v * 10 + (unat c - 0x30)) (unat (of_nat x :: u64)) s) :: u64) =
      of_nat (foldl (\<lambda>v c. v * 10 + (unat c - 0x30)) x s)" for x
  proof (induction s arbitrary: x)
    case (Cons d s)
    have "unat (of_nat (unat (of_nat x :: u64) * 10 + (unat d - 0x30)) :: u64) = unat (of_nat (x * 10 + (unat d - 0x30)) :: u64)"
      by simp
    then show ?case using Cons.IH [of "unat (of_nat x :: u64) * 10 + (unat d - 0x30)"]
        Cons.IH [of "x * 10 + (unat d - 0x30)"] by simp
  qed simp
  show ?case
    unfolding parse_uint_loop.simps v Cons.IH fold by (auto simp: digit_def [of c] not_less)
qed simp

subsection \<open>Identifiers\<close>

lemma uuid_to_str_nth:
  assumes "k < length u"
  shows "byte_at (uuid_to_str u) (2 * k) = char_hex (drop_bit 4 (u ! k) AND 15)"
    "byte_at (uuid_to_str u) (2 * k + 1) = char_hex (u ! k AND 15)"
proof -
  have h: "uuid_to_str (b # u) = char_hex (drop_bit 4 b AND 15) # char_hex (b AND 15) # uuid_to_str u" for b u
    by (simp add: uuid_to_str_def nibble_table(2) nibbles)
  have "byte_at (uuid_to_str u) (2 * k) = char_hex (drop_bit 4 (u ! k) AND 15) \<and>
    byte_at (uuid_to_str u) (2 * k + 1) = char_hex (u ! k AND 15)"
    using assms
  proof (induction u arbitrary: k)
    case (Cons b u)
    then show ?case by (cases k) (simp_all add: h)
  qed simp
  then show "byte_at (uuid_to_str u) (2 * k) = char_hex (drop_bit 4 (u ! k) AND 15)"
    "byte_at (uuid_to_str u) (2 * k + 1) = char_hex (u ! k AND 15)" by auto
qed

lemma length_uuid_to_str [simp]: "length (uuid_to_str u) = 2 * length u"
  by (induction u) (simp_all add: uuid_to_str_def)

text \<open>One round of the loop, when it reads the digits of the byte \<open>b\<close>.\<close>

lemma parse_step:
  assumes "n < 16" and "byte_at inp i = char_hex (drop_bit 4 b AND 15)" and "byte_at inp (i + 1) = char_hex (b AND 15)"
  shows "uuid_parse_loop inp i n acc = uuid_parse_loop inp (i + 2) (n + 1) (acc @ [b])"
proof -
  have "byte_at inp i \<noteq> 0x2d" using assms(2) nibble_table(3) [OF nibbles(1) [of b]] by simp
  moreover have "hex_char (byte_at inp i) = drop_bit 4 b AND 15" "hex_char (byte_at inp (i + 1)) = b AND 15"
    using assms nibble_table(1) nibbles(1,2,3) [of b] by metis+
  ultimately show ?thesis
    using assms(1) nibbles(4) [of b] by (subst uuid_parse_loop.simps) simp
qed

lemma parse_dash:
  assumes "n < 16" and "i \<in> {8, 13, 18, 23}" and "byte_at inp i = 0x2d"
  shows "uuid_parse_loop inp i n acc = uuid_parse_loop inp (i + 1) n acc"
  using assms by (subst uuid_parse_loop.simps) auto

lemma parse_plain:
  "length u = 16 \<Longrightarrow> k \<le> 16 \<Longrightarrow>
   uuid_parse_loop (uuid_to_str u) (2 * (16 - k)) (16 - k) (take (16 - k) u) = Some u"
proof (induction k)
  case 0
  then show ?case by (simp add: uuid_parse_loop.simps)
next
  case (Suc k)
  let ?n = "16 - Suc k"
  have n: "?n < 16" "16 - k = ?n + 1" using Suc.prems by auto
  have "uuid_parse_loop (uuid_to_str u) (2 * ?n) ?n (take ?n u) =
      uuid_parse_loop (uuid_to_str u) (2 * ?n + 2) (?n + 1) (take ?n u @ [u ! ?n])"
    using Suc.prems n by (intro parse_step uuid_to_str_nth) auto
  also have "take ?n u @ [u ! ?n] = take (16 - k) u" using Suc.prems n by (simp add: take_Suc_conv_app_nth)
  finally show ?case using Suc n by (simp add: algebra_simps)
qed

section \<open>Properties\<close>

text \<open>C26: The string form of an identifier, 32 hexadecimal digits, is parsed back to it.\<close>

theorem uuid_parse_to_str:
  assumes "length u = 16"
  shows "uuid_parse (uuid_to_str u) = Some u"
  using parse_plain [OF assms, of 16] by (simp add: uuid_parse_def)

theorem uuid_parse_to_str_witness:
  "uuid_parse (uuid_to_str [1, 2, 3, 4, 5, 6, 7, 8, 0x9a, 0xbc, 0xde, 0xf0, 0x11, 0x22, 0x33, 0xff]) =
     Some [1, 2, 3, 4, 5, 6, 7, 8, 0x9a, 0xbc, 0xde, 0xf0, 0x11, 0x22, 0x33, 0xff]"
  by (rule uuid_parse_to_str) simp

text \<open>
  \<open>uuid_parse\<close> never reports an error: it returns 16 bytes for every input, also for one with
  characters that are no hexadecimal digits.
\<close>

theorem uuid_parse_never_fails: "\<exists>u. uuid_parse inp = Some u \<and> length u = 16"
proof -
  have "n \<le> 16 \<Longrightarrow> length acc = n \<Longrightarrow> \<exists>u. uuid_parse_loop inp i n acc = Some u \<and> length u = 16" for i n acc
  proof (induction inp i n acc rule: uuid_parse_loop.induct)
    case (1 inp i n acc)
    show ?case
    proof (cases "n < 16")
      case True
      then show ?thesis using 1 by (subst uuid_parse_loop.simps) (auto simp: Let_def)
    qed (use 1 in \<open>simp add: uuid_parse_loop.simps\<close>)
  qed
  then show ?thesis by (simp add: uuid_parse_def)
qed

text \<open>
  A string is a number exactly when all its characters are decimal digits; the value is the
  decimal value modulo \<open>2 ^ 64\<close>.
\<close>

theorem parse_uint_correct:
  "parse_uint (Some s) = (if list_all digit s then Inr (of_nat (decimal s)) else Inl EINVAL)"
  by (simp add: parse_uint_def parse_uint_loop_eq decimal_def)

text \<open>
  Comparison without case ignores exactly the case of the letters A to Z.
\<close>

theorem str_caseeq_correct:
  assumes "c_string s1" and "c_string s2"
  shows "str_caseeq (Some s1) (Some s2) \<longleftrightarrow> map to_lower s1 = map to_lower s2"
  using str_caseeq_loop_iff [OF assms] by (simp add: str_caseeq_def)

theorem str_caseeq_correct_witness:
  "str_caseeq (Some (ascii ''TruE'')) (Some (ascii ''true'')) \<longleftrightarrow>
     map to_lower (ascii ''TruE'') = map to_lower (ascii ''true'')"
  by (rule str_caseeq_correct) (simp_all add: c_string_def ascii_def)

end
