(* ===== verification/Err_Monad.thy ===== *)
theory Err_Monad
  imports Prelude
begin

text \<open>
  The control flow of the C functions that work on a mutable object: a computation takes the state
  and returns either nothing (it does not return), or a result together with the new state.  The
  result is an error number or a value; the state is kept on errors too, since the C code does not
  roll back what it wrote before it failed.  The second half is a small Hoare logic with one triple
  for both outcomes.
\<close>

section \<open>Computations\<close>

type_synonym ('s, 'a) em = "'s \<Rightarrow> ('a res \<times> 's) option"

definition returnE :: "'a \<Rightarrow> ('s, 'a) em" where
  "returnE x = (\<lambda>s. Some (Inr x, s))"

definition failE :: "errno \<Rightarrow> ('s, 'a) em" where
  "failE e = (\<lambda>s. Some (Inl e, s))"

definition bindE :: "('s, 'a) em \<Rightarrow> ('a \<Rightarrow> ('s, 'b) em) \<Rightarrow> ('s, 'b) em" where
  "bindE m k = (\<lambda>s.
     case m s of
       None \<Rightarrow> None
     | Some (Inl e, s') \<Rightarrow> Some (Inl e, s')
     | Some (Inr x, s') \<Rightarrow> k x s')"

definition thenE :: "('s, 'a) em \<Rightarrow> ('s, 'b) em \<Rightarrow> ('s, 'b) em" where
  "thenE m k = bindE m (\<lambda>_. k)"

definition getE :: "('s \<Rightarrow> 'a) \<Rightarrow> ('s, 'a) em" where
  "getE g = (\<lambda>s. Some (Inr (g s), s))"

definition modifyE :: "('s \<Rightarrow> 's) \<Rightarrow> ('s, unit) em" where
  "modifyE u = (\<lambda>s. Some (Inr (), u s))"

definition guardE :: "bool \<Rightarrow> errno \<Rightarrow> ('s, unit) em" where
  "guardE b e = (if b then returnE () else failE e)"

text \<open>A failed assertion ends the program: there is no result.\<close>

definition assertE :: "bool \<Rightarrow> ('s, unit) em" where
  "assertE b = (if b then returnE () else (\<lambda>s. None))"

text \<open>A call whose return value the caller does not look at.\<close>

definition ignoreE :: "('s, 'a) em \<Rightarrow> ('s, unit) em" where
  "ignoreE m = (\<lambda>s. case m s of None \<Rightarrow> None | Some (r, s') \<Rightarrow> Some (Inr (), s'))"

text \<open>A \<open>for\<close> loop over a list that stops at the first error.\<close>

fun forE :: "'x list \<Rightarrow> ('x \<Rightarrow> ('s, 'a) em) \<Rightarrow> ('s, 'a list) em" where
  "forE [] body = returnE []"
| "forE (x # xs) body = bindE (body x) (\<lambda>y. bindE (forE xs body) (\<lambda>ys. returnE (y # ys)))"

lemmas em_defs = returnE_def failE_def bindE_def thenE_def getE_def modifyE_def guardE_def ignoreE_def

section \<open>Triples\<close>

text \<open>
  \<open>triple P m Q R\<close>: started in a state that satisfies \<open>P\<close>, whenever \<open>m\<close> returns, it returns a
  value and a state related by \<open>Q\<close>, or an error and a state that satisfy \<open>R\<close>.  \<open>total P m\<close>: it
  returns.
\<close>

definition triple ::
  "('s \<Rightarrow> bool) \<Rightarrow> ('s, 'a) em \<Rightarrow> ('a \<Rightarrow> 's \<Rightarrow> bool) \<Rightarrow> (errno \<Rightarrow> 's \<Rightarrow> bool) \<Rightarrow> bool" where
  "triple P m Q R \<longleftrightarrow>
     (\<forall>s. P s \<longrightarrow>
        (case m s of None \<Rightarrow> True | Some (Inl e, s') \<Rightarrow> R e s' | Some (Inr x, s') \<Rightarrow> Q x s'))"

definition total :: "('s \<Rightarrow> bool) \<Rightarrow> ('s, 'a) em \<Rightarrow> bool" where
  "total P m \<longleftrightarrow> (\<forall>s. P s \<longrightarrow> m s \<noteq> None)"

named_theorems triple_intros \<open>rules for triples\<close>

lemma tripleD:
  "triple P m Q R \<Longrightarrow> P s \<Longrightarrow> m s = Some (Inr x, s') \<Longrightarrow> Q x s'"
  by (auto simp: triple_def split: option.splits sum.splits prod.splits)

lemma tripleD_err:
  "triple P m Q R \<Longrightarrow> P s \<Longrightarrow> m s = Some (Inl e, s') \<Longrightarrow> R e s'"
  by (auto simp: triple_def split: option.splits sum.splits prod.splits)

lemma tripleI:
  assumes "\<And>s x s'. P s \<Longrightarrow> m s = Some (Inr x, s') \<Longrightarrow> Q x s'"
    and "\<And>s e s'. P s \<Longrightarrow> m s = Some (Inl e, s') \<Longrightarrow> R e s'"
  shows "triple P m Q R"
  using assms by (auto simp: triple_def split: option.splits sum.splits prod.splits)

lemma triple_weaken:
  assumes "triple P m Q R"
    and "\<And>s. P' s \<Longrightarrow> P s"
    and "\<And>x s. Q x s \<Longrightarrow> Q' x s"
    and "\<And>e s. R e s \<Longrightarrow> R' e s"
  shows "triple P' m Q' R'"
  by (rule tripleI) (use assms in \<open>blast dest: tripleD tripleD_err\<close>)+

lemma triple_bindE [triple_intros]:
  assumes "triple P m Q R" and "\<And>x. triple (Q x) (k x) Q' R"
  shows "triple P (bindE m k) Q' R"
proof (rule tripleI)
  fix s x s' assume P: "P s" and r: "bindE m k s = Some (Inr x, s')"
  from r obtain y s1 where "m s = Some (Inr y, s1)" and k: "k y s1 = Some (Inr x, s')"
    by (auto simp: bindE_def split: option.splits sum.splits)
  with P assms(1) have "Q y s1" by (auto dest: tripleD)
  with assms(2) k show "Q' x s'" by (auto dest: tripleD)
next
  fix s e s' assume P: "P s" and r: "bindE m k s = Some (Inl e, s')"
  then consider "m s = Some (Inl e, s')"
    | y s1 where "m s = Some (Inr y, s1)" "k y s1 = Some (Inl e, s')"
    by (auto simp: bindE_def split: option.splits sum.splits)
  then show "R e s'"
    by cases (use P assms in \<open>auto dest: tripleD tripleD_err\<close>)
qed

lemma triple_thenE [triple_intros]:
  "triple P m (\<lambda>_. Q) R \<Longrightarrow> triple Q k Q' R \<Longrightarrow> triple P (thenE m k) Q' R"
  unfolding thenE_def by (rule triple_bindE)

lemma triple_returnE [triple_intros]: "triple (Q x) (returnE x) Q R"
  by (auto simp: triple_def returnE_def)

lemma triple_failE [triple_intros]: "triple (R e) (failE e) Q R"
  by (auto simp: triple_def failE_def)

lemma triple_getE [triple_intros]: "triple (\<lambda>s. Q (g s) s) (getE g) Q R"
  by (auto simp: triple_def getE_def)

lemma triple_modifyE [triple_intros]: "triple (\<lambda>s. Q () (u s)) (modifyE u) Q R"
  by (auto simp: triple_def modifyE_def)

lemma triple_guardE [triple_intros]:
  "triple (\<lambda>s. (b \<longrightarrow> Q () s) \<and> (\<not> b \<longrightarrow> R e s)) (guardE b e) Q R"
  by (auto simp: triple_def guardE_def returnE_def failE_def)

lemma triple_pre: "triple P m Q R \<Longrightarrow> (\<And>s. P' s \<Longrightarrow> P s) \<Longrightarrow> triple P' m Q R"
  by (auto simp: triple_def)

lemma triple_forE:
  assumes "\<And>x. x \<in> set xs \<Longrightarrow> triple I (body x) (\<lambda>_. I) R"
  shows "triple I (forE xs body) (\<lambda>_. I) R"
  using assms
proof (induction xs)
  case Nil
  then show ?case by (auto simp: triple_def returnE_def)
next
  case (Cons x xs)
  from Cons.prems have b: "triple I (body x) (\<lambda>_. I) R" by simp
  from Cons have r: "triple I (forE xs body) (\<lambda>_. I) R" by simp
  have "triple I (bindE (forE xs body) (\<lambda>ys. returnE (y # ys))) (\<lambda>_. I) R" for y
    by (rule triple_bindE [OF r]) (auto simp: triple_def returnE_def)
  then show ?case
    unfolding forE.simps by (rule triple_bindE [OF b])
qed

lemma bindE_Some:
  "bindE m k s = Some (Inr x, s') \<longleftrightarrow> (\<exists>y s1. m s = Some (Inr y, s1) \<and> k y s1 = Some (Inr x, s'))"
  by (auto simp: bindE_def split: option.splits sum.splits)

lemma bindE_None: "bindE m k s = None \<longleftrightarrow> m s = None \<or> (\<exists>y s1. m s = Some (Inr y, s1) \<and> k y s1 = None)"
  by (auto simp: bindE_def split: option.splits sum.splits)

lemma bindE_run [simp]:
  "m s = Some (Inr y, s1) \<Longrightarrow> bindE m k s = k y s1"
  "m s = Some (Inl e, s1) \<Longrightarrow> bindE m k s = Some (Inl e, s1)"
  by (simp_all add: bindE_def)

lemma thenE_run [simp]:
  "m s = Some (Inr y, s1) \<Longrightarrow> thenE m k s = k s1"
  "m s = Some (Inl e, s1) \<Longrightarrow> thenE m k s = Some (Inl e, s1)"
  by (simp_all add: thenE_def)

lemma basic_run [simp]:
  "returnE x s = Some (Inr x, s)"
  "failE e s = Some (Inl e, s)"
  "getE g s = Some (Inr (g s), s)"
  "modifyE u s = Some (Inr (), u s)"
  by (simp_all add: em_defs)

lemma guardE_run [simp]:
  "b \<Longrightarrow> guardE b e s = Some (Inr (), s)"
  "\<not> b \<Longrightarrow> guardE b e s = Some (Inl e, s)"
  by (simp_all add: em_defs)

lemma assertE_run [simp]:
  "b \<Longrightarrow> assertE b s = Some (Inr (), s)"
  "\<not> b \<Longrightarrow> assertE b s = None"
  by (simp_all add: assertE_def)

lemma thenE_Some:
  "thenE m k s = Some (Inr x, s') \<longleftrightarrow> (\<exists>y s1. m s = Some (Inr y, s1) \<and> k s1 = Some (Inr x, s'))"
  by (simp add: thenE_def bindE_Some)

lemma guardE_Some: "guardE b e s = Some (Inr x, s') \<longleftrightarrow> b \<and> s' = s"
  by (auto simp: em_defs)

lemma basic_Some:
  "returnE y s = Some (Inr x, s') \<longleftrightarrow> x = y \<and> s' = s"
  "failE e s = Some (Inr x, s') \<longleftrightarrow> False"
  "getE g s = Some (Inr x, s') \<longleftrightarrow> x = g s \<and> s' = s"
  "modifyE u s = Some (Inr x', s') \<longleftrightarrow> s' = u s"
  by (auto simp: em_defs)

lemmas em_Some = bindE_Some thenE_Some guardE_Some basic_Some

lemma bindE_Inl:
  "bindE m k s = Some (Inl e, s') \<longleftrightarrow>
     m s = Some (Inl e, s') \<or> (\<exists>y s1. m s = Some (Inr y, s1) \<and> k y s1 = Some (Inl e, s'))"
  by (auto simp: bindE_def split: option.splits sum.splits)

lemma thenE_Inl:
  "thenE m k s = Some (Inl e, s') \<longleftrightarrow>
     m s = Some (Inl e, s') \<or> (\<exists>y s1. m s = Some (Inr y, s1) \<and> k s1 = Some (Inl e, s'))"
  by (simp add: thenE_def bindE_Inl)

lemma guardE_Inl: "guardE b e s = Some (Inl e', s') \<longleftrightarrow> \<not> b \<and> e' = e \<and> s' = s"
  by (auto simp: em_defs)

lemma basic_Inl:
  "returnE y s = Some (Inl e, s') \<longleftrightarrow> False"
  "failE e0 s = Some (Inl e, s') \<longleftrightarrow> e = e0 \<and> s' = s"
  "getE g s = Some (Inl e, s') \<longleftrightarrow> False"
  "modifyE u s = Some (Inl e, s') \<longleftrightarrow> False"
  by (auto simp: em_defs)

lemmas em_Inl = bindE_Inl thenE_Inl guardE_Inl basic_Inl

lemma thenE_None:
  "thenE m k s = None \<longleftrightarrow> m s = None \<or> (\<exists>y s1. m s = Some (Inr y, s1) \<and> k s1 = None)"
  by (simp add: thenE_def bindE_None)

lemma basic_None:
  "returnE y s = None \<longleftrightarrow> False"
  "failE e s = None \<longleftrightarrow> False"
  "getE g s = None \<longleftrightarrow> False"
  "modifyE u s = None \<longleftrightarrow> False"
  "guardE b e s = None \<longleftrightarrow> False"
  by (auto simp: em_defs)

lemmas em_None = bindE_None thenE_None basic_None

end
