(* ===== verification/File_Objects.thy ===== *)
theory File_Objects
  imports Err_Monad
begin

text \<open>
  The journal file as a store of objects: the on-disk structures of \<open>lib/journal-def.h\<close>, the
  state \<open>JournalFile\<close> of \<open>lib/journal-file.h\<close>, and the part of \<open>lib/journal-file.c\<close> that sets the
  file on- and offline, extends it, moves to an object and appends an object, with the layout
  invariant that every object starts aligned after its predecessor and lies in the arena.

  A file is a map from offsets to objects instead of an array of bytes: the bytes between the tail
  object and the end of the arena are the zeros that \<open>posix_fallocate\<close> put there, so that moving to
  an offset where no object starts reads an object header of zeros.  An \<open>Object *\<close> of the C code is
  the offset of the object.  The two hash tables, which the code keeps mapped for the life time of
  the file, are lists of the state.
\<close>

section \<open>On-disk structures\<close>

datatype object_type =
    OBJECT_UNUSED
  | OBJECT_DATA
  | OBJECT_FIELD
  | OBJECT_ENTRY
  | OBJECT_DATA_HASH_TABLE
  | OBJECT_FIELD_HASH_TABLE
  | OBJECT_ENTRY_ARRAY

definition OBJECT_COMPRESSED_XZ :: nat where "OBJECT_COMPRESSED_XZ = 1"
definition OBJECT_COMPRESSED_LZ4 :: nat where "OBJECT_COMPRESSED_LZ4 = 2"

definition OBJECT_COMPRESSION_MASK :: nat where
  "OBJECT_COMPRESSION_MASK = OBJECT_COMPRESSED_XZ OR OBJECT_COMPRESSED_LZ4"

record data_object =
  d_hash :: nat
  d_next_hash_offset :: nat
  d_next_field_offset :: nat
  d_entry_offset :: nat
  d_entry_array_offset :: nat
  d_n_entries :: nat
  d_payload :: bytes

record field_object =
  fo_hash :: nat
  fo_next_hash_offset :: nat
  fo_head_data_offset :: nat
  fo_payload :: bytes

record entry_item =
  ei_object_offset :: nat
  ei_hash :: nat

record entry_object =
  e_seqnum :: nat
  e_realtime :: nat
  e_monotonic :: nat
  e_boot_id :: bytes
  e_xor_hash :: nat
  e_items :: "entry_item list"

record hash_item =
  head_hash_offset :: nat
  tail_hash_offset :: nat

record entry_array_object =
  ea_next_entry_array_offset :: nat
  ea_items :: "nat list"

text \<open>The union \<open>Object\<close>: the type tag selects the member.\<close>

datatype body =
    UnusedBody
  | DataBody data_object
  | FieldBody field_object
  | EntryBody entry_object
  | DataHashTableBody
  | FieldHashTableBody
  | EntryArrayBody entry_array_object

record object =
  o_flags :: nat
  o_size :: nat
  o_body :: body

fun body_type :: "body \<Rightarrow> object_type" where
  "body_type UnusedBody = OBJECT_UNUSED"
| "body_type (DataBody d) = OBJECT_DATA"
| "body_type (FieldBody d) = OBJECT_FIELD"
| "body_type (EntryBody d) = OBJECT_ENTRY"
| "body_type DataHashTableBody = OBJECT_DATA_HASH_TABLE"
| "body_type FieldHashTableBody = OBJECT_FIELD_HASH_TABLE"
| "body_type (EntryArrayBody d) = OBJECT_ENTRY_ARRAY"

abbreviation o_type :: "object \<Rightarrow> object_type" where
  "o_type ob \<equiv> body_type (o_body ob)"

text \<open>The sizes of the packed structures.\<close>

definition sizeof_ObjectHeader :: nat where "sizeof_ObjectHeader = 16"
definition sizeof_DataObject :: nat where "sizeof_DataObject = 64"
definition sizeof_FieldObject :: nat where "sizeof_FieldObject = 40"
definition sizeof_EntryObject :: nat where "sizeof_EntryObject = 64"
definition sizeof_HashTableObject :: nat where "sizeof_HashTableObject = 16"
definition sizeof_EntryArrayObject :: nat where "sizeof_EntryArrayObject = 24"
definition sizeof_HashItem :: nat where "sizeof_HashItem = 16"
definition sizeof_EntryItem :: nat where "sizeof_EntryItem = 16"
definition sizeof_Header :: nat where "sizeof_Header = 240"

lemmas sizeof_defs = sizeof_ObjectHeader_def sizeof_DataObject_def sizeof_FieldObject_def
  sizeof_EntryObject_def sizeof_HashTableObject_def sizeof_EntryArrayObject_def
  sizeof_HashItem_def sizeof_EntryItem_def sizeof_Header_def

definition STATE_OFFLINE :: nat where "STATE_OFFLINE = 0"
definition STATE_ONLINE :: nat where "STATE_ONLINE = 1"
definition STATE_ARCHIVED :: nat where "STATE_ARCHIVED = 2"
definition STATE_MAX :: nat where "STATE_MAX = 3"

lemmas state_defs = STATE_OFFLINE_def STATE_ONLINE_def STATE_ARCHIVED_def STATE_MAX_def

record header =
  signature :: bytes
  compatible_flags :: nat
  incompatible_flags :: nat
  state :: nat
  file_id :: bytes
  machine_id :: bytes
  boot_id :: bytes
  seqnum_id :: bytes
  header_size :: nat
  arena_size :: nat
  data_hash_table_offset :: nat
  data_hash_table_size :: nat
  field_hash_table_offset :: nat
  field_hash_table_size :: nat
  tail_object_offset :: nat
  n_objects :: nat
  n_entries :: nat
  tail_entry_seqnum :: nat
  head_entry_seqnum :: nat
  entry_array_offset :: nat
  head_entry_realtime :: nat
  tail_entry_realtime :: nat
  tail_entry_monotonic :: nat
  n_data :: nat
  n_fields :: nat
  n_tags :: nat
  n_entry_arrays :: nat

text \<open>\<open>JOURNAL_HEADER_CONTAINS\<close> for the fields that were added after the first version.\<close>

definition header_contains_n_data :: "header \<Rightarrow> bool" where
  "header_contains_n_data h \<longleftrightarrow> header_size h \<ge> 208 + 8"
definition header_contains_n_fields :: "header \<Rightarrow> bool" where
  "header_contains_n_fields h \<longleftrightarrow> header_size h \<ge> 216 + 8"
definition header_contains_n_entry_arrays :: "header \<Rightarrow> bool" where
  "header_contains_n_entry_arrays h \<longleftrightarrow> header_size h \<ge> 232 + 8"

lemmas header_contains_defs = header_contains_n_data_def header_contains_n_fields_def
  header_contains_n_entry_arrays_def

section \<open>The state and the environment\<close>

record journal_metrics =
  max_size :: nat
  min_size :: nat
  max_use :: nat
  min_use :: nat
  keep_free :: nat

record chain_cache_item =
  ci_first :: nat
  ci_array :: nat
  ci_begin :: nat
  ci_total :: nat
  ci_last_index :: nat

text \<open>
  \<open>file_size\<close> is the size of the file on disk, \<open>st_size\<close> the size in the cached \<open>last_stat\<close>;
  \<open>fd_ok\<close> stands for \<open>fd >= 0 && header\<close>.  The chain cache is an association list in insertion
  order, which is the order in which \<open>hashmap_steal_first\<close> takes items out.
\<close>

record journal_file =
  fd_ok :: bool
  writable :: bool
  compress_xz :: bool
  compress_lz4 :: bool
  tail_entry_monotonic_valid :: bool
  st_size :: nat
  file_size :: nat
  header :: header
  data_hash_table :: "hash_item list"
  field_hash_table :: "hash_item list"
  metrics :: journal_metrics
  chain_cache :: "chain_cache_item list"
  store :: "nat \<Rightarrow> object option"

type_synonym 'a jm = "(journal_file, 'a) em"

text \<open>
  What the code gets from outside: the page size, the answers of \<open>fstatvfs\<close> (free blocks and block
  size), \<open>posix_fallocate\<close>, \<open>fstat\<close>, \<open>ftruncate\<close> and of mapping a window, and the compression libraries.  A
  failed compression leaves an indeterminate size and buffer behind, which are part of the answer;
  \<open>env_stale\<close> is what a failed decompression leaves in the output buffer and its size.  \<open>env_decompress_max\<close> is
  decompression with a limit on the output (0 for none), and \<open>env_decompress_startswith\<close> the test whether the
  output starts with a field name and \<open>=\<close>.
\<close>

datatype compress_outcome =
    CompressOk nat bytes
  | CompressErr nat nat bytes

record env =
  env_page_size :: nat
  env_statvfs :: "(nat \<times> nat) option"
  env_fallocate :: "nat \<Rightarrow> nat \<Rightarrow> errno option"
  env_fstat :: "errno option"
  env_mmap :: "nat \<Rightarrow> nat \<Rightarrow> errno option"
  env_compress :: "bytes \<Rightarrow> compress_outcome"
  env_decompress :: "nat \<Rightarrow> bytes \<Rightarrow> bytes option"
  env_stale :: bytes
  env_ftruncate :: "errno option"
  env_decompress_max :: "nat \<Rightarrow> nat \<Rightarrow> bytes \<Rightarrow> bytes res"
  env_decompress_startswith :: "nat \<Rightarrow> bytes \<Rightarrow> bytes \<Rightarrow> bool res"

section \<open>Alignment\<close>

definition ALIGN_TO :: "nat \<Rightarrow> nat \<Rightarrow> nat" where
  "ALIGN_TO l ali = unat ((of_nat l + of_nat ali - 1) AND NOT (of_nat ali - 1) :: u64)"

definition ALIGN64 :: "nat \<Rightarrow> nat" where
  "ALIGN64 x = unat ((of_nat x + 7) AND NOT 7 :: u64)"

definition VALID64 :: "nat \<Rightarrow> bool" where
  "VALID64 x \<longleftrightarrow> x AND 7 = 0"

definition PAGE_ALIGN :: "env \<Rightarrow> nat \<Rightarrow> nat" where
  "PAGE_ALIGN E l = ALIGN_TO l (env_page_size E)"

section \<open>Operations\<close>

subsection \<open>Online and offline\<close>

definition set_state :: "nat \<Rightarrow> journal_file \<Rightarrow> journal_file" where
  "set_state x f = f\<lparr>header := (header f)\<lparr>state := x\<rparr>\<rparr>"

definition journal_file_set_online :: "unit jm" where
  "journal_file_set_online = (\<lambda>f.
     if \<not> writable f then Some (Inl EPERM, f)
     else if \<not> fd_ok f then Some (Inl EINVAL, f)
     else if state (header f) = STATE_ONLINE then Some (Inr (), f)
     else if state (header f) = STATE_OFFLINE then Some (Inr (), set_state STATE_ONLINE f)
     else Some (Inl EINVAL, f))"

definition journal_file_set_offline :: "unit jm" where
  "journal_file_set_offline = (\<lambda>f.
     if \<not> writable f then Some (Inl EPERM, f)
     else if \<not> fd_ok f then Some (Inl EINVAL, f)
     else if state (header f) \<noteq> STATE_ONLINE then Some (Inr (), f)
     else Some (Inr (), set_state STATE_OFFLINE f))"

subsection \<open>Extending the file\<close>

definition FILE_SIZE_INCREASE :: nat where
  "FILE_SIZE_INCREASE = 8 * 1024 * 1024"

definition arena_end :: "journal_file \<Rightarrow> nat" where
  "arena_end f = add64 (header_size (header f)) (arena_size (header f))"

text \<open>The size the file needs so that it covers the range.\<close>

definition allocate_needed :: "env \<Rightarrow> nat \<Rightarrow> nat \<Rightarrow> journal_file \<Rightarrow> nat" where
  "allocate_needed E offset sz f =
     (let new_size = PAGE_ALIGN E (add64 offset sz)
      in if new_size < header_size (header f) then header_size (header f) else new_size)"

text \<open>The two reasons for \<open>E2BIG\<close>: the limit on the file and the space to keep free on the disk.\<close>

definition allocate_too_big :: "env \<Rightarrow> journal_file \<Rightarrow> nat \<Rightarrow> bool" where
  "allocate_too_big E f new_size \<longleftrightarrow>
     (max_size (metrics f) > 0 \<and> new_size > max_size (metrics f)) \<or>
     (new_size > min_size (metrics f) \<and> keep_free (metrics f) > 0 \<and>
      (case env_statvfs E of
         None \<Rightarrow> False
       | Some (bfree, bsize) \<Rightarrow>
           let available = mul64 bfree bsize;
               available = (if available \<ge> keep_free (metrics f)
                            then available - keep_free (metrics f) else 0)
           in sub64 new_size (arena_end f) > available))"

text \<open>Files grow by blocks of 8 MiB.\<close>

definition allocate_rounded :: "journal_file \<Rightarrow> nat \<Rightarrow> nat" where
  "allocate_rounded f new_size =
     (let new_size =
            mul64 (sub64 (add64 new_size FILE_SIZE_INCREASE) 1 div FILE_SIZE_INCREASE)
              FILE_SIZE_INCREASE
      in if max_size (metrics f) > 0 \<and> new_size > max_size (metrics f) then max_size (metrics f)
         else new_size)"

definition journal_file_allocate :: "env \<Rightarrow> nat \<Rightarrow> nat \<Rightarrow> unit jm" where
  "journal_file_allocate E offset sz = (\<lambda>f.
     let old_size = arena_end f;
         new_size = allocate_needed E offset sz f
     in
     if new_size \<le> old_size then Some (Inr (), f)
     else if allocate_too_big E f new_size then Some (Inl E2BIG, f)
     else
       let new_size = allocate_rounded f new_size
       in case env_fallocate E old_size (sub64 new_size old_size) of
            Some e \<Rightarrow> Some (Inl e, f)
          | None \<Rightarrow>
              let f = f\<lparr>file_size := max (file_size f) new_size\<rparr>
              in case env_fstat E of
                   Some e \<Rightarrow> Some (Inl e, f)
                 | None \<Rightarrow>
                     Some (Inr (), f\<lparr>st_size := file_size f,
                       header := (header f)\<lparr>arena_size :=
                         sub64 new_size (header_size (header f))\<rparr>\<rparr>))"

subsection \<open>Moving to an object\<close>

definition journal_file_move_to :: "env \<Rightarrow> nat \<Rightarrow> nat \<Rightarrow> unit jm" where
  "journal_file_move_to E offset sz = (\<lambda>f.
     if sz \<le> 0 then Some (Inl EINVAL, f)
     else
       let f' = (if add64 offset sz > st_size f \<and> env_fstat E = None
                 then f\<lparr>st_size := file_size f\<rparr> else f)
       in if add64 offset sz > st_size f \<and>
             (env_fstat E \<noteq> None \<or> add64 offset sz > st_size f')
          then Some (Inl EADDRNOTAVAIL, f')
          else case env_mmap E offset sz of
                 Some e \<Rightarrow> Some (Inl e, f')
               | None \<Rightarrow> Some (Inr (), f'))"

definition minimum_header_size :: "object \<Rightarrow> nat" where
  "minimum_header_size ob =
     (case o_type ob of
        OBJECT_DATA \<Rightarrow> sizeof_DataObject
      | OBJECT_FIELD \<Rightarrow> sizeof_FieldObject
      | OBJECT_ENTRY \<Rightarrow> sizeof_EntryObject
      | OBJECT_DATA_HASH_TABLE \<Rightarrow> sizeof_HashTableObject
      | OBJECT_FIELD_HASH_TABLE \<Rightarrow> sizeof_HashTableObject
      | OBJECT_ENTRY_ARRAY \<Rightarrow> sizeof_EntryArrayObject
      | OBJECT_UNUSED \<Rightarrow> sizeof_ObjectHeader)"

text \<open>Where no object starts, the file holds zeros.\<close>

definition zero_object :: object where
  "zero_object = \<lparr>o_flags = 0, o_size = 0, o_body = UnusedBody\<rparr>"

definition object_at :: "journal_file \<Rightarrow> nat \<Rightarrow> object" where
  "object_at f p = (case store f p of Some ob \<Rightarrow> ob | None \<Rightarrow> zero_object)"

text \<open>\<open>ty = None\<close> is the call with type \<open>-1\<close>, which accepts every type.\<close>

definition journal_file_move_to_object :: "env \<Rightarrow> object_type option \<Rightarrow> nat \<Rightarrow> object jm" where
  "journal_file_move_to_object E ty offset =
     thenE (guardE (VALID64 offset) EFAULT)
     (thenE (journal_file_move_to E offset sizeof_ObjectHeader)
     (bindE (getE (\<lambda>f. object_at f offset)) (\<lambda>ob.
      let s = o_size ob in
      thenE (guardE (\<not> s < sizeof_ObjectHeader) EBADMSG)
      (thenE (guardE (o_type ob \<noteq> OBJECT_UNUSED) EBADMSG)
      (thenE (guardE (\<not> s < minimum_header_size ob) EBADMSG)
      (thenE (guardE (case ty of None \<Rightarrow> True | Some t \<Rightarrow> o_type ob = t) EBADMSG)
      (thenE (if s > sizeof_ObjectHeader then journal_file_move_to E offset s else returnE ())
      (returnE ob))))))))"

subsection \<open>Sequence numbers\<close>

text \<open>Returns the new sequence number, the updated external counter and the file.\<close>

definition journal_file_entry_seqnum ::
  "journal_file \<Rightarrow> nat option \<Rightarrow> nat \<times> nat option \<times> journal_file" where
  "journal_file_entry_seqnum f seqnum =
     (let r = add64 (tail_entry_seqnum (header f)) 1;
          (r, seqnum') =
            (case seqnum of
               None \<Rightarrow> (r, None)
             | Some s \<Rightarrow> (let r = (if add64 s 1 > r then add64 s 1 else r) in (r, Some r)));
          h = (header f)\<lparr>tail_entry_seqnum := r\<rparr>;
          h = (if head_entry_seqnum h = 0 then h\<lparr>head_entry_seqnum := r\<rparr> else h)
      in (r, seqnum', f\<lparr>header := h\<rparr>))"

subsection \<open>Appending an object\<close>

text \<open>
  The members of a fresh object: the bytes after the header are zeros.  The number of items follows
  from the size.
\<close>

definition zero_hash_item :: hash_item where
  "zero_hash_item = \<lparr>head_hash_offset = 0, tail_hash_offset = 0\<rparr>"

fun zero_body :: "object_type \<Rightarrow> nat \<Rightarrow> body" where
  "zero_body OBJECT_UNUSED sz = UnusedBody"
| "zero_body OBJECT_DATA sz =
     DataBody \<lparr>d_hash = 0, d_next_hash_offset = 0, d_next_field_offset = 0, d_entry_offset = 0,
       d_entry_array_offset = 0, d_n_entries = 0,
       d_payload = replicate (sz - sizeof_DataObject) 0\<rparr>"
| "zero_body OBJECT_FIELD sz =
     FieldBody \<lparr>fo_hash = 0, fo_next_hash_offset = 0, fo_head_data_offset = 0,
       fo_payload = replicate (sz - sizeof_FieldObject) 0\<rparr>"
| "zero_body OBJECT_ENTRY sz =
     EntryBody \<lparr>e_seqnum = 0, e_realtime = 0, e_monotonic = 0, e_boot_id = replicate 16 0,
       e_xor_hash = 0,
       e_items = replicate ((sz - sizeof_EntryObject) div sizeof_EntryItem)
         \<lparr>ei_object_offset = 0, ei_hash = 0\<rparr>\<rparr>"
| "zero_body OBJECT_DATA_HASH_TABLE sz = DataHashTableBody"
| "zero_body OBJECT_FIELD_HASH_TABLE sz = FieldHashTableBody"
| "zero_body OBJECT_ENTRY_ARRAY sz =
     EntryArrayBody \<lparr>ea_next_entry_array_offset = 0,
       ea_items = replicate ((sz - sizeof_EntryArrayObject) div 8) 0\<rparr>"

definition put_object :: "nat \<Rightarrow> object \<Rightarrow> journal_file \<Rightarrow> journal_file" where
  "put_object p ob f = f\<lparr>store := (store f)(p \<mapsto> ob)\<rparr>"

definition upd_header :: "(header \<Rightarrow> header) \<Rightarrow> journal_file \<Rightarrow> journal_file" where
  "upd_header g f = f\<lparr>header := g (header f)\<rparr>"

definition journal_file_append_object :: "env \<Rightarrow> object_type \<Rightarrow> nat \<Rightarrow> nat jm" where
  "journal_file_append_object E ty sz =
     thenE journal_file_set_online
     (bindE (getE (\<lambda>f. tail_object_offset (header f))) (\<lambda>p.
      bindE (if p = 0 then getE (\<lambda>f. header_size (header f))
             else bindE (journal_file_move_to_object E None p) (\<lambda>tail.
                  returnE (add64 p (ALIGN64 (o_size tail))))) (\<lambda>p.
      thenE (journal_file_allocate E p sz)
      (thenE (journal_file_move_to E p sz)
      (thenE (modifyE (put_object p \<lparr>o_flags = 0, o_size = sz, o_body = zero_body ty sz\<rparr>))
      (thenE (modifyE (upd_header (\<lambda>h. h\<lparr>tail_object_offset := p,
                                          n_objects := add64 (n_objects h) 1\<rparr>)))
      (returnE p)))))))"

section \<open>Alignment lemmas\<close>

lemma ALIGN_TO_eq:
  assumes "ali = 2 ^ k" "k < 64" "l + ali \<le> two64"
  shows "ALIGN_TO l ali = (l + ali - 1) div ali * ali"
proof -
  have m: "of_nat ali - 1 = (mask k :: u64)"
    using assms by (simp add: mask_eq_exp_minus_1)
  have "0 < ali" using assms(1) by simp
  then have "1 \<le> l + ali" by linarith
  then have "(of_nat l + of_nat ali - 1 :: u64) = of_nat (l + ali - 1)"
    by (simp only: of_nat_diff of_nat_add of_nat_1)
  moreover have "l + ali - 1 < two64" using assms by (simp add: two64_def)
  ultimately show ?thesis
    using assms(2) unfolding ALIGN_TO_def m 
    by (simp add: unat_and_not_mask unat_of_nat64 assms(1))
qed

lemma ALIGN64_eq: "x + 8 \<le> two64 \<Longrightarrow> ALIGN64 x = (x + 7) div 8 * 8"
  using ALIGN_TO_eq [of 8 3 x] by (simp add: ALIGN64_def ALIGN_TO_def add.commute)

lemma VALID64_eq: "VALID64 x \<longleftrightarrow> x mod 8 = 0"
proof -
  have "x AND 7 = x AND mask 3" by (simp add: mask_eq_exp_minus_1)
  then show ?thesis by (simp add: VALID64_def take_bit_eq_mod flip: take_bit_eq_mask)
qed

section \<open>The layout invariant\<close>

text \<open>
  \<open>env_ok\<close> collects what the code relies on: the page size is a power of two, and
  \<open>posix_fallocate\<close> fails for a range that ends beyond the largest file offset (\<open>off_t\<close> is a signed
  64-bit type).
\<close>

definition env_ok :: "env \<Rightarrow> bool" where
  "env_ok E \<longleftrightarrow>
     (\<exists>k<32. env_page_size E = 2 ^ k) \<and>
     (\<forall>pos len. pos + len \<ge> 2 ^ 63 \<longrightarrow> env_fallocate E pos len \<noteq> None)"

text \<open>
  A file with a limit of at most \<open>2 ^ 60\<close> bytes, as for every file the daemon writes: \<open>journal_file_open\<close>
  gets metrics with a positive \<open>max_size\<close>.
\<close>

definition limited :: "journal_file \<Rightarrow> bool" where
  "limited f \<longleftrightarrow> 0 < max_size (metrics f) \<and> max_size (metrics f) \<le> 2 ^ 60"

text \<open>The size of an object agrees with its members.\<close>

definition object_ok :: "object \<Rightarrow> bool" where
  "object_ok ob \<longleftrightarrow>
     (case o_body ob of
        UnusedBody \<Rightarrow> False
      | DataBody d \<Rightarrow> o_size ob = sizeof_DataObject + length (d_payload d)
      | FieldBody d \<Rightarrow> o_size ob = sizeof_FieldObject + length (fo_payload d)
      | EntryBody d \<Rightarrow> o_size ob = sizeof_EntryObject + sizeof_EntryItem * length (e_items d)
      | DataHashTableBody \<Rightarrow> sizeof_HashTableObject \<le> o_size ob
      | FieldHashTableBody \<Rightarrow> sizeof_HashTableObject \<le> o_size ob
      | EntryArrayBody d \<Rightarrow> o_size ob = sizeof_EntryArrayObject + 8 * length (ea_items d))"

definition layout :: "journal_file \<Rightarrow> bool" where
  "layout f \<longleftrightarrow>
     (let h = header f; hs = header_size h; aend = hs + arena_size h; tail = tail_object_offset h in
      sizeof_Header \<le> hs \<and> hs mod 8 = 0 \<and> aend < 2 ^ 63 \<and> aend \<le> st_size f \<and>
      st_size f \<le> file_size f \<and> (limited f \<longrightarrow> aend \<le> 2 ^ 60) \<and>
      finite (dom (store f)) \<and> n_objects h = card (dom (store f)) \<and>
      (\<forall>p ob. store f p = Some ob \<longrightarrow>
         p mod 8 = 0 \<and> hs \<le> p \<and> p \<le> tail \<and> object_ok ob \<and> p + o_size ob \<le> aend) \<and>
      (\<forall>p ob q. store f p = Some ob \<longrightarrow> q \<in> dom (store f) \<longrightarrow> p < q \<longrightarrow> p + o_size ob \<le> q) \<and>
      (if store f = Map.empty then tail = 0 else tail \<in> dom (store f)))"

text \<open>Two states that differ at most in the online state and the space allocated for the file.\<close>

definition core_of :: "journal_file \<Rightarrow> journal_file" where
  "core_of f = f\<lparr>st_size := 0, file_size := 0,
     header := (header f)\<lparr>state := 0, arena_size := 0\<rparr>\<rparr>"

definition same_content :: "journal_file \<Rightarrow> journal_file \<Rightarrow> bool" where
  "same_content f f' \<longleftrightarrow> core_of f = core_of f'"

lemma same_content_refl [simp]: "same_content f f"
  by (simp add: same_content_def)

lemma same_content_trans: "same_content f g \<Longrightarrow> same_content g h \<Longrightarrow> same_content f h"
  by (simp add: same_content_def)

lemma same_content_fields:
  assumes "same_content f f'"
  shows "store f' = store f" "data_hash_table f' = data_hash_table f"
    "field_hash_table f' = field_hash_table f" "chain_cache f' = chain_cache f"
    "metrics f' = metrics f" "compress_xz f' = compress_xz f" "compress_lz4 f' = compress_lz4 f"
    "writable f' = writable f" "fd_ok f' = fd_ok f"
    "tail_entry_monotonic_valid f' = tail_entry_monotonic_valid f"
    "(header f')\<lparr>state := 0, arena_size := 0\<rparr> = (header f)\<lparr>state := 0, arena_size := 0\<rparr>"
  using assms by (cases f; cases f'; simp add: same_content_def core_of_def)+

lemma same_content_header:
  assumes "same_content f f'"
  shows "header_size (header f') = header_size (header f)"
    "tail_object_offset (header f') = tail_object_offset (header f)"
    "n_objects (header f') = n_objects (header f)"
    "n_entries (header f') = n_entries (header f)"
    "n_data (header f') = n_data (header f)"
    "n_fields (header f') = n_fields (header f)"
    "n_entry_arrays (header f') = n_entry_arrays (header f)"
    "entry_array_offset (header f') = entry_array_offset (header f)"
    "tail_entry_seqnum (header f') = tail_entry_seqnum (header f)"
    "head_entry_seqnum (header f') = head_entry_seqnum (header f)"
    "tail_entry_monotonic (header f') = tail_entry_monotonic (header f)"
    "head_entry_realtime (header f') = head_entry_realtime (header f)"
    "tail_entry_realtime (header f') = tail_entry_realtime (header f)"
    "data_hash_table_size (header f') = data_hash_table_size (header f)"
    "field_hash_table_size (header f') = field_hash_table_size (header f)"
    "boot_id (header f') = boot_id (header f)"
  using same_content_fields(11) [OF assms] by (cases "header f"; cases "header f'"; simp)+

lemmas same_content_simps = same_content_fields(1-10) same_content_header

lemma layoutD:
  assumes "layout f" and "store f p = Some ob"
  shows "p mod 8 = 0" "header_size (header f) \<le> p" "p \<le> tail_object_offset (header f)"
    "object_ok ob" "p + o_size ob \<le> header_size (header f) + arena_size (header f)"
  using assms by (auto simp: layout_def Let_def)

lemma layout_bounds:
  assumes "layout f"
  shows "sizeof_Header \<le> header_size (header f)" "header_size (header f) mod 8 = 0"
    "header_size (header f) + arena_size (header f) < 2 ^ 63"
    "header_size (header f) + arena_size (header f) \<le> st_size f" "st_size f \<le> file_size f"
    "finite (dom (store f))" "n_objects (header f) = card (dom (store f))"
    "limited f \<Longrightarrow> header_size (header f) + arena_size (header f) \<le> 2 ^ 60"
  using assms by (auto simp: layout_def Let_def)

lemma layout_disjoint:
  "layout f \<Longrightarrow> store f p = Some ob \<Longrightarrow> q \<in> dom (store f) \<Longrightarrow> p < q \<Longrightarrow> p + o_size ob \<le> q"
  by (auto simp: layout_def Let_def)

lemma layout_tail:
  assumes "layout f"
  shows "tail_object_offset (header f) = 0 \<longleftrightarrow> store f = Map.empty"
    and "tail_object_offset (header f) \<noteq> 0 \<Longrightarrow> tail_object_offset (header f) \<in> dom (store f)"
proof -
  let ?t = "tail_object_offset (header f)"
  have tail: "if store f = Map.empty then ?t = 0 else ?t \<in> dom (store f)"
    using assms by (simp add: layout_def Let_def)
  have "?t \<noteq> 0" if ne: "store f \<noteq> Map.empty"
  proof -
    from tail ne have "?t \<in> dom (store f)" by simp
    then obtain ob where "store f ?t = Some ob" by auto
    then have "sizeof_Header \<le> ?t"
      using layoutD(2) [OF assms] layout_bounds(1) [OF assms] by fastforce
    then show ?thesis by (auto simp: sizeof_defs)
  qed
  with tail show "?t = 0 \<longleftrightarrow> store f = Map.empty" and "?t \<noteq> 0 \<Longrightarrow> ?t \<in> dom (store f)"
    by (auto split: if_splits)
qed

lemma object_ok_size:
  assumes "object_ok ob"
  shows "minimum_header_size ob \<le> o_size ob" "sizeof_ObjectHeader \<le> o_size ob"
    "o_type ob \<noteq> OBJECT_UNUSED"
  using assms by (auto simp: object_ok_def minimum_header_size_def sizeof_defs split: body.splits)

lemma two63_two64: "(2::nat) ^ 63 < two64"
  by (simp add: two64_def)

lemma arena_end_eq: "layout f \<Longrightarrow> arena_end f = header_size (header f) + arena_size (header f)"
  using layout_bounds(3) [of f] by (simp add: arena_end_def add64_def two64_def)

subsection \<open>Growing the allocated space\<close>

text \<open>A state that only has more space, or another online state, has the same layout.\<close>

lemma layout_grow:
  assumes "layout f" and "same_content f f'"
    and "arena_size (header f) \<le> arena_size (header f')"
    and "header_size (header f') + arena_size (header f') < 2 ^ 63"
    and "header_size (header f') + arena_size (header f') \<le> st_size f'" and "st_size f' \<le> file_size f'"
    and "limited f \<Longrightarrow> header_size (header f') + arena_size (header f') \<le> 2 ^ 60"
  shows "layout f'"
  using assms(1,3-7) unfolding layout_def Let_def limited_def same_content_simps [OF assms(2)]
  by (auto intro: order_trans [OF _ add_left_mono])

lemma set_online_run:
  assumes "journal_file_set_online f = Some (r, f')"
  shows "same_content f f'" "st_size f' = st_size f" "file_size f' = file_size f"
    "arena_size (header f') = arena_size (header f)"
    "r = Inr x \<Longrightarrow> writable f \<and> state (header f') = STATE_ONLINE"
  using assms
  by (auto simp: journal_file_set_online_def set_state_def same_content_def core_of_def split: if_splits)

lemma set_online_layout: "journal_file_set_online f = Some (r, f') \<Longrightarrow> layout f \<Longrightarrow> layout f'"
  using set_online_run [of f r f'] layout_bounds [of f]
  by (auto intro!: layout_grow [of f f'] simp: same_content_simps)

lemma move_to_run:
  assumes "journal_file_move_to E p n f = Some (r, f')"
  shows "f' = f \<or> f' = f\<lparr>st_size := file_size f\<rparr>"
  using assms by (auto simp: journal_file_move_to_def Let_def split: if_splits option.splits)

lemma stat_refresh:
  assumes "f' = f \<or> f' = f\<lparr>st_size := file_size f\<rparr>"
  shows "same_content f f'" "layout f \<Longrightarrow> layout f'"
proof -
  show sc: "same_content f f'" using assms by (auto simp: same_content_def core_of_def)
  show "layout f'" if "layout f"
    using assms layout_bounds [OF that] layout_grow [OF that sc] by auto
qed

lemma move_to_in_arena:
  assumes "layout f" and "0 < n" and "p + n \<le> header_size (header f) + arena_size (header f)"
  shows "journal_file_move_to E p n f =
    (case env_mmap E p n of Some e \<Rightarrow> Some (Inl e, f) | None \<Rightarrow> Some (Inr (), f))"
proof -
  have "add64 p n = p + n" "p + n \<le> st_size f"
    using assms layout_bounds(3,4) [OF assms(1)] two63_two64 by (auto simp: add64_def)
  then show ?thesis using assms(2) by (simp add: journal_file_move_to_def)
qed

text \<open>Environments in which mapping a window never fails.\<close>

definition mmap_ok :: "env \<Rightarrow> bool" where
  "mmap_ok E \<longleftrightarrow> (\<forall>p n. env_mmap E p n = None)"

lemma move_to_object_stored:
  assumes "layout f" and "mmap_ok E" and "store f p = Some ob"
    and "case ty of None \<Rightarrow> True | Some t \<Rightarrow> o_type ob = t"
  shows "journal_file_move_to_object E ty p f = Some (Inr ob, f)"
proof -
  note l = layoutD [OF assms(1,3)]
  note s = object_ok_size [OF l(4)]
  have "journal_file_move_to E p sizeof_ObjectHeader f = Some (Inr (), f)"
    using assms(2) l(5) s(2) by (subst move_to_in_arena [OF assms(1)]) (auto simp: mmap_ok_def sizeof_defs)
  moreover have "journal_file_move_to E p (o_size ob) f = Some (Inr (), f)"
    using assms(2) l(5) s(2) by (subst move_to_in_arena [OF assms(1)]) (auto simp: mmap_ok_def sizeof_defs)
  ultimately show ?thesis
    using assms(3,4) l(1) s by (auto simp: journal_file_move_to_object_def object_at_def VALID64_eq Let_def)
qed

lemma stat_refresh_trans:
  assumes "g = f \<or> g = f\<lparr>st_size := file_size f\<rparr>" and "h = g \<or> h = g\<lparr>st_size := file_size g\<rparr>"
  shows "h = f \<or> h = f\<lparr>st_size := file_size f\<rparr>"
  using assms by (elim disjE) simp_all

lemma move_to_object_refresh:
  assumes "journal_file_move_to_object E ty p f = Some (r, f')"
  shows "f' = f \<or> f' = f\<lparr>st_size := file_size f\<rparr>"
proof (cases r)
  case (Inl e)
  with assms show ?thesis
    by (auto simp: journal_file_move_to_object_def em_Inl em_Some Let_def
        dest!: move_to_run split: if_splits)
next
  case (Inr ob)
  with assms show ?thesis
    by (auto simp: journal_file_move_to_object_def em_Inl em_Some Let_def
        dest!: move_to_run split: if_splits)
qed

lemma move_to_object_Inr:
  assumes "journal_file_move_to_object E ty p f = Some (Inr ob, f')"
  shows "store f p = Some ob" and "case ty of None \<Rightarrow> True | Some t \<Rightarrow> o_type ob = t"
    and "VALID64 p"
proof -
  from assms obtain f1 where f1: "f1 = f \<or> f1 = f\<lparr>st_size := file_size f\<rparr>"
    and ob: "ob = object_at f1 p" "o_type ob \<noteq> OBJECT_UNUSED"
    and ty: "case ty of None \<Rightarrow> True | Some t \<Rightarrow> o_type ob = t"
    and "VALID64 p"
    by (auto simp: journal_file_move_to_object_def em_Some Let_def dest!: move_to_run)
  from f1 have "store f1 = store f" by auto
  with ob show "store f p = Some ob"
    by (auto simp: object_at_def zero_object_def split: option.splits)
  show "case ty of None \<Rightarrow> True | Some t \<Rightarrow> o_type ob = t" by (rule ty)
  show "VALID64 p" by fact
qed

lemma move_to_returns: "journal_file_move_to E q n g = None \<longleftrightarrow> False"
  by (auto simp: journal_file_move_to_def Let_def split: option.splits)

lemma move_to_object_returns: "journal_file_move_to_object E ty p f = None \<longleftrightarrow> False"
  by (auto simp: journal_file_move_to_object_def em_None Let_def move_to_returns
      simp del: not_None_eq split: if_splits)

lemma allocate_returns: "journal_file_allocate E p n f = None \<longleftrightarrow> False"
  by (auto simp: journal_file_allocate_def Let_def split: option.splits)

lemma set_online_returns: "journal_file_set_online f = None \<longleftrightarrow> False"
  by (auto simp: journal_file_set_online_def)

lemma append_object_returns: "journal_file_append_object E ty n f = None \<longleftrightarrow> False"
  by (auto simp: journal_file_append_object_def em_None Let_def move_to_returns allocate_returns
      set_online_returns move_to_object_returns simp del: not_None_eq split: if_splits)

lemma round_up_block:
  fixes x b :: nat
  assumes "0 < b"
  shows "x \<le> (x + b - 1) div b * b" "(x + b - 1) div b * b < x + b"
proof -
  have "x + b - 1 = (x + b - 1) div b * b + (x + b - 1) mod b" by simp
  moreover have "(x + b - 1) mod b < b" using assms by simp
  ultimately show "x \<le> (x + b - 1) div b * b" using assms by linarith
  have "(x + b - 1) div b * b \<le> x + b - 1" by (rule div_times_less_eq_dividend)
  then show "(x + b - 1) div b * b < x + b" using assms by linarith
qed

lemma PAGE_ALIGN_ge:
  assumes "env_ok E" and "x \<le> 2 ^ 63 + 2 ^ 62"
  shows "x \<le> PAGE_ALIGN E x" "PAGE_ALIGN E x < 2 ^ 63 + 2 ^ 62 + 2 ^ 32"
proof -
  from assms(1) obtain k where k: "k < 32" "env_page_size E = 2 ^ k" by (auto simp: env_ok_def)
  have pk: "(2::nat) ^ k \<le> 2 ^ 31" using k(1) by (intro power_increasing) auto
  have e: "PAGE_ALIGN E x = (x + 2 ^ k - 1) div 2 ^ k * 2 ^ k"
    unfolding PAGE_ALIGN_def k(2) using k(1) pk assms(2)
    by (intro ALIGN_TO_eq [OF refl]) (auto simp: two64_def)
  show "x \<le> PAGE_ALIGN E x" unfolding e by (rule round_up_block) simp
  have "PAGE_ALIGN E x < x + 2 ^ k" unfolding e by (rule round_up_block) simp
  then show "PAGE_ALIGN E x < 2 ^ 63 + 2 ^ 62 + 2 ^ 32" using assms(2) pk by simp
qed

lemma allocate_needed_bounds:
  assumes "env_ok E" and "layout f" and "p \<le> 2 ^ 63" and "n \<le> 2 ^ 62"
  shows "p + n \<le> allocate_needed E p n f" "header_size (header f) \<le> allocate_needed E p n f"
    "allocate_needed E p n f < 2 ^ 63 + 2 ^ 62 + 2 ^ 32"
proof -
  have "add64 p n = p + n" using assms(3,4) by (simp add: add64_def two64_def)
  moreover have "p + n \<le> PAGE_ALIGN E (p + n)" "PAGE_ALIGN E (p + n) < 2 ^ 63 + 2 ^ 62 + 2 ^ 32"
    using PAGE_ALIGN_ge [OF assms(1), of "p + n"] assms(3,4) by auto
  ultimately show "p + n \<le> allocate_needed E p n f"
    "header_size (header f) \<le> allocate_needed E p n f"
    "allocate_needed E p n f < 2 ^ 63 + 2 ^ 62 + 2 ^ 32"
    using layout_bounds(3) [OF assms(2)] by (auto simp: allocate_needed_def Let_def)
qed

lemma allocate_rounded_bounds:
  assumes "n < 2 ^ 63 + 2 ^ 62 + 2 ^ 32" and "\<not> allocate_too_big E f n"
  shows "n \<le> allocate_rounded f n" "allocate_rounded f n < two64"
    "limited f \<Longrightarrow> allocate_rounded f n \<le> 2 ^ 60"
proof -
  let ?big = "(n + FILE_SIZE_INCREASE - 1) div FILE_SIZE_INCREASE * FILE_SIZE_INCREASE"
  have big: "n \<le> ?big" "?big < n + FILE_SIZE_INCREASE"
    by (rule round_up_block, simp add: FILE_SIZE_INCREASE_def)+
  then have big64: "?big < two64"
    using assms(1) by (simp add: two64_def FILE_SIZE_INCREASE_def)
  have "add64 n FILE_SIZE_INCREASE = n + FILE_SIZE_INCREASE"
    using assms(1) by (simp add: add64_def two64_def FILE_SIZE_INCREASE_def)
  moreover have "sub64 (n + FILE_SIZE_INCREASE) 1 = n + FILE_SIZE_INCREASE - 1"
    using assms(1) by (intro sub64_eq) (auto simp: two64_def FILE_SIZE_INCREASE_def)
  ultimately have e: "allocate_rounded f n =
      (if max_size (metrics f) > 0 \<and> ?big > max_size (metrics f) then max_size (metrics f) else ?big)"
    using big64 by (simp add: allocate_rounded_def mul64_def)
  show "n \<le> allocate_rounded f n" "allocate_rounded f n < two64"
    "limited f \<Longrightarrow> allocate_rounded f n \<le> 2 ^ 60"
    unfolding e using assms(2) big big64 by (auto simp: allocate_too_big_def limited_def)
qed

text \<open>When the space is there, it covers the requested range; in every case the layout is kept.\<close>

lemma allocate_run:
  assumes ok: "env_ok E" and lay: "layout f"
    and p: "p \<le> 2 ^ 63" and n: "n \<le> 2 ^ 62"
    and run: "journal_file_allocate E p n f = Some (r, f')"
  shows "same_content f f'" "layout f'"
    "r = Inr x \<Longrightarrow> p + n \<le> header_size (header f') + arena_size (header f')"
proof -
  let ?hs = "header_size (header f)" and ?n = "allocate_needed E p n f"
  define old where "old = ?hs + arena_size (header f)"
  define new where "new = allocate_rounded f ?n"
  note b = layout_bounds [OF lay]
  note need = allocate_needed_bounds [OF ok lay p n]
  note run' = run [unfolded journal_file_allocate_def Let_def arena_end_eq [OF lay], folded old_def new_def]
  show sc: "same_content f f'" 
    using run' by (auto simp: same_content_def core_of_def split: if_splits option.splits)
  consider "f' = f" "r = Inr x \<Longrightarrow> ?n \<le> old" | "f' = f\<lparr>file_size := max (file_size f) new\<rparr>" "\<exists>e. r = Inl e"
    | "\<not> ?n \<le> old" "\<not> allocate_too_big E f ?n" "env_fallocate E old (sub64 new old) = None"
      "f' = f\<lparr>file_size := max (file_size f) new, st_size := max (file_size f) new,
          header := (header f)\<lparr>arena_size := sub64 new ?hs\<rparr>\<rparr>"
    using run' by (auto split: if_splits option.splits)
  then have "layout f' \<and> (r = Inr x \<longrightarrow> p + n \<le> header_size (header f') + arena_size (header f'))"
  proof cases
    case 1
    with lay need(1) show ?thesis by (auto simp: old_def)
  next
    case 2
    with b layout_grow [OF lay sc] show ?thesis by auto
  next
    case 3
    have new: "?n \<le> new" "new < two64" "limited f \<Longrightarrow> new \<le> 2 ^ 60"
      using allocate_rounded_bounds [OF need(3) 3(2)] by (auto simp: new_def)
    then have sub: "sub64 new old = new - old" "sub64 new ?hs = new - ?hs"
      using 3(1) need(2) by (auto intro!: sub64_eq)
    have "old + (new - old) < 2 ^ 63"
      using 3(3) ok unfolding sub env_ok_def by (metis linorder_not_le)
    with 3(1) new have "new < 2 ^ 63" by simp
    then have "layout f'"
      using new 3(1) need(2) by (intro layout_grow [OF lay sc]) (auto simp: 3(4) sub old_def)
    with new need show ?thesis by (simp add: 3(4) sub)
  qed
  then show "layout f'" "r = Inr x \<Longrightarrow> p + n \<le> header_size (header f') + arena_size (header f')"
    by auto
qed
subsection \<open>Appending an object keeps the layout\<close>

text \<open>The offset at which the next object goes.\<close>

definition append_position :: "journal_file \<Rightarrow> nat" where
  "append_position f =
     (if tail_object_offset (header f) = 0 then header_size (header f)
      else tail_object_offset (header f) +
        (o_size (object_at f (tail_object_offset (header f))) + 7) div 8 * 8)"

definition fresh_object :: "object_type \<Rightarrow> nat \<Rightarrow> object" where
  "fresh_object ty n = \<lparr>o_flags = 0, o_size = n, o_body = zero_body ty n\<rparr>"

definition add_tail :: "nat \<Rightarrow> header \<Rightarrow> header" where
  "add_tail p h = h\<lparr>tail_object_offset := p, n_objects := add64 (n_objects h) 1\<rparr>"

lemma round8: "(x :: nat) \<le> (x + 7) div 8 * 8" "(x + 7) div 8 * 8 mod 8 = 0"
  "(x + 7) div 8 * 8 < x + 8"
  using round_up_block [of 8 x] by auto

lemma append_position_facts:
  assumes lay: "layout f"
  shows "append_position f mod 8 = 0" "header_size (header f) \<le> append_position f"
    "append_position f \<le> 2 ^ 63"
    "store f q = Some ob \<Longrightarrow> q + o_size ob \<le> append_position f"
    "q \<in> dom (store f) \<Longrightarrow> q < append_position f"
proof -
  note b = layout_bounds [OF lay]
  let ?t = "tail_object_offset (header f)"
  have "append_position f mod 8 = 0 \<and> header_size (header f) \<le> append_position f \<and>
    append_position f \<le> 2 ^ 63 \<and> (\<forall>q ob. store f q = Some ob \<longrightarrow> q + o_size ob \<le> append_position f)"
  proof (cases "?t = 0")
    case True
    then have "store f = Map.empty" using layout_tail(1) [OF lay] by blast
    with True b show ?thesis by (simp add: append_position_def)
  next
    case False
    with layout_tail(2) [OF lay] obtain tob where tob: "store f ?t = Some tob" by blast
    note l = layoutD [OF lay tob]
    let ?r = "(o_size tob + 7) div 8 * 8"
    have e: "append_position f = ?t + ?r"
      using False tob by (simp add: append_position_def object_at_def)
    have m: "append_position f mod 8 = 0"
      unfolding e using l(1) by (simp add: mod_eq_0_iff_dvd)
    have "append_position f < 2 ^ 63 + 8"
      unfolding e using l(5) b(3) round8(3) [of "o_size tob"] by linarith
    with m have le: "append_position f \<le> 2 ^ 63" by (auto elim!: dvdE simp: mod_eq_0_iff_dvd)
    have "q + o_size ob \<le> append_position f" if q: "store f q = Some ob" for q ob
    proof (cases "q = ?t")
      case True
      with q tob show ?thesis using round8(1) [of "o_size tob"] by (simp add: e)
    next
      case False
      with layoutD(3) [OF lay q] have "q < ?t" by simp
      from layout_disjoint [OF lay q _ this] tob show ?thesis unfolding e by force
    qed
    with m le l(2) show ?thesis by (auto simp: e)
  qed
  then show "append_position f mod 8 = 0" "header_size (header f) \<le> append_position f"
    "append_position f \<le> 2 ^ 63" and o: "store f q = Some ob \<Longrightarrow> q + o_size ob \<le> append_position f"
    for q ob by auto
  show "q \<in> dom (store f) \<Longrightarrow> q < append_position f"
  proof -
    assume "q \<in> dom (store f)"
    then obtain qb where q: "store f q = Some qb" by auto
    from object_ok_size(2) [OF layoutD(4) [OF lay q]] have "0 < o_size qb" by (simp add: sizeof_defs)
    with o [OF q] show ?thesis by linarith
  qed
qed

lemma append_position_same: "same_content f g \<Longrightarrow> append_position g = append_position f"
  by (simp add: append_position_def object_at_def same_content_simps)

lemma card_store: "layout f \<Longrightarrow> card (dom (store f)) < 2 ^ 63"
proof -
  assume lay: "layout f"
  have "q < 2 ^ 63" if "q \<in> dom (store f)" for q
  proof -
    from that obtain ob where "store f q = Some ob" by auto
    from layoutD(5) [OF lay this] layout_bounds(3) [OF lay] show ?thesis by simp
  qed
  then have "dom (store f) \<subseteq> {sizeof_Header..<2 ^ 63}"
    using layoutD(2) [OF lay] layout_bounds(1) [OF lay] by fastforce
  then have "card (dom (store f)) \<le> card {sizeof_Header..<2 ^ 63}" by (intro card_mono) auto
  also have "\<dots> < 2 ^ 63" by (simp add: sizeof_defs)
  finally show ?thesis .
qed

lemma layout_append:
  assumes lay: "layout f" and p: "p = append_position f" and ob: "object_ok ob"
    and fit: "p + o_size ob \<le> header_size (header f) + arena_size (header f)"
  shows "layout (upd_header (add_tail p) (put_object p ob f))"
proof -
  note b = layout_bounds [OF lay] and ap = append_position_facts [OF lay, folded p]
  have new: "p \<notin> dom (store f)" using ap(5) by blast
  let ?f = "upd_header (add_tail p) (put_object p ob f)"
  have st: "store ?f = (store f)(p \<mapsto> ob)" and hd: "header ?f = add_tail p (header f)"
    "st_size ?f = st_size f" "file_size ?f = file_size f"
    by (simp_all add: upd_header_def put_object_def)
  have hs: "header_size (header ?f) = header_size (header f)"
    "arena_size (header ?f) = arena_size (header f)" "tail_object_offset (header ?f) = p"
    "n_objects (header ?f) = card (dom (store ?f))"
    using card_store [OF lay] b(6,7) new
    by (simp_all add: hd st add_tail_def add64_def two64_def card_insert_if)
  have objs: "q mod 8 = 0 \<and> header_size (header f) \<le> q \<and> q \<le> p \<and> object_ok qb \<and>
      q + o_size qb \<le> header_size (header f) + arena_size (header f)"
    if "store ?f q = Some qb" for q qb
    using that ap(1,2) ap(5) [THEN less_imp_le] ob fit layoutD [OF lay, of q qb]
    by (auto simp: st split: if_splits)
  have lt: "r < p" if "store f r = Some rb" for r rb using ap(5) that by blast
  have sep: "q + o_size qb \<le> r" if "store ?f q = Some qb" "r \<in> dom (store ?f)" "q < r" for q qb r
    using that ap(4) layout_disjoint [OF lay, of q qb r]
    by (auto simp: st split: if_splits dest: lt)
  show ?thesis
    unfolding layout_def Let_def hs
    using b(1-6,8) objs sep by (auto simp: st hd limited_def upd_header_def put_object_def)
qed

lemma move_to_object_frame:
  assumes "journal_file_move_to_object E ty p f = Some (r, f')" and "layout f"
  shows "same_content f f'" "layout f'"
  using stat_refresh [OF move_to_object_refresh [OF assms(1)]] assms(2) by auto

lemma move_to_frame:
  assumes "journal_file_move_to E p n f = Some (r, f')" and "layout f"
  shows "same_content f f'" "layout f'"
  using stat_refresh [OF move_to_run [OF assms(1)]] assms(2) by auto

lemma next_offset_run:
  assumes lay: "layout f"
    and run: "(if tail_object_offset (header f) = 0 then getE (\<lambda>f. header_size (header f))
       else bindE (journal_file_move_to_object E None (tail_object_offset (header f))) (\<lambda>tail.
         returnE (add64 (tail_object_offset (header f)) (ALIGN64 (o_size tail))))) f = Some (r, f')"
  shows "same_content f f'" "layout f'" "r = Inr p \<Longrightarrow> p = append_position f"
proof -
  let ?t = "tail_object_offset (header f)"
  have "same_content f f' \<and> layout f' \<and> (r = Inr p \<longrightarrow> p = append_position f)"
  proof (cases "?t = 0")
    case True
    with run lay show ?thesis by (auto simp: append_position_def)
  next
    case False
    show ?thesis
    proof (cases r)
      case (Inl e)
      with run False have "journal_file_move_to_object E None ?t f = Some (Inl e, f')"
        by (auto simp: em_Inl)
      with lay Inl show ?thesis by (auto dest: move_to_object_frame)
    next
      case (Inr q)
      with run False obtain tob where mv: "journal_file_move_to_object E None ?t f = Some (Inr tob, f')"
        and q: "q = add64 ?t (ALIGN64 (o_size tob))" by (auto simp: em_Some)
      from mv have tob: "store f ?t = Some tob" by (rule move_to_object_Inr)
      note l = layoutD [OF lay tob] layout_bounds [OF lay] append_position_facts(3) [OF lay]
      have "ALIGN64 (o_size tob) = (o_size tob + 7) div 8 * 8"
        using l(5,8) by (intro ALIGN64_eq) (simp add: two64_def)
      then have "q = append_position f"
        using False tob l q by (simp add: append_position_def object_at_def add64_def two64_def)
      with mv lay Inr show ?thesis by (auto dest: move_to_object_frame)
    qed
  qed
  then show "same_content f f'" "layout f'" "r = Inr p \<Longrightarrow> p = append_position f" by auto
qed

text \<open>
  \<open>append_object\<close> either fails and leaves all objects and counters as they were, or it puts a fresh
  object at the append position and makes it the tail object.
\<close>

definition grown :: "journal_file \<Rightarrow> journal_file \<Rightarrow> bool" where
  "grown f g \<longleftrightarrow> same_content f g \<and> layout g"

lemma set_online_triple:
  "layout f \<Longrightarrow> triple (\<lambda>s. s = f) journal_file_set_online (\<lambda>_ g. grown f g \<and> writable f) (\<lambda>_. grown f)"
  by (rule tripleI) (auto simp: grown_def dest: set_online_run set_online_layout)

lemma append_object_triple:
  assumes ok: "env_ok E" and lay: "layout f" and n: "n \<le> 2 ^ 62"
    and fresh: "object_ok (fresh_object ty n)"
  shows "triple (\<lambda>s. s = f) (journal_file_append_object E ty n)
    (\<lambda>p f'. \<exists>g. grown f g \<and> p = append_position f \<and>
       f' = upd_header (add_tail p) (put_object p (fresh_object ty n) g) \<and> layout f' \<and> writable f)
    (\<lambda>_. grown f)"
proof -
  let ?G = "\<lambda>g. grown f g \<and> writable f"
  have tr: "grown f h" if "grown f g" "same_content g h" "layout h" for g h
    using that same_content_trans by (auto simp: grown_def)
  have pos: "triple (\<lambda>g. ?G g \<and> t = tail_object_offset (header g))
      (if t = 0 then getE (\<lambda>f. header_size (header f))
       else bindE (journal_file_move_to_object E None t) (\<lambda>tail.
         returnE (add64 t (ALIGN64 (o_size tail)))))
      (\<lambda>p g. ?G g \<and> p = append_position f) (\<lambda>_. grown f)" for t
    by (rule tripleI; elim conjE; hypsubst)
      (use tr append_position_same in \<open>auto simp: grown_def dest: next_offset_run intro: same_content_trans\<close>)
  have alloc: "triple (\<lambda>g. ?G g \<and> p = append_position f) (journal_file_allocate E p n)
      (\<lambda>_ g. ?G g \<and> p = append_position f \<and> p + n \<le> header_size (header g) + arena_size (header g))
      (\<lambda>_. grown f)" for p
    using append_position_facts(3) [OF lay]
    by (intro tripleI)
      (auto simp: grown_def intro: same_content_trans dest: allocate_run [OF ok _ _ n])
  have move: "triple (\<lambda>g. ?G g \<and> p = append_position f \<and>
        p + n \<le> header_size (header g) + arena_size (header g)) (journal_file_move_to E p n)
      (\<lambda>_ g. ?G g \<and> p = append_position f \<and> p + n \<le> header_size (header g) + arena_size (header g))
      (\<lambda>_. grown f)" for p
    by (rule tripleI; drule move_to_run)
      (auto simp: grown_def intro: same_content_trans stat_refresh)
  have get: "triple ?G (getE (\<lambda>f. tail_object_offset (header f)))
      (\<lambda>t g. ?G g \<and> t = tail_object_offset (header g)) (\<lambda>_. grown f)"
    by (rule tripleI) (auto simp: em_Some em_Inl)
  have put: "triple (\<lambda>g. ?G g \<and> p = append_position f \<and>
        p + n \<le> header_size (header g) + arena_size (header g))
      (thenE (modifyE (put_object p \<lparr>o_flags = 0, o_size = n, o_body = zero_body ty n\<rparr>))
        (thenE (modifyE (upd_header (\<lambda>h. h\<lparr>tail_object_offset := p, n_objects := add64 (n_objects h) 1\<rparr>)))
          (returnE p)))
      (\<lambda>p f'. \<exists>g. grown f g \<and> p = append_position f \<and>
         f' = upd_header (add_tail p) (put_object p (fresh_object ty n) g) \<and> layout f' \<and> writable f)
      (\<lambda>_. grown f)" for p
  proof (rule tripleI)
    fix g q f' assume g: "?G g \<and> p = append_position f \<and>
        p + n \<le> header_size (header g) + arena_size (header g)"
      and "thenE (modifyE (put_object p \<lparr>o_flags = 0, o_size = n, o_body = zero_body ty n\<rparr>))
        (thenE (modifyE (upd_header (\<lambda>h. h\<lparr>tail_object_offset := p, n_objects := add64 (n_objects h) 1\<rparr>)))
          (returnE p)) g = Some (Inr q, f')"
    then have q: "q = p" and f': "f' = upd_header (add_tail p) (put_object p (fresh_object ty n) g)"
      by (auto simp: em_Some fresh_object_def add_tail_def [abs_def])
    from g have "p = append_position g" by (auto simp: grown_def dest: append_position_same)
    then have "layout f'"
      unfolding f' using g fresh by (intro layout_append) (auto simp: grown_def fresh_object_def)
    with g q f' show "\<exists>g. grown f g \<and> q = append_position f \<and>
         f' = upd_header (add_tail q) (put_object q (fresh_object ty n) g) \<and> layout f' \<and> writable f"
      by blast
  qed (auto simp: em_Inl)
  show ?thesis
    unfolding journal_file_append_object_def
    by (rule triple_thenE [OF set_online_triple [OF lay]] triple_bindE [OF get] triple_bindE [OF pos]
        triple_thenE [OF alloc] triple_thenE [OF move] put)+
qed

lemmas append_object_Inr = tripleD [OF append_object_triple, OF _ _ _ _ refl]
lemmas append_object_Inl = tripleD_err [OF append_object_triple, OF _ _ _ _ refl]

text \<open>Where the file has room, appending an object succeeds.\<close>

lemma append_object_room:
  assumes lay: "layout f" and mm: "mmap_ok E" and on: "writable f" "fd_ok f" "state (header f) = STATE_ONLINE"
    and n: "0 < n" "n \<le> 2 ^ 62" "append_position f + n \<le> header_size (header f) + arena_size (header f)"
      "PAGE_ALIGN E (append_position f + n) \<le> header_size (header f) + arena_size (header f)"
  shows "journal_file_append_object E ty n f =
    Some (Inr (append_position f), upd_header (add_tail (append_position f)) (put_object (append_position f) (fresh_object ty n) f))"
proof -
  let ?p = "append_position f" and ?t = "tail_object_offset (header f)"
  note b = layout_bounds [OF lay] and ap = append_position_facts [OF lay]
  have pos: "(if ?t = 0 then getE (\<lambda>f. header_size (header f))
       else bindE (journal_file_move_to_object E None ?t) (\<lambda>tail. returnE (add64 ?t (ALIGN64 (o_size tail))))) f =
     Some (Inr ?p, f)"
  proof (cases "?t = 0")
    case True
    then show ?thesis by (simp add: append_position_def)
  next
    case False
    with layout_tail(2) [OF lay] obtain tob where tob: "store f ?t = Some tob" by blast
    have mv: "journal_file_move_to_object E None ?t f = Some (Inr tob, f)"
      by (rule move_to_object_stored [OF lay mm tob]) simp
    note l = layoutD [OF lay tob]
    have "ALIGN64 (o_size tob) = (o_size tob + 7) div 8 * 8"
      using l(5) b(3) by (intro ALIGN64_eq) (simp add: two64_def)
    moreover have "?t + (o_size tob + 7) div 8 * 8 = ?p" using False tob by (simp add: append_position_def object_at_def)
    ultimately show ?thesis using False mv ap(3) by (simp add: add64_def two64_def)
  qed
  have s: "add64 ?p n = ?p + n" using ap(3) n(2) by (simp add: add64_def two64_def)
  have e: "arena_end f = header_size (header f) + arena_size (header f)"
    using b(3) by (simp add: arena_end_def add64_def two64_def)
  have alloc: "journal_file_allocate E ?p n f = Some (Inr (), f)"
    using n(4) by (simp add: journal_file_allocate_def allocate_needed_def s e Let_def)
  have mv: "journal_file_move_to E ?p n f = Some (Inr (), f)"
    using mm n b(4) by (subst move_to_in_arena [OF lay]) (auto simp: mmap_ok_def)
  show ?thesis
    unfolding journal_file_append_object_def using on pos alloc mv
    by (simp add: journal_file_set_online_def fresh_object_def add_tail_def [abs_def])
qed

end
