(* ===== verification/Chains.thy ===== *)
theory Chains
  imports File_Objects
begin

text \<open>
  Linked lists of objects in the store, by offset, with offset 0 as the end: the hash chains of the
  two hash tables and the chains of entry arrays.  \<open>buckets_ok\<close> is the invariant of a hash table
  with its chains, and \<open>buckets_link\<close> that linking an object at the tail of its bucket keeps it.
\<close>

section \<open>Chains\<close>

primrec chain :: "(nat \<rightharpoonup> nat) \<Rightarrow> nat \<Rightarrow> nat list \<Rightarrow> bool" where
  "chain nx p [] \<longleftrightarrow> p = 0"
| "chain nx p (a # as) \<longleftrightarrow> p \<noteq> 0 \<and> a = p \<and> (\<exists>q. nx p = Some q \<and> chain nx q as)"

lemma chain_zero [simp]: "chain nx 0 ps \<longleftrightarrow> ps = []"
  by (cases ps) auto

lemma chain_unique: "chain nx p ps \<Longrightarrow> chain nx p qs \<Longrightarrow> ps = qs"
proof (induction ps arbitrary: p qs)
  case Nil
  then show ?case by simp
next
  case (Cons a ps)
  then show ?case by (cases qs) auto
qed

lemma chain_dom: "chain nx p ps \<Longrightarrow> set ps \<subseteq> dom nx"
  by (induction ps arbitrary: p) auto

lemma chain_nonzero: "chain nx p ps \<Longrightarrow> 0 \<notin> set ps"
  by (induction ps arbitrary: p) auto

lemma chain_drop: "chain nx p (as @ b # bs) \<Longrightarrow> chain nx b (b # bs)"
  by (induction as arbitrary: p) auto

lemma chain_distinct: "chain nx p ps \<Longrightarrow> distinct ps"
proof (induction ps arbitrary: p)
  case (Cons a ps)
  then obtain q where q: "p \<noteq> 0" "a = p" "nx p = Some q" "chain nx q ps" by auto
  have "a \<notin> set ps"
  proof
    assume "a \<in> set ps"
    then obtain as bs where s: "ps = as @ a # bs" by (auto simp: in_set_conv_decomp)
    with q(4) have "chain nx a (a # bs)" by (auto dest: chain_drop)
    moreover from q have "chain nx a (a # ps)" by auto
    ultimately have "a # bs = a # ps" by (rule chain_unique)
    with s show False by simp
  qed
  with Cons q show ?case by auto
qed simp

lemma chain_upd [simp]: "a \<notin> set ps \<Longrightarrow> chain (nx(a := y)) p ps = chain nx p ps"
  by (induction ps arbitrary: p) auto

lemma chain_cong: "(\<And>a. a \<in> set ps \<Longrightarrow> nx a = nx' a) \<Longrightarrow> chain nx p ps = chain nx' p ps"
  by (induction ps arbitrary: p) auto

lemma chain_snoc:
  assumes "chain nx p ps" and "ps \<noteq> []" and "q \<notin> set ps" and "q \<noteq> 0"
  shows "chain (nx(last ps \<mapsto> q, q \<mapsto> 0)) p (ps @ [q])"
  using assms
proof (induction ps arbitrary: p)
  case (Cons a ps)
  then obtain r where r: "p \<noteq> 0" "a = p" "nx p = Some r" "chain nx r ps" by auto
  show ?case
  proof (cases "ps = []")
    case True
    with r Cons.prems show ?thesis by auto
  next
    case False
    have "a \<notin> set ps" using chain_distinct [OF Cons.prems(1)] by simp
    with False have "last ps \<noteq> a" by (metis last_in_set)
    with r False Cons show ?thesis by auto
  qed
qed simp

lemma chain_hd: "chain nx p ps \<Longrightarrow> p = (if ps = [] then 0 else hd ps)"
  by (cases ps) auto

section \<open>Hash tables\<close>

definition buckets_ok ::
  "hash_item list \<Rightarrow> (nat \<rightharpoonup> nat) \<Rightarrow> (nat \<rightharpoonup> nat) \<Rightarrow> (nat \<Rightarrow> nat list) \<Rightarrow> bool" where
  "buckets_ok tab nx hs C \<longleftrightarrow>
     (\<forall>h < length tab.
        chain nx (head_hash_offset (tab ! h)) (C h) \<and>
        tail_hash_offset (tab ! h) = (if C h = [] then 0 else last (C h)) \<and>
        (\<forall>p \<in> set (C h). \<exists>v. hs p = Some v \<and> v mod length tab = h)) \<and>
     (\<forall>p v. hs p = Some v \<longrightarrow> p \<in> set (C (v mod length tab)))"

definition table_ok :: "hash_item list \<Rightarrow> (nat \<rightharpoonup> nat) \<Rightarrow> (nat \<rightharpoonup> nat) \<Rightarrow> bool" where
  "table_ok tab nx hs \<longleftrightarrow> (\<exists>C. buckets_ok tab nx hs C)"

text \<open>What linking writes: the tail's successor or the head, and the tail of the bucket.\<close>

definition link_item :: "nat \<Rightarrow> hash_item \<Rightarrow> hash_item" where
  "link_item p it =
     \<lparr>head_hash_offset = (if tail_hash_offset it = 0 then p else head_hash_offset it),
      tail_hash_offset = p\<rparr>"

definition link_next :: "nat \<Rightarrow> nat \<Rightarrow> (nat \<rightharpoonup> nat) \<Rightarrow> (nat \<rightharpoonup> nat)" where
  "link_next t p nx = (if t = 0 then nx(p \<mapsto> 0) else nx(t \<mapsto> p, p \<mapsto> 0))"

lemma buckets_link:
  assumes ok: "buckets_ok tab nx hs C" and new: "p \<notin> dom nx" "p \<noteq> 0"
    and h: "h = v mod length tab" "0 < length tab"
  shows "buckets_ok (tab[h := link_item p (tab ! h)])
    (link_next (tail_hash_offset (tab ! h)) p nx) (hs(p \<mapsto> v)) (C(h := C h @ [p]))"
proof -
  let ?t = "tail_hash_offset (tab ! h)" and ?n = "length tab"
  let ?nx = "link_next ?t p nx"
  have hl: "h < ?n" using h by simp
  have c: "chain nx (head_hash_offset (tab ! i)) (C i)"
    and tl: "tail_hash_offset (tab ! i) = (if C i = [] then 0 else last (C i))"
    and hv: "\<forall>q \<in> set (C i). \<exists>v. hs q = Some v \<and> v mod ?n = i"
    if "i < ?n" for i
    using ok that by (simp_all add: buckets_ok_def)
  have pn: "p \<notin> set (C i)" if "i < ?n" for i using chain_dom [OF c [OF that]] new(1) by blast
  have nz: "0 \<notin> set (C i)" if "i < ?n" for i using chain_nonzero [OF c [OF that]] .
  have t0: "?t = 0 \<longleftrightarrow> C h = []"
    using tl [OF hl] nz [OF hl] last_in_set [of "C h"] by (cases "C h = []") metis+
  have disj: "last (C h) \<notin> set (C i)" if "i < ?n" "i \<noteq> h" "C h \<noteq> []" for i
    using hv [OF that(1)] hv [OF hl] that last_in_set [of "C h"] by fastforce
  have ch: "chain ?nx (head_hash_offset (link_item p (tab ! h))) (C h @ [p])"
  proof (cases "C h = []")
    case True
    then show ?thesis using t0 new by (simp add: link_item_def link_next_def)
  next
    case False
    then show ?thesis
      using t0 tl [OF hl] chain_snoc [OF c [OF hl] False pn [OF hl] new(2)]
      by (simp add: link_item_def link_next_def)
  qed
  have ci: "chain ?nx (head_hash_offset (tab ! i)) (C i)" if "i < ?n" "i \<noteq> h" for i
    using c [OF that(1)] pn [OF that(1)] disj [OF that] t0 tl [OF hl]
    by (auto simp: link_next_def)
  show ?thesis
    unfolding buckets_ok_def
  proof (intro conjI allI impI)
    fix i assume "i < length (tab[h := link_item p (tab ! h)])"
    then have i: "i < ?n" by simp
    show "chain ?nx (head_hash_offset (tab[h := link_item p (tab ! h)] ! i)) ((C(h := C h @ [p])) i)"
      using ch ci [OF i] hl i by (cases "i = h") auto
    show "tail_hash_offset (tab[h := link_item p (tab ! h)] ! i) =
        (if (C(h := C h @ [p])) i = [] then 0 else last ((C(h := C h @ [p])) i))"
      using tl [OF i] hl i by (cases "i = h") (auto simp: link_item_def)
    show "\<forall>q\<in>set ((C(h := C h @ [p])) i). \<exists>va. (hs(p \<mapsto> v)) q = Some va \<and>
        va mod length (tab[h := link_item p (tab ! h)]) = i"
      using hv [OF i] pn [OF i] h by (cases "i = h") (auto)
  next
    fix q w assume "(hs(p \<mapsto> v)) q = Some w"
    moreover have "hs q = Some w \<Longrightarrow> q \<in> set (C (w mod ?n))" using ok by (simp add: buckets_ok_def)
    ultimately show "q \<in> set ((C(h := C h @ [p])) (w mod length (tab[h := link_item p (tab ! h)])))"
      using h by (auto split: if_splits)
  qed
qed

lemma table_link:
  assumes "table_ok tab nx hs" and "p \<notin> dom nx" "p \<noteq> 0" and "0 < length tab"
  shows "table_ok (tab[v mod length tab := link_item p (tab ! (v mod length tab))])
    (link_next (tail_hash_offset (tab ! (v mod length tab))) p nx) (hs(p \<mapsto> v))"
proof -
  from assms(1) obtain C where "buckets_ok tab nx hs C" by (auto simp: table_ok_def)
  from buckets_link [OF this assms(2,3) refl assms(4)] show ?thesis unfolding table_ok_def by blast
qed

lemma table_tail:
  assumes "table_ok tab nx hs" and "h < length tab"
  shows "tail_hash_offset (tab ! h) = 0 \<or> tail_hash_offset (tab ! h) \<in> dom hs \<inter> dom nx"
proof -
  from assms obtain C where C: "buckets_ok tab nx hs C" by (auto simp: table_ok_def)
  with assms(2) have c: "chain nx (head_hash_offset (tab ! h)) (C h)"
    and t: "tail_hash_offset (tab ! h) = (if C h = [] then 0 else last (C h))"
    and v: "\<forall>p \<in> set (C h). \<exists>v. hs p = Some v \<and> v mod length tab = h"
    by (simp_all add: buckets_ok_def)
  show ?thesis
  proof (cases "C h = []")
    case False
    then have l: "last (C h) \<in> set (C h)" by simp
    with v chain_dom [OF c] have "last (C h) \<in> dom hs \<inter> dom nx" by blast
    with False t show ?thesis by simp
  qed (simp add: t)
qed

end
