(* ===== verification/File_Hash.thy ===== *)
theory File_Hash
  imports Chains Lookup3
begin

text \<open>
  Data and field objects of a journal file and the two hash tables that index them: the functions of
  \<open>lib/journal-file.c\<close> from \<open>journal_file_setup_data_hash_table\<close> to \<open>journal_file_append_data\<close>.  The
  invariant \<open>file_ok\<close> says that every chain of a table is a list of objects that ends at the tail
  of its bucket and that every object is in the bucket of its hash; on such files looking up,
  appending and looking up again behave as a set of byte strings without duplicates.
\<close>

section \<open>Members of the object union\<close>

definition data_of :: "object \<Rightarrow> data_object" where
  "data_of ob =
     (case o_body ob of
        DataBody d \<Rightarrow> d
      | _ \<Rightarrow> \<lparr>d_hash = 0, d_next_hash_offset = 0, d_next_field_offset = 0, d_entry_offset = 0,
               d_entry_array_offset = 0, d_n_entries = 0, d_payload = []\<rparr>)"

definition field_of :: "object \<Rightarrow> field_object" where
  "field_of ob =
     (case o_body ob of
        FieldBody d \<Rightarrow> d
      | _ \<Rightarrow> \<lparr>fo_hash = 0, fo_next_hash_offset = 0, fo_head_data_offset = 0, fo_payload = []\<rparr>)"

text \<open>Writing through an object pointer.\<close>

definition upd_object :: "nat \<Rightarrow> (object \<Rightarrow> object) \<Rightarrow> journal_file \<Rightarrow> journal_file" where
  "upd_object p g f = (case store f p of Some ob \<Rightarrow> put_object p (g ob) f | None \<Rightarrow> f)"

definition on_data :: "(data_object \<Rightarrow> data_object) \<Rightarrow> object \<Rightarrow> object" where
  "on_data g ob = (case o_body ob of DataBody d \<Rightarrow> ob\<lparr>o_body := DataBody (g d)\<rparr> | _ \<Rightarrow> ob)"

definition on_field :: "(field_object \<Rightarrow> field_object) \<Rightarrow> object \<Rightarrow> object" where
  "on_field g ob = (case o_body ob of FieldBody d \<Rightarrow> ob\<lparr>o_body := FieldBody (g d)\<rparr> | _ \<Rightarrow> ob)"

section \<open>Operations\<close>

text \<open>The hash of a byte string; journal files are written on little-endian machines here.\<close>

definition jhash :: "bytes \<Rightarrow> nat" where
  "jhash bs = unat (hash64 LittleEndian (byte_at bs) 0 (length bs))"

subsection \<open>Creating and mapping the tables\<close>

definition DEFAULT_DATA_HASH_TABLE_SIZE :: nat where
  "DEFAULT_DATA_HASH_TABLE_SIZE = 2047 * sizeof_HashItem"

definition DEFAULT_FIELD_HASH_TABLE_SIZE :: nat where
  "DEFAULT_FIELD_HASH_TABLE_SIZE = 333 * sizeof_HashItem"

definition data_hash_table_bytes :: "journal_file \<Rightarrow> nat" where
  "data_hash_table_bytes f =
     (let s = mul64 (mul64 (max_size (metrics f)) 4 div 768 div 3) sizeof_HashItem
      in if s < DEFAULT_DATA_HASH_TABLE_SIZE then DEFAULT_DATA_HASH_TABLE_SIZE else s)"

definition journal_file_setup_data_hash_table :: "env \<Rightarrow> unit jm" where
  "journal_file_setup_data_hash_table E =
     bindE (getE data_hash_table_bytes) (\<lambda>s.
     bindE (journal_file_append_object E OBJECT_DATA_HASH_TABLE
              (add64 sizeof_HashTableObject s)) (\<lambda>p.
     modifyE (\<lambda>f. upd_header (\<lambda>h. h\<lparr>data_hash_table_offset := add64 p sizeof_HashTableObject,
                                     data_hash_table_size := s\<rparr>)
                (f\<lparr>data_hash_table := replicate (s div sizeof_HashItem) zero_hash_item\<rparr>))))"

definition journal_file_setup_field_hash_table :: "env \<Rightarrow> unit jm" where
  "journal_file_setup_field_hash_table E =
     (let s = DEFAULT_FIELD_HASH_TABLE_SIZE in
      bindE (journal_file_append_object E OBJECT_FIELD_HASH_TABLE
               (add64 sizeof_HashTableObject s)) (\<lambda>p.
      modifyE (\<lambda>f. upd_header (\<lambda>h. h\<lparr>field_hash_table_offset := add64 p sizeof_HashTableObject,
                                      field_hash_table_size := s\<rparr>)
                (f\<lparr>field_hash_table := replicate (s div sizeof_HashItem) zero_hash_item\<rparr>))))"

text \<open>Mapping a table checks that it lies in the file; its items are already part of the state.\<close>

definition journal_file_map_data_hash_table :: "env \<Rightarrow> unit jm" where
  "journal_file_map_data_hash_table E =
     bindE (getE (\<lambda>f. (data_hash_table_offset (header f), data_hash_table_size (header f))))
       (\<lambda>(p, s). journal_file_move_to E p s)"

definition journal_file_map_field_hash_table :: "env \<Rightarrow> unit jm" where
  "journal_file_map_field_hash_table E =
     bindE (getE (\<lambda>f. (field_hash_table_offset (header f), field_hash_table_size (header f))))
       (\<lambda>(p, s). journal_file_move_to E p s)"

subsection \<open>Linking an object into its bucket\<close>

definition data_bucket :: "journal_file \<Rightarrow> nat \<Rightarrow> nat" where
  "data_bucket f hash = hash mod (data_hash_table_size (header f) div sizeof_HashItem)"

definition field_bucket :: "journal_file \<Rightarrow> nat \<Rightarrow> nat" where
  "field_bucket f hash = hash mod (field_hash_table_size (header f) div sizeof_HashItem)"

definition upd_data_table :: "nat \<Rightarrow> (hash_item \<Rightarrow> hash_item) \<Rightarrow> journal_file \<Rightarrow> journal_file" where
  "upd_data_table h g f = f\<lparr>data_hash_table := (data_hash_table f)[h := g (data_hash_table f ! h)]\<rparr>"

definition upd_field_table :: "nat \<Rightarrow> (hash_item \<Rightarrow> hash_item) \<Rightarrow> journal_file \<Rightarrow> journal_file" where
  "upd_field_table h g f = f\<lparr>field_hash_table := (field_hash_table f)[h := g (field_hash_table f ! h)]\<rparr>"

definition journal_file_link_field :: "env \<Rightarrow> nat \<Rightarrow> nat \<Rightarrow> unit jm" where
  "journal_file_link_field E offset hash =
     bindE (getE (\<lambda>f. object_at f offset)) (\<lambda>ob.
     thenE (guardE (o_type ob = OBJECT_FIELD) EINVAL)
     (thenE (modifyE (upd_object offset (on_field (\<lambda>d. d\<lparr>fo_next_hash_offset := 0, fo_head_data_offset := 0\<rparr>))))
     (bindE (getE (\<lambda>f. field_bucket f hash)) (\<lambda>h.
      bindE (getE (\<lambda>f. tail_hash_offset (field_hash_table f ! h))) (\<lambda>p.
      thenE (if p = 0
             then modifyE (upd_field_table h (\<lambda>it. it\<lparr>head_hash_offset := offset\<rparr>))
             else thenE (journal_file_move_to_object E (Some OBJECT_FIELD) p)
                    (modifyE (upd_object p (on_field (\<lambda>d. d\<lparr>fo_next_hash_offset := offset\<rparr>)))))
      (thenE (modifyE (upd_field_table h (\<lambda>it. it\<lparr>tail_hash_offset := offset\<rparr>)))
      (modifyE (\<lambda>f. if header_contains_n_fields (header f)
                     then upd_header (\<lambda>h. h\<lparr>n_fields := add64 (n_fields h) 1\<rparr>) f else f))))))))"

definition journal_file_link_data :: "env \<Rightarrow> nat \<Rightarrow> nat \<Rightarrow> unit jm" where
  "journal_file_link_data E offset hash =
     bindE (getE (\<lambda>f. object_at f offset)) (\<lambda>ob.
     thenE (guardE (o_type ob = OBJECT_DATA) EINVAL)
     (thenE (modifyE (upd_object offset (on_data (\<lambda>d. d\<lparr>d_next_hash_offset := 0,
               d_next_field_offset := 0, d_entry_offset := 0, d_entry_array_offset := 0,
               d_n_entries := 0\<rparr>))))
     (bindE (getE (\<lambda>f. data_bucket f hash)) (\<lambda>h.
      bindE (getE (\<lambda>f. tail_hash_offset (data_hash_table f ! h))) (\<lambda>p.
      thenE (if p = 0
             then modifyE (upd_data_table h (\<lambda>it. it\<lparr>head_hash_offset := offset\<rparr>))
             else thenE (journal_file_move_to_object E (Some OBJECT_DATA) p)
                    (modifyE (upd_object p (on_data (\<lambda>d. d\<lparr>d_next_hash_offset := offset\<rparr>)))))
      (thenE (modifyE (upd_data_table h (\<lambda>it. it\<lparr>tail_hash_offset := offset\<rparr>)))
      (modifyE (\<lambda>f. if header_contains_n_data (header f)
                     then upd_header (\<lambda>h. h\<lparr>n_data := add64 (n_data h) 1\<rparr>) f else f))))))))"

subsection \<open>Looking objects up\<close>

text \<open>
  The loops follow the chain of a bucket.  On a damaged file the chain may be a cycle, so the loops
  are partial.  The result is the offset of the object found, if any.
\<close>

partial_function (option) find_field_loop ::
  "env \<Rightarrow> bytes \<Rightarrow> nat \<Rightarrow> nat \<Rightarrow> nat \<Rightarrow> journal_file \<Rightarrow> (nat option res \<times> journal_file) option" where
  "find_field_loop E field hash osize p f =
     (if p > 0 then
        (case journal_file_move_to_object E (Some OBJECT_FIELD) p f of
           None \<Rightarrow> None
         | Some (Inl e, f) \<Rightarrow> Some (Inl e, f)
         | Some (Inr ob, f) \<Rightarrow>
             if fo_hash (field_of ob) = hash \<and> o_size ob = osize \<and>
                take (length field) (fo_payload (field_of ob)) = field
             then Some (Inr (Some p), f)
             else find_field_loop E field hash osize (fo_next_hash_offset (field_of ob)) f)
      else Some (Inr None, f))"

definition journal_file_find_field_object_with_hash :: "env \<Rightarrow> bytes \<Rightarrow> nat \<Rightarrow> nat option jm" where
  "journal_file_find_field_object_with_hash E field hash = (\<lambda>f.
     let osize = add64 sizeof_FieldObject (length field) in
     if field_hash_table_size (header f) = 0 then Some (Inl EBADMSG, f)
     else
       let h = field_bucket f hash;
           p = head_hash_offset (field_hash_table f ! h)
       in find_field_loop E field hash osize p f)"

definition journal_file_find_field_object :: "env \<Rightarrow> bytes \<Rightarrow> nat option jm" where
  "journal_file_find_field_object E field =
     journal_file_find_field_object_with_hash E field (jhash field)"

text \<open>
  Whether the object holds the data looked for.  The return value of \<open>decompress_blob\<close> is not used
  by the code: after a failure the comparison sees what is left in the buffer.
\<close>

definition data_match :: "env \<Rightarrow> bytes \<Rightarrow> nat \<Rightarrow> object \<Rightarrow> bool" where
  "data_match E data osize ob =
     (if o_flags ob AND OBJECT_COMPRESSION_MASK \<noteq> 0 then
        (case env_decompress E (o_flags ob AND OBJECT_COMPRESSION_MASK) (d_payload (data_of ob)) of
           Some b \<Rightarrow> b
         | None \<Rightarrow> env_stale E) = data
      else o_size ob = osize \<and> take (length data) (d_payload (data_of ob)) = data)"

partial_function (option) find_data_loop ::
  "env \<Rightarrow> bytes \<Rightarrow> nat \<Rightarrow> nat \<Rightarrow> nat \<Rightarrow> journal_file \<Rightarrow> (nat option res \<times> journal_file) option" where
  "find_data_loop E data hash osize p f =
     (if p > 0 then
        (case journal_file_move_to_object E (Some OBJECT_DATA) p f of
           None \<Rightarrow> None
         | Some (Inl e, f) \<Rightarrow> Some (Inl e, f)
         | Some (Inr ob, f) \<Rightarrow>
             if d_hash (data_of ob) \<noteq> hash
             then find_data_loop E data hash osize (d_next_hash_offset (data_of ob)) f
             else if o_flags ob AND OBJECT_COMPRESSION_MASK \<noteq> 0 \<and> o_size ob \<le> sizeof_DataObject
             then Some (Inl EBADMSG, f)
             else if data_match E data osize ob then Some (Inr (Some p), f)
             else find_data_loop E data hash osize (d_next_hash_offset (data_of ob)) f)
      else Some (Inr None, f))"

definition journal_file_find_data_object_with_hash :: "env \<Rightarrow> bytes \<Rightarrow> nat \<Rightarrow> nat option jm" where
  "journal_file_find_data_object_with_hash E data hash = (\<lambda>f.
     let osize = add64 sizeof_DataObject (length data) in
     if data_hash_table_size (header f) = 0 then Some (Inl EBADMSG, f)
     else
       let h = data_bucket f hash;
           p = head_hash_offset (data_hash_table f ! h)
       in find_data_loop E data hash osize p f)"

definition journal_file_find_data_object :: "env \<Rightarrow> bytes \<Rightarrow> nat option jm" where
  "journal_file_find_data_object E data =
     journal_file_find_data_object_with_hash E data (jhash data)"

subsection \<open>Appending\<close>

definition journal_file_append_field :: "env \<Rightarrow> bytes \<Rightarrow> nat jm" where
  "journal_file_append_field E field =
     (let hash = jhash field in
      bindE (journal_file_find_field_object_with_hash E field hash) (\<lambda>r.
      case r of
        Some p \<Rightarrow> returnE p
      | None \<Rightarrow>
          bindE (journal_file_append_object E OBJECT_FIELD
                   (add64 sizeof_FieldObject (length field))) (\<lambda>p.
          thenE (modifyE (upd_object p (on_field (\<lambda>d. d\<lparr>fo_hash := hash, fo_payload := field\<rparr>))))
          (thenE (journal_file_link_field E p hash)
          (thenE (journal_file_move_to_object E (Some OBJECT_FIELD) p)
          (returnE p))))))"

definition COMPRESSION_SIZE_THRESHOLD :: nat where
  "COMPRESSION_SIZE_THRESHOLD = 512"

text \<open>
  Filling in the payload.  \<open>compress_blob\<close> returns the compression used, or a negative error
  number; both are non-zero, so that the code takes a failure for a success.
\<close>

definition store_payload :: "env \<Rightarrow> bool \<Rightarrow> bytes \<Rightarrow> object \<Rightarrow> object" where
  "store_payload E compress data ob =
     (if compress \<and> length data \<ge> COMPRESSION_SIZE_THRESHOLD then
        (case env_compress E data of
           CompressOk compression blob \<Rightarrow>
             (on_data (\<lambda>d. d\<lparr>d_payload := blob\<rparr>) ob)
               \<lparr>o_size := add64 sizeof_DataObject (length blob), o_flags := o_flags ob OR compression\<rparr>
         | CompressErr compression rsize garbage \<Rightarrow>
             (on_data (\<lambda>d. d\<lparr>d_payload := garbage\<rparr>) ob)
               \<lparr>o_size := add64 sizeof_DataObject rsize, o_flags := o_flags ob OR compression\<rparr>)
      else on_data (\<lambda>d. d\<lparr>d_payload := data\<rparr>) ob)"

definition memchr :: "u8 \<Rightarrow> bytes \<Rightarrow> nat option" where
  "memchr c bs = (let i = length (takeWhile (\<lambda>b. b \<noteq> c) bs) in if i < length bs then Some i else None)"

definition EQUALS :: u8 where "EQUALS = 0x3d"

definition journal_file_append_data :: "env \<Rightarrow> bytes \<Rightarrow> nat jm" where
  "journal_file_append_data E data =
     (let hash = jhash data in
      bindE (journal_file_find_data_object_with_hash E data hash) (\<lambda>r.
      case r of
        Some p \<Rightarrow> returnE p
      | None \<Rightarrow>
          bindE (journal_file_append_object E OBJECT_DATA
                   (add64 sizeof_DataObject (length data))) (\<lambda>p.
          thenE (modifyE (upd_object p (on_data (\<lambda>d. d\<lparr>d_hash := hash\<rparr>))))
          (thenE (modifyE (\<lambda>f. upd_object p (store_payload E (compress_xz f) data) f))
          (thenE (journal_file_link_data E p hash)
          (thenE (journal_file_move_to_object E (Some OBJECT_DATA) p)
          (case memchr EQUALS data of
             None \<Rightarrow> returnE p
           | Some i \<Rightarrow>
               if i = 0 then returnE p
               else
                 bindE (journal_file_append_field E (take i data)) (\<lambda>fp.
                 bindE (getE (\<lambda>f. fo_head_data_offset (field_of (object_at f fp)))) (\<lambda>head.
                 thenE (modifyE (upd_object p (on_data (\<lambda>d. d\<lparr>d_next_field_offset := head\<rparr>))))
                 (thenE (modifyE (upd_object fp (on_field (\<lambda>d. d\<lparr>fo_head_data_offset := p\<rparr>))))
                 (returnE p)))))))))))"

section \<open>Views of the store\<close>

fun as_data :: "body \<Rightarrow> data_object option" where
  "as_data (DataBody d) = Some d"
| "as_data _ = None"

fun as_field :: "body \<Rightarrow> field_object option" where
  "as_field (FieldBody d) = Some d"
| "as_field _ = None"

definition data_map :: "journal_file \<Rightarrow> nat \<rightharpoonup> data_object" where
  "data_map f p = (case store f p of None \<Rightarrow> None | Some ob \<Rightarrow> as_data (o_body ob))"

definition field_map :: "journal_file \<Rightarrow> nat \<rightharpoonup> field_object" where
  "field_map f p = (case store f p of None \<Rightarrow> None | Some ob \<Rightarrow> as_field (o_body ob))"

lemma as_data_Some: "as_data b = Some d \<longleftrightarrow> b = DataBody d"
  by (cases b) auto

lemma as_field_Some: "as_field b = Some d \<longleftrightarrow> b = FieldBody d"
  by (cases b) auto

lemma data_map_Some: "data_map f p = Some d \<longleftrightarrow> (\<exists>ob. store f p = Some ob \<and> o_body ob = DataBody d)"
  by (auto simp: data_map_def as_data_Some split: option.splits)

lemma field_map_Some: "field_map f p = Some d \<longleftrightarrow> (\<exists>ob. store f p = Some ob \<and> o_body ob = FieldBody d)"
  by (auto simp: field_map_def as_field_Some split: option.splits)

text \<open>
  An object without its links: what remains fixed once the object is written.
\<close>

fun erase_body :: "body \<Rightarrow> body" where
  "erase_body (DataBody d) = DataBody (d\<lparr>d_next_hash_offset := 0, d_next_field_offset := 0,
     d_entry_offset := 0, d_entry_array_offset := 0, d_n_entries := 0\<rparr>)"
| "erase_body (FieldBody d) = FieldBody (d\<lparr>fo_next_hash_offset := 0, fo_head_data_offset := 0\<rparr>)"
| "erase_body (EntryArrayBody a) =
     EntryArrayBody \<lparr>ea_next_entry_array_offset = 0, ea_items = replicate (length (ea_items a)) 0\<rparr>"
| "erase_body b = b"

definition erase :: "object \<Rightarrow> object" where
  "erase ob = ob\<lparr>o_body := erase_body (o_body ob)\<rparr>"

definition erased :: "journal_file \<Rightarrow> nat \<Rightarrow> object option" where
  "erased f p = map_option erase (store f p)"

lemma erase_simps [simp]:
  "o_size (erase ob) = o_size ob" "o_flags (erase ob) = o_flags ob"
  "body_type (erase_body b) = body_type b" "object_ok (erase ob) = object_ok ob"
proof -
  show "body_type (erase_body b) = body_type b" by (cases b) simp_all
  show "object_ok (erase ob) = object_ok ob"
    by (cases "o_body ob") (simp_all add: erase_def object_ok_def)
qed (simp_all add: erase_def)

lemma dom_erased [simp]: "dom (erased f) = dom (store f)"
  by (auto simp: erased_def dom_def)

lemma erased_Some: "erased f p = Some eb \<longleftrightarrow> (\<exists>ob. store f p = Some ob \<and> eb = erase ob)"
  by (auto simp: erased_def)

lemma layout_objects_erased:
  "(\<forall>p ob. store f p = Some ob \<longrightarrow> Q p (object_ok ob) (o_size ob)) \<longleftrightarrow>
   (\<forall>p ob. erased f p = Some ob \<longrightarrow> Q p (object_ok ob) (o_size ob))"
proof (intro iffI allI impI)
  fix p ob assume *: "\<forall>p ob. store f p = Some ob \<longrightarrow> Q p (object_ok ob) (o_size ob)"
    and "erased f p = Some ob"
  then obtain ob0 where "store f p = Some ob0" "ob = erase ob0" by (auto simp: erased_Some)
  with * show "Q p (object_ok ob) (o_size ob)" by simp
next
  fix p ob assume *: "\<forall>p ob. erased f p = Some ob \<longrightarrow> Q p (object_ok ob) (o_size ob)"
    and "store f p = Some ob"
  then have "erased f p = Some (erase ob)" by (simp add: erased_def)
  with * have "Q p (object_ok (erase ob)) (o_size (erase ob))" by blast
  then show "Q p (object_ok ob) (o_size ob)" by simp
qed

lemma layout_cong:
  assumes e: "erased f' = erased f"
    and h: "header_size (header f') = header_size (header f)"
      "arena_size (header f') = arena_size (header f)"
      "tail_object_offset (header f') = tail_object_offset (header f)"
      "n_objects (header f') = n_objects (header f)"
      "st_size f' = st_size f" "file_size f' = file_size f" "metrics f' = metrics f"
  shows "layout f' = layout f"
proof -
  have d: "dom (store f') = dom (store f)" using dom_erased e by metis
  have em: "store f' = Map.empty \<longleftrightarrow> store f = Map.empty"
    using d by (metis dom_eq_empty_conv)
  have o: "(\<forall>p ob. store f' p = Some ob \<longrightarrow> Q p (object_ok ob) (o_size ob)) \<longleftrightarrow>
      (\<forall>p ob. store f p = Some ob \<longrightarrow> Q p (object_ok ob) (o_size ob))" for Q
    by (subst (1 2) layout_objects_erased) (simp add: e)
  have o2: "(\<forall>p ob q. store f' p = Some ob \<longrightarrow> q \<in> dom (store f) \<longrightarrow> p < q \<longrightarrow> p + o_size ob \<le> q) \<longleftrightarrow>
      (\<forall>p ob q. store f p = Some ob \<longrightarrow> q \<in> dom (store f) \<longrightarrow> p < q \<longrightarrow> p + o_size ob \<le> q)"
    using o [of "\<lambda>p _ n. \<forall>q. q \<in> dom (store f) \<longrightarrow> p < q \<longrightarrow> p + n \<le> q"] by blast
  show ?thesis
    unfolding layout_def Let_def limited_def h d em o2
    using o [of "\<lambda>p ok n. p mod 8 = 0 \<and> header_size (header f) \<le> p \<and> p \<le> tail_object_offset (header f) \<and>
      ok \<and> p + n \<le> header_size (header f) + arena_size (header f)"] by simp
qed

subsection \<open>Effect of writes on the views\<close>

lemma upd_object_fields [simp]:
  "header (upd_object p g f) = header f" "st_size (upd_object p g f) = st_size f"
  "file_size (upd_object p g f) = file_size f" "metrics (upd_object p g f) = metrics f"
  "data_hash_table (upd_object p g f) = data_hash_table f"
  "field_hash_table (upd_object p g f) = field_hash_table f"
  "chain_cache (upd_object p g f) = chain_cache f" "compress_xz (upd_object p g f) = compress_xz f"
  "writable (upd_object p g f) = writable f"
  "tail_entry_monotonic_valid (upd_object p g f) = tail_entry_monotonic_valid f"
  by (auto simp: upd_object_def put_object_def split: option.splits)

lemma upd_object_store: "store (upd_object p g f) = (store f)(p := map_option g (store f p))"
  by (auto simp: upd_object_def put_object_def split: option.splits)

lemma upd_header_fields [simp]:
  "header (upd_header g f) = g (header f)" "st_size (upd_header g f) = st_size f"
  "file_size (upd_header g f) = file_size f" "store (upd_header g f) = store f"
  "data_hash_table (upd_header g f) = data_hash_table f" "metrics (upd_header g f) = metrics f"
  "field_hash_table (upd_header g f) = field_hash_table f"
  "chain_cache (upd_header g f) = chain_cache f" "compress_xz (upd_header g f) = compress_xz f"
  "writable (upd_header g f) = writable f"
  by (simp_all add: upd_header_def)

lemma put_object_fields [simp]:
  "header (put_object p ob f) = header f" "st_size (put_object p ob f) = st_size f"
  "file_size (put_object p ob f) = file_size f" "store (put_object p ob f) = (store f)(p \<mapsto> ob)"
  "data_hash_table (put_object p ob f) = data_hash_table f" "metrics (put_object p ob f) = metrics f"
  "field_hash_table (put_object p ob f) = field_hash_table f"
  "chain_cache (put_object p ob f) = chain_cache f" "compress_xz (put_object p ob f) = compress_xz f"
  "writable (put_object p ob f) = writable f"
  by (simp_all add: put_object_def)

lemma upd_table_fields [simp]:
  "store (upd_data_table h g f) = store f" "header (upd_data_table h g f) = header f"
  "st_size (upd_data_table h g f) = st_size f" "file_size (upd_data_table h g f) = file_size f"
  "field_hash_table (upd_data_table h g f) = field_hash_table f"
  "data_hash_table (upd_data_table h g f) = (data_hash_table f)[h := g (data_hash_table f ! h)]"
  "chain_cache (upd_data_table h g f) = chain_cache f" "metrics (upd_data_table h g f) = metrics f"
  "compress_xz (upd_data_table h g f) = compress_xz f"
  "store (upd_field_table h g f) = store f" "header (upd_field_table h g f) = header f"
  "st_size (upd_field_table h g f) = st_size f" "file_size (upd_field_table h g f) = file_size f"
  "data_hash_table (upd_field_table h g f) = data_hash_table f"
  "field_hash_table (upd_field_table h g f) = (field_hash_table f)[h := g (field_hash_table f ! h)]"
  "chain_cache (upd_field_table h g f) = chain_cache f" "metrics (upd_field_table h g f) = metrics f"
  "compress_xz (upd_field_table h g f) = compress_xz f"
  by (simp_all add: upd_data_table_def upd_field_table_def)

lemma data_map_upd_data:
  "data_map (upd_object p (on_data g) f) = (data_map f)(p := map_option g (data_map f p))"
  by (rule ext) (auto simp: data_map_def upd_object_store on_data_def split: option.splits body.splits)

lemma data_map_upd_field: "data_map (upd_object p (on_field g) f) = data_map f"
  by (rule ext) (auto simp: data_map_def upd_object_store on_field_def split: option.splits body.splits)

lemma field_map_upd_field:
  "field_map (upd_object p (on_field g) f) = (field_map f)(p := map_option g (field_map f p))"
  by (rule ext) (auto simp: field_map_def upd_object_store on_field_def split: option.splits body.splits)

lemma field_map_upd_data: "field_map (upd_object p (on_data g) f) = field_map f"
  by (rule ext) (auto simp: field_map_def upd_object_store on_data_def split: option.splits body.splits)

lemma maps_same_store:
  "store f' = store f \<Longrightarrow> data_map f' = data_map f" "store f' = store f \<Longrightarrow> field_map f' = field_map f"
  "store f' = store f \<Longrightarrow> erased f' = erased f"
  by (auto simp: data_map_def field_map_def erased_def)

lemmas view_upd = data_map_upd_data data_map_upd_field field_map_upd_field field_map_upd_data

lemma erased_upd:
  assumes "\<And>ob. store f p = Some ob \<Longrightarrow> erase (g ob) = erase ob"
  shows "erased (upd_object p g f) = erased f"
  using assms by (cases "store f p") (auto simp: erased_def upd_object_store fun_eq_iff)

lemma erase_on_data:
  "(\<And>d. d_hash (g d) = d_hash d \<and> d_payload (g d) = d_payload d) \<Longrightarrow> erase (on_data g ob) = erase ob"
  by (auto simp: erase_def on_data_def split: body.splits)

lemma erase_on_field:
  "(\<And>d. fo_hash (g d) = fo_hash d \<and> fo_payload (g d) = fo_payload d) \<Longrightarrow> erase (on_field g ob) = erase ob"
  by (auto simp: erase_def on_field_def split: body.splits)


section \<open>Invariants\<close>

text \<open>What a data object stands for: its payload after decompression.\<close>

definition content :: "env \<Rightarrow> object \<Rightarrow> bytes option" where
  "content E ob =
     (if o_flags ob AND OBJECT_COMPRESSION_MASK \<noteq> 0
      then env_decompress E (o_flags ob AND OBJECT_COMPRESSION_MASK) (d_payload (data_of ob))
      else Some (d_payload (data_of ob)))"

definition has_data :: "env \<Rightarrow> journal_file \<Rightarrow> nat \<Rightarrow> bytes \<Rightarrow> bool" where
  "has_data E f p x \<longleftrightarrow>
     (\<exists>ob. erased f p = Some ob \<and> o_type ob = OBJECT_DATA \<and> content E ob = Some x)"

definition has_field :: "journal_file \<Rightarrow> nat \<Rightarrow> bytes \<Rightarrow> bool" where
  "has_field f p x \<longleftrightarrow>
     (\<exists>ob. erased f p = Some ob \<and> o_type ob = OBJECT_FIELD \<and> fo_payload (field_of ob) = x)"

definition data_next :: "(nat \<rightharpoonup> data_object) \<Rightarrow> (nat \<rightharpoonup> nat)" where
  "data_next m p = map_option d_next_hash_offset (m p)"

definition data_hashes :: "(nat \<rightharpoonup> data_object) \<Rightarrow> (nat \<rightharpoonup> nat)" where
  "data_hashes m p = map_option d_hash (m p)"

definition field_next :: "(nat \<rightharpoonup> field_object) \<Rightarrow> (nat \<rightharpoonup> nat)" where
  "field_next m p = map_option fo_next_hash_offset (m p)"

definition field_hashes :: "(nat \<rightharpoonup> field_object) \<Rightarrow> (nat \<rightharpoonup> nat)" where
  "field_hashes m p = map_option fo_hash (m p)"

text \<open>
  The index of the objects in \<open>m\<close>; \<open>m\<close> is the view of the file, less an object that is being added.
\<close>

definition data_index :: "journal_file \<Rightarrow> (nat \<rightharpoonup> data_object) \<Rightarrow> bool" where
  "data_index f m \<longleftrightarrow>
     length (data_hash_table f) = data_hash_table_size (header f) div sizeof_HashItem \<and>
     data_hash_table f \<noteq> [] \<and>
     table_ok (data_hash_table f) (data_next m) (data_hashes m) \<and>
     n_data (header f) = card (dom m) \<and> header_contains_n_data (header f)"

definition field_index :: "journal_file \<Rightarrow> (nat \<rightharpoonup> field_object) \<Rightarrow> bool" where
  "field_index f m \<longleftrightarrow>
     length (field_hash_table f) = field_hash_table_size (header f) div sizeof_HashItem \<and>
     field_hash_table f \<noteq> [] \<and>
     table_ok (field_hash_table f) (field_next m) (field_hashes m) \<and>
     n_fields (header f) = card (dom m) \<and> header_contains_n_fields (header f)"

definition data_wf :: "env \<Rightarrow> (nat \<Rightarrow> object option) \<Rightarrow> bool" where
  "data_wf E st \<longleftrightarrow>
     (\<forall>p ob. st p = Some ob \<longrightarrow> o_type ob = OBJECT_DATA \<longrightarrow>
        (o_flags ob AND OBJECT_COMPRESSION_MASK \<noteq> 0 \<longrightarrow> sizeof_DataObject < o_size ob) \<and>
        (\<exists>x. content E ob = Some x \<and> d_hash (data_of ob) = jhash x)) \<and>
     (\<forall>p q pb qb. st p = Some pb \<longrightarrow> st q = Some qb \<longrightarrow> o_type pb = OBJECT_DATA \<longrightarrow>
        o_type qb = OBJECT_DATA \<longrightarrow> content E pb = content E qb \<longrightarrow> p = q)"

definition field_wf :: "(nat \<Rightarrow> object option) \<Rightarrow> bool" where
  "field_wf st \<longleftrightarrow>
     (\<forall>p ob. st p = Some ob \<longrightarrow> o_type ob = OBJECT_FIELD \<longrightarrow>
        fo_hash (field_of ob) = jhash (fo_payload (field_of ob))) \<and>
     (\<forall>p q pb qb. st p = Some pb \<longrightarrow> st q = Some qb \<longrightarrow> o_type pb = OBJECT_FIELD \<longrightarrow>
        o_type qb = OBJECT_FIELD \<longrightarrow> fo_payload (field_of pb) = fo_payload (field_of qb) \<longrightarrow> p = q)"

lemma data_wf_insert:
  assumes "data_wf E st" and "st p = None"
    and "o_type ob = OBJECT_DATA \<Longrightarrow> content E ob = Some x \<and> d_hash (data_of ob) = jhash x \<and>
      (o_flags ob AND OBJECT_COMPRESSION_MASK \<noteq> 0 \<longrightarrow> sizeof_DataObject < o_size ob) \<and>
      (\<forall>q qb. st q = Some qb \<longrightarrow> o_type qb = OBJECT_DATA \<longrightarrow> content E qb \<noteq> content E ob)"
  shows "data_wf E (st(p \<mapsto> ob))"
  unfolding data_wf_def
proof (intro conjI allI impI, goal_cases)
  case (3 q r qb rb)
  then show ?case
    using assms unfolding data_wf_def by (cases "q = p"; cases "r = p") (simp; metis)+
qed (use assms in \<open>auto simp: data_wf_def split: if_splits\<close>)

lemma field_wf_insert:
  assumes "field_wf st" and "st p = None"
    and "o_type ob = OBJECT_FIELD \<Longrightarrow> fo_hash (field_of ob) = jhash (fo_payload (field_of ob)) \<and>
      (\<forall>q qb. st q = Some qb \<longrightarrow> o_type qb = OBJECT_FIELD \<longrightarrow>
         fo_payload (field_of qb) \<noteq> fo_payload (field_of ob))"
  shows "field_wf (st(p \<mapsto> ob))"
  using assms unfolding field_wf_def by (auto simp: eq_commute)

text \<open>The invariant of a sound file.\<close>

definition file_ok :: "env \<Rightarrow> journal_file \<Rightarrow> bool" where
  "file_ok E f \<longleftrightarrow>
     layout f \<and> data_index f (data_map f) \<and> field_index f (field_map f) \<and>
     data_wf E (erased f) \<and> field_wf (erased f)"

lemmas file_okD = file_ok_def [THEN iffD1, THEN conjunct1]
  file_ok_def [THEN iffD1, THEN conjunct2, THEN conjunct1]
  file_ok_def [THEN iffD1, THEN conjunct2, THEN conjunct2, THEN conjunct1]
  file_ok_def [THEN iffD1, THEN conjunct2, THEN conjunct2, THEN conjunct2, THEN conjunct1]
  file_ok_def [THEN iffD1, THEN conjunct2, THEN conjunct2, THEN conjunct2, THEN conjunct2]

section \<open>Looking up\<close>

lemma data_of_erase [simp]:
  "d_hash (data_of (erase ob)) = d_hash (data_of ob)"
  "d_payload (data_of (erase ob)) = d_payload (data_of ob)"
  "fo_hash (field_of (erase ob)) = fo_hash (field_of ob)"
  "fo_payload (field_of (erase ob)) = fo_payload (field_of ob)"
  "o_type (erase ob) = o_type ob"
  by (cases "o_body ob"; simp add: erase_def data_of_def field_of_def)+

lemma content_erase [simp]: "content E (erase ob) = content E ob"
  by (simp add: content_def)

lemma has_data_store:
  "has_data E f p x \<longleftrightarrow> (\<exists>ob. store f p = Some ob \<and> o_type ob = OBJECT_DATA \<and> content E ob = Some x)"
  by (auto simp: has_data_def erased_Some)

lemma has_field_store:
  "has_field f p x \<longleftrightarrow> (\<exists>ob. store f p = Some ob \<and> o_type ob = OBJECT_FIELD \<and> fo_payload (field_of ob) = x)"
  by (auto simp: has_field_def erased_Some)

lemma o_type_data: "o_type ob = OBJECT_DATA \<longleftrightarrow> o_body ob = DataBody (data_of ob)"
  by (cases "o_body ob") (auto simp: data_of_def)

lemma o_type_field: "o_type ob = OBJECT_FIELD \<longleftrightarrow> o_body ob = FieldBody (field_of ob)"
  by (cases "o_body ob") (auto simp: field_of_def)

lemma data_map_of:
  "data_map f p = Some d \<longleftrightarrow> (\<exists>ob. store f p = Some ob \<and> o_type ob = OBJECT_DATA \<and> d = data_of ob)"
  by (auto simp: data_map_Some o_type_data data_of_def)

lemma field_map_of:
  "field_map f p = Some d \<longleftrightarrow> (\<exists>ob. store f p = Some ob \<and> o_type ob = OBJECT_FIELD \<and> d = field_of ob)"
  by (auto simp: field_map_Some o_type_field field_of_def)

lemma data_match_content:
  assumes "layout f" and "data_wf E (erased f)" and "store f p = Some ob" and "o_type ob = OBJECT_DATA"
    and "length x < 2 ^ 63"
  shows "data_match E x (add64 sizeof_DataObject (length x)) ob \<longleftrightarrow> content E ob = Some x"
proof -
  from assms(2-4) have "erased f p = Some (erase ob)" by (simp add: erased_Some)
  with assms(2,4) obtain y where y: "content E ob = Some y"
    unfolding data_wf_def by (metis content_erase data_of_erase(5))
  have sz: "o_size ob = sizeof_DataObject + length (d_payload (data_of ob))"
    using layoutD(4) [OF assms(1,3)] assms(4) by (auto simp: object_ok_def o_type_data)
  have "add64 sizeof_DataObject (length x) = sizeof_DataObject + length x"
    using assms(5) by (simp add: add64_def two64_def sizeof_defs)
  with y sz show ?thesis by (auto simp: data_match_def content_def split: if_splits)
qed

text \<open>The lookup loop returns the first object of the chain that matches.\<close>

lemma find_data_loop_chain:
  assumes ok: "layout f" "mmap_ok E" "data_wf E (erased f)" and len: "length x < 2 ^ 63"
  shows "chain (data_next (data_map f)) p ps \<Longrightarrow>
    find_data_loop E x (jhash x) (add64 sizeof_DataObject (length x)) p f =
      Some (Inr (List.find (\<lambda>q. has_data E f q x) ps), f)"
proof (induction ps arbitrary: p)
  case Nil
  then show ?case by (simp add: find_data_loop.simps)
next
  case (Cons a ps)
  then obtain q where p: "0 < p" "a = p" and q: "data_next (data_map f) p = Some q"
    and rest: "chain (data_next (data_map f)) q ps" by auto
  from q obtain ob where ob: "store f p = Some ob" "o_type ob = OBJECT_DATA"
    and nq: "q = d_next_hash_offset (data_of ob)" by (auto simp: data_next_def data_map_of)
  have mv: "journal_file_move_to_object E (Some OBJECT_DATA) p f = Some (Inr ob, f)"
    using ob by (intro move_to_object_stored ok) auto
  have er: "erased f p = Some (erase ob)" using ob by (simp add: erased_Some)
  have wf: "o_flags ob AND OBJECT_COMPRESSION_MASK \<noteq> 0 \<Longrightarrow> \<not> o_size ob \<le> sizeof_DataObject"
    "content E ob = Some x \<Longrightarrow> d_hash (data_of ob) = jhash x"
    using ok(3) er ob(2) unfolding data_wf_def by fastforce+
  have hit: "has_data E f p x \<longleftrightarrow> content E ob = Some x" using ob by (simp add: has_data_store)
  show ?case
    using p Cons.IH [OF rest] data_match_content [OF ok(1,3) ob len] wf
    by (subst find_data_loop.simps) (auto simp: mv hit nq)
qed


lemma find_field_loop_chain:
  assumes ok: "layout f" "mmap_ok E" "field_wf (erased f)" and len: "length x < 2 ^ 63"
  shows "chain (field_next (field_map f)) p ps \<Longrightarrow>
    find_field_loop E x (jhash x) (add64 sizeof_FieldObject (length x)) p f =
      Some (Inr (List.find (\<lambda>q. has_field f q x) ps), f)"
proof (induction ps arbitrary: p)
  case Nil
  then show ?case by (simp add: find_field_loop.simps)
next
  case (Cons a ps)
  then obtain q where p: "0 < p" "a = p" and q: "field_next (field_map f) p = Some q"
    and rest: "chain (field_next (field_map f)) q ps" by auto
  from q obtain ob where ob: "store f p = Some ob" "o_type ob = OBJECT_FIELD"
    and nq: "q = fo_next_hash_offset (field_of ob)" by (auto simp: field_next_def field_map_of)
  have mv: "journal_file_move_to_object E (Some OBJECT_FIELD) p f = Some (Inr ob, f)"
    using ob by (intro move_to_object_stored ok) auto
  have er: "erased f p = Some (erase ob)" using ob by (simp add: erased_Some)
  have wf: "fo_hash (field_of ob) = jhash (fo_payload (field_of ob))"
    using ok(3) er ob(2) unfolding field_wf_def by fastforce
  have sz: "o_size ob = sizeof_FieldObject + length (fo_payload (field_of ob))"
    using layoutD(4) [OF ok(1) ob(1)] ob(2) by (auto simp: object_ok_def o_type_field)
  have "add64 sizeof_FieldObject (length x) = sizeof_FieldObject + length x"
    using len by (simp add: add64_def two64_def sizeof_defs)
  with sz wf have hit: "has_field f p x \<longleftrightarrow> fo_hash (field_of ob) = jhash x \<and>
      o_size ob = add64 sizeof_FieldObject (length x) \<and> take (length x) (fo_payload (field_of ob)) = x"
    using ob by (auto simp: has_field_store)
  show ?case
    using p Cons.IH [OF rest] by (subst find_field_loop.simps) (auto simp: mv hit nq)
qed

text \<open>So a lookup finds the object with the given content, and nothing when there is none.\<close>

lemma find_in_bucket:
  assumes ok: "table_ok tab nx hs" and tab: "tab \<noteq> []"
    and hit: "\<And>q. P q \<Longrightarrow> hs q = Some v" and unique: "\<And>q r. P q \<Longrightarrow> P r \<Longrightarrow> q = r"
  obtains ps where "chain nx (head_hash_offset (tab ! (v mod length tab))) ps"
    and "\<And>q. P q \<Longrightarrow> List.find P ps = Some q" and "(\<nexists>q. P q) \<Longrightarrow> List.find P ps = None"
proof -
  from ok obtain C where C: "buckets_ok tab nx hs C" by (auto simp: table_ok_def)
  let ?h = "v mod length tab"
  have c: "chain nx (head_hash_offset (tab ! ?h)) (C ?h)" and all: "\<And>q. hs q = Some v \<Longrightarrow> q \<in> set (C ?h)"
    using C tab by (auto simp: buckets_ok_def)
  have found: "List.find P (C ?h) = Some q" if "P q" for q
  proof -
    have "q \<in> set (C ?h)" using all hit that by blast
    then have "List.find P (C ?h) \<noteq> None" using that by (auto simp: find_None_iff)
    then obtain r where r: "List.find P (C ?h) = Some r" by blast
    then have "P r" by (auto simp: find_Some_iff)
    with that unique r show ?thesis by blast
  qed
  show ?thesis
    by (rule that [OF c found]) (auto simp: find_None_iff)
qed

lemma find_data_ok:
  assumes ok: "file_ok E f" and mm: "mmap_ok E" and len: "length x < 2 ^ 63"
  shows find_data_hit: "has_data E f p x \<Longrightarrow>
      journal_file_find_data_object_with_hash E x (jhash x) f = Some (Inr (Some p), f)"
    and find_data_miss: "(\<nexists>p. has_data E f p x) \<Longrightarrow>
      journal_file_find_data_object_with_hash E x (jhash x) f = Some (Inr None, f)"
proof -
  note fo = file_okD [OF ok]
  have ix: "table_ok (data_hash_table f) (data_next (data_map f)) (data_hashes (data_map f))"
    "data_hash_table f \<noteq> []" "length (data_hash_table f) = data_hash_table_size (header f) div sizeof_HashItem"
    using fo(2) by (simp_all add: data_index_def)
  have sz: "data_hash_table_size (header f) \<noteq> 0"
    using ix(2,3) by (cases "data_hash_table_size (header f) = 0") auto
  have hs: "data_hashes (data_map f) q = Some (jhash x)" if "has_data E f q x" for q
    using that fo(4) unfolding has_data_def data_wf_def data_hashes_def
    by (fastforce simp: erased_Some data_map_of)
  have un: "q = r" if "has_data E f q x" "has_data E f r x" for q r
    using that fo(4) unfolding has_data_def data_wf_def by (metis option.inject)
  obtain ps where ps: "chain (data_next (data_map f)) (head_hash_offset (data_hash_table f !
      (jhash x mod length (data_hash_table f)))) ps"
    and hit: "\<And>q. has_data E f q x \<Longrightarrow> List.find (\<lambda>q. has_data E f q x) ps = Some q"
    and miss: "(\<nexists>q. has_data E f q x) \<Longrightarrow> List.find (\<lambda>q. has_data E f q x) ps = None"
    using find_in_bucket [OF ix(1,2), of "\<lambda>q. has_data E f q x"] hs un by blast
  have run: "journal_file_find_data_object_with_hash E x (jhash x) f =
      Some (Inr (List.find (\<lambda>q. has_data E f q x) ps), f)"
    using sz find_data_loop_chain [OF fo(1) mm fo(4) len ps]
    by (simp add: journal_file_find_data_object_with_hash_def data_bucket_def ix(3))
  show "has_data E f p x \<Longrightarrow> journal_file_find_data_object_with_hash E x (jhash x) f = Some (Inr (Some p), f)"
    by (simp add: run hit)
  show "(\<nexists>p. has_data E f p x) \<Longrightarrow>
      journal_file_find_data_object_with_hash E x (jhash x) f = Some (Inr None, f)"
    unfolding run using miss by (metis (no_types))
qed

lemma find_field_ok:
  assumes ok: "file_ok E f" and mm: "mmap_ok E" and len: "length x < 2 ^ 63"
  shows find_field_hit: "has_field f p x \<Longrightarrow>
      journal_file_find_field_object_with_hash E x (jhash x) f = Some (Inr (Some p), f)"
    and find_field_miss: "(\<nexists>p. has_field f p x) \<Longrightarrow>
      journal_file_find_field_object_with_hash E x (jhash x) f = Some (Inr None, f)"
proof -
  note fo = file_okD [OF ok]
  have ix: "table_ok (field_hash_table f) (field_next (field_map f)) (field_hashes (field_map f))"
    "field_hash_table f \<noteq> []" "length (field_hash_table f) = field_hash_table_size (header f) div sizeof_HashItem"
    using fo(3) by (simp_all add: field_index_def)
  have sz: "field_hash_table_size (header f) \<noteq> 0"
    using ix(2,3) by (cases "field_hash_table_size (header f) = 0") auto
  have hs: "field_hashes (field_map f) q = Some (jhash x)" if "has_field f q x" for q
    using that fo(5) unfolding has_field_def field_wf_def field_hashes_def
    by (fastforce simp: erased_Some field_map_of)
  have un: "q = r" if "has_field f q x" "has_field f r x" for q r
    using that fo(5) unfolding has_field_def field_wf_def by metis
  obtain ps where ps: "chain (field_next (field_map f)) (head_hash_offset (field_hash_table f !
      (jhash x mod length (field_hash_table f)))) ps"
    and hit: "\<And>q. has_field f q x \<Longrightarrow> List.find (\<lambda>q. has_field f q x) ps = Some q"
    and miss: "(\<nexists>q. has_field f q x) \<Longrightarrow> List.find (\<lambda>q. has_field f q x) ps = None"
    using find_in_bucket [OF ix(1,2), of "\<lambda>q. has_field f q x"] hs un by blast
  have run: "journal_file_find_field_object_with_hash E x (jhash x) f =
      Some (Inr (List.find (\<lambda>q. has_field f q x) ps), f)"
    using sz find_field_loop_chain [OF fo(1) mm fo(5) len ps]
    by (simp add: journal_file_find_field_object_with_hash_def field_bucket_def ix(3))
  show "has_field f p x \<Longrightarrow> journal_file_find_field_object_with_hash E x (jhash x) f = Some (Inr (Some p), f)"
    by (simp add: run hit)
  show "(\<nexists>p. has_field f p x) \<Longrightarrow>
      journal_file_find_field_object_with_hash E x (jhash x) f = Some (Inr None, f)"
    unfolding run using miss by (metis (no_types))
qed

end
