(* ===== verification/File_Intern.thy ===== *)
theory File_Intern
  imports File_Hash
begin

text \<open>
  Proofs about appending data and field objects (\<open>journal_file_link_data\<close>, \<open>journal_file_append_data\<close>
  and their counterparts for fields in \<open>lib/journal-file.c\<close>): linking an object keeps the invariant of
  the tables, appending keeps the invariant \<open>file_ok\<close> in every outcome, and both kinds of object are
  an instance of the locale \<open>interned\<close>, a store in which every value has one key.
\<close>

section \<open>Linking\<close>

text \<open>
  An object without the links of the hash tables.  Linking changes nothing else, so that what is said
  about entries in terms of stripped objects is kept.
\<close>

fun strip_body :: "body \<Rightarrow> body" where
  "strip_body (DataBody d) = DataBody (d\<lparr>d_next_hash_offset := 0, d_next_field_offset := 0\<rparr>)"
| "strip_body (FieldBody d) = FieldBody (d\<lparr>fo_next_hash_offset := 0, fo_head_data_offset := 0\<rparr>)"
| "strip_body b = b"

definition strip :: "object \<Rightarrow> object" where
  "strip ob = ob\<lparr>o_body := strip_body (o_body ob)\<rparr>"

definition stripped :: "journal_file \<Rightarrow> nat \<Rightarrow> object option" where
  "stripped f p = map_option strip (store f p)"

lemma erase_strip [simp]: "erase (strip ob) = erase ob"
  by (cases "o_body ob") (simp_all add: erase_def strip_def)

lemma erased_stripped: "erased f p = map_option erase (stripped f p)"
  by (simp add: erased_def stripped_def option.map_comp comp_def)

lemma stripped_erased: "stripped f' = stripped f \<Longrightarrow> erased f' = erased f"
  by (rule ext) (simp add: erased_stripped)

lemma strip_on_data:
  "(\<And>d. o_body ob = DataBody d \<Longrightarrow> (g d)\<lparr>d_next_hash_offset := 0, d_next_field_offset := 0\<rparr> =
     d\<lparr>d_next_hash_offset := 0, d_next_field_offset := 0\<rparr>) \<Longrightarrow> strip (on_data g ob) = strip ob"
  by (auto simp: strip_def on_data_def split: body.splits)

lemma strip_on_field:
  "(\<And>d. fo_hash (g d) = fo_hash d \<and> fo_payload (g d) = fo_payload d) \<Longrightarrow> strip (on_field g ob) = strip ob"
  by (auto simp: strip_def on_field_def split: body.splits)

lemma stripped_upd:
  assumes "\<And>ob. store f p = Some ob \<Longrightarrow> strip (g ob) = strip ob"
  shows "stripped (upd_object p g f) = stripped f"
  using assms by (cases "store f p") (auto simp: stripped_def upd_object_store fun_eq_iff)

lemma stripped_same_store [simp]:
  "stripped (upd_header g f) = stripped f" "stripped (upd_data_table h i f) = stripped f"
  "stripped (upd_field_table h i f) = stripped f"
  by (auto simp: stripped_def)

lemma maps_fields [simp]:
  "data_map (upd_header g f) = data_map f" "data_map (upd_data_table h i f) = data_map f"
  "data_map (upd_field_table h i f) = data_map f"
  "field_map (upd_header g f) = field_map f" "field_map (upd_data_table h i f) = field_map f"
  "field_map (upd_field_table h i f) = field_map f"
  by (rule maps_same_store; simp)+

text \<open>What data and field objects have no part in: everything but the store, its size and the tables.\<close>

definition frame_of :: "journal_file \<Rightarrow> journal_file" where
  "frame_of f = f\<lparr>st_size := 0, file_size := 0, store := Map.empty, data_hash_table := [],
     field_hash_table := [],
     header := (header f)\<lparr>state := 0, arena_size := 0, tail_object_offset := 0, n_objects := 0,
       n_data := 0, n_fields := 0\<rparr>\<rparr>"

definition same_frame :: "journal_file \<Rightarrow> journal_file \<Rightarrow> bool" where
  "same_frame f f' \<longleftrightarrow> frame_of f' = frame_of f"

lemma same_frame_refl [simp]: "same_frame f f"
  by (simp add: same_frame_def)

lemma same_frame_trans: "same_frame f g \<Longrightarrow> same_frame g h \<Longrightarrow> same_frame f h"
  by (simp add: same_frame_def)

lemma same_frame_fields:
  assumes "same_frame f f'"
  shows "chain_cache f' = chain_cache f" "metrics f' = metrics f" "compress_xz f' = compress_xz f"
    "compress_lz4 f' = compress_lz4 f" "writable f' = writable f" "fd_ok f' = fd_ok f"
    "tail_entry_monotonic_valid f' = tail_entry_monotonic_valid f"
    "(header f')\<lparr>state := 0, arena_size := 0, tail_object_offset := 0, n_objects := 0,
       n_data := 0, n_fields := 0\<rparr> = (header f)\<lparr>state := 0, arena_size := 0, tail_object_offset := 0,
       n_objects := 0, n_data := 0, n_fields := 0\<rparr>"
  using assms by (cases f; cases f'; simp add: same_frame_def frame_of_def)+

lemma same_frame_header:
  assumes "same_frame f f'"
  shows "header_size (header f') = header_size (header f)"
    "n_entries (header f') = n_entries (header f)"
    "n_entry_arrays (header f') = n_entry_arrays (header f)"
    "entry_array_offset (header f') = entry_array_offset (header f)"
    "tail_entry_seqnum (header f') = tail_entry_seqnum (header f)"
    "head_entry_seqnum (header f') = head_entry_seqnum (header f)"
    "tail_entry_monotonic (header f') = tail_entry_monotonic (header f)"
    "head_entry_realtime (header f') = head_entry_realtime (header f)"
    "tail_entry_realtime (header f') = tail_entry_realtime (header f)"
    "data_hash_table_size (header f') = data_hash_table_size (header f)"
    "field_hash_table_size (header f') = field_hash_table_size (header f)"
    "boot_id (header f') = boot_id (header f)"
  using same_frame_fields(8) [OF assms] by (cases "header f"; cases "header f'"; simp)+

lemma frame_upd [simp]:
  "frame_of (upd_object p g f) = frame_of f" "frame_of (upd_data_table h i f) = frame_of f"
  "frame_of (upd_field_table h i f) = frame_of f"
  "frame_of (upd_header (\<lambda>h. h\<lparr>n_data := F h\<rparr>) f) = frame_of f"
  "frame_of (upd_header (\<lambda>h. h\<lparr>n_fields := F h\<rparr>) f) = frame_of f"
  "frame_of (upd_header (add_tail q) f) = frame_of f" "frame_of (put_object q ob f) = frame_of f"
  by (auto simp: frame_of_def upd_object_def put_object_def upd_data_table_def
      upd_field_table_def upd_header_def add_tail_def split: option.splits)

lemma same_frame_content: "same_content f g \<Longrightarrow> same_frame f g"
  by (cases f; cases g; cases "header f"; cases "header g")
    (simp add: same_content_def core_of_def same_frame_def frame_of_def)

text \<open>The state that linking leaves behind.\<close>

definition linked_data :: "nat \<Rightarrow> nat \<Rightarrow> journal_file \<Rightarrow> journal_file" where
  "linked_data p v f =
     (let h = data_bucket f v; t = tail_hash_offset (data_hash_table f ! h);
          f1 = upd_object p (on_data (\<lambda>d. d\<lparr>d_next_hash_offset := 0, d_next_field_offset := 0,
                 d_entry_offset := 0, d_entry_array_offset := 0, d_n_entries := 0\<rparr>)) f;
          f2 = (if t = 0 then upd_data_table h (\<lambda>it. it\<lparr>head_hash_offset := p\<rparr>) f1
                else upd_object t (on_data (\<lambda>d. d\<lparr>d_next_hash_offset := p\<rparr>)) f1);
          f3 = upd_data_table h (\<lambda>it. it\<lparr>tail_hash_offset := p\<rparr>) f2
      in if header_contains_n_data (header f)
         then upd_header (\<lambda>h. h\<lparr>n_data := add64 (n_data h) 1\<rparr>) f3 else f3)"

definition linked_field :: "nat \<Rightarrow> nat \<Rightarrow> journal_file \<Rightarrow> journal_file" where
  "linked_field p v f =
     (let h = field_bucket f v; t = tail_hash_offset (field_hash_table f ! h);
          f1 = upd_object p (on_field (\<lambda>d. d\<lparr>fo_next_hash_offset := 0, fo_head_data_offset := 0\<rparr>)) f;
          f2 = (if t = 0 then upd_field_table h (\<lambda>it. it\<lparr>head_hash_offset := p\<rparr>) f1
                else upd_object t (on_field (\<lambda>d. d\<lparr>fo_next_hash_offset := p\<rparr>)) f1);
          f3 = upd_field_table h (\<lambda>it. it\<lparr>tail_hash_offset := p\<rparr>) f2
      in if header_contains_n_fields (header f)
         then upd_header (\<lambda>h. h\<lparr>n_fields := add64 (n_fields h) 1\<rparr>) f3 else f3)"

lemma layout_upd:
  assumes "layout f" and "\<And>ob. store f p = Some ob \<Longrightarrow> erase (g ob) = erase ob"
  shows "layout (upd_object p g f)"
  using assms(1) layout_cong [of "upd_object p g f" f] erased_upd [OF assms(2)] by simp

lemma link_data_run:
  assumes lay: "layout f" and mm: "mmap_ok E" and p: "store f p = Some ob" "o_type ob = OBJECT_DATA"
    and t: "tail_hash_offset (data_hash_table f ! data_bucket f v) \<noteq> 0 \<Longrightarrow>
      tail_hash_offset (data_hash_table f ! data_bucket f v) \<in> dom (data_map f)"
  shows "journal_file_link_data E p v f = Some (Inr (), linked_data p v f)"
proof -
  let ?t = "tail_hash_offset (data_hash_table f ! data_bucket f v)"
  let ?f = "upd_object p (on_data (\<lambda>d. d\<lparr>d_next_hash_offset := 0, d_next_field_offset := 0,
                 d_entry_offset := 0, d_entry_array_offset := 0, d_n_entries := 0\<rparr>)) f"
  have lf: "layout ?f" by (rule layout_upd [OF lay erase_on_data]) auto
  have mv: "\<exists>tb. journal_file_move_to_object E (Some OBJECT_DATA) ?t ?f = Some (Inr tb, ?f)" if "?t \<noteq> 0"
  proof -
    have "data_map ?f ?t \<noteq> None" using t [OF that] by (auto simp: view_upd)
    then obtain tb where "store ?f ?t = Some tb" "o_type tb = OBJECT_DATA" by (auto simp: data_map_of)
    then show ?thesis by (intro exI move_to_object_stored [OF lf mm]) auto
  qed
  show ?thesis
    using p mv unfolding journal_file_link_data_def linked_data_def
    by (cases "?t = 0") (auto simp: object_at_def data_bucket_def Let_def)
qed

lemma link_field_run:
  assumes lay: "layout f" and mm: "mmap_ok E" and p: "store f p = Some ob" "o_type ob = OBJECT_FIELD"
    and t: "tail_hash_offset (field_hash_table f ! field_bucket f v) \<noteq> 0 \<Longrightarrow>
      tail_hash_offset (field_hash_table f ! field_bucket f v) \<in> dom (field_map f)"
  shows "journal_file_link_field E p v f = Some (Inr (), linked_field p v f)"
proof -
  let ?t = "tail_hash_offset (field_hash_table f ! field_bucket f v)"
  let ?f = "upd_object p (on_field (\<lambda>d. d\<lparr>fo_next_hash_offset := 0, fo_head_data_offset := 0\<rparr>)) f"
  have lf: "layout ?f" by (rule layout_upd [OF lay erase_on_field]) auto
  have mv: "\<exists>tb. journal_file_move_to_object E (Some OBJECT_FIELD) ?t ?f = Some (Inr tb, ?f)" if "?t \<noteq> 0"
  proof -
    have "field_map ?f ?t \<noteq> None" using t [OF that] by (auto simp: view_upd)
    then obtain tb where "store ?f ?t = Some tb" "o_type tb = OBJECT_FIELD" by (auto simp: field_map_of)
    then show ?thesis by (intro exI move_to_object_stored [OF lf mm]) auto
  qed
  show ?thesis
    using p mv unfolding journal_file_link_field_def linked_field_def
    by (cases "?t = 0") (auto simp: object_at_def field_bucket_def Let_def)
qed

lemma linked_data_views:
  assumes d: "data_map f p = Some d" "d_entry_offset d = 0" "d_entry_array_offset d = 0" "d_n_entries d = 0"
    and h: "h = data_bucket f v" "h < length (data_hash_table f)"
    and t: "t = tail_hash_offset (data_hash_table f ! h)" "t \<noteq> 0 \<Longrightarrow> t \<in> dom (data_map f)" "t \<noteq> p"
    and m: "m = (data_map f)(p := None)"
  shows "stripped (linked_data p v f) = stripped f"
    "data_next (data_map (linked_data p v f)) = link_next t p (data_next m)"
    "data_hashes (data_map (linked_data p v f)) = (data_hashes m)(p \<mapsto> d_hash d)"
    "dom (data_map (linked_data p v f)) = insert p (dom m)"
    "data_hash_table (linked_data p v f) = (data_hash_table f)[h := link_item p (data_hash_table f ! h)]"
    "field_map (linked_data p v f) = field_map f"
    "field_hash_table (linked_data p v f) = field_hash_table f"
    "header (linked_data p v f) = (if header_contains_n_data (header f)
       then (header f)\<lparr>n_data := add64 (n_data (header f)) 1\<rparr> else header f)"
    "same_frame f (linked_data p v f)"
    "st_size (linked_data p v f) = st_size f" "file_size (linked_data p v f) = file_size f"
proof -
  have fresh: "strip (on_data (\<lambda>d. d\<lparr>d_next_hash_offset := 0, d_next_field_offset := 0,
      d_entry_offset := 0, d_entry_array_offset := 0, d_n_entries := 0\<rparr>) ob) = strip ob"
    if "store f p = Some ob" for ob
    using that d by (intro strip_on_data) (auto simp: data_map_Some)
  show "stripped (linked_data p v f) = stripped f"
    using fresh by (auto simp: linked_data_def Let_def stripped_upd strip_on_data)
  show "data_next (data_map (linked_data p v f)) = link_next t p (data_next m)"
    using d t by (auto simp: linked_data_def Let_def h(1) [symmetric] view_upd data_next_def m link_next_def fun_eq_iff)
  show "data_hashes (data_map (linked_data p v f)) = (data_hashes m)(p \<mapsto> d_hash d)"
    using d t by (auto simp: linked_data_def Let_def h(1) [symmetric] view_upd data_hashes_def m fun_eq_iff)
  show "dom (data_map (linked_data p v f)) = insert p (dom m)"
    using d t by (auto simp: linked_data_def Let_def h(1) [symmetric] view_upd m split: if_splits)
  show "data_hash_table (linked_data p v f) = (data_hash_table f)[h := link_item p (data_hash_table f ! h)]"
    using h(2) t by (cases "data_hash_table f ! h")
      (auto simp: linked_data_def Let_def h(1) [symmetric] link_item_def)
  show "field_map (linked_data p v f) = field_map f"
    by (auto simp: linked_data_def Let_def view_upd)
  show "field_hash_table (linked_data p v f) = field_hash_table f"
    "header (linked_data p v f) = (if header_contains_n_data (header f)
       then (header f)\<lparr>n_data := add64 (n_data (header f)) 1\<rparr> else header f)"
    "st_size (linked_data p v f) = st_size f" "file_size (linked_data p v f) = file_size f"
    by (auto simp: linked_data_def Let_def)
  show "same_frame f (linked_data p v f)"
    by (auto simp: linked_data_def Let_def same_frame_def)
qed

lemma linked_field_views:
  assumes d: "field_map f p = Some d"
    and h: "h = field_bucket f v" "h < length (field_hash_table f)"
    and t: "t = tail_hash_offset (field_hash_table f ! h)" "t \<noteq> 0 \<Longrightarrow> t \<in> dom (field_map f)" "t \<noteq> p"
    and m: "m = (field_map f)(p := None)"
  shows "stripped (linked_field p v f) = stripped f"
    "field_next (field_map (linked_field p v f)) = link_next t p (field_next m)"
    "field_hashes (field_map (linked_field p v f)) = (field_hashes m)(p \<mapsto> fo_hash d)"
    "dom (field_map (linked_field p v f)) = insert p (dom m)"
    "field_hash_table (linked_field p v f) = (field_hash_table f)[h := link_item p (field_hash_table f ! h)]"
    "data_map (linked_field p v f) = data_map f"
    "data_hash_table (linked_field p v f) = data_hash_table f"
    "header (linked_field p v f) = (if header_contains_n_fields (header f)
       then (header f)\<lparr>n_fields := add64 (n_fields (header f)) 1\<rparr> else header f)"
    "same_frame f (linked_field p v f)"
    "st_size (linked_field p v f) = st_size f" "file_size (linked_field p v f) = file_size f"
proof -
  have fresh: "strip (on_field (\<lambda>d. d\<lparr>fo_next_hash_offset := 0, fo_head_data_offset := 0\<rparr>) ob) = strip ob"
    if "store f p = Some ob" for ob
    using that d by (intro strip_on_field) (auto simp: field_map_Some)
  show "stripped (linked_field p v f) = stripped f"
    using fresh by (auto simp: linked_field_def Let_def stripped_upd strip_on_field)
  show "field_next (field_map (linked_field p v f)) = link_next t p (field_next m)"
    using d t by (auto simp: linked_field_def Let_def h(1) [symmetric] view_upd field_next_def m link_next_def fun_eq_iff)
  show "field_hashes (field_map (linked_field p v f)) = (field_hashes m)(p \<mapsto> fo_hash d)"
    using d t by (auto simp: linked_field_def Let_def h(1) [symmetric] view_upd field_hashes_def m fun_eq_iff)
  show "dom (field_map (linked_field p v f)) = insert p (dom m)"
    using d t by (auto simp: linked_field_def Let_def h(1) [symmetric] view_upd m split: if_splits)
  show "field_hash_table (linked_field p v f) = (field_hash_table f)[h := link_item p (field_hash_table f ! h)]"
    using h(2) t by (cases "field_hash_table f ! h")
      (auto simp: linked_field_def Let_def h(1) [symmetric] link_item_def)
  show "data_map (linked_field p v f) = data_map f"
    by (auto simp: linked_field_def Let_def view_upd)
  show "data_hash_table (linked_field p v f) = data_hash_table f"
    "header (linked_field p v f) = (if header_contains_n_fields (header f)
       then (header f)\<lparr>n_fields := add64 (n_fields (header f)) 1\<rparr> else header f)"
    "st_size (linked_field p v f) = st_size f" "file_size (linked_field p v f) = file_size f"
    by (auto simp: linked_field_def Let_def)
  show "same_frame f (linked_field p v f)"
    by (auto simp: linked_field_def Let_def same_frame_def)
qed


text \<open>A file in which the object at \<open>p\<close> is written but not yet in its table.\<close>

definition pending_data :: "env \<Rightarrow> journal_file \<Rightarrow> nat \<Rightarrow> nat \<Rightarrow> bool" where
  "pending_data E f p v \<longleftrightarrow>
     layout f \<and> data_index f ((data_map f)(p := None)) \<and> field_index f (field_map f) \<and>
     data_wf E (erased f) \<and> field_wf (erased f) \<and>
     (\<exists>d. data_map f p = Some d \<and> d_hash d = v \<and> d_entry_offset d = 0 \<and> d_entry_array_offset d = 0 \<and>
        d_n_entries d = 0)"

definition pending_field :: "env \<Rightarrow> journal_file \<Rightarrow> nat \<Rightarrow> nat \<Rightarrow> bool" where
  "pending_field E f p v \<longleftrightarrow>
     layout f \<and> data_index f (data_map f) \<and> field_index f ((field_map f)(p := None)) \<and>
     data_wf E (erased f) \<and> field_wf (erased f) \<and>
     (\<exists>d. field_map f p = Some d \<and> fo_hash d = v)"

lemma dom_maps: "dom (data_map f) \<subseteq> dom (store f)" "dom (field_map f) \<subseteq> dom (store f)"
  by (auto simp: data_map_Some field_map_Some)

lemma card_maps:
  assumes "layout f"
  shows "card (dom (data_map f)) < 2 ^ 63" "card (dom (field_map f)) < 2 ^ 63"
    "finite (dom (data_map f))" "finite (dom (field_map f))"
proof -
  note b = card_store [OF assms] layout_bounds(6) [OF assms]
  show "card (dom (data_map f)) < 2 ^ 63" "card (dom (field_map f)) < 2 ^ 63"
    using b card_mono [OF b(2) dom_maps(1)] card_mono [OF b(2) dom_maps(2)] by simp_all
  show "finite (dom (data_map f))" "finite (dom (field_map f))"
    using b(2) dom_maps by (meson finite_subset)+
qed

lemma count_insert:
  assumes "finite S" and "p \<in> S" and "card S < 2 ^ 63"
  shows "add64 (card (S - {p})) 1 = card (insert p (S - {p}))"
proof -
  have "0 < card S" using assms by (auto simp: card_gt_0_iff)
  with assms show ?thesis by (simp add: add64_def two64_def card_Diff_singleton insert_absorb)
qed

lemma stored_nonzero: "layout f \<Longrightarrow> p \<in> dom (store f) \<Longrightarrow> p \<noteq> 0"
  using layoutD(2) [of f p] layout_bounds(1) [of f] by (auto simp: sizeof_defs)

lemma link_data_ok:
  assumes "pending_data E f p v" and mm: "mmap_ok E"
  shows "journal_file_link_data E p v f = Some (Inr (), linked_data p v f)"
    "file_ok E (linked_data p v f)" "stripped (linked_data p v f) = stripped f"
    "same_frame f (linked_data p v f)"
proof -
  let ?m = "(data_map f)(p := None)" and ?tab = "data_hash_table f"
  define h where "h = data_bucket f v"
  define t where "t = tail_hash_offset (?tab ! h)"
  from assms(1) obtain d where lay: "layout f" and ix: "data_index f ?m" "field_index f (field_map f)"
    and wf: "data_wf E (erased f)" "field_wf (erased f)"
    and d: "data_map f p = Some d" "d_hash d = v" "d_entry_offset d = 0" "d_entry_array_offset d = 0"
      "d_n_entries d = 0"
    by (auto simp: pending_data_def)
  have tab: "table_ok ?tab (data_next ?m) (data_hashes ?m)" "0 < length ?tab" "h = v mod length ?tab"
    using ix(1) unfolding data_index_def h_def data_bucket_def by (metis length_greater_0_conv)+
  then have hl: "h < length ?tab" by simp
  have tm: "t \<in> dom ?m" if "t \<noteq> 0"
    using table_tail [OF tab(1) hl] that by (auto simp: t_def [symmetric] data_next_def split: if_splits)
  have pn: "p \<noteq> 0" using stored_nonzero [OF lay] d(1) dom_maps(1) by blast
  then have tp: "t \<noteq> p" using tm by auto
  have td: "t \<in> dom (data_map f)" if "t \<noteq> 0" using tm [OF that] by (auto split: if_splits)
  obtain ob where ob: "store f p = Some ob" "o_type ob = OBJECT_DATA"
    using d(1) by (auto simp: data_map_of)
  show "journal_file_link_data E p v f = Some (Inr (), linked_data p v f)"
    using td by (intro link_data_run [OF lay mm ob]) (simp add: h_def t_def)
  note v = linked_data_views [OF d(1,3-5) h_def hl t_def td tp refl]
  have lk: "table_ok (?tab[h := link_item p (?tab ! h)]) (link_next t p (data_next ?m)) ((data_hashes ?m)(p \<mapsto> v))"
    unfolding t_def tab(3) by (rule table_link [OF tab(1) _ pn tab(2)]) (simp add: data_next_def dom_def)
  have cnt: "add64 (card (dom ?m)) 1 = card (insert p (dom ?m))"
    unfolding dom_fun_upd using card_maps(1,3) [OF lay] d(1) by (simp only: if_True refl) (rule count_insert, auto)
  have er: "erased (linked_data p v f) = erased f" by (rule stripped_erased [OF v(1)])
  have "layout (linked_data p v f)" using layout_cong [OF er] lay v(8,10,11) same_frame_fields(2) [OF v(9)] by (simp split: if_splits)
  moreover have "data_index (linked_data p v f) (data_map (linked_data p v f))"
    using ix(1) lk cnt v(2-5,8) d(2) unfolding data_index_def header_contains_n_data_def by auto
  moreover have "field_index (linked_data p v f) (field_map (linked_data p v f))"
    using ix(2) v(6-8) unfolding field_index_def header_contains_n_fields_def by (auto split: if_splits)
  ultimately show "file_ok E (linked_data p v f)" using wf by (simp add: file_ok_def er)
  show "stripped (linked_data p v f) = stripped f" by (rule v(1); assumption)
  show "same_frame f (linked_data p v f)" by (rule v(9); assumption)
qed

lemma link_field_ok:
  assumes "pending_field E f p v" and mm: "mmap_ok E"
  shows "journal_file_link_field E p v f = Some (Inr (), linked_field p v f)"
    "file_ok E (linked_field p v f)" "stripped (linked_field p v f) = stripped f"
    "same_frame f (linked_field p v f)"
proof -
  let ?m = "(field_map f)(p := None)" and ?tab = "field_hash_table f"
  define h where "h = field_bucket f v"
  define t where "t = tail_hash_offset (?tab ! h)"
  from assms(1) obtain d where lay: "layout f" and ix: "data_index f (data_map f)" "field_index f ?m"
    and wf: "data_wf E (erased f)" "field_wf (erased f)"
    and d: "field_map f p = Some d" "fo_hash d = v"
    by (auto simp: pending_field_def)
  have tab: "table_ok ?tab (field_next ?m) (field_hashes ?m)" "0 < length ?tab" "h = v mod length ?tab"
    using ix(2) unfolding field_index_def h_def field_bucket_def by (metis length_greater_0_conv)+
  then have hl: "h < length ?tab" by simp
  have tm: "t \<in> dom ?m" if "t \<noteq> 0"
    using table_tail [OF tab(1) hl] that by (auto simp: t_def [symmetric] field_next_def split: if_splits)
  have pn: "p \<noteq> 0" using stored_nonzero [OF lay] d(1) dom_maps(2) by blast
  then have tp: "t \<noteq> p" using tm by auto
  have td: "t \<in> dom (field_map f)" if "t \<noteq> 0" using tm [OF that] by (auto split: if_splits)
  obtain ob where ob: "store f p = Some ob" "o_type ob = OBJECT_FIELD"
    using d(1) by (auto simp: field_map_of)
  show "journal_file_link_field E p v f = Some (Inr (), linked_field p v f)"
    using td by (intro link_field_run [OF lay mm ob]) (simp add: h_def t_def)
  note v = linked_field_views [OF d(1) h_def hl t_def td tp refl]
  have lk: "table_ok (?tab[h := link_item p (?tab ! h)]) (link_next t p (field_next ?m)) ((field_hashes ?m)(p \<mapsto> v))"
    unfolding t_def tab(3) by (rule table_link [OF tab(1) _ pn tab(2)]) (simp add: field_next_def dom_def)
  have cnt: "add64 (card (dom ?m)) 1 = card (insert p (dom ?m))"
    unfolding dom_fun_upd using card_maps(2,4) [OF lay] d(1) by (simp only: if_True refl) (rule count_insert, auto)
  have er: "erased (linked_field p v f) = erased f" by (rule stripped_erased [OF v(1)])
  have "layout (linked_field p v f)" using layout_cong [OF er] lay v(8,10,11) same_frame_fields(2) [OF v(9)] by (simp split: if_splits)
  moreover have "field_index (linked_field p v f) (field_map (linked_field p v f))"
    using ix(2) lk cnt v(2-5,8) d(2) unfolding field_index_def header_contains_n_fields_def by auto
  moreover have "data_index (linked_field p v f) (data_map (linked_field p v f))"
    using ix(1) v(6-8) unfolding data_index_def header_contains_n_data_def by (auto split: if_splits)
  ultimately show "file_ok E (linked_field p v f)" using wf by (simp add: file_ok_def er)
  show "stripped (linked_field p v f) = stripped f" by (rule v(1); assumption)
  show "same_frame f (linked_field p v f)" by (rule v(9); assumption)
qed

section \<open>Adding objects\<close>

definition appended :: "nat \<Rightarrow> object \<Rightarrow> journal_file \<Rightarrow> journal_file" where
  "appended p ob g = upd_header (add_tail p) (put_object p ob g)"

lemma appended_simps [simp]:
  "store (appended p ob g) = (store g)(p \<mapsto> ob)" "header (appended p ob g) = add_tail p (header g)"
  "data_hash_table (appended p ob g) = data_hash_table g"
  "field_hash_table (appended p ob g) = field_hash_table g"
  "compress_xz (appended p ob g) = compress_xz g"
  "frame_of (appended p ob g) = frame_of g"
  "data_map (appended p ob g) = (data_map g)(p := as_data (o_body ob))"
  "field_map (appended p ob g) = (field_map g)(p := as_field (o_body ob))"
  "erased (appended p ob g) = (erased g)(p \<mapsto> erase ob)"
  "stripped (appended p ob g) = (stripped g)(p \<mapsto> strip ob)"
  by (auto simp: appended_def data_map_def field_map_def erased_def stripped_def fun_eq_iff)

lemma add_tail_simps [simp]:
  "header_size (add_tail p h) = header_size h" "data_hash_table_size (add_tail p h) = data_hash_table_size h"
  "field_hash_table_size (add_tail p h) = field_hash_table_size h" "n_data (add_tail p h) = n_data h"
  "n_fields (add_tail p h) = n_fields h"
  by (simp_all add: add_tail_def)

lemma upd_appended: "upd_object p k (appended p ob g) = appended p (k ob) g"
  by (simp add: upd_object_def appended_def upd_header_def put_object_def)

lemma layout_appended:
  assumes "layout (appended p ob g)" and "layout g" and "p = append_position g" and "object_ok ob'"
    and "o_size ob' \<le> o_size ob"
  shows "layout (appended p ob' g)"
  unfolding appended_def
proof (rule layout_append [OF assms(2,3,4)])
  have "p + o_size ob \<le> header_size (header g) + arena_size (header g)"
    using layoutD(5) [OF assms(1), of p ob] by (simp add: add_tail_def)
  with assms(5) show "p + o_size ob' \<le> header_size (header g) + arena_size (header g)" by simp
qed

lemma grown_views:
  assumes "grown f g"
  shows "data_map g = data_map f" "field_map g = field_map f" "erased g = erased f" "stripped g = stripped f"
    "layout g" "data_index g m = data_index f m" "field_index g n = field_index f n" "same_frame f g"
    "has_data E g = has_data E f" "has_field g = has_field f" "append_position g = append_position f"
proof -
  have sc: "same_content f g" and lay: "layout g" using assms by (auto simp: grown_def)
  note s = same_content_simps [OF sc]
  show m: "data_map g = data_map f" "field_map g = field_map f" and e: "erased g = erased f"
    using s(1) by (auto intro: maps_same_store)
  show "stripped g = stripped f" using s(1) by (auto simp: stripped_def)
  show "layout g" by fact
  show "data_index g m = data_index f m" "field_index g n = field_index f n"
    by (simp_all add: data_index_def field_index_def s header_contains_defs)
  show "same_frame f g" by (rule same_frame_content [OF sc])
  show "has_data E g = has_data E f" "has_field g = has_field f"
    by (auto simp: has_data_def has_field_def e fun_eq_iff)
  show "append_position g = append_position f" by (rule append_position_same [OF sc])
qed

lemma file_ok_grown: "file_ok E f \<Longrightarrow> grown f g \<Longrightarrow> file_ok E g"
  using grown_views [of f g] by (simp add: file_ok_def)

text \<open>What the files before and after adding data or fields have in common.\<close>

definition unlinked :: "object \<Rightarrow> bool" where
  "unlinked ob \<longleftrightarrow>
     (case o_body ob of
        DataBody d \<Rightarrow> d_entry_offset d = 0 \<and> d_entry_array_offset d = 0 \<and> d_n_entries d = 0
      | FieldBody d \<Rightarrow> True
      | _ \<Rightarrow> False)"

definition extends :: "journal_file \<Rightarrow> journal_file \<Rightarrow> bool" where
  "extends f f' \<longleftrightarrow>
     same_frame f f' \<and>
     (\<forall>q ob. stripped f q = Some ob \<longrightarrow> stripped f' q = Some ob) \<and>
     (\<forall>q ob. stripped f' q = Some ob \<longrightarrow> stripped f q = None \<longrightarrow> unlinked ob)"

lemma extends_refl [simp]: "extends f f"
  by (simp add: extends_def)

lemma extends_trans: "extends f g \<Longrightarrow> extends g h \<Longrightarrow> extends f h"
proof -
  assume fg: "extends f g" and gh: "extends g h"
  have "unlinked ob" if "stripped h q = Some ob" "stripped f q = None" for q ob
  proof (cases "stripped g q")
    case None
    with gh that(1) show ?thesis by (auto simp: extends_def)
  next
    case (Some gb)
    with gh that(1) have "gb = ob" by (auto simp: extends_def)
    with fg that(2) Some show ?thesis by (auto simp: extends_def)
  qed
  moreover have "same_frame f h" using fg gh by (auto simp: extends_def intro: same_frame_trans)
  ultimately show "extends f h" using fg gh by (simp add: extends_def)
qed

lemma extends_same: "same_frame f g \<Longrightarrow> stripped g = stripped f \<Longrightarrow> extends f g"
  by (simp add: extends_def)

lemma extends_grown: "grown f g \<Longrightarrow> extends f g"
  using grown_views [of f g] by (simp add: extends_same)

lemma extends_appended:
  assumes "grown f g" and "p = append_position f" and "layout f" and "unlinked (strip ob)"
  shows "extends f (appended p ob g)"
proof -
  have "p \<notin> dom (store f)" using append_position_facts(5) [OF assms(3)] assms(2) by blast
  then have "stripped f p = None" by (auto simp: stripped_def)
  with assms(4) grown_views(4,8) [OF assms(1)] show ?thesis
    by (auto simp: extends_def same_frame_def)
qed

lemma extends_erased: "extends f f' \<Longrightarrow> erased f q = Some ob \<Longrightarrow> erased f' q = Some ob"
  unfolding extends_def by (auto simp: erased_stripped)

lemma extends_has:
  "extends f f' \<Longrightarrow> has_data E f q x \<Longrightarrow> has_data E f' q x"
  "extends f f' \<Longrightarrow> has_field f q y \<Longrightarrow> has_field f' q y"
  by (auto simp: has_data_def has_field_def dest: extends_erased)

lemma fresh_position: "layout f \<Longrightarrow> append_position f \<notin> dom (store f)"
  using append_position_facts(5) [of f] by blast

lemma pending_field_appended:
  assumes ok: "file_ok E f" and g: "grown f g" and p: "p = append_position f"
    and lay: "layout (appended p ob g)" and ob: "o_body ob = FieldBody d"
    and d: "fo_hash d = jhash (fo_payload d)" and new: "\<nexists>q. has_field f q (fo_payload d)"
  shows "pending_field E (appended p ob g) p (fo_hash d)"
proof -
  note fo = file_okD [OF ok] and v = grown_views [OF g]
  have pn: "p \<notin> dom (store f)" using fresh_position [OF fo(1)] p by simp
  then have n: "field_map f p = None" "erased f p = None" "data_map f p = None"
    by (auto simp: field_map_def erased_def data_map_def split: option.splits)
  have "data_wf E (erased (appended p ob g))"
    using fo(4) n(2) ob by (auto simp: v intro!: data_wf_insert)
  moreover have "field_wf (erased (appended p ob g))"
    using fo(5) n(2) d new by (auto simp: v has_field_def field_of_def [of ob] ob intro!: field_wf_insert)
  moreover have "(field_map f)(p := None) = field_map f" "(data_map f)(p := None) = data_map f"
    using n by auto
  ultimately show ?thesis
    using fo(2,3) lay ob
    by (simp add: pending_field_def v data_index_def field_index_def header_contains_defs
        same_content_simps [OF g [unfolded grown_def, THEN conjunct1]])
qed

lemma pending_data_appended:
  assumes ok: "file_ok E f" and g: "grown f g" and p: "p = append_position f"
    and lay: "layout (appended p ob g)" and ob: "o_body ob = DataBody d"
    and c: "content E ob = Some x" "d_hash d = jhash x" "unlinked ob"
      "o_flags ob AND OBJECT_COMPRESSION_MASK \<noteq> 0 \<Longrightarrow> sizeof_DataObject < o_size ob"
    and new: "\<nexists>q. has_data E f q x"
  shows "pending_data E (appended p ob g) p (d_hash d)"
proof -
  note fo = file_okD [OF ok] and v = grown_views [OF g]
  have pn: "p \<notin> dom (store f)" using fresh_position [OF fo(1)] p by simp
  then have n: "field_map f p = None" "erased f p = None" "data_map f p = None"
    by (auto simp: field_map_def erased_def data_map_def split: option.splits)
  have "data_wf E (erased (appended p ob g))"
    using fo(4) n(2) c new
    by (auto simp: v has_data_def data_of_def [of ob] ob intro!: data_wf_insert)
  moreover have "field_wf (erased (appended p ob g))"
    using fo(5) n(2) ob by (auto simp: v intro!: field_wf_insert)
  moreover have "(field_map f)(p := None) = field_map f" "(data_map f)(p := None) = data_map f"
    using n by auto
  ultimately show ?thesis
    using fo(2,3) lay ob c(3)
    by (simp add: pending_data_def v data_index_def field_index_def header_contains_defs unlinked_def
        same_content_simps [OF g [unfolded grown_def, THEN conjunct1]])
qed

lemma append_field_cases:
  assumes ok: "file_ok E f" and env: "env_ok E" "mmap_ok E" and len: "length x < 2 ^ 61"
    and new: "\<nexists>q. has_field f q x" and run: "journal_file_append_field E x f = Some (r, f')"
  shows "(\<exists>e. r = Inl e \<and> grown f f') \<or>
    (\<exists>p g. r = Inr p \<and> p = append_position f \<and> file_ok E f' \<and> extends f f' \<and> has_field f' p x \<and>
       has_data E f' = has_data E f)"
proof -
  note fo = file_okD [OF ok]
  have find: "journal_file_find_field_object_with_hash E x (jhash x) f = Some (Inr None, f)"
    using len by (intro find_field_miss [OF ok env(2) _ new]) simp
  let ?n = "sizeof_FieldObject + length x"
  have n: "add64 sizeof_FieldObject (length x) = ?n"
    using len by (simp add: add64_def two64_def sizeof_defs)
  have fr: "object_ok (fresh_object OBJECT_FIELD ?n)" by (simp add: object_ok_def fresh_object_def)
  have sm: "?n \<le> 2 ^ 62" using len by (simp add: sizeof_defs)
  note ap = append_object_Inr [OF env(1) fo(1) sm fr] append_object_Inl [OF env(1) fo(1) sm fr]
  obtain r1 f1 where a: "journal_file_append_object E OBJECT_FIELD ?n f = Some (r1, f1)"
    using append_object_returns [of E OBJECT_FIELD ?n f] by (cases "journal_file_append_object E OBJECT_FIELD ?n f") auto
  show ?thesis
  proof (cases r1)
    case (Inl e)
    with a run find ap(2) [of e f1] show ?thesis by (auto simp: journal_file_append_field_def Let_def n)
  next
    case (Inr p)
    with a ap(1) [of p f1] obtain g where g: "grown f g" and p: "p = append_position f"
      and f1: "f1 = appended p (fresh_object OBJECT_FIELD ?n) g" and l1: "layout f1"
      by (auto simp: appended_def)
    define d where "d = \<lparr>fo_hash = jhash x, fo_next_hash_offset = 0, fo_head_data_offset = 0, fo_payload = x\<rparr>"
    define ob where "ob = \<lparr>o_flags = 0, o_size = ?n, o_body = FieldBody d\<rparr>"
    let ?f2 = "appended p ob g"
    have u: "upd_object p (on_field (\<lambda>d. d\<lparr>fo_hash := jhash x, fo_payload := x\<rparr>)) f1 = ?f2"
      by (simp add: f1 upd_appended on_field_def fresh_object_def ob_def d_def)
    have l2: "layout ?f2"
      by (rule layout_appended [OF l1 [unfolded f1] grown_views(5) [OF g]])
        (simp_all add: p grown_views(11) [OF g] ob_def d_def object_ok_def fresh_object_def)
    have "pending_field E ?f2 p (fo_hash d)"
      using new by (intro pending_field_appended [OF ok g p l2]) (auto simp: ob_def d_def)
    note lk = link_field_ok [OF this env(2)]
    let ?f3 = "linked_field p (fo_hash d) ?f2"
    have ex: "extends f ?f3"
      using extends_appended [OF g p fo(1), of ob] extends_same [OF lk(4,3)]
      by (auto simp: ob_def unlinked_def strip_def intro: extends_trans)
    have er: "erased ?f3 = (erased f)(p \<mapsto> erase ob)"
      using stripped_erased [OF lk(3)] grown_views(3) [OF g] by simp
    then obtain ob3 where ob3: "store ?f3 p = Some ob3" "erase ob3 = erase ob"
      by (metis erased_Some fun_upd_same)
    then have ty: "o_type ob3 = OBJECT_FIELD" by (metis data_of_erase(5) body_type.simps(3) object.select_convs(3) ob_def)
    have mv: "journal_file_move_to_object E (Some OBJECT_FIELD) p ?f3 = Some (Inr ob3, ?f3)"
      using ty by (intro move_to_object_stored [OF file_okD(1) [OF lk(2)] env(2) ob3(1)]) auto
    have hf: "has_field ?f3 p x" unfolding has_field_def er by (simp add: ob_def d_def field_of_def erase_def)
    have pn: "erased f p = None" using fresh_position [OF fo(1)] p by (auto simp: erased_def)
    have hd: "has_data E ?f3 = has_data E f"
      unfolding has_data_def er using pn by (auto simp: ob_def fun_eq_iff)
    have "journal_file_append_field E x f = Some (Inr p, ?f3)"
      using find a Inr lk(1) mv by (simp add: journal_file_append_field_def Let_def n u d_def)
    with run have "r = Inr p" "f' = ?f3" by auto
    with p lk(2) ex hf hd show ?thesis by blast
  qed
qed

text \<open>Appending a field: what holds in every outcome.\<close>

lemma append_field_ok:
  assumes ok: "file_ok E f" and env: "env_ok E" "mmap_ok E" and len: "length x < 2 ^ 61"
    and run: "journal_file_append_field E x f = Some (r, f')"
  shows "file_ok E f'" "extends f f'" "r = Inr p \<Longrightarrow> has_field f' p x"
    "has_data E f' = has_data E f" "has_field f p x \<Longrightarrow> r = Inr p \<and> f' = f"
proof -
  have hit: "r = Inr p \<and> f' = f" if "has_field f p x" for p
    using find_field_hit [OF ok env(2) _ that] len run by (simp add: journal_file_append_field_def Let_def)
  then show "has_field f p x \<Longrightarrow> r = Inr p \<and> f' = f" .
  have "file_ok E f' \<and> extends f f' \<and> (r = Inr p \<longrightarrow> has_field f' p x) \<and> has_data E f' = has_data E f"
  proof (cases "\<exists>q. has_field f q x")
    case True
    then obtain q where q: "has_field f q x" by blast
    from hit [OF q] ok q show ?thesis by auto
  next
    case False
    show ?thesis
      using append_field_cases [OF ok env len False run]
    proof (elim disjE exE conjE)
      fix e assume "r = Inl e" "grown f f'"
      with ok show ?thesis by (auto simp: extends_grown grown_views(9) intro: file_ok_grown)
    qed auto
  qed
  then show "file_ok E f'" "extends f f'" "r = Inr p \<Longrightarrow> has_field f' p x"
    "has_data E f' = has_data E f" by auto
qed

lemma append_field_returns:
  assumes ok: "file_ok E f" and env: "env_ok E" "mmap_ok E" and len: "length x < 2 ^ 61"
  shows "journal_file_append_field E x f \<noteq> None"
proof (cases "\<exists>q. has_field f q x")
  case True
  then obtain q where q: "has_field f q x" by blast
  from find_field_hit [OF ok env(2) _ q] len show ?thesis by (simp add: journal_file_append_field_def Let_def)
next
  case False
  then have "journal_file_find_field_object_with_hash E x (jhash x) f = Some (Inr None, f)"
    using len by (intro find_field_miss [OF ok env(2)]) simp
  then show ?thesis
    by (auto simp: journal_file_append_field_def Let_def em_None append_object_returns move_to_object_returns
        journal_file_link_field_def simp del: not_None_eq split: if_splits)
qed

text \<open>
  The compression libraries: a blob that is not longer than the data and from which the data comes
  back.  The file is only sound when compression succeeds for the data appended.
\<close>

definition codec_ok :: "env \<Rightarrow> bytes \<Rightarrow> bool" where
  "codec_ok E x \<longleftrightarrow>
     (case env_compress E x of
        CompressOk c b \<Rightarrow> c AND OBJECT_COMPRESSION_MASK \<noteq> 0 \<and> b \<noteq> [] \<and> length b \<le> length x \<and>
          env_decompress E (c AND OBJECT_COMPRESSION_MASK) b = Some x
      | CompressErr _ _ _ \<Rightarrow> False)"

definition compressible :: "env \<Rightarrow> bool \<Rightarrow> bytes \<Rightarrow> bool" where
  "compressible E c x \<longleftrightarrow> (c \<and> COMPRESSION_SIZE_THRESHOLD \<le> length x \<longrightarrow> codec_ok E x)"

definition new_data :: "bytes \<Rightarrow> object" where
  "new_data x = \<lparr>o_flags = 0, o_size = sizeof_DataObject + length x,
     o_body = DataBody \<lparr>d_hash = jhash x, d_next_hash_offset = 0, d_next_field_offset = 0,
       d_entry_offset = 0, d_entry_array_offset = 0, d_n_entries = 0, d_payload = replicate (length x) 0\<rparr>\<rparr>"

lemma store_payload_ok:
  assumes "length x < 2 ^ 61" and "compressible E c x"
  obtains d where "o_body (store_payload E c x (new_data x)) = DataBody d" and "d_hash d = jhash x"
    and "object_ok (store_payload E c x (new_data x))"
    and "o_size (store_payload E c x (new_data x)) \<le> sizeof_DataObject + length x"
    and "content E (store_payload E c x (new_data x)) = Some x"
    and "unlinked (store_payload E c x (new_data x))"
    and "unlinked (strip (store_payload E c x (new_data x)))"
    and "o_flags (store_payload E c x (new_data x)) AND OBJECT_COMPRESSION_MASK \<noteq> 0 \<Longrightarrow>
      sizeof_DataObject < o_size (store_payload E c x (new_data x))"
proof (cases "c \<and> COMPRESSION_SIZE_THRESHOLD \<le> length x")
  case True
  with assms(2) obtain k b where b: "env_compress E x = CompressOk k b" "k AND OBJECT_COMPRESSION_MASK \<noteq> 0"
      "b \<noteq> []" "length b \<le> length x" "env_decompress E (k AND OBJECT_COMPRESSION_MASK) b = Some x"
    by (auto simp: compressible_def codec_ok_def split: compress_outcome.splits)
  have "add64 sizeof_DataObject (length b) = sizeof_DataObject + length b"
    using assms(1) b(4) by (simp add: add64_def two64_def sizeof_defs)
  with True b show ?thesis
    by (intro that) (auto simp: store_payload_def on_data_def new_data_def object_ok_def content_def
        data_of_def unlinked_def strip_def)
next
  case False
  then show ?thesis
    by (intro that) (auto simp: store_payload_def on_data_def new_data_def object_ok_def content_def
        data_of_def unlinked_def strip_def)
qed

text \<open>Changing the list of data objects of a field keeps all invariants.\<close>

lemma index_same_next:
  assumes "header f' = header f" and "data_hash_table f' = data_hash_table f"
    and "field_hash_table f' = field_hash_table f"
    and "data_next (data_map f') = data_next (data_map f)" "data_hashes (data_map f') = data_hashes (data_map f)"
    and "field_next (field_map f') = field_next (field_map f)"
      "field_hashes (field_map f') = field_hashes (field_map f)"
    and "stripped f' = stripped f" and "st_size f' = st_size f" "file_size f' = file_size f"
    and "metrics f' = metrics f"
  shows "file_ok E f' = file_ok E f"
proof -
  have e: "erased f' = erased f" by (rule stripped_erased) fact
  have "dom (data_hashes m) = dom m" "dom (field_hashes n) = dom n" for m n
    by (auto simp: data_hashes_def field_hashes_def dom_def)
  then have d: "dom (data_map f') = dom (data_map f)" "dom (field_map f') = dom (field_map f)"
    using assms(5,7) by metis+
  show ?thesis
    using layout_cong [OF e] assms(1,9,10,11)
    by (simp add: file_ok_def e data_index_def field_index_def assms(1-7) d)
qed

lemma file_ok_field_links:
  "file_ok E (upd_object p (on_data (\<lambda>d. d\<lparr>d_next_field_offset := a\<rparr>)) f) = file_ok E f"
  "file_ok E (upd_object p (on_field (\<lambda>d. d\<lparr>fo_head_data_offset := a\<rparr>)) f) = file_ok E f"
  "stripped (upd_object p (on_data (\<lambda>d. d\<lparr>d_next_field_offset := a\<rparr>)) f) = stripped f"
  "stripped (upd_object p (on_field (\<lambda>d. d\<lparr>fo_head_data_offset := a\<rparr>)) f) = stripped f"
proof -
  show s: "stripped (upd_object p (on_data (\<lambda>d. d\<lparr>d_next_field_offset := a\<rparr>)) f) = stripped f"
    "stripped (upd_object p (on_field (\<lambda>d. d\<lparr>fo_head_data_offset := a\<rparr>)) f) = stripped f"
    by (intro stripped_upd strip_on_data strip_on_field; simp)+
  show "file_ok E (upd_object p (on_data (\<lambda>d. d\<lparr>d_next_field_offset := a\<rparr>)) f) = file_ok E f"
    by (rule index_same_next)
      (auto simp: s view_upd data_next_def data_hashes_def fun_eq_iff option.map_comp comp_def)
  show "file_ok E (upd_object p (on_field (\<lambda>d. d\<lparr>fo_head_data_offset := a\<rparr>)) f) = file_ok E f"
    by (rule index_same_next)
      (auto simp: s view_upd field_next_def field_hashes_def fun_eq_iff option.map_comp comp_def)
qed

text \<open>The part of \<open>append_data\<close> up to the point where the object is in its table.\<close>

definition insert_data :: "env \<Rightarrow> bytes \<Rightarrow> nat jm" where
  "insert_data E x =
     bindE (journal_file_append_object E OBJECT_DATA (add64 sizeof_DataObject (length x))) (\<lambda>p.
     thenE (modifyE (upd_object p (on_data (\<lambda>d. d\<lparr>d_hash := jhash x\<rparr>))))
     (thenE (modifyE (\<lambda>f. upd_object p (store_payload E (compress_xz f) x) f))
     (thenE (journal_file_link_data E p (jhash x))
     (thenE (journal_file_move_to_object E (Some OBJECT_DATA) p)
     (returnE p)))))"

definition link_to_field :: "env \<Rightarrow> bytes \<Rightarrow> nat \<Rightarrow> nat jm" where
  "link_to_field E x p =
     (case memchr EQUALS x of
        None \<Rightarrow> returnE p
      | Some i \<Rightarrow>
          if i = 0 then returnE p
          else
            bindE (journal_file_append_field E (take i x)) (\<lambda>fp.
            bindE (getE (\<lambda>f. fo_head_data_offset (field_of (object_at f fp)))) (\<lambda>head.
            thenE (modifyE (upd_object p (on_data (\<lambda>d. d\<lparr>d_next_field_offset := head\<rparr>))))
            (thenE (modifyE (upd_object fp (on_field (\<lambda>d. d\<lparr>fo_head_data_offset := p\<rparr>))))
            (returnE p)))))"

lemma bindE_assoc: "bindE (bindE m k) l = bindE m (\<lambda>x. bindE (k x) l)"
  by (rule ext) (simp add: bindE_def split: option.split sum.split prod.split)

lemma bindE_thenE: "bindE (thenE m k) l = thenE m (bindE k l)"
  by (simp add: thenE_def bindE_assoc)

lemma bindE_returnE: "bindE (returnE x) l = l x"
  by (rule ext) (simp add: bindE_def returnE_def)

lemma append_data_split:
  "journal_file_append_data E x =
     bindE (journal_file_find_data_object_with_hash E x (jhash x)) (\<lambda>r.
     case r of Some p \<Rightarrow> returnE p | None \<Rightarrow> bindE (insert_data E x) (link_to_field E x))"
  unfolding journal_file_append_data_def insert_data_def link_to_field_def Let_def
  by (intro arg_cong [where f = "bindE _"] ext)
    (simp add: bindE_assoc bindE_thenE bindE_returnE split: option.split)

lemma insert_data_cases:
  assumes ok: "file_ok E f" and env: "env_ok E" "mmap_ok E" and len: "length x < 2 ^ 61"
    and c: "compressible E (compress_xz f) x"
    and new: "\<nexists>q. has_data E f q x" and run: "insert_data E x f = Some (r, f')"
  shows "(\<exists>e. r = Inl e \<and> grown f f') \<or>
    (\<exists>p. r = Inr p \<and> file_ok E f' \<and> extends f f' \<and> has_data E f' p x \<and> has_field f' = has_field f)"
proof -
  note fo = file_okD [OF ok]
  let ?n = "sizeof_DataObject + length x"
  have n: "add64 sizeof_DataObject (length x) = ?n"
    using len by (simp add: add64_def two64_def sizeof_defs)
  have fr: "object_ok (fresh_object OBJECT_DATA ?n)" by (simp add: object_ok_def fresh_object_def)
  have sm: "?n \<le> 2 ^ 62" using len by (simp add: sizeof_defs)
  note ap = append_object_Inr [OF env(1) fo(1) sm fr] append_object_Inl [OF env(1) fo(1) sm fr]
  obtain r1 f1 where a: "journal_file_append_object E OBJECT_DATA ?n f = Some (r1, f1)"
    using append_object_returns [of E OBJECT_DATA ?n f] by (cases "journal_file_append_object E OBJECT_DATA ?n f") auto
  show ?thesis
  proof (cases r1)
    case (Inl e)
    with a run ap(2) [of e f1] show ?thesis by (auto simp: insert_data_def n)
  next
    case (Inr p)
    with a ap(1) [of p f1] obtain g where g: "grown f g" and p: "p = append_position f"
      and f1: "f1 = appended p (fresh_object OBJECT_DATA ?n) g" and l1: "layout f1"
      by (auto simp: appended_def)
    define ob where "ob = store_payload E (compress_xz f) x (new_data x)"
    from store_payload_ok [OF len c] obtain d where d: "o_body ob = DataBody d" "d_hash d = jhash x"
      and obok: "object_ok ob" and obs: "o_size ob \<le> ?n" and cn: "content E ob = Some x"
      and un: "unlinked ob" "unlinked (strip ob)"
      and fl: "o_flags ob AND OBJECT_COMPRESSION_MASK \<noteq> 0 \<Longrightarrow> sizeof_DataObject < o_size ob"
      unfolding ob_def by blast
    let ?f2 = "appended p ob g"
    have cz: "compress_xz g = compress_xz f" using g by (simp add: grown_def same_content_simps(6))
    have u: "upd_object p (on_data (\<lambda>d. d\<lparr>d_hash := jhash x\<rparr>)) f1 = appended p (new_data x) g"
      by (simp add: f1 upd_appended on_data_def fresh_object_def new_data_def)
    have u2: "upd_object p (store_payload E (compress_xz g) x) (appended p (new_data x) g) = ?f2"
      by (simp add: upd_appended ob_def cz)
    have l2: "layout ?f2"
      by (rule layout_appended [OF l1 [unfolded f1] grown_views(5) [OF g] _ obok])
        (use obs in \<open>simp_all add: p grown_views(11) [OF g] fresh_object_def\<close>)
    have "pending_data E ?f2 p (d_hash d)"
      by (rule pending_data_appended [OF ok g p l2 d(1) cn d(2) un(1) fl new])
    note lk = link_data_ok [OF this env(2)]
    let ?f3 = "linked_data p (d_hash d) ?f2"
    have ex: "extends f ?f3"
      using extends_appended [OF g p fo(1) un(2)] extends_same [OF lk(4,3)] by (auto intro: extends_trans)
    have er: "erased ?f3 = (erased f)(p \<mapsto> erase ob)"
      using stripped_erased [OF lk(3)] grown_views(3) [OF g] by simp
    then obtain ob3 where ob3: "store ?f3 p = Some ob3" "erase ob3 = erase ob"
      by (metis erased_Some fun_upd_same)
    then have ty: "o_type ob3 = OBJECT_DATA" by (metis data_of_erase(5) body_type.simps(2) d(1))
    have mv: "journal_file_move_to_object E (Some OBJECT_DATA) p ?f3 = Some (Inr ob3, ?f3)"
      using ty by (intro move_to_object_stored [OF file_okD(1) [OF lk(2)] env(2) ob3(1)]) auto
    have hf: "has_data E ?f3 p x" unfolding has_data_def er by (simp add: cn d(1))
    have pn: "erased f p = None" using fresh_position [OF fo(1)] p by (auto simp: erased_def)
    have hd: "has_field ?f3 = has_field f"
      unfolding has_field_def er using pn by (auto simp: d(1) fun_eq_iff)
    have "insert_data E x f = Some (Inr p, ?f3)"
      using a Inr lk(1) mv u2 by (simp add: insert_data_def n u d(2))
    with run have "r = Inr p" "f' = ?f3" by auto
    with lk(2) ex hf hd show ?thesis by blast
  qed
qed

lemma link_to_field_ok:
  assumes ok: "file_ok E f" and env: "env_ok E" "mmap_ok E" and len: "length x < 2 ^ 61"
    and run: "link_to_field E x p f = Some (r, f')"
  shows "file_ok E f'" "extends f f'" "r = Inr q \<Longrightarrow> q = p"
proof -
  have "file_ok E f' \<and> extends f f' \<and> (r = Inr q \<longrightarrow> q = p)"
  proof (cases "memchr EQUALS x = None \<or> memchr EQUALS x = Some 0")
    case True
    with run ok show ?thesis by (auto simp: link_to_field_def)
  next
    case False
    then obtain i where i: "memchr EQUALS x = Some i" "i \<noteq> 0" by auto
    have len': "length (take i x) < 2 ^ 61" using len by simp
    obtain r1 f1 where a: "journal_file_append_field E (take i x) f = Some (r1, f1)"
      using append_field_returns [OF ok env len'] by auto
    note ap = append_field_ok [OF ok env len' a]
    show ?thesis
    proof (cases r1)
      case (Inl e)
      with a run i ap show ?thesis by (auto simp: link_to_field_def)
    next
      case (Inr fp)
      let ?h = "fo_head_data_offset (field_of (object_at f1 fp))"
      let ?f2 = "upd_object fp (on_field (\<lambda>d. d\<lparr>fo_head_data_offset := p\<rparr>))
        (upd_object p (on_data (\<lambda>d. d\<lparr>d_next_field_offset := ?h\<rparr>)) f1)"
      have "r = Inr p" "f' = ?f2" using a run i Inr by (auto simp: link_to_field_def)
      moreover have "extends f1 ?f2"
        by (rule extends_same) (simp_all add: same_frame_def file_ok_field_links)
      ultimately show ?thesis using ap(1,2) by (auto simp: file_ok_field_links intro: extends_trans)
    qed
  qed
  then show "file_ok E f'" "extends f f'" "r = Inr q \<Longrightarrow> q = p" by auto
qed

text \<open>Appending data: what holds in every outcome.\<close>

lemma append_data_ok:
  assumes ok: "file_ok E f" and env: "env_ok E" "mmap_ok E" and len: "length x < 2 ^ 61"
    and c: "compressible E (compress_xz f) x"
    and run: "journal_file_append_data E x f = Some (r, f')"
  shows "file_ok E f'" "extends f f'" "r = Inr p \<Longrightarrow> has_data E f' p x"
    "has_data E f p x \<Longrightarrow> r = Inr p \<and> f' = f"
proof -
  have hit: "r = Inr p \<and> f' = f" if "has_data E f p x" for p
    using find_data_hit [OF ok env(2) _ that] len run by (simp add: append_data_split)
  then show "has_data E f p x \<Longrightarrow> r = Inr p \<and> f' = f" .
  have "file_ok E f' \<and> extends f f' \<and> (r = Inr p \<longrightarrow> has_data E f' p x)"
  proof (cases "\<exists>q. has_data E f q x")
    case True
    then obtain q where q: "has_data E f q x" by blast
    from hit [OF q] ok q show ?thesis by auto
  next
    case False
    have "journal_file_find_data_object_with_hash E x (jhash x) f = Some (Inr None, f)"
      using len by (intro find_data_miss [OF ok env(2) _ False]) simp
    with run have run': "bindE (insert_data E x) (link_to_field E x) f = Some (r, f')"
      by (simp add: append_data_split)
    then obtain r1 f1 where i: "insert_data E x f = Some (r1, f1)" by (auto simp: bindE_def split: option.splits)
    from insert_data_cases [OF ok env len c False i] show ?thesis
    proof (elim disjE exE conjE)
      fix e assume "r1 = Inl e" "grown f f1"
      with i run' ok show ?thesis by (auto simp: extends_grown intro: file_ok_grown)
    next
      fix q assume q: "r1 = Inr q" and f1: "file_ok E f1" "extends f f1" "has_data E f1 q x"
      with i run' have l: "link_to_field E x q f1 = Some (r, f')" by simp
      note lf = link_to_field_ok [OF f1(1) env len l]
      from lf f1 show ?thesis by (auto intro: extends_trans extends_has(1))
    qed
  qed
  then show "file_ok E f'" "extends f f'" "r = Inr p \<Longrightarrow> has_data E f' p x" by auto
qed

lemma append_data_returns:
  assumes ok: "file_ok E f" and env: "env_ok E" "mmap_ok E" and len: "length x < 2 ^ 61"
    and c: "compressible E (compress_xz f) x"
  shows "journal_file_append_data E x f \<noteq> None"
proof (cases "\<exists>q. has_data E f q x")
  case True
  then obtain q where q: "has_data E f q x" by blast
  from find_data_hit [OF ok env(2) _ q] len show ?thesis by (simp add: append_data_split)
next
  case False
  then have find: "journal_file_find_data_object_with_hash E x (jhash x) f = Some (Inr None, f)"
    using len by (intro find_data_miss [OF ok env(2)]) simp
  have "insert_data E x f \<noteq> None"
    by (auto simp: insert_data_def em_None append_object_returns move_to_object_returns
        journal_file_link_data_def simp del: not_None_eq split: if_splits)
  moreover have "link_to_field E x q g \<noteq> None" if "insert_data E x f = Some (Inr q, g)" for q g
  proof -
    have "file_ok E g" using insert_data_cases [OF ok env len c False that] by auto
    from append_field_returns [OF this env] len show ?thesis
      by (auto simp: link_to_field_def em_None memchr_def Let_def simp del: not_None_eq split: option.splits if_splits)
  qed
  ultimately show ?thesis using find by (auto simp: append_data_split bindE_None simp del: not_None_eq)
qed

section \<open>The interface to the rest of the file\<close>

text \<open>
  A store of values under keys in which every value has one key: what the writer of entries and the
  readers rely on.  \<open>inv\<close> is the invariant, \<open>has s k x\<close> that the value \<open>x\<close> has the key \<open>k\<close>, and
  \<open>adm\<close> which values can be handled.
\<close>

locale interned =
  fixes inv :: "'s \<Rightarrow> bool" and has :: "'s \<Rightarrow> 'k \<Rightarrow> 'x \<Rightarrow> bool" and adm :: "'s \<Rightarrow> 'x \<Rightarrow> bool"
    and lookup :: "'x \<Rightarrow> ('s, 'k option) em" and add :: "'x \<Rightarrow> ('s, 'k) em"
  assumes lookup_hit: "inv s \<Longrightarrow> adm s x \<Longrightarrow> has s k x \<Longrightarrow> lookup x s = Some (Inr (Some k), s)"
    and lookup_miss: "inv s \<Longrightarrow> adm s x \<Longrightarrow> (\<nexists>k. has s k x) \<Longrightarrow> lookup x s = Some (Inr None, s)"
    and add_returns: "inv s \<Longrightarrow> adm s x \<Longrightarrow> add x s \<noteq> None"
    and add_inv: "inv s \<Longrightarrow> adm s x \<Longrightarrow> add x s = Some (r, s') \<Longrightarrow> inv s'"
    and add_adm: "inv s \<Longrightarrow> adm s x \<Longrightarrow> add x s = Some (r, s') \<Longrightarrow> adm s' y = adm s y"
    and add_keeps: "inv s \<Longrightarrow> adm s x \<Longrightarrow> add x s = Some (r, s') \<Longrightarrow> has s k y \<Longrightarrow> has s' k y"
    and add_has: "inv s \<Longrightarrow> adm s x \<Longrightarrow> add x s = Some (Inr k, s') \<Longrightarrow> has s' k x"
    and add_hit: "inv s \<Longrightarrow> adm s x \<Longrightarrow> has s k x \<Longrightarrow> add x s = Some (Inr k, s)"
begin

lemma key_unique:
  assumes "inv s" "adm s x" "has s k x" "has s l x"
  shows "k = l"
  using lookup_hit [OF assms(1,2,3)] lookup_hit [OF assms(1,2,4)] by simp

lemma add_then_lookup:
  assumes "inv s" "adm s x" "add x s = Some (Inr k, s')"
  shows "lookup x s' = Some (Inr (Some k), s')"
  using assms(2) add_inv [OF assms] add_adm [OF assms] add_has [OF assms] by (simp add: lookup_hit)

lemma add_twice:
  assumes "inv s" "adm s x" "add x s = Some (Inr k, s')"
  shows "add x s' = Some (Inr k, s')"
  using assms(2) add_inv [OF assms] add_adm [OF assms] add_has [OF assms] by (simp add: add_hit)

lemma lookup_add_other:
  assumes "inv s" "adm s x" "adm s y" "add x s = Some (r, s')" "lookup y s = Some (Inr (Some k), s)"
  shows "lookup y s' = Some (Inr (Some k), s')"
proof -
  obtain l where "has s l y" using lookup_miss [OF assms(1,3)] assms(5) by fastforce
  moreover from this have "l = k" using lookup_hit [OF assms(1,3)] assms(5) by simp
  ultimately have "has s' k y" using add_keeps [OF assms(1,2,4)] by blast
  then show ?thesis
    using assms(3) add_inv [OF assms(1,2,4)] add_adm [OF assms(1,2,4)] by (simp add: lookup_hit)
qed

text \<open>Adding a list of values in order, as for the fields of an entry.\<close>

lemma add_list:
  assumes "inv s" "\<forall>x\<in>set xs. adm s x" "forE xs add s = Some (r, s')"
  shows "inv s' \<and> (\<forall>k y. has s k y \<longrightarrow> has s' k y) \<and> (\<forall>y. adm s' y = adm s y) \<and>
    (\<forall>ks. r = Inr ks \<longrightarrow> list_all2 (has s') ks xs)"
  using assms
proof (induction xs arbitrary: s r)
  case Nil
  then show ?case by auto
next
  case (Cons x xs)
  have adm: "adm s x" using Cons.prems(2) by simp
  obtain r1 s1 where a: "add x s = Some (r1, s1)" using add_returns [OF Cons.prems(1) adm] by auto
  note f1 = add_inv [OF Cons.prems(1) adm a] add_adm [OF Cons.prems(1) adm a] add_keeps [OF Cons.prems(1) adm a]
  show ?case
  proof (cases r1)
    case (Inl e)
    with a Cons.prems(3) f1 show ?thesis by auto
  next
    case (Inr k)
    have hk: "has s1 k x" using add_has [OF Cons.prems(1) adm] a Inr by simp
    from a Inr Cons.prems(3) have "bindE (forE xs add) (\<lambda>ys. returnE (k # ys)) s1 = Some (r, s')" by simp
    then obtain r2 where r2: "forE xs add s1 = Some (r2, s')" and
      r: "r = (case r2 of Inl e \<Rightarrow> Inl e | Inr ks \<Rightarrow> Inr (k # ks))"
      by (auto simp: bindE_def returnE_def split: option.splits sum.splits)
    from Cons.IH [OF f1(1) _ r2] Cons.prems(2) f1(2) have
      "inv s' \<and> (\<forall>k y. has s1 k y \<longrightarrow> has s' k y) \<and> (\<forall>y. adm s' y = adm s1 y) \<and>
       (\<forall>ks. r2 = Inr ks \<longrightarrow> list_all2 (has s') ks xs)" by simp
    with f1 hk r show ?thesis by (auto split: sum.splits)
  qed
qed

lemma add_list_returns:
  assumes "inv s" "\<forall>x\<in>set xs. adm s x"
  shows "forE xs add s \<noteq> None"
  using assms
proof (induction xs arbitrary: s)
  case (Cons x xs)
  have adm: "adm s x" using Cons.prems(2) by simp
  obtain r1 s1 where a: "add x s = Some (r1, s1)" using add_returns [OF Cons.prems(1) adm] by auto
  note f1 = add_inv [OF Cons.prems(1) adm a] add_adm [OF Cons.prems(1) adm a]
  show ?case
  proof (cases r1)
    case (Inr k)
    have "forE xs add s1 \<noteq> None" using Cons f1 by simp
    with a Inr show ?thesis by (auto simp: bindE_None returnE_def)
  qed (use a in simp)
qed simp

end

definition file_env_ok :: "env \<Rightarrow> journal_file \<Rightarrow> bool" where
  "file_env_ok E f \<longleftrightarrow> file_ok E f \<and> env_ok E \<and> mmap_ok E"

definition data_adm :: "env \<Rightarrow> journal_file \<Rightarrow> bytes \<Rightarrow> bool" where
  "data_adm E f x \<longleftrightarrow> length x < 2 ^ 61 \<and> compressible E (compress_xz f) x"

lemma extends_compress: "extends f f' \<Longrightarrow> compress_xz f' = compress_xz f"
  by (auto simp: extends_def same_frame_fields)

lemma append_data_hit:
  assumes "file_ok E f" "env_ok E" "mmap_ok E" "length x < 2 ^ 61" "has_data E f p x"
  shows "journal_file_append_data E x f = Some (Inr p, f)"
  using find_data_hit [OF assms(1,3) _ assms(5)] assms(4) by (simp add: append_data_split)

lemma append_field_hit:
  assumes "file_ok E f" "env_ok E" "mmap_ok E" "length x < 2 ^ 61" "has_field f p x"
  shows "journal_file_append_field E x f = Some (Inr p, f)"
  using find_field_hit [OF assms(1,3) _ assms(5)] assms(4) by (simp add: journal_file_append_field_def Let_def)

interpretation data: interned "file_env_ok E" "has_data E" "data_adm E"
  "journal_file_find_data_object E" "journal_file_append_data E" for E
proof (unfold_locales, goal_cases)
  case (1 s x k) then show ?case
    by (simp add: file_env_ok_def data_adm_def journal_file_find_data_object_def find_data_hit)
next
  case (2 s x) then show ?case
    by (simp add: file_env_ok_def data_adm_def journal_file_find_data_object_def find_data_miss)
next
  case (3 s x) then show ?case
    using append_data_returns [of E s x] unfolding file_env_ok_def data_adm_def by blast
next
  case (4 s x r s') then show ?case
    using append_data_ok(1) [of E s x r s'] unfolding file_env_ok_def data_adm_def by blast
next
  case (5 s x r s' y) then show ?case
    using extends_compress [OF append_data_ok(2), of E s x r s'] unfolding file_env_ok_def data_adm_def by simp
next
  case (6 s x r s' k y) then show ?case
    using extends_has(1) [OF append_data_ok(2), of E s x r s' E k y] unfolding file_env_ok_def data_adm_def by blast
next
  case (7 s x k s') then show ?case
    using append_data_ok(3) [of E s x "Inr k" s' k] unfolding file_env_ok_def data_adm_def by blast
next
  case (8 s x k) then show ?case by (simp add: file_env_ok_def data_adm_def append_data_hit)
qed

interpretation field: interned "file_env_ok E" has_field "\<lambda>_ x. length x < 2 ^ 61"
  "journal_file_find_field_object E" "journal_file_append_field E" for E
proof (unfold_locales, goal_cases)
  case (1 s x k) then show ?case
    by (simp add: file_env_ok_def journal_file_find_field_object_def find_field_hit)
next
  case (2 s x) then show ?case
    by (simp add: file_env_ok_def journal_file_find_field_object_def find_field_miss)
next
  case (3 s x) then show ?case
    using append_field_returns [of E s x] unfolding file_env_ok_def by blast
next
  case (4 s x r s') then show ?case
    using append_field_ok(1) [of E s x r s'] unfolding file_env_ok_def by blast
next
  case (6 s x r s' k y) then show ?case
    using extends_has(2) [OF append_field_ok(2), of E s x r s' k y] unfolding file_env_ok_def by blast
next
  case (7 s x k s') then show ?case
    using append_field_ok(3) [of E s x "Inr k" s' k] unfolding file_env_ok_def by blast
next
  case (8 s x k) then show ?case by (simp add: file_env_ok_def append_field_hit)
qed simp

section \<open>Properties\<close>

text \<open>
  C22: Looking up a byte string in a sound file returns and leaves the file alone.  It yields the
  object that holds the string, and nothing exactly when no object holds it.
\<close>

theorem find_data_object_correct:
  assumes "file_ok E f" and "mmap_ok E" and "length x < 2 ^ 63"
  shows "\<exists>r. journal_file_find_data_object E x f = Some (Inr r, f) \<and>
    (case r of None \<Rightarrow> (\<nexists>p. has_data E f p x) | Some p \<Rightarrow> has_data E f p x)"
proof (cases "\<exists>p. has_data E f p x")
  case True
  then obtain p where p: "has_data E f p x" by blast
  then have "journal_file_find_data_object E x f = Some (Inr (Some p), f)"
    unfolding journal_file_find_data_object_def by (rule find_data_hit [OF assms])
  with p show ?thesis by simp
next
  case False
  then have "journal_file_find_data_object E x f = Some (Inr None, f)"
    unfolding journal_file_find_data_object_def by (rule find_data_miss [OF assms])
  with False show ?thesis by auto
qed

text \<open>
  C1: Appending a byte string to a sound file returns and leaves a sound file in which all earlier
  objects still are.  When it succeeds with an offset, looking the string up gives that offset, and
  appending it once more gives the same offset and adds nothing.
\<close>

theorem append_data_interns:
  assumes "file_ok E f" and "env_ok E" and "mmap_ok E" and "length x < 2 ^ 61"
    and "compressible E (compress_xz f) x"
  shows "\<exists>r f'. journal_file_append_data E x f = Some (r, f') \<and> file_ok E f' \<and> extends f f' \<and>
    (case r of
       Inl e \<Rightarrow> True
     | Inr p \<Rightarrow> journal_file_find_data_object E x f' = Some (Inr (Some p), f') \<and>
         journal_file_append_data E x f' = Some (Inr p, f'))"
proof -
  have inv: "file_env_ok E f" "data_adm E f x" using assms by (simp_all add: file_env_ok_def data_adm_def)
  obtain r f' where run: "journal_file_append_data E x f = Some (r, f')"
    using data.add_returns [OF inv] by auto
  note ok = append_data_ok(1,2) [OF assms run]
  show ?thesis
  proof (cases r)
    case (Inr p)
    note run' = run [unfolded Inr]
    from run' ok data.add_then_lookup [OF inv run'] data.add_twice [OF inv run'] show ?thesis
      by (intro exI [of _ r] exI [of _ f']) (simp add: Inr)
  qed (use run ok in auto)
qed


end
