(* ===== verification/File_Entry.thy ===== *)
theory File_Entry
  imports File_Intern
begin

text \<open>
  Entries of a journal file: the functions of \<open>lib/journal-file.c\<close> from \<open>journal_file_entry_n_items\<close>
  to \<open>journal_file_append_entry\<close>.  Every entry is listed in the chain of entry arrays of the file and
  in the chain of every data object it refers to.
\<close>

section \<open>Operations\<close>

definition journal_file_entry_n_items :: "object \<Rightarrow> nat" where
  "journal_file_entry_n_items ob =
     (if o_type ob \<noteq> OBJECT_ENTRY then 0
      else sub64 (o_size ob) sizeof_EntryObject div sizeof_EntryItem)"

definition journal_file_entry_array_n_items :: "object \<Rightarrow> nat" where
  "journal_file_entry_array_n_items ob =
     (if o_type ob \<noteq> OBJECT_ENTRY_ARRAY then 0
      else sub64 (o_size ob) sizeof_EntryArrayObject div 8)"

definition journal_file_hash_table_n_items :: "object \<Rightarrow> nat" where
  "journal_file_hash_table_n_items ob =
     (if o_type ob \<noteq> OBJECT_DATA_HASH_TABLE \<and> o_type ob \<noteq> OBJECT_FIELD_HASH_TABLE then 0
      else sub64 (o_size ob) sizeof_HashTableObject div sizeof_HashItem)"

definition array_of :: "object \<Rightarrow> entry_array_object" where
  "array_of ob =
     (case o_body ob of
        EntryArrayBody d \<Rightarrow> d
      | _ \<Rightarrow> \<lparr>ea_next_entry_array_offset = 0, ea_items = []\<rparr>)"

definition entry_of :: "object \<Rightarrow> entry_object" where
  "entry_of ob =
     (case o_body ob of
        EntryBody d \<Rightarrow> d
      | _ \<Rightarrow> \<lparr>e_seqnum = 0, e_realtime = 0, e_monotonic = 0, e_boot_id = replicate 16 0,
               e_xor_hash = 0, e_items = []\<rparr>)"

definition on_array :: "(entry_array_object \<Rightarrow> entry_array_object) \<Rightarrow> object \<Rightarrow> object" where
  "on_array g ob = (case o_body ob of EntryArrayBody d \<Rightarrow> ob\<lparr>o_body := EntryArrayBody (g d)\<rparr> | _ \<Rightarrow> ob)"

definition on_entry :: "(entry_object \<Rightarrow> entry_object) \<Rightarrow> object \<Rightarrow> object" where
  "on_entry g ob = (case o_body ob of EntryBody d \<Rightarrow> ob\<lparr>o_body := EntryBody (g d)\<rparr> | _ \<Rightarrow> ob)"

subsection \<open>Linking an entry into a chain of entry arrays\<close>

text \<open>
  The search for the slot: either it is item \<open>i\<close> of array \<open>a\<close>, or the chain ends after array \<open>ap\<close>
  (0 when there is none) of \<open>n\<close> items with \<open>i\<close> items to go.
\<close>

datatype slot = SlotFound nat nat | SlotMissing nat nat nat

partial_function (option) find_slot ::
  "env \<Rightarrow> nat \<Rightarrow> nat \<Rightarrow> nat \<Rightarrow> nat \<Rightarrow> journal_file \<Rightarrow> (slot res \<times> journal_file) option" where
  "find_slot E a i ap n f =
     (if a > 0 then
        (case journal_file_move_to_object E (Some OBJECT_ENTRY_ARRAY) a f of
           None \<Rightarrow> None
         | Some (Inl e, f) \<Rightarrow> Some (Inl e, f)
         | Some (Inr ob, f) \<Rightarrow>
             let n = journal_file_entry_array_n_items ob in
             if i < n then Some (Inr (SlotFound a i), f)
             else find_slot E (ea_next_entry_array_offset (array_of ob)) (i - n) a n f)
      else Some (Inr (SlotMissing i ap n), f))"

definition set_item :: "nat \<Rightarrow> nat \<Rightarrow> nat \<Rightarrow> journal_file \<Rightarrow> journal_file" where
  "set_item a i p = upd_object a (on_array (\<lambda>d. d\<lparr>ea_items := (ea_items d)[i := p]\<rparr>))"

text \<open>The number of items of an array that is added after one of \<open>n\<close> items.\<close>

definition new_array_items :: "nat \<Rightarrow> nat \<Rightarrow> nat" where
  "new_array_items hidx n =
     (let n = (if hidx > n then mul64 (add64 hidx 1) 2 else mul64 n 2) in if n < 4 then 4 else n)"

text \<open>
  The pointers \<open>first\<close> and \<open>idx\<close> are given by what is read and written through them.
\<close>

definition link_entry_into_array ::
  "env \<Rightarrow> (journal_file \<Rightarrow> nat) \<Rightarrow> (nat \<Rightarrow> journal_file \<Rightarrow> journal_file) \<Rightarrow>
   (journal_file \<Rightarrow> nat) \<Rightarrow> (nat \<Rightarrow> journal_file \<Rightarrow> journal_file) \<Rightarrow> nat \<Rightarrow> unit jm" where
  "link_entry_into_array E get_first set_first get_idx set_idx p =
     bindE (getE get_first) (\<lambda>a.
     bindE (getE get_idx) (\<lambda>hidx.
     bindE (find_slot E a hidx 0 0) (\<lambda>s.
     case s of
       SlotFound a i \<Rightarrow> thenE (modifyE (set_item a i p)) (modifyE (set_idx (add64 hidx 1)))
     | SlotMissing i ap n \<Rightarrow>
         bindE (journal_file_append_object E OBJECT_ENTRY_ARRAY
                  (add64 sizeof_EntryArrayObject (mul64 (new_array_items hidx n) 8))) (\<lambda>q.
         thenE (modifyE (set_item q i p))
         (thenE (if ap = 0 then modifyE (set_first q)
                 else thenE (journal_file_move_to_object E (Some OBJECT_ENTRY_ARRAY) ap)
                        (modifyE (upd_object ap (on_array (\<lambda>d. d\<lparr>ea_next_entry_array_offset := q\<rparr>)))))
         (thenE (modifyE (\<lambda>f. if header_contains_n_entry_arrays (header f)
                   then upd_header (\<lambda>h. h\<lparr>n_entry_arrays := add64 (n_entry_arrays h) 1\<rparr>) f else f))
         (modifyE (set_idx (add64 hidx 1)))))))))"

definition link_entry_into_array_plus_one ::
  "env \<Rightarrow> (nat \<Rightarrow> journal_file \<Rightarrow> journal_file) \<Rightarrow>
   (journal_file \<Rightarrow> nat) \<Rightarrow> (nat \<Rightarrow> journal_file \<Rightarrow> journal_file) \<Rightarrow>
   (journal_file \<Rightarrow> nat) \<Rightarrow> (nat \<Rightarrow> journal_file \<Rightarrow> journal_file) \<Rightarrow> nat \<Rightarrow> unit jm" where
  "link_entry_into_array_plus_one E set_extra get_first set_first get_idx set_idx p =
     bindE (getE get_idx) (\<lambda>idx.
     thenE (if idx = 0 then modifyE (set_extra p)
            else link_entry_into_array E get_first set_first (\<lambda>_. sub64 idx 1) (\<lambda>_ f. f) p)
     (modifyE (set_idx (add64 idx 1))))"

subsection \<open>Linking an entry\<close>

definition journal_file_link_entry_item :: "env \<Rightarrow> nat \<Rightarrow> nat \<Rightarrow> nat \<Rightarrow> unit jm" where
  "journal_file_link_entry_item E o_entry offset i =
     bindE (getE (\<lambda>f. ei_object_offset (e_items (entry_of (object_at f o_entry)) ! i))) (\<lambda>p.
     thenE (guardE (p \<noteq> 0) EINVAL)
     (thenE (journal_file_move_to_object E (Some OBJECT_DATA) p)
     (link_entry_into_array_plus_one E
        (\<lambda>x. upd_object p (on_data (\<lambda>d. d\<lparr>d_entry_offset := x\<rparr>)))
        (\<lambda>f. d_entry_array_offset (data_of (object_at f p)))
        (\<lambda>x. upd_object p (on_data (\<lambda>d. d\<lparr>d_entry_array_offset := x\<rparr>)))
        (\<lambda>f. d_n_entries (data_of (object_at f p)))
        (\<lambda>x. upd_object p (on_data (\<lambda>d. d\<lparr>d_n_entries := x\<rparr>)))
        offset)))"

definition journal_file_link_entry :: "env \<Rightarrow> nat \<Rightarrow> nat \<Rightarrow> unit jm" where
  "journal_file_link_entry E o_entry offset =
     bindE (getE (\<lambda>f. object_at f o_entry)) (\<lambda>ob.
     thenE (guardE (o_type ob = OBJECT_ENTRY) EINVAL)
     (thenE (link_entry_into_array E
        (\<lambda>f. entry_array_offset (header f)) (\<lambda>x. upd_header (\<lambda>h. h\<lparr>entry_array_offset := x\<rparr>))
        (\<lambda>f. n_entries (header f)) (\<lambda>x. upd_header (\<lambda>h. h\<lparr>n_entries := x\<rparr>)) offset)
     (thenE (modifyE (upd_header (\<lambda>h.
        (if head_entry_realtime h = 0 then h\<lparr>head_entry_realtime := e_realtime (entry_of ob)\<rparr> else h)
          \<lparr>tail_entry_realtime := e_realtime (entry_of ob),
           tail_entry_monotonic := e_monotonic (entry_of ob)\<rparr>)))
     (thenE (modifyE (\<lambda>f. f\<lparr>tail_entry_monotonic_valid := True\<rparr>))
     (thenE (forE [0..<journal_file_entry_n_items ob] (journal_file_link_entry_item E o_entry offset))
     (returnE ()))))))"

subsection \<open>Appending an entry\<close>

record dual_timestamp =
  realtime :: nat
  monotonic :: nat

text \<open>
  The file together with the counter that the argument \<open>seqnum\<close> points to, if any.
\<close>

type_synonym 'a jsm = "(journal_file \<times> nat option, 'a) em"

definition on_file :: "'a jm \<Rightarrow> 'a jsm" where
  "on_file m = (\<lambda>(f, c). case m f of None \<Rightarrow> None | Some (r, f') \<Rightarrow> Some (r, (f', c)))"

definition next_seqnum :: "nat jsm" where
  "next_seqnum = (\<lambda>(f, c). case journal_file_entry_seqnum f c of (s, c', f') \<Rightarrow> Some (Inr s, (f', c')))"

definition journal_file_append_entry_internal ::
  "env \<Rightarrow> dual_timestamp \<Rightarrow> nat \<Rightarrow> entry_item list \<Rightarrow> nat jsm" where
  "journal_file_append_entry_internal E ts xor_hash items =
     (let osize = add64 sizeof_EntryObject (mul64 (length items) sizeof_EntryItem) in
      bindE (on_file (journal_file_append_object E OBJECT_ENTRY osize)) (\<lambda>np.
      bindE next_seqnum (\<lambda>s.
      thenE (on_file (modifyE (\<lambda>f. upd_object np (on_entry (\<lambda>e.
         e\<lparr>e_seqnum := s, e_items := items, e_realtime := realtime ts,
           e_monotonic := monotonic ts, e_xor_hash := xor_hash, e_boot_id := boot_id (header f)\<rparr>)) f)))
      (thenE (on_file (journal_file_link_entry E np np))
      (returnE np)))))"

definition journal_file_post_change :: "env \<Rightarrow> journal_file \<Rightarrow> journal_file" where
  "journal_file_post_change E f =
     (case env_ftruncate E of None \<Rightarrow> f\<lparr>file_size := st_size f\<rparr> | Some _ \<Rightarrow> f)"

text \<open>
  Items with the same offset are equal, since an object has one hash; any sorting algorithm gives
  the same list.
\<close>

definition entry_item_cmp :: "entry_item \<Rightarrow> entry_item \<Rightarrow> int" where
  "entry_item_cmp a b =
     (if ei_object_offset a < ei_object_offset b then -1
      else if ei_object_offset a > ei_object_offset b then 1 else 0)"

definition qsort_items :: "entry_item list \<Rightarrow> entry_item list" where
  "qsort_items items = sort_key ei_object_offset items"

definition append_item :: "env \<Rightarrow> bytes \<Rightarrow> entry_item jm" where
  "append_item E iov =
     bindE (journal_file_append_data E iov) (\<lambda>p.
     getE (\<lambda>f. \<lparr>ei_object_offset = p, ei_hash = d_hash (data_of (object_at f p))\<rparr>))"

definition journal_file_append_entry ::
  "env \<Rightarrow> dual_timestamp \<Rightarrow> dual_timestamp option \<Rightarrow> bytes list \<Rightarrow> nat jsm" where
  "journal_file_append_entry E now ts iovec =
     (let ts = (case ts of None \<Rightarrow> now | Some ts \<Rightarrow> ts) in
      bindE (getE (\<lambda>(f, c). tail_entry_monotonic_valid f \<and>
                     monotonic ts < tail_entry_monotonic (header f))) (\<lambda>backwards.
      thenE (guardE (\<not> backwards) EINVAL)
      (bindE (on_file (forE iovec (append_item E))) (\<lambda>items.
       let xor_hash = foldl (\<lambda>x it. x XOR ei_hash it) 0 items;
           items = (if iovec \<noteq> [] then qsort_items items else items)
       in (\<lambda>s. case journal_file_append_entry_internal E ts xor_hash items s of
                 None \<Rightarrow> None
               | Some (r, (f, c)) \<Rightarrow> Some (r, (journal_file_post_change E f, c)))))))"

end
