(* ===== verification/Entry_Arrays.thy ===== *)
theory Entry_Arrays
  imports File_Entry
begin

text \<open>
  The chains of entry arrays of a journal file (\<open>link_entry_into_array\<close> in \<open>lib/journal-file.c\<close>).  The
  file and every data object own a chain; \<open>entry_lists\<close> is the abstraction to one list of entry offsets
  per owner.  The lemma \<open>link_entry_into_array_run\<close> says that linking appends to the list of its owner
  and leaves the other lists alone, or fails and changes nothing.
\<close>

section \<open>Chains of entry arrays\<close>

type_synonym arrays = "nat \<rightharpoonup> entry_array_object"

definition array_next :: "arrays \<Rightarrow> nat \<rightharpoonup> nat" where
  "array_next am a = map_option ea_next_entry_array_offset (am a)"

definition items_of :: "arrays \<Rightarrow> nat \<Rightarrow> nat list" where
  "items_of am a = (case am a of None \<Rightarrow> [] | Some d \<Rightarrow> ea_items d)"

definition slots :: "arrays \<Rightarrow> nat list \<Rightarrow> nat list" where
  "slots am as = concat (map (items_of am) as)"

lemma slots_simps [simp]:
  "slots am [] = []" "slots am (a # as) = items_of am a @ slots am as"
  "slots am (as @ bs) = slots am as @ slots am bs"
  by (simp_all add: slots_def)

lemma slots_cong: "(\<And>a. a \<in> set as \<Longrightarrow> am' a = am a) \<Longrightarrow> slots am' as = slots am as"
  by (induction as) (simp_all add: items_of_def)

primrec slot_in :: "arrays \<Rightarrow> nat list \<Rightarrow> nat \<Rightarrow> nat \<Rightarrow> nat \<Rightarrow> slot" where
  "slot_in am [] i ap n = SlotMissing i ap n"
| "slot_in am (a # as) i ap n =
     (if i < length (items_of am a) then SlotFound a i
      else slot_in am as (i - length (items_of am a)) a (length (items_of am a)))"

lemma slot_in_found:
  "slot_in am as i ap n = SlotFound a j \<Longrightarrow> a \<in> set as \<and> j < length (items_of am a) \<and> i < length (slots am as)"
proof (induction as arbitrary: i ap n)
  case (Cons b as)
  from Cons.IH [of "i - length (items_of am b)" b "length (items_of am b)"] Cons.prems
  show ?case by (auto split: if_splits)
qed simp

lemma slot_in_missing:
  "slot_in am as i ap n = SlotMissing j ap' n' \<Longrightarrow>
   length (slots am as) \<le> i \<and> j = i - length (slots am as) \<and>
   ap' = (if as = [] then ap else last as) \<and> n' = (if as = [] then n else length (items_of am (last as)))"
proof (induction as arbitrary: i ap n)
  case (Cons b as)
  from Cons.IH [of "i - length (items_of am b)" b "length (items_of am b)"] Cons.prems
  show ?case by (auto split: if_splits)
qed simp

definition write_item :: "nat \<Rightarrow> nat \<Rightarrow> nat \<Rightarrow> arrays \<Rightarrow> arrays" where
  "write_item a j p am = am(a := map_option (\<lambda>d. d\<lparr>ea_items := (ea_items d)[j := p]\<rparr>) (am a))"

lemma write_item_next [simp]: "array_next (write_item a j p am) = array_next am"
  by (auto simp: array_next_def write_item_def fun_eq_iff option.map_comp comp_def)

lemma items_write_item:
  "items_of (write_item a j p am) b = (if b = a then (items_of am a)[j := p] else items_of am b)"
  by (auto simp: items_of_def write_item_def split: option.splits)

lemma slots_write_other: "a \<notin> set as \<Longrightarrow> slots (write_item a j p am) as = slots am as"
  by (rule slots_cong) (auto simp: write_item_def)

lemma slots_write:
  "slot_in am as i ap n = SlotFound a j \<Longrightarrow> distinct as \<Longrightarrow>
   slots (write_item a j p am) as = (slots am as)[i := p]"
proof (induction as arbitrary: i ap n)
  case (Cons b as)
  show ?case
  proof (cases "i < length (items_of am b)")
    case True
    with Cons.prems have "a = b" "j = i" by auto
    with Cons.prems True show ?thesis
      by (simp add: slots_write_other items_write_item list_update_append)
  next
    case False
    with Cons.prems have f: "slot_in am as (i - length (items_of am b)) b (length (items_of am b)) = SlotFound a j"
      by simp
    with Cons.prems slot_in_found have "a \<noteq> b" by force
    with Cons.IH [OF f] Cons.prems(2) False show ?thesis
      by (simp add: items_write_item list_update_append)
  qed
qed simp

section \<open>All chains of a file\<close>

datatype owner = Global | Of nat

text \<open>
  The chains of the file and of its data objects.  \<open>F\<close> gives the first array of each chain, \<open>N\<close> the
  number of items in use, and \<open>A\<close> the arrays of the chain.  No array belongs to two chains.
\<close>

definition lists_ok ::
  "arrays \<Rightarrow> (owner \<Rightarrow> nat) \<Rightarrow> (owner \<Rightarrow> nat) \<Rightarrow> (owner \<Rightarrow> nat list) \<Rightarrow> bool" where
  "lists_ok am F N A \<longleftrightarrow>
     (\<forall>w. chain (array_next am) (F w) (A w) \<and> N w \<le> length (slots am (A w)) \<and>
        (\<forall>a\<in>set (A w). items_of am a \<noteq> [])) \<and>
     (\<forall>v w. v \<noteq> w \<longrightarrow> set (A v) \<inter> set (A w) = {})"

definition elist :: "arrays \<Rightarrow> (owner \<Rightarrow> nat) \<Rightarrow> (owner \<Rightarrow> nat list) \<Rightarrow> owner \<Rightarrow> nat list" where
  "elist am N A w = take (N w) (slots am (A w))"

lemma chain_dom_arrays: "chain (array_next am) a as \<Longrightarrow> set as \<subseteq> dom am"
  using chain_dom by (fastforce simp: array_next_def)

lemma take_update_snoc: "n < length xs \<Longrightarrow> take (Suc n) (xs[n := p]) = take n xs @ [p]"
  by (simp add: take_Suc_conv_app_nth)

lemma lists_write:
  assumes ok: "lists_ok am F N A" and s: "slot_in am (A w) (N w) 0 0 = SlotFound a j"
  shows "lists_ok (write_item a j p am) F (N(w := Suc (N w))) A"
    "elist (write_item a j p am) (N(w := Suc (N w))) A v = elist am N A v @ (if v = w then [p] else [])"
proof -
  have c: "chain (array_next am) (F w) (A w)" for w using ok by (simp add: lists_ok_def)
  note f = slot_in_found [OF s] and sw = slots_write [OF s chain_distinct [OF c], of p]
  have other: "slots (write_item a j p am) (A v) = slots am (A v)" if "v \<noteq> w" for v
    using that f ok unfolding lists_ok_def by (intro slots_write_other) blast
  show "lists_ok (write_item a j p am) F (N(w := Suc (N w))) A"
    using ok f unfolding lists_ok_def by (auto simp: sw other items_write_item)
  show "elist (write_item a j p am) (N(w := Suc (N w))) A v = elist am N A v @ (if v = w then [p] else [])"
    using f by (auto simp: elist_def sw other take_update_snoc)
qed

definition link_array :: "nat \<Rightarrow> nat \<Rightarrow> nat \<Rightarrow> nat \<Rightarrow> arrays \<Rightarrow> arrays" where
  "link_array ap q n p am =
     (let am' = am(q \<mapsto> \<lparr>ea_next_entry_array_offset = 0, ea_items = (replicate n 0)[0 := p]\<rparr>)
      in if ap = 0 then am'
         else am'(ap := map_option (\<lambda>d. d\<lparr>ea_next_entry_array_offset := q\<rparr>) (am' ap)))"

lemma lists_link:
  assumes ok: "lists_ok am F N A" and s: "slot_in am (A w) (N w) 0 0 = SlotMissing j ap n'"
    and q: "q \<notin> dom am" "q \<noteq> 0" and n: "0 < n"
  shows "j = 0"
    and "lists_ok (link_array ap q n p am) (if ap = 0 then F(w := q) else F) (N(w := Suc (N w)))
      (A(w := A w @ [q]))"
    and "elist (link_array ap q n p am) (N(w := Suc (N w))) (A(w := A w @ [q])) v =
      elist am N A v @ (if v = w then [p] else [])"
proof -
  let ?am = "link_array ap q n p am"
  have c: "chain (array_next am) (F w) (A w)" and le: "N w \<le> length (slots am (A w))" for w
    using ok by (simp_all add: lists_ok_def)
  note m = slot_in_missing [OF s]
  have N: "N w = length (slots am (A w))" using m le [of w] by simp
  show "j = 0" using m N by simp
  have nz: "0 \<notin> set (A v)" and qn: "q \<notin> set (A v)" for v
    using chain_nonzero [OF c] chain_dom_arrays [OF c] q(1) by blast+
  have ap0: "ap = 0 \<longleftrightarrow> A w = []" using m nz [of w] by (metis last_in_set)
  have apq: "ap \<noteq> q" using m qn [of w] q(2) by (metis last_in_set)
  have nx: "array_next ?am = (if ap = 0 then (array_next am)(q \<mapsto> 0) else (array_next am)(ap \<mapsto> q, q \<mapsto> 0))"
  proof (cases "ap = 0")
    case False
    then have "ap \<in> dom am" using m ap0 chain_dom_arrays [OF c, of w] last_in_set by fastforce
    with False apq show ?thesis by (auto simp: link_array_def array_next_def fun_eq_iff)
  qed (auto simp: link_array_def array_next_def fun_eq_iff)
  have it: "items_of ?am b = (if b = q then (replicate n 0)[0 := p] else items_of am b)" for b
    using apq by (auto simp: link_array_def items_of_def Let_def split: option.splits)
  have sl: "slots ?am (A v) = slots am (A v)" for v
    using qn by (auto simp: slots_def it intro!: arg_cong [where f = concat] map_cong)
  have apv: "ap \<notin> set (A v)" if "v \<noteq> w" "ap \<noteq> 0" for v
  proof -
    have "ap \<in> set (A w)" using m ap0 that(2) by (metis last_in_set)
    with ok that(1) show ?thesis unfolding lists_ok_def by blast
  qed
  have cw: "chain (array_next ?am) (if ap = 0 then q else F w) (A w @ [q])"
  proof (cases "A w = []")
    case True
    with ap0 q(2) show ?thesis using nx by simp
  next
    case False
    with ap0 m have "ap = last (A w)" "ap \<noteq> 0" by auto
    with chain_snoc [OF c False qn q(2)] show ?thesis unfolding nx by simp
  qed
  have cv: "chain (array_next ?am) (F v) (A v)" if "v \<noteq> w" for v
    using c [of v] apv [OF that] qn [of v] unfolding nx by simp
  have len: "length (slots ?am (A w @ [q])) = N w + n" by (simp add: sl it N)
  show "lists_ok ?am (if ap = 0 then F(w := q) else F) (N(w := Suc (N w))) (A(w := A w @ [q]))"
    unfolding lists_ok_def
  proof (intro conjI allI impI)
    fix v
    show "chain (array_next ?am) ((if ap = 0 then F(w := q) else F) v) ((A(w := A w @ [q])) v)"
      using cw cv by (cases "v = w") (auto split: if_splits)
    show "(N(w := Suc (N w))) v \<le> length (slots ?am ((A(w := A w @ [q])) v))"
      using len n le [of v] sl [of v] by (cases "v = w") auto
    show "\<forall>a\<in>set ((A(w := A w @ [q])) v). items_of ?am a \<noteq> []"
      using ok n qn unfolding lists_ok_def by (auto simp: it)
  next
    fix v u :: owner assume "v \<noteq> u"
    then show "set ((A(w := A w @ [q])) v) \<inter> set ((A(w := A w @ [q])) u) = {}"
      using ok qn by (auto simp: lists_ok_def)
  qed
  have itq: "items_of ?am q = p # replicate (n - 1) 0" unfolding it using n by (cases n) auto
  show "elist ?am (N(w := Suc (N w))) (A(w := A w @ [q])) v = elist am N A v @ (if v = w then [p] else [])"
  proof (cases "v = w")
    case True
    then show ?thesis by (simp add: elist_def sl itq N)
  qed (simp add: elist_def sl)
qed

section \<open>The chains of a file\<close>

fun as_array :: "body \<Rightarrow> entry_array_object option" where
  "as_array (EntryArrayBody d) = Some d"
| "as_array _ = None"

fun as_entry :: "body \<Rightarrow> entry_object option" where
  "as_entry (EntryBody d) = Some d"
| "as_entry _ = None"

definition array_map :: "journal_file \<Rightarrow> arrays" where
  "array_map f p = (case store f p of None \<Rightarrow> None | Some ob \<Rightarrow> as_array (o_body ob))"

definition entry_map :: "journal_file \<Rightarrow> nat \<rightharpoonup> entry_object" where
  "entry_map f p = (case store f p of None \<Rightarrow> None | Some ob \<Rightarrow> as_entry (o_body ob))"

lemma as_array_Some: "as_array b = Some d \<longleftrightarrow> b = EntryArrayBody d"
  by (cases b) auto

lemma as_entry_Some: "as_entry b = Some d \<longleftrightarrow> b = EntryBody d"
  by (cases b) auto

lemma array_map_Some: "array_map f p = Some d \<longleftrightarrow> (\<exists>ob. store f p = Some ob \<and> o_body ob = EntryArrayBody d)"
  by (auto simp: array_map_def as_array_Some split: option.splits)

lemma entry_map_Some: "entry_map f p = Some d \<longleftrightarrow> (\<exists>ob. store f p = Some ob \<and> o_body ob = EntryBody d)"
  by (auto simp: entry_map_def as_entry_Some split: option.splits)

lemma o_type_array: "o_type ob = OBJECT_ENTRY_ARRAY \<longleftrightarrow> o_body ob = EntryArrayBody (array_of ob)"
  by (cases "o_body ob") (auto simp: array_of_def)

lemma o_type_entry: "o_type ob = OBJECT_ENTRY \<longleftrightarrow> o_body ob = EntryBody (entry_of ob)"
  by (cases "o_body ob") (auto simp: entry_of_def)

lemma array_map_of:
  "array_map f p = Some d \<longleftrightarrow> (\<exists>ob. store f p = Some ob \<and> o_type ob = OBJECT_ENTRY_ARRAY \<and> d = array_of ob)"
  by (auto simp: array_map_Some o_type_array array_of_def)

lemma entry_map_of:
  "entry_map f p = Some d \<longleftrightarrow> (\<exists>ob. store f p = Some ob \<and> o_type ob = OBJECT_ENTRY \<and> d = entry_of ob)"
  by (auto simp: entry_map_Some o_type_entry entry_of_def)

text \<open>The entry arrays and entries as part of the stripped objects.\<close>

lemma array_map_stripped: "array_map f p = (case stripped f p of None \<Rightarrow> None | Some ob \<Rightarrow> as_array (o_body ob))"
proof -
  have "as_array (strip_body b) = as_array b" for b by (cases b) auto
  then show ?thesis by (auto simp: array_map_def stripped_def strip_def split: option.splits)
qed

lemma entry_map_stripped: "entry_map f p = (case stripped f p of None \<Rightarrow> None | Some ob \<Rightarrow> as_entry (o_body ob))"
proof -
  have "as_entry (strip_body b) = as_entry b" for b by (cases b) auto
  then show ?thesis by (auto simp: entry_map_def stripped_def strip_def split: option.splits)
qed

lemma extends_array_map:
  assumes "extends f f'"
  shows "array_map f' = array_map f" "entry_map f' = entry_map f"
proof -
  have un: "as_array (o_body ob) = None" "as_entry (o_body ob) = None" if "unlinked ob" for ob
    using that by (auto simp: unlinked_def split: body.splits)
  have "array_map f' p = array_map f p \<and> entry_map f' p = entry_map f p" for p
  proof (cases "stripped f p")
    case None
    then show ?thesis
      using assms un by (cases "stripped f' p")
        (auto simp: array_map_stripped entry_map_stripped extends_def)
  next
    case (Some ob)
    with assms have "stripped f' p = Some ob" by (auto simp: extends_def)
    with Some show ?thesis by (simp add: array_map_stripped entry_map_stripped)
  qed
  then show "array_map f' = array_map f" "entry_map f' = entry_map f" by auto
qed

subsection \<open>Effect of writes\<close>

lemma array_map_upd [simp]:
  "array_map (upd_object p (on_array g) f) = (array_map f)(p := map_option g (array_map f p))"
  "array_map (upd_object p (on_data gd) f) = array_map f"
  "array_map (upd_object p (on_entry ge) f) = array_map f"
  "array_map (upd_header gh f) = array_map f"
  "array_map (appended p ob f) = (array_map f)(p := as_array (o_body ob))"
  by (auto simp: array_map_def upd_object_store on_array_def on_data_def on_entry_def fun_eq_iff
      split: option.splits body.splits)

lemma entry_map_upd [simp]:
  "entry_map (upd_object p (on_array g) f) = entry_map f"
  "entry_map (upd_object p (on_data gd) f) = entry_map f"
  "entry_map (upd_object p (on_entry ge) f) = (entry_map f)(p := map_option ge (entry_map f p))"
  "entry_map (upd_header gh f) = entry_map f"
  "entry_map (appended p ob f) = (entry_map f)(p := as_entry (o_body ob))"
  by (auto simp: entry_map_def upd_object_store on_array_def on_data_def on_entry_def fun_eq_iff
      split: option.splits body.splits)

lemma data_map_upd [simp]:
  "data_map (upd_object p (on_array g) f) = data_map f"
  "data_map (upd_object p (on_entry ge) f) = data_map f"
  "data_map (upd_object p (on_data gd) f) = (data_map f)(p := map_option gd (data_map f p))"
  "field_map (upd_object p (on_array g) f) = field_map f"
  "field_map (upd_object p (on_entry ge) f) = field_map f"
  "field_map (upd_object p (on_data gd) f) = field_map f"
  by (auto simp: data_map_def field_map_def upd_object_store on_array_def on_entry_def on_data_def
      fun_eq_iff split: option.splits body.splits)

subsection \<open>The abstraction\<close>

fun first_of :: "journal_file \<Rightarrow> owner \<Rightarrow> nat" where
  "first_of f Global = entry_array_offset (header f)"
| "first_of f (Of p) = (case data_map f p of None \<Rightarrow> 0 | Some d \<Rightarrow> d_entry_array_offset d)"

fun cnt_of :: "journal_file \<Rightarrow> owner \<Rightarrow> nat" where
  "cnt_of f Global = n_entries (header f)"
| "cnt_of f (Of p) = (case data_map f p of None \<Rightarrow> 0 | Some d \<Rightarrow> d_n_entries d - 1)"

fun extra_of :: "journal_file \<Rightarrow> owner \<Rightarrow> nat list" where
  "extra_of f Global = []"
| "extra_of f (Of p) =
     (case data_map f p of None \<Rightarrow> [] | Some d \<Rightarrow> if d_n_entries d = 0 then [] else [d_entry_offset d])"

text \<open>
  \<open>entry_lists f L\<close>: the entry arrays are sound, the file lists the entries \<open>L Global\<close>, and the data
  object at \<open>p\<close> the entries \<open>L (Of p)\<close>, each time in the order in which they were added.
\<close>

definition entry_lists :: "journal_file \<Rightarrow> (owner \<Rightarrow> nat list) \<Rightarrow> bool" where
  "entry_lists f L \<longleftrightarrow>
     (\<exists>A. lists_ok (array_map f) (first_of f) (cnt_of f) A \<and>
        (\<forall>w. L w = extra_of f w @ elist (array_map f) (cnt_of f) A w)) \<and>
     (\<forall>w. set (L w) \<subseteq> dom (entry_map f))"

lemma entry_lists_unique: "entry_lists f L \<Longrightarrow> entry_lists f M \<Longrightarrow> L = M"
proof (rule ext)
  fix w assume "entry_lists f L" "entry_lists f M"
  then obtain A B where A: "lists_ok (array_map f) (first_of f) (cnt_of f) A"
    "L w = extra_of f w @ elist (array_map f) (cnt_of f) A w"
    and B: "lists_ok (array_map f) (first_of f) (cnt_of f) B"
    "M w = extra_of f w @ elist (array_map f) (cnt_of f) B w" unfolding entry_lists_def by blast
  from A(1) B(1) have "A w = B w" unfolding lists_ok_def by (meson chain_unique)
  with A(2) B(2) show "L w = M w" by (simp add: elist_def)
qed

text \<open>The list depends only on the views.\<close>

lemma entry_lists_cong:
  assumes "array_map f' = array_map f" "entry_map f' = entry_map f" "data_map f' = data_map f"
    "entry_array_offset (header f') = entry_array_offset (header f)"
    "n_entries (header f') = n_entries (header f)"
  shows "entry_lists f' L = entry_lists f L"
proof -
  have "first_of f' = first_of f" "cnt_of f' = cnt_of f" "extra_of f' = extra_of f"
    unfolding fun_eq_iff using assms(3-5) by (metis first_of.simps cnt_of.simps extra_of.simps owner.exhaust)+
  then show ?thesis by (simp add: entry_lists_def assms(1,2))
qed

section \<open>Capacity\<close>

lemma sum_sizes:
  assumes lay: "layout f" and "finite S"
  shows "S \<subseteq> dom (store f) \<Longrightarrow> (\<And>p. p \<in> S \<Longrightarrow> p + o_size (the (store f p)) \<le> b) \<Longrightarrow>
    header_size (header f) \<le> b \<Longrightarrow> header_size (header f) + (\<Sum>p\<in>S. o_size (the (store f p))) \<le> b"
  using assms(2)
proof (induction S arbitrary: b rule: finite_linorder_max_induct)
  case (insert m S)
  obtain ob where m: "store f m = Some ob" using insert.prems(1) by auto
  have "p + o_size (the (store f p)) \<le> m" if "p \<in> S" for p
  proof -
    have "p \<in> dom (store f)" using that insert.prems(1) by blast
    then obtain pb where "store f p = Some pb" by blast
    with layout_disjoint [OF lay this, of m] insert.hyps(2) that m show ?thesis by auto
  qed
  then have "header_size (header f) + (\<Sum>p\<in>S. o_size (the (store f p))) \<le> m"
    using insert.IH [of m] insert.prems(1) layoutD(2) [OF lay m] by auto
  moreover have "m + o_size ob \<le> b" using insert.prems(2) [of m] m by simp
  moreover have "m \<notin> S" using insert.hyps(2) by blast
  ultimately show ?case using insert.hyps(1) m by simp
qed simp

lemma slots_bound:
  assumes lay: "layout f" and c: "chain (array_next (array_map f)) a as"
  shows "8 * length (slots (array_map f) as) \<le> arena_size (header f)"
proof -
  let ?hs = "header_size (header f)"
  have d: "set as \<subseteq> dom (array_map f)" by (rule chain_dom_arrays [OF c])
  moreover have "dom (array_map f) \<subseteq> dom (store f)" by (auto simp: array_map_Some)
  ultimately have ds: "set as \<subseteq> dom (store f)" by blast
  have it: "8 * length (items_of (array_map f) q) \<le> o_size (the (store f q))" if "q \<in> set as" for q
  proof -
    have "q \<in> dom (array_map f)" using that d by blast
    then obtain dd where "array_map f q = Some dd" by blast
    then obtain ob where ob: "store f q = Some ob" "o_body ob = EntryArrayBody dd"
      by (auto simp: array_map_Some)
    with layoutD(4) [OF lay ob(1)] show ?thesis
      by (simp add: items_of_def array_map_def object_ok_def)
  qed
  have "8 * length (slots (array_map f) as) = (\<Sum>q\<leftarrow>as. 8 * length (items_of (array_map f) q))"
    by (induction as) simp_all
  also have "\<dots> = (\<Sum>q\<in>set as. 8 * length (items_of (array_map f) q))"
    using chain_distinct [OF c] by (simp add: sum_list_distinct_conv_sum_set)
  also have "\<dots> \<le> (\<Sum>q\<in>set as. o_size (the (store f q)))" using it by (intro sum_mono)
  finally have s: "8 * length (slots (array_map f) as) \<le> (\<Sum>q\<in>set as. o_size (the (store f q)))" .
  have "q + o_size (the (store f q)) \<le> ?hs + arena_size (header f)" if "q \<in> set as" for q
    using that ds layoutD(5) [OF lay] by fastforce
  with sum_sizes [OF lay _ ds, of "?hs + arena_size (header f)"] s show ?thesis by simp
qed

lemma slots_limit:
  assumes "layout f" "limited f" "chain (array_next (array_map f)) a as"
  shows "length (slots (array_map f) as) \<le> 2 ^ 57"
  using slots_bound [OF assms(1,3)] layout_bounds(8) [OF assms(1,2)] by simp

lemma n_items_array:
  assumes "layout f" "store f a = Some ob" "o_type ob = OBJECT_ENTRY_ARRAY"
  shows "journal_file_entry_array_n_items ob = length (ea_items (array_of ob))"
proof -
  have b: "o_body ob = EntryArrayBody (array_of ob)" using assms(3) by (simp only: o_type_array)
  note l = layoutD(4,5) [OF assms(1,2)]
  have s: "o_size ob = sizeof_EntryArrayObject + 8 * length (ea_items (array_of ob))"
    using l(1) unfolding object_ok_def b by simp
  have "o_size ob < two64" using l(2) layout_bounds(3) [OF assms(1)] two63_two64 by linarith
  then have "sub64 (o_size ob) sizeof_EntryArrayObject = 8 * length (ea_items (array_of ob))"
    using s by (simp add: sub64_eq)
  then show ?thesis using assms(3) by (simp add: journal_file_entry_array_n_items_def)
qed

lemma find_slot_run:
  assumes lay: "layout f" and mm: "mmap_ok E"
  shows "chain (array_next (array_map f)) a as \<Longrightarrow>
    find_slot E a i ap n f = Some (Inr (slot_in (array_map f) as i ap n), f)"
proof (induction as arbitrary: a i ap n)
  case Nil
  then show ?case by (simp add: find_slot.simps)
next
  case (Cons b as)
  then obtain q where a: "a \<noteq> 0" "b = a" "array_next (array_map f) a = Some q"
    and rest: "chain (array_next (array_map f)) q as" by auto
  from a(3) obtain ob where ob: "store f a = Some ob" "o_type ob = OBJECT_ENTRY_ARRAY"
    and q: "q = ea_next_entry_array_offset (array_of ob)" by (auto simp: array_next_def array_map_of)
  have mv: "journal_file_move_to_object E (Some OBJECT_ENTRY_ARRAY) a f = Some (Inr ob, f)"
    using ob by (intro move_to_object_stored lay mm) auto
  have it: "items_of (array_map f) a = ea_items (array_of ob)"
    using ob by (auto simp: items_of_def array_map_of split: option.splits)
      (metis array_map_of option.distinct(1) option.inject)+
  show ?case
    using a(1,2) Cons.IH [OF rest] n_items_array [OF lay ob]
    by (subst find_slot.simps) (simp add: mv it q Let_def)
qed

section \<open>Frames\<close>

text \<open>
  What linking entries leaves alone: everything but the entry arrays, the entry links of data
  objects, and the allocation of the file.
\<close>

definition data_core :: "journal_file \<Rightarrow> nat \<Rightarrow> data_object option" where
  "data_core f q = map_option (\<lambda>d. d\<lparr>d_entry_array_offset := 0\<rparr>) (data_map f q)"

definition link_frame_of :: "journal_file \<Rightarrow> journal_file" where
  "link_frame_of f = f\<lparr>st_size := 0, file_size := 0, store := Map.empty,
     header := (header f)\<lparr>state := 0, arena_size := 0, tail_object_offset := 0, n_objects := 0,
       n_entry_arrays := 0, entry_array_offset := 0, n_entries := 0\<rparr>\<rparr>"

definition same_links :: "journal_file \<Rightarrow> journal_file \<Rightarrow> bool" where
  "same_links f g \<longleftrightarrow>
     link_frame_of g = link_frame_of f \<and> entry_map g = entry_map f \<and>
     (\<forall>q ob. erased f q = Some ob \<longrightarrow> erased g q = Some ob)"

lemma same_links_refl [simp]: "same_links f f"
  by (simp add: same_links_def)

lemma same_links_trans: "same_links f g \<Longrightarrow> same_links g h \<Longrightarrow> same_links f h"
  by (auto simp: same_links_def)

lemma same_links_fields:
  assumes "same_links f g"
  shows "chain_cache g = chain_cache f" "metrics g = metrics f" "compress_xz g = compress_xz f"
    "writable g = writable f" "tail_entry_monotonic_valid g = tail_entry_monotonic_valid f"
    "data_hash_table g = data_hash_table f" "field_hash_table g = field_hash_table f"
    "(header g)\<lparr>state := 0, arena_size := 0, tail_object_offset := 0, n_objects := 0,
       n_entry_arrays := 0, entry_array_offset := 0, n_entries := 0\<rparr> =
     (header f)\<lparr>state := 0, arena_size := 0, tail_object_offset := 0, n_objects := 0,
       n_entry_arrays := 0, entry_array_offset := 0, n_entries := 0\<rparr>"
  using assms by (cases f; cases g; simp add: same_links_def link_frame_of_def)+

lemma same_links_header:
  assumes "same_links f g"
  shows "header_size (header g) = header_size (header f)"
    "n_data (header g) = n_data (header f)" "n_fields (header g) = n_fields (header f)"
    "tail_entry_seqnum (header g) = tail_entry_seqnum (header f)"
    "head_entry_seqnum (header g) = head_entry_seqnum (header f)"
    "tail_entry_monotonic (header g) = tail_entry_monotonic (header f)"
    "head_entry_realtime (header g) = head_entry_realtime (header f)"
    "tail_entry_realtime (header g) = tail_entry_realtime (header f)"
    "data_hash_table_size (header g) = data_hash_table_size (header f)"
    "field_hash_table_size (header g) = field_hash_table_size (header f)"
    "boot_id (header g) = boot_id (header f)"
  using same_links_fields(8) [OF assms] by (cases "header f"; cases "header g"; simp)+

lemma limited_same_links: "same_links f g \<Longrightarrow> limited g = limited f"
  by (simp add: limited_def same_links_fields(2))

lemma same_links_grown: "grown f g \<Longrightarrow> same_links f g"
proof -
  assume g: "grown f g"
  then have sc: "same_content f g" by (simp add: grown_def)
  have "link_frame_of g = link_frame_of f"
    using sc by (cases f; cases g; cases "header f"; cases "header g")
      (simp add: same_content_def core_of_def link_frame_of_def)
  moreover have "entry_map g = entry_map f"
    using same_content_fields(1) [OF sc] by (auto simp: entry_map_def)
  ultimately show ?thesis using grown_views(3) [OF g] by (simp add: same_links_def)
qed

lemma link_frame_upd [simp]:
  "link_frame_of (upd_object p g f) = link_frame_of f"
  "link_frame_of (upd_header (\<lambda>h. h\<lparr>n_entry_arrays := F h\<rparr>) f) = link_frame_of f"
  "link_frame_of (upd_header (\<lambda>h. h\<lparr>entry_array_offset := F h\<rparr>) f) = link_frame_of f"
  "link_frame_of (upd_header (\<lambda>h. h\<lparr>n_entries := F h\<rparr>) f) = link_frame_of f"
  "link_frame_of (appended q ob f) = link_frame_of f"
  by (auto simp: link_frame_of_def upd_object_def put_object_def appended_def
      upd_header_def add_tail_def split: option.splits)

text \<open>A sound file stays sound when the views that \<open>file_ok\<close> looks at stay the same.\<close>

lemma file_ok_entry_links:
  assumes er: "erased g = erased f" and lf: "link_frame_of g = link_frame_of f"
    and dc: "data_next (data_map g) = data_next (data_map f)" "data_hashes (data_map g) = data_hashes (data_map f)"
    and fm: "field_map g = field_map f"
    and sz: "st_size g = st_size f" "file_size g = file_size f" "arena_size (header g) = arena_size (header f)"
      "tail_object_offset (header g) = tail_object_offset (header f)" "n_objects (header g) = n_objects (header f)"
  shows "file_ok E g = file_ok E f"
proof -
  have "dom (data_hashes m) = dom m" for m by (auto simp: data_hashes_def dom_def)
  then have d: "dom (data_map g) = dom (data_map f)" using dc(2) by metis
  have e1: "(header g)\<lparr>state := 0, arena_size := 0, tail_object_offset := 0, n_objects := 0,
       n_entry_arrays := 0, entry_array_offset := 0, n_entries := 0\<rparr> =
     (header f)\<lparr>state := 0, arena_size := 0, tail_object_offset := 0, n_objects := 0,
       n_entry_arrays := 0, entry_array_offset := 0, n_entries := 0\<rparr>"
    and e2: "data_hash_table g = data_hash_table f" "field_hash_table g = field_hash_table f"
      "metrics g = metrics f"
    using lf by (cases f; cases g; simp add: link_frame_of_def)+
  have h: "header_size (header g) = header_size (header f)" "n_data (header g) = n_data (header f)"
    "n_fields (header g) = n_fields (header f)"
    "data_hash_table_size (header g) = data_hash_table_size (header f)"
    "field_hash_table_size (header g) = field_hash_table_size (header f)"
    using e1 by (cases "header f"; cases "header g"; simp)+
  show ?thesis
    using layout_cong [OF er] h sz e2
    by (simp add: file_ok_def er data_index_def field_index_def dc fm d header_contains_defs)
qed

section \<open>Linking\<close>

text \<open>Writing the head of the chain of an owner.\<close>

fun set_first :: "owner \<Rightarrow> nat \<Rightarrow> journal_file \<Rightarrow> journal_file" where
  "set_first Global q = upd_header (\<lambda>h. h\<lparr>entry_array_offset := q\<rparr>)"
| "set_first (Of p) q = upd_object p (on_data (\<lambda>d. d\<lparr>d_entry_array_offset := q\<rparr>))"

definition owner_ok :: "journal_file \<Rightarrow> owner \<Rightarrow> bool" where
  "owner_ok f w \<longleftrightarrow> (case w of Global \<Rightarrow> True | Of p \<Rightarrow> p \<in> dom (data_map f))"

text \<open>What holds between the writing of the slot and the update of the counter.\<close>

definition slot_written :: "env \<Rightarrow> owner \<Rightarrow> nat \<Rightarrow> journal_file \<Rightarrow> journal_file \<Rightarrow> bool" where
  "slot_written E w p f g \<longleftrightarrow>
     file_ok E g \<and> same_links f g \<and> data_core g = data_core f \<and>
     n_entries (header g) = n_entries (header f) \<and>
     (\<forall>A. lists_ok (array_map f) (first_of f) (cnt_of f) A \<longrightarrow>
        (\<exists>B. lists_ok (array_map g) (first_of g) ((cnt_of f)(w := Suc (cnt_of f w))) B \<and>
           (\<forall>v. elist (array_map g) ((cnt_of f)(w := Suc (cnt_of f w))) B v =
              elist (array_map f) (cnt_of f) A v @ (if v = w then [p] else []))))"

lemma on_array_erase: "(\<And>d. length (ea_items (g d)) = length (ea_items d)) \<Longrightarrow> erase (on_array g ob) = erase ob"
  by (auto simp: erase_def on_array_def split: body.splits)

lemma array_upd_same:
  fixes g :: "entry_array_object \<Rightarrow> entry_array_object"
  assumes "\<And>d. length (ea_items (g d)) = length (ea_items d)"
  shows "erased (upd_object a (on_array g) f) = erased f"
    "file_ok E (upd_object a (on_array g) f) = file_ok E f"
    "same_links f (upd_object a (on_array g) f)"
proof -
  show e: "erased (upd_object a (on_array g) f) = erased f"
    using on_array_erase [OF assms] by (intro erased_upd)
  show "file_ok E (upd_object a (on_array g) f) = file_ok E f"
    by (rule file_ok_entry_links) (simp_all add: e)
  show "same_links f (upd_object a (on_array g) f)" by (simp add: same_links_def e)
qed

lemma set_item_same:
  "erased (set_item a i p f) = erased f" "file_ok E (set_item a i p f) = file_ok E f"
  "same_links f (set_item a i p f)" "data_map (set_item a i p f) = data_map f"
  "header (set_item a i p f) = header f" "array_map (set_item a i p f) = write_item a i p (array_map f)"
  by (simp_all add: set_item_def array_upd_same write_item_def)

lemma views_eq:
  assumes "entry_array_offset (header g) = entry_array_offset (header f)"
    "n_entries (header g) = n_entries (header f)" and "data_map g = data_map f"
  shows "first_of g = first_of f" "cnt_of g = cnt_of f" "extra_of g = extra_of f" "data_core g = data_core f"
proof -
  show "first_of g = first_of f"
  proof (rule ext)
    show "first_of g w = first_of f w" for w by (cases w) (simp_all add: assms)
  qed
  show "cnt_of g = cnt_of f"
  proof (rule ext)
    show "cnt_of g w = cnt_of f w" for w by (cases w) (simp_all add: assms)
  qed
  show "extra_of g = extra_of f"
  proof (rule ext)
    show "extra_of g w = extra_of f w" for w by (cases w) (simp_all add: assms)
  qed
  show "data_core g = data_core f" by (simp add: data_core_def [abs_def] assms)
qed

lemma slot_written_found:
  assumes ok: "file_ok E f" and A: "lists_ok (array_map f) (first_of f) (cnt_of f) A"
    and s: "slot_in (array_map f) (A w) (cnt_of f w) 0 0 = SlotFound a i"
  shows "slot_written E w p f (set_item a i p f)"
  unfolding slot_written_def
proof (intro conjI allI impI)
  have v: "first_of (set_item a i p f) = first_of f" "data_core (set_item a i p f) = data_core f"
    by (intro views_eq; simp add: set_item_same)+
  show "file_ok E (set_item a i p f)" "same_links f (set_item a i p f)"
    "data_core (set_item a i p f) = data_core f" "n_entries (header (set_item a i p f)) = n_entries (header f)"
    using ok v by (simp_all add: set_item_same)
  fix A' assume A': "lists_ok (array_map f) (first_of f) (cnt_of f) A'"
  have "A' = A"
    using A A' unfolding lists_ok_def fun_eq_iff by (meson chain_unique)
  then show "\<exists>B. lists_ok (array_map (set_item a i p f)) (first_of (set_item a i p f))
      ((cnt_of f)(w := Suc (cnt_of f w))) B \<and>
    (\<forall>v. elist (array_map (set_item a i p f)) ((cnt_of f)(w := Suc (cnt_of f w))) B v =
      elist (array_map f) (cnt_of f) A' v @ (if v = w then [p] else []))"
    using lists_write [OF A s, of p] unfolding v set_item_same(6) by blast
qed

lemma file_ok_appended_other:
  assumes ok: "file_ok E f" and g: "grown f g" and p: "p = append_position f"
    and lay: "layout (appended p ob g)" and ob: "o_type ob \<noteq> OBJECT_DATA" "o_type ob \<noteq> OBJECT_FIELD"
  shows "file_ok E (appended p ob g)"
proof -
  note fo = file_okD [OF ok] and v = grown_views [OF g]
  have n: "erased f p = None" using fresh_position [OF fo(1)] p by (auto simp: erased_def)
  have "as_data (o_body ob) = None" "as_field (o_body ob) = None" using ob by (cases "o_body ob"; simp)+
  moreover have "data_map f p = None" "field_map f p = None"
    using n by (auto simp: erased_def data_map_def field_map_def split: option.splits)
  ultimately have m: "data_map (appended p ob g) = data_map f" "field_map (appended p ob g) = field_map f"
    by (auto simp: v)
  have "data_wf E (erased (appended p ob g))" "field_wf (erased (appended p ob g))"
    using fo(4,5) n ob by (auto simp: v intro!: data_wf_insert field_wf_insert)
  then show ?thesis
    using fo(2,3) lay unfolding file_ok_def m
    by (simp add: data_index_def field_index_def header_contains_defs
        same_content_simps [OF g [unfolded grown_def, THEN conjunct1]])
qed

lemma set_first_same:
  assumes "owner_ok f w"
  shows "file_ok E (set_first w q f) = file_ok E f" "same_links f (set_first w q f)"
    "data_core (set_first w q f) = data_core f" "array_map (set_first w q f) = array_map f"
    "first_of (set_first w q f) = (first_of f)(w := q)"
    "n_entries (header (set_first w q f)) = n_entries (header f)"
proof -
  have e: "erased (set_first w q f) = erased f"
  proof (cases w)
    case (Of p)
    then show ?thesis by (auto intro!: erased_upd erase_on_data)
  qed (auto intro: maps_same_store(3))
  show "file_ok E (set_first w q f) = file_ok E f"
    by (rule file_ok_entry_links [OF e]; cases w)
      (auto simp: data_next_def data_hashes_def fun_eq_iff option.map_comp comp_def)
  show "same_links f (set_first w q f)"
    unfolding same_links_def e by (cases w) auto
  show "data_core (set_first w q f) = data_core f"
    by (cases w) (auto simp: data_core_def fun_eq_iff option.map_comp comp_def)
  show "array_map (set_first w q f) = array_map f" by (cases w) auto
  show "n_entries (header (set_first w q f)) = n_entries (header f)" by (cases w) auto
  show "first_of (set_first w q f) = (first_of f)(w := q)"
  proof (rule ext)
    show "first_of (set_first w q f) v = ((first_of f)(w := q)) v" for v
      using assms by (cases v; cases w) (auto simp: owner_ok_def)
  qed
qed

lemma array_map_appended:
  assumes g: "grown f g" and q: "q = append_position f" and lay: "layout f"
  shows "array_map (appended q (fresh_object OBJECT_ENTRY_ARRAY (sizeof_EntryArrayObject + 8 * n)) g) =
      (array_map f)(q \<mapsto> \<lparr>ea_next_entry_array_offset = 0, ea_items = replicate n 0\<rparr>)"
    "data_map (appended q (fresh_object OBJECT_ENTRY_ARRAY m) g) = data_map f"
    "entry_map (appended q (fresh_object OBJECT_ENTRY_ARRAY m) g) = entry_map f"
    "q \<notin> dom (array_map f)" "q \<noteq> 0"
proof -
  note v = grown_views [OF g]
  have n: "store f q = None" using fresh_position [OF lay] q by auto
  have st: "store g = store f" using g by (simp add: grown_def same_content_simps(1))
  have "array_map g = array_map f" "entry_map g = entry_map f"
    by (simp_all add: array_map_def entry_map_def fun_eq_iff st)
  moreover have "data_map f q = None" "entry_map f q = None" "array_map f q = None"
    using n by (simp_all add: data_map_def entry_map_def array_map_def)
  ultimately show "array_map (appended q (fresh_object OBJECT_ENTRY_ARRAY (sizeof_EntryArrayObject + 8 * n)) g) =
      (array_map f)(q \<mapsto> \<lparr>ea_next_entry_array_offset = 0, ea_items = replicate n 0\<rparr>)"
    "data_map (appended q (fresh_object OBJECT_ENTRY_ARRAY m) g) = data_map f"
    "entry_map (appended q (fresh_object OBJECT_ENTRY_ARRAY m) g) = entry_map f"
    "q \<notin> dom (array_map f)"
    by (auto simp: fresh_object_def v)
  show "q \<noteq> 0" using append_position_facts(2) [OF lay] layout_bounds(1) [OF lay] q by (auto simp: sizeof_defs)
qed

lemma same_links_appended:
  assumes g: "grown f g" and q: "q = append_position f" and lay: "layout f"
  shows "same_links f (appended q (fresh_object OBJECT_ENTRY_ARRAY m) g)"
proof -
  have n: "erased f q = None" using fresh_position [OF lay] q by (auto simp: erased_def)
  have l: "link_frame_of g = link_frame_of f" using same_links_grown [OF g] by (simp add: same_links_def)
  show ?thesis
    unfolding same_links_def using n array_map_appended(3) [OF g q lay] grown_views(3) [OF g] by (simp add: l)
qed

definition count_array :: "journal_file \<Rightarrow> journal_file" where
  "count_array f = (if header_contains_n_entry_arrays (header f)
     then upd_header (\<lambda>h. h\<lparr>n_entry_arrays := add64 (n_entry_arrays h) 1\<rparr>) f else f)"

lemma count_array_same:
  "file_ok E (count_array f) = file_ok E f" "same_links f (count_array f)"
  "data_map (count_array f) = data_map f" "array_map (count_array f) = array_map f"
  "entry_array_offset (header (count_array f)) = entry_array_offset (header f)"
  "n_entries (header (count_array f)) = n_entries (header f)"
proof -
  have e: "erased (count_array f) = erased f" by (rule maps_same_store) (simp add: count_array_def)
  show "file_ok E (count_array f) = file_ok E f"
    by (rule file_ok_entry_links [OF e]) (auto simp: count_array_def)
  show "same_links f (count_array f)" unfolding same_links_def e by (auto simp: count_array_def)
qed (auto simp: count_array_def)

lemma slot_written_missing:
  fixes p :: nat
  assumes ok: "file_ok E f" and A: "lists_ok (array_map f) (first_of f) (cnt_of f) A" and w: "owner_ok f w"
    and s: "slot_in (array_map f) (A w) (cnt_of f w) 0 0 = SlotMissing j ap n'"
    and g: "grown f g" and q: "q = append_position f" and n: "0 < n"
    and lay: "layout (appended q (fresh_object OBJECT_ENTRY_ARRAY (sizeof_EntryArrayObject + 8 * n)) g)"
  defines "f2 \<equiv> set_item q j p (appended q (fresh_object OBJECT_ENTRY_ARRAY (sizeof_EntryArrayObject + 8 * n)) g)"
  defines "f3 \<equiv> (if ap = 0 then set_first w q f2
    else upd_object ap (on_array (\<lambda>d. d\<lparr>ea_next_entry_array_offset := q\<rparr>)) f2)"
  shows "slot_written E w p f (count_array f3)" "ap \<noteq> 0 \<Longrightarrow> ap \<in> dom (array_map f2)" "layout f2"
proof -
  note lf = file_okD(1) [OF ok]
  let ?f1 = "appended q (fresh_object OBJECT_ENTRY_ARRAY (sizeof_EntryArrayObject + 8 * n)) g"
  note am = array_map_appended [OF g q lf]
  note lk1 = lists_link(1) [OF A s am(4,5) n] and lk = lists_link(2,3) [OF A s am(4,5) n, where p = p]
  have f1: "file_ok E ?f1"
    by (rule file_ok_appended_other [OF ok g q lay]) (simp_all add: fresh_object_def)
  have sl1: "same_links f ?f1" by (rule same_links_appended [OF g q lf])
  have hd1: "entry_array_offset (header ?f1) = entry_array_offset (header f)"
    "n_entries (header ?f1) = n_entries (header f)"
    using g by (simp_all add: add_tail_def grown_def same_content_simps)
  have dm2: "data_map f2 = data_map f" unfolding f2_def set_item_same(4) by (rule am(2))
  have am2: "array_map f2 = (array_map f)(q \<mapsto> \<lparr>ea_next_entry_array_offset = 0, ea_items = (replicate n 0)[0 := p]\<rparr>)"
    unfolding f2_def set_item_same(6) am(1) lk1 by (simp add: write_item_def)
  have ok2: "file_ok E f2" "same_links f f2" "first_of f2 = first_of f" "data_core f2 = data_core f"
      "n_entries (header f2) = n_entries (header f)"
    using f1 same_links_trans [OF sl1 set_item_same(3)] views_eq [of f2 f] dm2 hd1
    by (simp_all add: f2_def set_item_same)
  show "layout f2" by (rule file_okD(1) [OF ok2(1)])
  have "A w \<noteq> []" "ap = last (A w)" if "ap \<noteq> 0" using slot_in_missing [OF s] that by (auto split: if_splits)
  moreover have "set (A w) \<subseteq> dom (array_map f)" using A unfolding lists_ok_def by (meson chain_dom_arrays)
  ultimately have apd: "ap \<in> dom (array_map f)" if "ap \<noteq> 0" using that last_in_set by blast
  then show "ap \<noteq> 0 \<Longrightarrow> ap \<in> dom (array_map f2)" by (auto simp: am2)
  have w2: "owner_ok f2 w" using w by (cases w) (simp_all add: owner_ok_def dm2)
  have f3: "file_ok E f3" "same_links f f3" "data_core f3 = data_core f"
      "n_entries (header f3) = n_entries (header f)"
      "array_map f3 = link_array ap q n p (array_map f)"
      "first_of f3 = (if ap = 0 then (first_of f)(w := q) else first_of f)"
  proof -
    consider "ap = 0" "f3 = set_first w q f2"
      | "ap \<noteq> 0" "f3 = upd_object ap (on_array (\<lambda>d. d\<lparr>ea_next_entry_array_offset := q\<rparr>)) f2"
      by (cases "ap = 0") (simp_all add: f3_def)
    then have "file_ok E f3 \<and> same_links f f3 \<and> data_core f3 = data_core f \<and>
      n_entries (header f3) = n_entries (header f) \<and>
      array_map f3 = link_array ap q n p (array_map f) \<and>
      first_of f3 = (if ap = 0 then (first_of f)(w := q) else first_of f)"
    proof cases
      case 1
      then show ?thesis
        using ok2 same_links_trans [OF ok2(2) set_first_same(2) [OF w2]]
        by (simp add: set_first_same [OF w2] am2 link_array_def)
    next
      case 2
      have "first_of f3 = first_of f2" "data_core f3 = data_core f2"
        by (intro views_eq; simp add: 2(2))+
      then show ?thesis
        using 2 ok2 same_links_trans [OF ok2(2) array_upd_same(3)]
        by (simp add: am2 link_array_def Let_def array_upd_same)
    qed
    then show "file_ok E f3" "same_links f f3" "data_core f3 = data_core f"
      "n_entries (header f3) = n_entries (header f)"
      "array_map f3 = link_array ap q n p (array_map f)"
      "first_of f3 = (if ap = 0 then (first_of f)(w := q) else first_of f)" by auto
  qed
  have v4: "first_of (count_array f3) = first_of f3" "data_core (count_array f3) = data_core f3"
    by (intro views_eq; simp add: count_array_same)+
  show "slot_written E w p f (count_array f3)"
    unfolding slot_written_def
  proof (intro conjI allI impI)
    show "file_ok E (count_array f3)" "same_links f (count_array f3)" "data_core (count_array f3) = data_core f"
      "n_entries (header (count_array f3)) = n_entries (header f)"
      using f3 same_links_trans [OF f3(2) count_array_same(2)] v4 by (simp_all add: count_array_same)
    fix A' assume A': "lists_ok (array_map f) (first_of f) (cnt_of f) A'"
    have "A' = A" using A A' unfolding lists_ok_def fun_eq_iff by (meson chain_unique)
    then show "\<exists>B. lists_ok (array_map (count_array f3)) (first_of (count_array f3))
        ((cnt_of f)(w := Suc (cnt_of f w))) B \<and>
      (\<forall>v. elist (array_map (count_array f3)) ((cnt_of f)(w := Suc (cnt_of f w))) B v =
        elist (array_map f) (cnt_of f) A' v @ (if v = w then [p] else []))"
      using lk unfolding v4 f3(5,6) count_array_same(4) by blast
  qed
qed


lemma new_array_items_bounds:
  assumes "hidx \<le> 2 ^ 57" "n \<le> 2 ^ 57"
  shows "0 < new_array_items hidx n" "new_array_items hidx n \<le> 2 ^ 58 + 2"
    "add64 sizeof_EntryArrayObject (mul64 (new_array_items hidx n) 8) =
       sizeof_EntryArrayObject + 8 * new_array_items hidx n"
proof -
  have e: "mul64 (add64 hidx 1) 2 = (hidx + 1) * 2" "mul64 n 2 = n * 2"
    using assms by (simp_all add: mul64_def add64_def two64_def)
  show b: "new_array_items hidx n \<le> 2 ^ 58 + 2" and "0 < new_array_items hidx n"
    using assms unfolding new_array_items_def Let_def e by auto
  show "add64 sizeof_EntryArrayObject (mul64 (new_array_items hidx n) 8) =
       sizeof_EntryArrayObject + 8 * new_array_items hidx n"
    using b by (simp add: add64_def mul64_def two64_def sizeof_defs)
qed

text \<open>
  Linking into the chain of an owner: it either fails and changes nothing but the allocation, or
  writes the slot and then the counter.
\<close>

lemma link_entry_into_array_run:
  assumes ok: "file_ok E f" and env: "env_ok E" "mmap_ok E" and lim: "limited f"
    and A: "lists_ok (array_map f) (first_of f) (cnt_of f) A" and w: "owner_ok f w"
    and get: "get_first f = first_of f w" "get_idx f = cnt_of f w"
  shows "\<exists>r g. link_entry_into_array E get_first (set_first w) get_idx set_idx p f =
    (case r of Inl e \<Rightarrow> Some (Inl e, g) | Inr u \<Rightarrow> Some (Inr (), set_idx (cnt_of f w + 1) g)) \<and>
    (case r of Inl e \<Rightarrow> grown f g | Inr (u :: unit) \<Rightarrow> slot_written E w p f g)"
proof -
  note lay = file_okD(1) [OF ok]
  have c: "chain (array_next (array_map f)) (first_of f w) (A w)"
    and le: "cnt_of f w \<le> length (slots (array_map f) (A w))"
    using A by (simp_all add: lists_ok_def)
  have bnd: "length (slots (array_map f) (A w)) \<le> 2 ^ 57" by (rule slots_limit [OF lay lim c])
  then have idx: "add64 (cnt_of f w) 1 = cnt_of f w + 1"
    using le by (simp add: add64_def two64_def)
  note fs = find_slot_run [OF lay env(2) c]
  show ?thesis
  proof (cases "slot_in (array_map f) (A w) (cnt_of f w) 0 0")
    case (SlotFound a i)
    have "link_entry_into_array E get_first (set_first w) get_idx set_idx p f =
        Some (Inr (), set_idx (cnt_of f w + 1) (set_item a i p f))"
      using fs SlotFound idx by (simp add: link_entry_into_array_def get)
    with slot_written_found [OF ok A SlotFound] show ?thesis
      by (intro exI [of _ "Inr ()"] exI [of _ "set_item a i p f"]) simp
  next
    case (SlotMissing j ap n')
    let ?n = "new_array_items (cnt_of f w) n'"
    let ?sz = "sizeof_EntryArrayObject + 8 * ?n"
    have n': "n' \<le> 2 ^ 57"
    proof (cases "A w = []")
      case False
      then obtain bs a where bs: "A w = bs @ [a]" by (metis rev_exhaust)
      then have "n' \<le> length (slots (array_map f) (A w))"
        using slot_in_missing [OF SlotMissing] by simp
      with bnd show ?thesis by simp
    qed (use slot_in_missing [OF SlotMissing] in simp)
    note nb = new_array_items_bounds [OF order_trans [OF le bnd] n']
    have fr: "object_ok (fresh_object OBJECT_ENTRY_ARRAY ?sz)" by (simp add: object_ok_def fresh_object_def)
    have sm: "?sz \<le> 2 ^ 62" using nb(2) by (simp add: sizeof_defs)
    note ap = append_object_Inr [OF env(1) lay sm fr] append_object_Inl [OF env(1) lay sm fr]
    obtain r1 f1 where a: "journal_file_append_object E OBJECT_ENTRY_ARRAY ?sz f = Some (r1, f1)"
      using append_object_returns [of E OBJECT_ENTRY_ARRAY ?sz f]
      by (cases "journal_file_append_object E OBJECT_ENTRY_ARRAY ?sz f") auto
    show ?thesis
    proof (cases r1)
      case (Inl e)
      have "link_entry_into_array E get_first (set_first w) get_idx set_idx p f = Some (Inl e, f1)"
        using fs SlotMissing a Inl by (simp add: link_entry_into_array_def get nb(3))
      moreover have "grown f f1" using ap(2) [of e f1] a Inl by simp
      ultimately show ?thesis by (intro exI [of _ "Inl e"] exI [of _ f1]) simp
    next
      case (Inr q)
      with a ap(1) [of q f1] obtain g where g: "grown f g" and q: "q = append_position f"
        and f1: "f1 = appended q (fresh_object OBJECT_ENTRY_ARRAY ?sz) g" and l1: "layout f1"
        by (auto simp: appended_def)
      let ?f2 = "set_item q j p f1"
      let ?f3 = "if ap = 0 then set_first w q ?f2
        else upd_object ap (on_array (\<lambda>d. d\<lparr>ea_next_entry_array_offset := q\<rparr>)) ?f2"
      note sw = slot_written_missing [OF ok A w SlotMissing g q nb(1) l1 [unfolded f1], folded f1, of p]
      have mv: "\<exists>ob. journal_file_move_to_object E (Some OBJECT_ENTRY_ARRAY) ap ?f2 = Some (Inr ob, ?f2)" if "ap \<noteq> 0"
      proof -
        from sw(2) [OF that] obtain ob where "store ?f2 ap = Some ob" "o_type ob = OBJECT_ENTRY_ARRAY"
          by (auto simp: array_map_of)
        then show ?thesis by (intro exI move_to_object_stored [OF sw(3) env(2)]) auto
      qed
      have "link_entry_into_array E get_first (set_first w) get_idx set_idx p f =
          Some (Inr (), set_idx (cnt_of f w + 1) (count_array ?f3))"
        using fs SlotMissing a Inr mv idx
        by (cases "ap = 0") (auto simp: link_entry_into_array_def get nb(3) count_array_def)
      with sw(1) show ?thesis by (intro exI [of _ "Inr ()"] exI [of _ "count_array ?f3"]) simp
    qed
  qed
qed

end
