(* ===== verification/Entry_Append.thy ===== *)
theory Entry_Append
  imports Entry_Arrays "HOL-Library.Sublist" "HOL-Library.Multiset"
begin

text \<open>
  Proofs about \<open>journal_file_link_entry\<close>, \<open>journal_file_append_entry_internal\<close> and
  \<open>journal_file_append_entry\<close> of \<open>lib/journal-file.c\<close>: an append that succeeds adds one entry to the list
  of the file and to the list of each of its data objects, and an append that fails leaves a sound
  file in which the entries that were there still are.
\<close>

lemma slot_written_finish:
  assumes sw: "slot_written E w p f g" and L: "entry_lists f L" and p: "p \<in> dom (entry_map f)"
    and v: "array_map f' = array_map g" "entry_map f' = entry_map g" "first_of f' = first_of g"
      "cnt_of f' = (cnt_of f)(w := Suc (cnt_of f w))" "extra_of f' = extra_of f"
  shows "entry_lists f' (L(w := L w @ [p]))"
proof -
  from L obtain A where A: "lists_ok (array_map f) (first_of f) (cnt_of f) A"
    and La: "\<And>w. L w = extra_of f w @ elist (array_map f) (cnt_of f) A w"
    and dom: "\<And>w. set (L w) \<subseteq> dom (entry_map f)"
    unfolding entry_lists_def by blast
  from sw A obtain B where B: "lists_ok (array_map g) (first_of g) ((cnt_of f)(w := Suc (cnt_of f w))) B"
    and el: "\<And>v. elist (array_map g) ((cnt_of f)(w := Suc (cnt_of f w))) B v =
      elist (array_map f) (cnt_of f) A v @ (if v = w then [p] else [])"
    unfolding slot_written_def by blast
  have em: "entry_map g = entry_map f" using sw by (simp add: slot_written_def same_links_def)
  show ?thesis
    unfolding entry_lists_def v em
  proof (intro conjI exI [of _ B] allI)
    show "(L(w := L w @ [p])) v = extra_of f v @ elist (array_map g) ((cnt_of f)(w := Suc (cnt_of f w))) B v" for v
      by (simp add: el La)
    show "set ((L(w := L w @ [p])) v) \<subseteq> dom (entry_map f)" for v using dom p by auto
  qed (rule B)
qed

lemma data_core_views:
  assumes "data_core g = data_core f"
  shows "cnt_of g (Of p) = cnt_of f (Of p)" "extra_of g (Of p) = extra_of f (Of p)"
    "dom (data_map g) = dom (data_map f)"
    "data_map f p = Some d \<Longrightarrow> \<exists>a. data_map g p = Some (d\<lparr>d_entry_array_offset := a\<rparr>)"
proof -
  have e: "map_option (\<lambda>d. d\<lparr>d_entry_array_offset := 0\<rparr>) (data_map g q) =
      map_option (\<lambda>d. d\<lparr>d_entry_array_offset := 0\<rparr>) (data_map f q)" for q
    using assms by (simp add: data_core_def fun_eq_iff)
  have n: "data_map g q = None \<longleftrightarrow> data_map f q = None" for q using e [of q] by (metis map_option_is_None)
  then show "dom (data_map g) = dom (data_map f)" unfolding dom_def by simp
  have s: "d_n_entries d' = d_n_entries d" "d_entry_offset d' = d_entry_offset d"
    if "data_map g p = Some d'" "data_map f p = Some d" for d d'
    using e [of p] that by (cases d; cases d'; simp)+
  show "cnt_of g (Of p) = cnt_of f (Of p)" "extra_of g (Of p) = extra_of f (Of p)"
    using n [of p] s by (auto split: option.splits)
  show "\<exists>a. data_map g p = Some (d\<lparr>d_entry_array_offset := a\<rparr>)" if "data_map f p = Some d"
  proof -
    from that n [of p] obtain d' where d': "data_map g p = Some d'" by fastforce
    with e [of p] that have "d' = d\<lparr>d_entry_array_offset := d_entry_array_offset d'\<rparr>"
      by (cases d; cases d'; simp)
    with d' show ?thesis by auto
  qed
qed

lemma cnt_of_eqI:
  assumes "n_entries (header g) = n_entries (header f)" and "\<And>p. cnt_of g (Of p) = cnt_of f (Of p)"
  shows "cnt_of g = cnt_of f"
proof (rule ext)
  show "cnt_of g w = cnt_of f w" for w using assms by (cases w) auto
qed

lemma entry_lists_grown: "grown f g \<Longrightarrow> entry_lists g L = entry_lists f L"
  using grown_views [of f g]
  by (intro entry_lists_cong) (auto simp: array_map_def entry_map_def fun_eq_iff grown_def same_content_simps)

text \<open>The chain of the file.\<close>

lemma link_global_run:
  assumes ok: "file_ok E f" and env: "env_ok E" "mmap_ok E" and lim: "limited f"
    and L: "entry_lists f L" and p: "p \<in> dom (entry_map f)"
  obtains r f' where "link_entry_into_array E (\<lambda>f. entry_array_offset (header f))
      (\<lambda>x. upd_header (\<lambda>h. h\<lparr>entry_array_offset := x\<rparr>)) (\<lambda>f. n_entries (header f))
      (\<lambda>x. upd_header (\<lambda>h. h\<lparr>n_entries := x\<rparr>)) p f = Some (r, f')"
    and "file_ok E f'" and "same_links f f'" and "dom (data_map f') = dom (data_map f)"
    and "case r of Inl e \<Rightarrow> entry_lists f' L | Inr u \<Rightarrow> entry_lists f' (L(Global := L Global @ [p]))"
proof -
  from L obtain A where A: "lists_ok (array_map f) (first_of f) (cnt_of f) A" by (auto simp: entry_lists_def)
  have sf: "set_first Global = (\<lambda>x. upd_header (\<lambda>h. h\<lparr>entry_array_offset := x\<rparr>))" by (rule ext) simp
  obtain r g where run: "link_entry_into_array E (\<lambda>f. entry_array_offset (header f))
      (set_first Global) (\<lambda>f. n_entries (header f)) (\<lambda>x. upd_header (\<lambda>h. h\<lparr>n_entries := x\<rparr>)) p f =
      (case r of Inl e \<Rightarrow> Some (Inl e, g)
       | Inr u \<Rightarrow> Some (Inr (), upd_header (\<lambda>h. h\<lparr>n_entries := cnt_of f Global + 1\<rparr>) g))"
    and out: "case r of Inl e \<Rightarrow> grown f g | Inr (u :: unit) \<Rightarrow> slot_written E Global p f g"
    using link_entry_into_array_run [OF ok env lim A, of Global "\<lambda>f. entry_array_offset (header f)"
        "\<lambda>f. n_entries (header f)" "\<lambda>x. upd_header (\<lambda>h. h\<lparr>n_entries := x\<rparr>)" p]
    by (auto simp: owner_ok_def)
  show ?thesis
  proof (cases r)
    case (Inl e)
    with out have g: "grown f g" by simp
    note v = grown_views [OF g]
    have "entry_lists g L" using L by (simp add: entry_lists_grown [OF g])
    with that [of "Inl e" g] run Inl sf file_ok_grown [OF ok g] same_links_grown [OF g] v(1) show ?thesis by simp
  next
    case (Inr u)
    let ?f = "upd_header (\<lambda>h. h\<lparr>n_entries := cnt_of f Global + 1\<rparr>) g"
    from Inr out have sw: "slot_written E Global p f g" by simp
    then have g: "file_ok E g" "same_links f g" "data_core g = data_core f" by (auto simp: slot_written_def)
    have e: "erased ?f = erased g" by (rule maps_same_store) simp
    have "file_ok E ?f = file_ok E g" by (rule file_ok_entry_links [OF e]) auto
    moreover have "same_links g ?f" unfolding same_links_def e by simp
    moreover have "entry_lists ?f (L(Global := L Global @ [p]))"
    proof (rule slot_written_finish [OF sw L p])
      show "array_map ?f = array_map g" "entry_map ?f = entry_map g" by simp_all
      show "first_of ?f = first_of g"
      proof (rule ext)
        show "first_of ?f w = first_of g w" for w by (cases w) simp_all
      qed
      show "cnt_of ?f = (cnt_of f)(Global := Suc (cnt_of f Global))"
      proof (rule ext)
        show "cnt_of ?f w = ((cnt_of f)(Global := Suc (cnt_of f Global))) w" for w
          using data_core_views(1) [OF g(3)] by (cases w) auto
      qed
      show "extra_of ?f = extra_of f"
      proof (rule ext)
        show "extra_of ?f w = extra_of f w" for w
          using data_core_views(2) [OF g(3)] by (cases w) auto
      qed
    qed
    ultimately show ?thesis
      using that [of "Inr ()" ?f] run Inr sf g same_links_trans data_core_views(3) [OF g(3)] by auto
  qed
qed

lemma upd_data_same:
  assumes "\<And>d. (u d)\<lparr>d_entry_offset := 0, d_entry_array_offset := 0, d_n_entries := 0\<rparr> =
    d\<lparr>d_entry_offset := 0, d_entry_array_offset := 0, d_n_entries := 0\<rparr>"
  shows "file_ok E (upd_object x (on_data u) f) = file_ok E f" "same_links f (upd_object x (on_data u) f)"
proof -
  have u: "d_hash (u d) = d_hash d" "d_payload (u d) = d_payload d" "d_next_hash_offset (u d) = d_next_hash_offset d" for d
    using assms [of d] by (cases d; cases "u d"; simp)+
  have e: "erased (upd_object x (on_data u) f) = erased f"
    by (intro erased_upd erase_on_data) (simp add: u)
  show "file_ok E (upd_object x (on_data u) f) = file_ok E f"
    by (rule file_ok_entry_links [OF e])
      (auto simp: data_next_def data_hashes_def fun_eq_iff option.map_comp comp_def u)
  show "same_links f (upd_object x (on_data u) f)" unfolding same_links_def e by simp
qed


text \<open>The chain of a data object.\<close>

definition link_data_entry :: "env \<Rightarrow> nat \<Rightarrow> nat \<Rightarrow> unit jm" where
  "link_data_entry E x p =
     link_entry_into_array_plus_one E
        (\<lambda>y. upd_object x (on_data (\<lambda>d. d\<lparr>d_entry_offset := y\<rparr>)))
        (\<lambda>f. d_entry_array_offset (data_of (object_at f x)))
        (\<lambda>y. upd_object x (on_data (\<lambda>d. d\<lparr>d_entry_array_offset := y\<rparr>)))
        (\<lambda>f. d_n_entries (data_of (object_at f x)))
        (\<lambda>y. upd_object x (on_data (\<lambda>d. d\<lparr>d_n_entries := y\<rparr>))) p"

lemma data_at: "data_map f x = Some d \<Longrightarrow> data_of (object_at f x) = d"
  by (auto simp: data_map_of object_at_def)

lemma first_of_upd:
  "(\<And>d. d_entry_array_offset (u d) = d_entry_array_offset d) \<Longrightarrow>
   first_of (upd_object x (on_data u) g) = first_of g"
proof (rule ext)
  assume "\<And>d. d_entry_array_offset (u d) = d_entry_array_offset d"
  then show "first_of (upd_object x (on_data u) g) w = first_of g w" for w
    by (cases w) (auto split: option.splits)
qed

lemma link_first_entry:
  assumes ok: "file_ok E f" and L: "entry_lists f L" and p: "p \<in> dom (entry_map f)"
    and d: "data_map f x = Some d" "d_n_entries d = 0"
  defines "f' \<equiv> upd_object x (on_data (\<lambda>d. d\<lparr>d_n_entries := 1\<rparr>))
    (upd_object x (on_data (\<lambda>d. d\<lparr>d_entry_offset := p\<rparr>)) f)"
  shows "file_ok E f'" "same_links f f'" "entry_lists f' (L(Of x := L (Of x) @ [p]))"
    "dom (data_map f') = dom (data_map f)"
proof -
  let ?g = "upd_object x (on_data (\<lambda>d. d\<lparr>d_entry_offset := p\<rparr>)) f"
  have "file_ok E f' = file_ok E ?g" "same_links ?g f'" "file_ok E ?g = file_ok E f" "same_links f ?g"
    unfolding f'_def by (intro upd_data_same; simp)+
  with ok show "file_ok E f'" "same_links f f'" by (auto intro: same_links_trans)
  show "dom (data_map f') = dom (data_map f)" using d by (auto simp: f'_def)
  from L obtain A where A: "lists_ok (array_map f) (first_of f) (cnt_of f) A"
    and La: "\<And>w. L w = extra_of f w @ elist (array_map f) (cnt_of f) A w"
    and dom: "\<And>w. set (L w) \<subseteq> dom (entry_map f)"
    unfolding entry_lists_def by blast
  have v: "array_map f' = array_map f" "entry_map f' = entry_map f" by (simp_all add: f'_def)
  have fo: "first_of f' = first_of f" unfolding f'_def by (simp add: first_of_upd)
  have cn: "cnt_of f' w = cnt_of f w" for w
    using d by (cases w) (auto simp: f'_def)
  have ex: "extra_of f' w = extra_of f w @ (if w = Of x then [p] else [])" for w
    using d by (cases w) (auto simp: f'_def)
  have "L (Of x) = []" using La [of "Of x"] d by (simp add: elist_def)
  then have La': "(L(Of x := L (Of x) @ [p])) w = extra_of f' w @ elist (array_map f) (cnt_of f) A w" for w
    using La [of "Of x"] La [of w] by (auto simp: ex)
  have cn': "cnt_of f' = cnt_of f" using cn by blast
  have dom': "set ((L(Of x := L (Of x) @ [p])) w) \<subseteq> dom (entry_map f)" for w
    using dom [of w] dom [of "Of x"] p by auto
  show "entry_lists f' (L(Of x := L (Of x) @ [p]))"
    unfolding entry_lists_def v fo cn' using A La' dom' by blast
qed

lemma link_later_entry:
  assumes sw: "slot_written E (Of x) p f g" and L: "entry_lists f L" and p: "p \<in> dom (entry_map f)"
    and d: "data_map f x = Some d" "d_n_entries d \<noteq> 0"
  defines "f' \<equiv> upd_object x (on_data (\<lambda>d'. d'\<lparr>d_n_entries := d_n_entries d + 1\<rparr>)) g"
  shows "file_ok E f'" "same_links f f'" "entry_lists f' (L(Of x := L (Of x) @ [p]))"
    "dom (data_map f') = dom (data_map f)"
proof -
  have g: "file_ok E g" "same_links f g" "data_core g = data_core f"
    "n_entries (header g) = n_entries (header f)" using sw by (auto simp: slot_written_def)
  note dc = data_core_views [OF g(3)]
  obtain a where a: "data_map g x = Some (d\<lparr>d_entry_array_offset := a\<rparr>)" using dc(4) [OF d(1)] by blast
  have "file_ok E f' = file_ok E g" "same_links g f'"
    unfolding f'_def by (intro upd_data_same; simp)+
  with g show "file_ok E f'" "same_links f f'" by (auto intro: same_links_trans)
  show "dom (data_map f') = dom (data_map f)" using dc(3) a by (auto simp: f'_def)
  show "entry_lists f' (L(Of x := L (Of x) @ [p]))"
  proof (rule slot_written_finish [OF sw L p])
    show "array_map f' = array_map g" "entry_map f' = entry_map g" by (simp_all add: f'_def)
    show "first_of f' = first_of g" unfolding f'_def by (simp add: first_of_upd)
    show "cnt_of f' = (cnt_of f)(Of x := Suc (cnt_of f (Of x)))"
    proof (rule ext)
      show "cnt_of f' w = ((cnt_of f)(Of x := Suc (cnt_of f (Of x)))) w" for w
      proof (cases "w = Of x")
        case False
        then show ?thesis using dc(1) g(4) by (cases w) (auto simp: f'_def)
      qed (use a d in \<open>simp add: f'_def\<close>)
    qed
    show "extra_of f' = extra_of f"
    proof (rule ext)
      show "extra_of f' w = extra_of f w" for w
      proof (cases "w = Of x")
        case False
        then show ?thesis using dc(2) by (cases w) (auto simp: f'_def)
      qed (use a d in \<open>simp add: f'_def\<close>)
    qed
  qed
qed

lemma link_data_entry_run:
  assumes ok: "file_ok E f" and env: "env_ok E" "mmap_ok E" and lim: "limited f"
    and L: "entry_lists f L" and p: "p \<in> dom (entry_map f)" and x: "x \<in> dom (data_map f)"
  obtains r f' where "link_data_entry E x p f = Some (r, f')"
    and "file_ok E f'" and "same_links f f'" and "dom (data_map f') = dom (data_map f)"
    and "case r of Inl e \<Rightarrow> entry_lists f' L | Inr u \<Rightarrow> entry_lists f' (L(Of x := L (Of x) @ [p]))"
proof -
  from x obtain d where d: "data_map f x = Some d" by blast
  note da = data_at [OF d]
  show ?thesis
  proof (cases "d_n_entries d = 0")
    case True
    let ?f = "upd_object x (on_data (\<lambda>d. d\<lparr>d_n_entries := 1\<rparr>))
      (upd_object x (on_data (\<lambda>d. d\<lparr>d_entry_offset := p\<rparr>)) f)"
    have "link_data_entry E x p f = Some (Inr (), ?f)"
      using True by (simp add: link_data_entry_def link_entry_into_array_plus_one_def da add64_def two64_def)
    with that link_first_entry [OF ok L p d True] show ?thesis by (metis old.sum.simps(6))
  next
    case False
    from L obtain A where A: "lists_ok (array_map f) (first_of f) (cnt_of f) A" by (auto simp: entry_lists_def)
    have c: "chain (array_next (array_map f)) (first_of f (Of x)) (A (Of x))"
      and le: "cnt_of f (Of x) \<le> length (slots (array_map f) (A (Of x)))"
      using A unfolding lists_ok_def by blast+
    have cnt: "cnt_of f (Of x) = d_n_entries d - 1" using d by simp
    with le slots_limit [OF file_okD(1) [OF ok] lim c] have b: "d_n_entries d \<le> 2 ^ 57 + 1" by simp
    with False have "sub64 (d_n_entries d) 1 = d_n_entries d - 1" by (intro sub64_eq) (auto simp: two64_def)
    with b have ar: "sub64 (d_n_entries d) 1 = cnt_of f (Of x)" "add64 (d_n_entries d) 1 = d_n_entries d + 1"
      unfolding cnt by (simp_all add: add64_def two64_def)
    have sf: "set_first (Of x) = (\<lambda>y. upd_object x (on_data (\<lambda>d. d\<lparr>d_entry_array_offset := y\<rparr>)))" by (rule ext) simp
    obtain r g where run: "link_entry_into_array E (\<lambda>f. d_entry_array_offset (data_of (object_at f x)))
        (set_first (Of x)) (\<lambda>_. cnt_of f (Of x)) (\<lambda>_ f. f) p f =
        (case r of Inl e \<Rightarrow> Some (Inl e, g) | Inr u \<Rightarrow> Some (Inr (), g))"
      and out: "case r of Inl e \<Rightarrow> grown f g | Inr (u :: unit) \<Rightarrow> slot_written E (Of x) p f g"
      using link_entry_into_array_run [OF ok env lim A, of "Of x"
          "\<lambda>f. d_entry_array_offset (data_of (object_at f x))" "\<lambda>_. cnt_of f (Of x)" "\<lambda>_ f. f" p] d x da
      by (auto simp: owner_ok_def)
    show ?thesis
    proof (cases r)
      case (Inl e)
      with out have g: "grown f g" by simp
      have "link_data_entry E x p f = Some (Inl e, g)"
        using run Inl False by (simp add: link_data_entry_def link_entry_into_array_plus_one_def da ar(1) sf del: One_nat_def)
      moreover have "entry_lists g L" using L by (simp add: entry_lists_grown [OF g])
      ultimately show ?thesis
        using that [of "Inl e" g] file_ok_grown [OF ok g] same_links_grown [OF g] grown_views(1) [OF g] by simp
    next
      case (Inr u)
      with out have sw: "slot_written E (Of x) p f g" by simp
      let ?f = "upd_object x (on_data (\<lambda>d'. d'\<lparr>d_n_entries := d_n_entries d + 1\<rparr>)) g"
      have "link_data_entry E x p f = Some (Inr (), ?f)"
        using run Inr False by (simp add: link_data_entry_def link_entry_into_array_plus_one_def da ar sf del: One_nat_def)
      with that link_later_entry [OF sw L p d False] show ?thesis by (metis old.sum.simps(6))
    qed
  qed
qed

section \<open>Linking an entry with all its items\<close>

text \<open>Adding the entry \<open>p\<close> to the lists of the data objects \<open>xs\<close>.\<close>

definition add_to :: "nat \<Rightarrow> nat list \<Rightarrow> (owner \<Rightarrow> nat list) \<Rightarrow> owner \<Rightarrow> nat list" where
  "add_to p xs L = foldl (\<lambda>L x. L(Of x := L (Of x) @ [p])) L xs"

lemma add_to_simps [simp]:
  "add_to p [] L = L" "add_to p (x # xs) L = add_to p xs (L(Of x := L (Of x) @ [p]))"
  by (simp_all add: add_to_def)

lemma add_to_Global [simp]: "add_to p xs L Global = L Global"
  by (induction xs arbitrary: L) auto

lemma add_to_Of: "add_to p xs L (Of x) = L (Of x) @ replicate (count_list xs x) p"
  by (induction xs arbitrary: L) (auto simp: replicate_append_same [symmetric])

lemma link_entry_item_eq:
  assumes ok: "file_ok E f" and mm: "mmap_ok E" and e: "entry_map f q = Some e" and i: "i < length (e_items e)"
    and x: "x = ei_object_offset (e_items e ! i)" "x \<in> dom (data_map f)"
  shows "journal_file_link_entry_item E q p i f = link_data_entry E x p f"
proof -
  have eo: "entry_of (object_at f q) = e" using e by (auto simp: entry_map_of object_at_def)
  from x(2) obtain ob where ob: "store f x = Some ob" "o_type ob = OBJECT_DATA" by (auto simp: data_map_of)
  have "x \<noteq> 0" using ob stored_nonzero [OF file_okD(1) [OF ok]] by blast
  moreover have "journal_file_move_to_object E (Some OBJECT_DATA) x f = Some (Inr ob, f)"
    using ob by (intro move_to_object_stored [OF file_okD(1) [OF ok] mm]) auto
  ultimately show ?thesis
    by (simp add: journal_file_link_entry_item_def link_data_entry_def eo x(1) [symmetric])
qed

lemma link_items_run:
  assumes env: "env_ok E" "mmap_ok E"
  shows "file_ok E f \<Longrightarrow> limited f \<Longrightarrow> entry_lists f L \<Longrightarrow> entry_map f q = Some e \<Longrightarrow>
    (\<forall>i\<in>set js. i < length (e_items e) \<and> ei_object_offset (e_items e ! i) \<in> dom (data_map f)) \<Longrightarrow>
    \<exists>r f' k. forE js (journal_file_link_entry_item E q q) f = Some (r, f') \<and> file_ok E f' \<and> same_links f f' \<and>
      dom (data_map f') = dom (data_map f) \<and>
      entry_lists f' (add_to q (map (\<lambda>i. ei_object_offset (e_items e ! i)) (take k js)) L) \<and>
      (case r of Inl _ \<Rightarrow> k < length js | Inr _ \<Rightarrow> k = length js)"
proof (induction js arbitrary: f L)
  case Nil
  then show ?case by (auto intro!: exI [of _ 0])
next
  case (Cons i js)
  let ?x = "ei_object_offset (e_items e ! i)"
  have i: "i < length (e_items e)" "?x \<in> dom (data_map f)" using Cons.prems(5) by auto
  have q: "q \<in> dom (entry_map f)" using Cons.prems(4) by blast
  obtain r1 f1 where run: "link_data_entry E ?x q f = Some (r1, f1)"
    and f1: "file_ok E f1" "same_links f f1" "dom (data_map f1) = dom (data_map f)"
    and out: "case r1 of Inl e \<Rightarrow> entry_lists f1 L | Inr u \<Rightarrow> entry_lists f1 (L(Of ?x := L (Of ?x) @ [q]))"
    by (rule link_data_entry_run [OF Cons.prems(1) env Cons.prems(2,3) q i(2)])
  have eq: "journal_file_link_entry_item E q q i f = Some (r1, f1)"
    using link_entry_item_eq [OF Cons.prems(1) env(2) Cons.prems(4) i(1) refl i(2)] run by simp
  show ?case
  proof (cases r1)
    case (Inl err)
    then show ?thesis
      using eq f1 out by (intro exI [of _ "Inl err"] exI [of _ f1] exI [of _ 0]) simp
  next
    case (Inr u)
    have f1': "limited f1" "entry_map f1 q = Some e"
      using Cons.prems(2,4) limited_same_links [OF f1(2)] f1(2) by (simp_all add: same_links_def)
    have l1: "entry_lists f1 (L(Of ?x := L (Of ?x) @ [q]))" using out Inr by simp
    have js: "\<forall>i\<in>set js. i < length (e_items e) \<and> ei_object_offset (e_items e ! i) \<in> dom (data_map f1)"
      using Cons.prems(5) f1(3) by simp
    from Cons.IH [OF f1(1) f1'(1) l1 f1'(2) js]
    obtain r2 f2 k where run2: "forE js (journal_file_link_entry_item E q q) f1 = Some (r2, f2)"
      and f2: "file_ok E f2" "same_links f1 f2" "dom (data_map f2) = dom (data_map f1)"
        "entry_lists f2 (add_to q (map (\<lambda>i. ei_object_offset (e_items e ! i)) (take k js)) (L(Of ?x := L (Of ?x) @ [q])))"
      and r2: "case r2 of Inl _ \<Rightarrow> k < length js | Inr _ \<Rightarrow> k = length js"
      by blast
    have run3: "forE (i # js) (journal_file_link_entry_item E q q) f =
        Some (case r2 of Inl e \<Rightarrow> Inl e | Inr ys \<Rightarrow> Inr (u # ys), f2)"
      using eq Inr run2 by (simp add: bindE_def returnE_def split: sum.split)
    have "case (case r2 of Inl e \<Rightarrow> Inl e | Inr ys \<Rightarrow> Inr (u # ys)) of Inl _ \<Rightarrow> Suc k < length (i # js)
        | Inr _ \<Rightarrow> Suc k = length (i # js)"
      using r2 by (cases r2) auto
    then show ?thesis
      using f1(3) f2 same_links_trans [OF f1(2) f2(2)] run3
      by (intro exI [of _ f2] exI [of _ "Suc k"] exI) simp
  qed
qed

definition kept :: "journal_file \<Rightarrow> journal_file \<Rightarrow> bool" where
  "kept f g \<longleftrightarrow>
     entry_map g = entry_map f \<and> (\<forall>q ob. erased f q = Some ob \<longrightarrow> erased g q = Some ob) \<and>
     metrics g = metrics f \<and> compress_xz g = compress_xz f \<and> chain_cache g = chain_cache f \<and>
     tail_entry_seqnum (header g) = tail_entry_seqnum (header f) \<and>
     head_entry_seqnum (header g) = head_entry_seqnum (header f) \<and> boot_id (header g) = boot_id (header f)"

lemma kept_refl [simp]: "kept f f"
  by (simp add: kept_def)

lemma kept_trans: "kept f g \<Longrightarrow> kept g h \<Longrightarrow> kept f h"
  by (auto simp: kept_def)

lemma kept_same_links: "same_links f g \<Longrightarrow> kept f g"
  using same_links_fields [of f g] same_links_header [of f g] by (simp add: kept_def same_links_def)

definition stamp :: "entry_object \<Rightarrow> journal_file \<Rightarrow> journal_file" where
  "stamp e f = (upd_header (\<lambda>h.
        (if head_entry_realtime h = 0 then h\<lparr>head_entry_realtime := e_realtime e\<rparr> else h)
          \<lparr>tail_entry_realtime := e_realtime e, tail_entry_monotonic := e_monotonic e\<rparr>) f)
     \<lparr>tail_entry_monotonic_valid := True\<rparr>"

lemma store_stamp [simp]: "store (stamp e f) = store f"
  by (simp add: stamp_def)

lemma stamp_views [simp]:
  "array_map (stamp e f) = array_map f" "entry_map (stamp e f) = entry_map f"
  "data_map (stamp e f) = data_map f" "field_map (stamp e f) = field_map f" "erased (stamp e f) = erased f"
  by (auto simp: array_map_def entry_map_def data_map_def field_map_def erased_def fun_eq_iff)

lemma stamp_header:
  "header (stamp e f) = (if head_entry_realtime (header f) = 0
     then (header f)\<lparr>head_entry_realtime := e_realtime e\<rparr> else header f)
       \<lparr>tail_entry_realtime := e_realtime e, tail_entry_monotonic := e_monotonic e\<rparr>"
  "st_size (stamp e f) = st_size f" "file_size (stamp e f) = file_size f" "metrics (stamp e f) = metrics f"
  "data_hash_table (stamp e f) = data_hash_table f" "field_hash_table (stamp e f) = field_hash_table f"
  "compress_xz (stamp e f) = compress_xz f" "chain_cache (stamp e f) = chain_cache f"
  "tail_entry_monotonic_valid (stamp e f)"
  by (simp_all add: stamp_def)

lemma stamp_same:
  "file_ok E (stamp e f) = file_ok E f" "entry_lists (stamp e f) L = entry_lists f L" "kept f (stamp e f)"
  "limited (stamp e f) = limited f"
proof -
  have l: "layout (stamp e f) = layout f" by (rule layout_cong) (simp_all add: stamp_header)
  show "file_ok E (stamp e f) = file_ok E f"
    by (simp add: file_ok_def l data_index_def field_index_def stamp_header header_contains_defs)
  show "entry_lists (stamp e f) L = entry_lists f L" by (rule entry_lists_cong) (simp_all add: stamp_header)
  show "kept f (stamp e f)" by (simp add: kept_def stamp_header)
  show "limited (stamp e f) = limited f" by (simp add: limited_def stamp_header)
qed

definition item_offsets :: "entry_object \<Rightarrow> nat list" where
  "item_offsets e = map ei_object_offset (e_items e)"

definition stamped :: "entry_object \<Rightarrow> journal_file \<Rightarrow> bool" where
  "stamped e f \<longleftrightarrow> tail_entry_realtime (header f) = e_realtime e \<and>
     tail_entry_monotonic (header f) = e_monotonic e \<and> tail_entry_monotonic_valid f"

lemma link_entry_run:
  assumes env: "env_ok E" "mmap_ok E" and ok: "file_ok E f" and lim: "limited f" and L: "entry_lists f L"
    and e: "entry_map f q = Some e" and it: "set (item_offsets e) \<subseteq> dom (data_map f)"
  shows "\<exists>r f' L'. journal_file_link_entry E q q f = Some (r, f') \<and> file_ok E f' \<and> kept f f' \<and>
    entry_lists f' L' \<and>
    (case r of
       Inl _ \<Rightarrow> L' = L \<or> (\<exists>k. L' = add_to q (take k (item_offsets e)) (L(Global := L Global @ [q])))
     | Inr _ \<Rightarrow> L' = add_to q (item_offsets e) (L(Global := L Global @ [q])) \<and> stamped e f')"
proof -
  from e obtain ob where ob: "store f q = Some ob" "o_body ob = EntryBody e" by (auto simp: entry_map_Some)
  have at: "object_at f q = ob" "entry_of ob = e" "o_type ob = OBJECT_ENTRY"
    using ob by (simp_all add: object_at_def entry_of_def)
  note l = layoutD(4,5) [OF file_okD(1) [OF ok] ob(1)]
  have "o_size ob = sizeof_EntryObject + sizeof_EntryItem * length (e_items e)"
    using l(1) ob(2) by (simp add: object_ok_def)
  moreover have "o_size ob < two64"
    using l(2) layout_bounds(3) [OF file_okD(1) [OF ok]] two63_two64 by linarith
  ultimately have n: "journal_file_entry_n_items ob = length (e_items e)"
    using at(3) by (simp add: journal_file_entry_n_items_def sub64_eq sizeof_defs)
  have qd: "q \<in> dom (entry_map f)" using e by blast
  obtain r1 f1 where run1: "link_entry_into_array E (\<lambda>f. entry_array_offset (header f))
      (\<lambda>x. upd_header (\<lambda>h. h\<lparr>entry_array_offset := x\<rparr>)) (\<lambda>f. n_entries (header f))
      (\<lambda>x. upd_header (\<lambda>h. h\<lparr>n_entries := x\<rparr>)) q f = Some (r1, f1)"
    and f1: "file_ok E f1" "same_links f f1" "dom (data_map f1) = dom (data_map f)"
    and out: "case r1 of Inl e \<Rightarrow> entry_lists f1 L | Inr u \<Rightarrow> entry_lists f1 (L(Global := L Global @ [q]))"
    by (rule link_global_run [OF ok env lim L qd])
  show ?thesis
  proof (cases r1)
    case (Inl err)
    have "journal_file_link_entry E q q f = Some (Inl err, f1)"
      using run1 Inl at by (simp add: journal_file_link_entry_def)
    with f1 out Inl kept_same_links [OF f1(2)] show ?thesis by auto
  next
    case (Inr u)
    let ?f2 = "stamp e f1" and ?L = "L(Global := L Global @ [q])"
    have f2: "file_ok E ?f2" "limited ?f2" "entry_lists ?f2 ?L" "entry_map ?f2 q = Some e"
      using f1 out Inr e lim limited_same_links [OF f1(2)] by (simp_all add: stamp_same same_links_def)
    have js: "\<forall>i\<in>set [0..<length (e_items e)]. i < length (e_items e) \<and>
        ei_object_offset (e_items e ! i) \<in> dom (data_map ?f2)"
      using it f1(3) by (auto simp: item_offsets_def subset_iff)
    obtain r3 f3 k where run3: "forE [0..<length (e_items e)] (journal_file_link_entry_item E q q) ?f2 = Some (r3, f3)"
      and f3: "file_ok E f3" "same_links ?f2 f3"
        "entry_lists f3 (add_to q (map (\<lambda>i. ei_object_offset (e_items e ! i)) (take k [0..<length (e_items e)])) ?L)"
      and r3: "case r3 of Inl _ \<Rightarrow> k < length [0..<length (e_items e)] | Inr _ \<Rightarrow> k = length [0..<length (e_items e)]"
      using link_items_run [OF env f2 js] by blast
    have take: "map (\<lambda>i. ei_object_offset (e_items e ! i)) (take k [0..<length (e_items e)]) = take k (item_offsets e)"
      by (simp add: item_offsets_def take_map [symmetric] map_nth [symmetric] del: map_nth)
        (metis (mono_tags, lifting) map_map comp_apply map_eq_conv map_nth take_map)
    have run: "journal_file_link_entry E q q f = Some (case r3 of Inl e \<Rightarrow> Inl e | Inr _ \<Rightarrow> Inr (), f3)"
    proof -
      have "journal_file_link_entry E q q f =
          thenE (forE [0..<length (e_items e)] (journal_file_link_entry_item E q q)) (returnE ()) ?f2"
        using run1 Inr at n by (simp add: journal_file_link_entry_def stamp_def cong: if_cong)
      with run3 show ?thesis by (cases r3) simp_all
    qed
    have kp: "kept f f3"
      using kept_same_links [OF f1(2)] stamp_same(3) kept_same_links [OF f3(2)] by (blast intro: kept_trans)
    have st: "stamped e f3"
      using same_links_fields(5) [OF f3(2)] same_links_header [OF f3(2)] by (simp add: stamped_def stamp_header)
    show ?thesis
    proof (cases r3)
      case (Inl err)
      with run f3 kp show ?thesis unfolding take by (intro exI) (auto simp: take)
    next
      case (Inr us)
      with r3 have "take k (item_offsets e) = item_offsets e" by (simp add: item_offsets_def)
      with run f3 kp st Inr show ?thesis by (auto simp: take)
    qed
  qed
qed

section \<open>Appending an entry\<close>

lemma on_file_run [simp]:
  "m f = Some (r, f') \<Longrightarrow> on_file m (f, c) = Some (r, (f', c))"
  by (simp add: on_file_def)

definition seqnum_set :: "nat \<Rightarrow> journal_file \<Rightarrow> journal_file" where
  "seqnum_set s f = f\<lparr>header := (if head_entry_seqnum (header f) = 0
      then (header f)\<lparr>tail_entry_seqnum := s, head_entry_seqnum := s\<rparr> else (header f)\<lparr>tail_entry_seqnum := s\<rparr>)\<rparr>"

lemma seqnum_set_fields [simp]:
  "store (seqnum_set s f) = store f" "st_size (seqnum_set s f) = st_size f"
  "file_size (seqnum_set s f) = file_size f" "metrics (seqnum_set s f) = metrics f"
  "data_hash_table (seqnum_set s f) = data_hash_table f" "field_hash_table (seqnum_set s f) = field_hash_table f"
  "compress_xz (seqnum_set s f) = compress_xz f" "chain_cache (seqnum_set s f) = chain_cache f"
  "tail_entry_seqnum (header (seqnum_set s f)) = s"
  "boot_id (header (seqnum_set s f)) = boot_id (header f)"
  "header_size (header (seqnum_set s f)) = header_size (header f)"
  "arena_size (header (seqnum_set s f)) = arena_size (header f)"
  "tail_object_offset (header (seqnum_set s f)) = tail_object_offset (header f)"
  "n_objects (header (seqnum_set s f)) = n_objects (header f)"
  "n_data (header (seqnum_set s f)) = n_data (header f)" "n_fields (header (seqnum_set s f)) = n_fields (header f)"
  "data_hash_table_size (header (seqnum_set s f)) = data_hash_table_size (header f)"
  "field_hash_table_size (header (seqnum_set s f)) = field_hash_table_size (header f)"
  "entry_array_offset (header (seqnum_set s f)) = entry_array_offset (header f)"
  "n_entries (header (seqnum_set s f)) = n_entries (header f)"
  by (simp_all add: seqnum_set_def)

definition new_seqnum :: "journal_file \<Rightarrow> nat option \<Rightarrow> nat" where
  "new_seqnum f c = (case c of None \<Rightarrow> add64 (tail_entry_seqnum (header f)) 1
     | Some n \<Rightarrow> max (add64 (tail_entry_seqnum (header f)) 1) (add64 n 1))"

lemma next_seqnum_run:
  "next_seqnum (f, c) =
     Some (Inr (new_seqnum f c), (seqnum_set (new_seqnum f c) f, map_option (\<lambda>_. new_seqnum f c) c))"
  by (cases c) (auto simp: next_seqnum_def journal_file_entry_seqnum_def Let_def max_def seqnum_set_def new_seqnum_def)

lemma seqnum_set_views [simp]:
  "array_map (seqnum_set s f) = array_map f" "entry_map (seqnum_set s f) = entry_map f"
  "data_map (seqnum_set s f) = data_map f" "field_map (seqnum_set s f) = field_map f"
  "erased (seqnum_set s f) = erased f"
  by (auto simp: array_map_def entry_map_def data_map_def field_map_def erased_def fun_eq_iff)

lemma seqnum_set_same:
  "file_ok E (seqnum_set s f) = file_ok E f" "entry_lists (seqnum_set s f) L = entry_lists f L"
  "limited (seqnum_set s f) = limited f"
proof -
  have l: "layout (seqnum_set s f) = layout f" by (rule layout_cong [OF seqnum_set_views(5)]) simp_all
  show "file_ok E (seqnum_set s f) = file_ok E f"
    by (simp add: file_ok_def l data_index_def field_index_def header_contains_defs)
  show "entry_lists (seqnum_set s f) L = entry_lists f L" by (rule entry_lists_cong) simp_all
  show "limited (seqnum_set s f) = limited f" by (simp add: limited_def)
qed

definition entry_record ::
  "nat \<Rightarrow> dual_timestamp \<Rightarrow> nat \<Rightarrow> bytes \<Rightarrow> entry_item list \<Rightarrow> entry_object" where
  "entry_record s ts x b items = \<lparr>e_seqnum = s, e_realtime = realtime ts, e_monotonic = monotonic ts,
     e_boot_id = b, e_xor_hash = x, e_items = items\<rparr>"

lemma entry_lists_new_entry:
  assumes L: "entry_lists f L" and "array_map g = array_map f" "data_map g = data_map f"
    "entry_array_offset (header g) = entry_array_offset (header f)" "n_entries (header g) = n_entries (header f)"
    and em: "dom (entry_map f) \<subseteq> dom (entry_map g)"
  shows "entry_lists g L"
proof -
  have v: "first_of g = first_of f" "cnt_of g = cnt_of f" "extra_of g = extra_of f"
    by (intro views_eq assms)+
  from L show ?thesis unfolding entry_lists_def v assms(2) using em by blast
qed

text \<open>The file before the new entry is linked.\<close>

lemma entry_object_written:
  fixes s x :: nat and ts :: dual_timestamp
  assumes env: "env_ok E" "mmap_ok E" and ok: "file_ok E f" and L: "entry_lists f L" and lim: "limited f"
    and n: "length items < 2 ^ 57"
    and app: "journal_file_append_object E OBJECT_ENTRY (sizeof_EntryObject + sizeof_EntryItem * length items) f =
      Some (Inr q, f1)"
  defines "e \<equiv> entry_record s ts x (boot_id (header f)) items"
  defines "f3 \<equiv> upd_object q (on_entry (\<lambda>e. e\<lparr>e_seqnum := s, e_items := items, e_realtime := realtime ts,
      e_monotonic := monotonic ts, e_xor_hash := x, e_boot_id := boot_id (header (seqnum_set s f1))\<rparr>)) (seqnum_set s f1)"
  shows "file_ok E f3" "entry_lists f3 L" "limited f3" "entry_map f3 = (entry_map f)(q \<mapsto> e)"
    "data_map f3 = data_map f" "q = append_position f" "\<And>p ob. erased f p = Some ob \<Longrightarrow> erased f3 p = Some ob"
    "compress_xz f3 = compress_xz f" "metrics f3 = metrics f" "chain_cache f3 = chain_cache f"
    "tail_entry_seqnum (header f3) = s"
proof -
  note lf = file_okD(1) [OF ok]
  let ?n = "sizeof_EntryObject + sizeof_EntryItem * length items"
  have fr: "object_ok (fresh_object OBJECT_ENTRY ?n)" by (simp add: object_ok_def fresh_object_def sizeof_defs)
  have sm: "?n \<le> 2 ^ 62" using n by (simp add: sizeof_defs)
  obtain g where g: "grown f g" and q: "q = append_position f"
    and f1: "f1 = appended q (fresh_object OBJECT_ENTRY ?n) g" and l1: "layout f1"
    using append_object_Inr [OF env(1) lf sm fr app] by (auto simp: appended_def)
  note v = grown_views [OF g]
  have st: "store g = store f" using g by (simp add: grown_def same_content_simps(1))
  have mg: "array_map g = array_map f" "entry_map g = entry_map f"
    by (simp_all add: array_map_def entry_map_def fun_eq_iff st)
  have nq: "store f q = None" using fresh_position [OF lf] q by auto
  then have nn: "data_map f q = None" "entry_map f q = None" "array_map f q = None" "erased f q = None"
    by (simp_all add: data_map_def entry_map_def array_map_def erased_def)
  define ob where "ob = \<lparr>o_flags = 0, o_size = ?n, o_body = EntryBody e\<rparr>"
  have bi: "boot_id (header f1) = boot_id (header f)"
    using g by (simp add: f1 add_tail_def grown_def same_content_simps)
  have f3: "f3 = seqnum_set s (appended q ob g)"
  proof -
    have u: "upd_object q k (seqnum_set s (appended q o1 g)) = seqnum_set s (appended q (k o1) g)" for k o1
      by (simp add: upd_object_def seqnum_set_def appended_def put_object_def upd_header_def)
    show ?thesis
      unfolding f3_def f1 u by (simp add: on_entry_def fresh_object_def ob_def e_def entry_record_def bi [unfolded f1, simplified])
  qed
  have l2: "layout (appended q ob g)"
    by (rule layout_appended [OF l1 [unfolded f1] v(5)])
      (simp_all add: q v(11) ob_def object_ok_def fresh_object_def sizeof_defs e_def entry_record_def)
  have ok2: "file_ok E (appended q ob g)"
    by (rule file_ok_appended_other [OF ok g q l2]) (simp_all add: ob_def)
  have h2: "entry_array_offset (header (appended q ob g)) = entry_array_offset (header f)"
    "n_entries (header (appended q ob g)) = n_entries (header f)"
    using g by (simp_all add: add_tail_def grown_def same_content_simps)
  have m2: "array_map (appended q ob g) = array_map f" "data_map (appended q ob g) = data_map f"
    "entry_map (appended q ob g) = (entry_map f)(q \<mapsto> e)"
    using nn by (auto simp: mg v ob_def)
  have "entry_lists (appended q ob g) L"
    by (rule entry_lists_new_entry [OF L m2(1,2) h2]) (simp only: m2(3), auto)
  then show "entry_lists f3 L" "file_ok E f3" using ok2 by (simp_all add: f3 seqnum_set_same)
  show "entry_map f3 = (entry_map f)(q \<mapsto> e)" "data_map f3 = data_map f"
    unfolding f3 seqnum_set_views using m2 by simp_all
  show "q = append_position f" by (rule q)
  show "\<And>p ob. erased f p = Some ob \<Longrightarrow> erased f3 p = Some ob" using nn(4) by (auto simp: f3 v)
  show mt: "metrics f3 = metrics f" "compress_xz f3 = compress_xz f" "chain_cache f3 = chain_cache f"
    using g by (simp_all add: f3 appended_def upd_header_def put_object_def grown_def same_content_simps)
  show "limited f3" using lim mt by (simp add: limited_def)
  show "tail_entry_seqnum (header f3) = s" by (simp add: f3)
qed


lemma append_entry_internal_run:
  assumes env: "env_ok E" "mmap_ok E" and ok: "file_ok E f" and L: "entry_lists f L" and lim: "limited f"
    and n: "length items < 2 ^ 57" and it: "ei_object_offset ` set items \<subseteq> dom (data_map f)"
  shows "\<exists>r f' c' L'. journal_file_append_entry_internal E ts x items (f, c) = Some (r, (f', c')) \<and>
    file_ok E f' \<and> entry_lists f' L' \<and> (\<forall>p ob. erased f p = Some ob \<longrightarrow> erased f' p = Some ob) \<and>
    (case r of
       Inl _ \<Rightarrow> L' = L \<or> (\<exists>q k. L' = add_to q (take k (map ei_object_offset items)) (L(Global := L Global @ [q])))
     | Inr q \<Rightarrow> q = append_position f \<and>
         L' = add_to q (map ei_object_offset items) (L(Global := L Global @ [q])) \<and>
         entry_map f' = (entry_map f)(q \<mapsto> entry_record (new_seqnum f c) ts x (boot_id (header f)) items) \<and>
         tail_entry_seqnum (header f') = new_seqnum f c \<and> c' = map_option (\<lambda>_. new_seqnum f c) c \<and>
         tail_entry_realtime (header f') = realtime ts \<and> tail_entry_monotonic (header f') = monotonic ts \<and>
         tail_entry_monotonic_valid f')"
proof -
  note lf = file_okD(1) [OF ok]
  let ?n = "sizeof_EntryObject + sizeof_EntryItem * length items"
  let ?s = "new_seqnum f c" and ?c = "map_option (\<lambda>_. new_seqnum f c) c"
  let ?e = "entry_record ?s ts x (boot_id (header f)) items"
  have osz: "add64 sizeof_EntryObject (mul64 (length items) sizeof_EntryItem) = ?n"
    using n by (simp add: add64_def mul64_def two64_def sizeof_defs mult.commute)
  have fr: "object_ok (fresh_object OBJECT_ENTRY ?n)" by (simp add: object_ok_def fresh_object_def sizeof_defs)
  have sm: "?n \<le> 2 ^ 62" using n by (simp add: sizeof_defs)
  obtain r1 f1 where a: "journal_file_append_object E OBJECT_ENTRY ?n f = Some (r1, f1)"
    using append_object_returns [of E OBJECT_ENTRY ?n f] by (cases "journal_file_append_object E OBJECT_ENTRY ?n f") auto
  show ?thesis
  proof (cases r1)
    case (Inl err)
    with append_object_Inl [OF env(1) lf sm fr, of err f1] a have g: "grown f f1" by simp
    have "journal_file_append_entry_internal E ts x items (f, c) = Some (Inl err, (f1, c))"
      using a Inl by (simp add: journal_file_append_entry_internal_def osz Let_def)
    with g L ok show ?thesis
      by (intro exI) (auto simp: entry_lists_grown grown_views(3) intro: file_ok_grown)
  next
    case (Inr q)
    from a Inr have a': "journal_file_append_object E OBJECT_ENTRY ?n f = Some (Inr q, f1)" by simp
    let ?f3 = "upd_object q (on_entry (\<lambda>e. e\<lparr>e_seqnum := ?s, e_items := items, e_realtime := realtime ts,
      e_monotonic := monotonic ts, e_xor_hash := x, e_boot_id := boot_id (header (seqnum_set ?s f1))\<rparr>)) (seqnum_set ?s f1)"
    note w6 = entry_object_written(6) [OF env ok L lim n a']
    note w = entry_object_written(1-5,7-11) [OF env ok L lim n a', where s = ?s and ts = ts and x = x]
    have tl: "tail_entry_seqnum (header f1) = tail_entry_seqnum (header f)"
      using append_object_Inr [OF env(1) lf sm fr a'] by (auto simp: add_tail_def grown_def same_content_simps)
    have ns: "new_seqnum f1 c = ?s" by (cases c) (simp_all add: new_seqnum_def tl)
    have em: "entry_map ?f3 q = Some ?e" using w(4) by simp
    have io: "item_offsets ?e = map ei_object_offset items" by (simp add: item_offsets_def entry_record_def)
    have "set (item_offsets ?e) \<subseteq> dom (data_map ?f3)" using it unfolding w(5) io by simp
    from link_entry_run [OF env w(1,3,2) em this] obtain r f' L' where
      run: "journal_file_link_entry E q q ?f3 = Some (r, f')" and f': "file_ok E f'" "kept ?f3 f'" "entry_lists f' L'"
      and out: "case r of
         Inl _ \<Rightarrow> L' = L \<or> (\<exists>k. L' = add_to q (take k (item_offsets ?e)) (L(Global := L Global @ [q])))
       | Inr _ \<Rightarrow> L' = add_to q (item_offsets ?e) (L(Global := L Global @ [q])) \<and> stamped ?e f'" by blast
    have "journal_file_append_entry_internal E ts x items (f, c) =
        Some (case r of Inl e \<Rightarrow> Inl e | Inr _ \<Rightarrow> Inr q, (f', ?c))"
      using a' run by (cases r)
        (simp_all add: journal_file_append_entry_internal_def osz Let_def next_seqnum_run ns)
    moreover have "\<forall>p ob. erased f p = Some ob \<longrightarrow> erased f' p = Some ob" using w(6) f'(2) by (simp add: kept_def)
    moreover have "entry_map f' = (entry_map f)(q \<mapsto> ?e)" using w(4) f'(2) by (simp add: kept_def)
    moreover have "tail_entry_seqnum (header f') = ?s" using w(10) f'(2) by (simp add: kept_def)
    ultimately show ?thesis
      using f'(1,3) out w6 unfolding io
      by (intro exI [of _ "case r of Inl e \<Rightarrow> Inl e | Inr _ \<Rightarrow> Inr q"] exI [of _ f'] exI [of _ ?c] exI [of _ L'])
        (cases r; auto simp: stamped_def entry_record_def)
  qed
qed


subsection \<open>The data of an entry\<close>

lemma strip_eq_data:
  assumes "strip ob = strip ob'" and "o_body ob' = DataBody d'"
  shows "\<exists>d. o_body ob = DataBody d \<and> d_entry_offset d' = d_entry_offset d \<and>
    d_entry_array_offset d' = d_entry_array_offset d \<and> d_n_entries d' = d_n_entries d"
proof -
  have "strip_body (o_body ob) = strip_body (o_body ob')"
    using assms(1) by (cases ob; cases ob') (simp add: strip_def)
  then have s: "strip_body (o_body ob) = strip_body (DataBody d')" by (simp add: assms(2))
  then obtain d where d: "o_body ob = DataBody d" by (cases "o_body ob") auto
  with s have "d\<lparr>d_next_hash_offset := 0, d_next_field_offset := 0\<rparr> = d'\<lparr>d_next_hash_offset := 0, d_next_field_offset := 0\<rparr>"
    by simp
  then show ?thesis using d by (cases d; cases d') simp
qed

lemma entry_lists_extends:
  assumes ex: "extends f g" and L: "entry_lists f L"
  shows "entry_lists g L"
proof -
  note am = extends_array_map [OF ex]
  have sf: "same_frame f g" using ex by (simp add: extends_def)
  have d: "data_map g p = Some d' \<Longrightarrow> case data_map f p of
      None \<Rightarrow> d_entry_offset d' = 0 \<and> d_entry_array_offset d' = 0 \<and> d_n_entries d' = 0
    | Some d \<Rightarrow> d_entry_offset d' = d_entry_offset d \<and> d_entry_array_offset d' = d_entry_array_offset d \<and>
        d_n_entries d' = d_n_entries d" for p d'
  proof -
    assume g: "data_map g p = Some d'"
    then obtain ob' where ob': "store g p = Some ob'" "o_body ob' = DataBody d'" by (auto simp: data_map_Some)
    then have s': "stripped g p = Some (strip ob')" by (simp add: stripped_def)
    show ?thesis
    proof (cases "stripped f p")
      case None
      with ex s' have "unlinked (strip ob')" by (auto simp: extends_def)
      moreover have "data_map f p = None" using None by (auto simp: stripped_def data_map_def split: option.splits)
      ultimately show ?thesis using ob'(2) by (simp add: unlinked_def strip_def)
    next
      case (Some so)
      then obtain ob where ob: "store f p = Some ob" "so = strip ob" by (auto simp: stripped_def)
      with ex s' Some have "strip ob' = strip ob" by (auto simp: extends_def)
      from strip_eq_data [OF this [symmetric] ob'(2)]
      obtain d where "o_body ob = DataBody d" "d_entry_offset d' = d_entry_offset d"
          "d_entry_array_offset d' = d_entry_array_offset d" "d_n_entries d' = d_n_entries d" by blast
      with ob(1) show ?thesis by (simp add: data_map_def)
    qed
  qed
  have dn: "data_map f p = None" if "data_map g p = None" for p
  proof (rule ccontr)
    assume "data_map f p \<noteq> None"
    then obtain ob d where ob: "store f p = Some ob" "o_body ob = DataBody d" by (auto simp: data_map_Some)
    then have "stripped f p = Some (strip ob)" by (simp add: stripped_def)
    with ex have "stripped g p = Some (strip ob)" by (auto simp: extends_def)
    then obtain gb where gb: "store g p = Some gb" "strip gb = strip ob" by (auto simp: stripped_def)
    from strip_eq_data [OF gb(2) ob(2)] obtain d' where "o_body gb = DataBody d'" by blast
    with gb(1) that show False by (simp add: data_map_def)
  qed
  have "first_of g w = first_of f w" "cnt_of g w = cnt_of f w" "extra_of g w = extra_of f w" for w
    using d dn same_frame_header [OF sf] by (cases w; fastforce split: option.splits)+
  then have v: "first_of g = first_of f" "cnt_of g = cnt_of f" "extra_of g = extra_of f" by blast+
  from L show ?thesis unfolding entry_lists_def v am .
qed


lemma append_items_run:
  assumes env: "env_ok E" "mmap_ok E"
  shows "file_ok E f \<Longrightarrow> \<forall>x\<in>set xs. data_adm E f x \<Longrightarrow>
    \<exists>r f'. forE xs (append_item E) f = Some (r, f') \<and> file_ok E f' \<and> extends f f' \<and>
      (case r of Inl _ \<Rightarrow> True | Inr items \<Rightarrow>
         list_all2 (\<lambda>it x. has_data E f' (ei_object_offset it) x \<and> ei_hash it = jhash x) items xs)"
proof (induction xs arbitrary: f)
  case Nil
  then show ?case by auto
next
  case (Cons x xs)
  have x: "length x < 2 ^ 61" "compressible E (compress_xz f) x" using Cons.prems(2) by (simp_all add: data_adm_def)
  obtain r1 f1 where run: "journal_file_append_data E x f = Some (r1, f1)"
    using append_data_returns [OF Cons.prems(1) env x] by auto
  note f1 = append_data_ok(1,2,3) [OF Cons.prems(1) env x run]
  show ?case
  proof (cases r1)
    case (Inl e)
    with run f1 show ?thesis by (intro exI [of _ "Inl e"] exI [of _ f1]) (simp add: append_item_def)
  next
    case (Inr p)
    let ?it = "\<lparr>ei_object_offset = p, ei_hash = d_hash (data_of (object_at f1 p))\<rparr>"
    have hp: "has_data E f1 p x" using f1(3) Inr by simp
    then have hash: "d_hash (data_of (object_at f1 p)) = jhash x"
      using file_okD(4) [OF f1(1)] unfolding data_wf_def has_data_def
      by (auto simp: erased_Some object_at_def) fastforce
    have one: "append_item E x f = Some (Inr ?it, f1)" using run Inr by (simp add: append_item_def)
    have "\<forall>x\<in>set xs. data_adm E f1 x"
      using Cons.prems(2) extends_compress [OF f1(2)] by (simp add: data_adm_def)
    from Cons.IH [OF f1(1) this] obtain r2 f2 where run2: "forE xs (append_item E) f1 = Some (r2, f2)"
      and f2: "file_ok E f2" "extends f1 f2"
      and out: "case r2 of Inl _ \<Rightarrow> True | Inr items \<Rightarrow>
         list_all2 (\<lambda>it x. has_data E f2 (ei_object_offset it) x \<and> ei_hash it = jhash x) items xs" by blast
    have run3: "forE (x # xs) (append_item E) f = Some (case r2 of Inl e \<Rightarrow> Inl e | Inr its \<Rightarrow> Inr (?it # its), f2)"
      using one run2 by (simp add: bindE_def returnE_def split: sum.split)
    have "has_data E f2 p x" by (rule extends_has(1) [OF f2(2) hp])
    with run3 f2(1) extends_trans [OF f1(2) f2(2)] out hash show ?thesis
      by (intro exI [of _ "case r2 of Inl e \<Rightarrow> Inl e | Inr its \<Rightarrow> Inr (?it # its)"] exI [of _ f2])
        (cases r2; simp)
  qed
qed

lemma post_change_same:
  assumes "file_ok E f"
  shows "file_ok E (journal_file_post_change E f)" "entry_lists (journal_file_post_change E f) L = entry_lists f L"
    "header (journal_file_post_change E f) = header f" "erased (journal_file_post_change E f) = erased f"
    "entry_map (journal_file_post_change E f) = entry_map f"
    "tail_entry_monotonic_valid (journal_file_post_change E f) = tail_entry_monotonic_valid f"
proof -
  let ?f = "journal_file_post_change E f"
  have st: "store ?f = store f" "header ?f = header f" "metrics ?f = metrics f" "data_hash_table ?f = data_hash_table f"
      "field_hash_table ?f = field_hash_table f"
    by (simp_all add: journal_file_post_change_def split: option.split)
  note m = maps_same_store [OF st(1)]
  have m2: "array_map ?f = array_map f" "entry_map ?f = entry_map f"
    by (simp_all add: array_map_def entry_map_def fun_eq_iff st)
  have "layout f" by (rule file_okD(1) [OF assms])
  then have "layout ?f"
    unfolding layout_def Let_def limited_def st by (auto simp: journal_file_post_change_def split: option.split)
  then show "file_ok E ?f"
    using assms by (simp add: file_ok_def m data_index_def field_index_def st)
  show "entry_lists ?f L = entry_lists f L" by (rule entry_lists_cong) (simp_all add: m m2 st)
  show "header ?f = header f" "erased ?f = erased f" "entry_map ?f = entry_map f"
    "tail_entry_monotonic_valid ?f = tail_entry_monotonic_valid f"
    by (simp_all add: st m m2) (simp add: journal_file_post_change_def split: option.split)
qed

lemma xor_items:
  "list_all2 (\<lambda>it x. P it x \<and> ei_hash it = jhash x) items xs \<Longrightarrow>
   foldl (\<lambda>x it. x XOR ei_hash it) a items = foldl (\<lambda>h x. h XOR jhash x) a xs"
  by (induction items xs arbitrary: a rule: list_all2_induct) auto

lemma add_to_prefix: "prefix (L w) (add_to q xs (L(Global := L Global @ [q])) w)"
  by (cases w) (auto simp: add_to_Of)

lemma has_data_mono:
  assumes "\<forall>p ob. erased f p = Some ob \<longrightarrow> erased g p = Some ob" and "has_data E f p x"
  shows "has_data E g p x"
  using assms unfolding has_data_def by blast

lemma has_data_dom: "has_data E f p x \<Longrightarrow> p \<in> dom (data_map f)"
  by (auto simp: has_data_store data_map_of)

lemma extends_erased_mono: "extends f g \<Longrightarrow> \<forall>p ob. erased f p = Some ob \<longrightarrow> erased g p = Some ob"
  by (auto dest: extends_erased)

text \<open>What a successful append leaves behind.\<close>

definition entry_added ::
  "env \<Rightarrow> dual_timestamp \<Rightarrow> bytes list \<Rightarrow> nat option \<Rightarrow> journal_file \<Rightarrow> (owner \<Rightarrow> nat list) \<Rightarrow>
   nat \<Rightarrow> journal_file \<Rightarrow> (owner \<Rightarrow> nat list) \<Rightarrow> nat option \<Rightarrow> bool" where
  "entry_added E ts iovec c f L q f' L' c' \<longleftrightarrow>
     (\<exists>items.
        list_all2 (\<lambda>it x. has_data E f' (ei_object_offset it) x \<and> ei_hash it = jhash x) items iovec \<and>
        entry_map f q = None \<and>
        entry_map f' = (entry_map f)(q \<mapsto> entry_record (new_seqnum f c) ts
          (foldl (\<lambda>h x. h XOR jhash x) 0 iovec) (boot_id (header f)) (qsort_items items)) \<and>
        (\<forall>p\<in>dom (entry_map f). p < q) \<and>
        L' Global = L Global @ [q] \<and>
        (\<forall>p. L' (Of p) = L (Of p) @ replicate (count_list (map ei_object_offset items) p) q)) \<and>
     tail_entry_seqnum (header f') = new_seqnum f c \<and> c' = map_option (\<lambda>_. new_seqnum f c) c \<and>
     tail_entry_realtime (header f') = realtime ts \<and> tail_entry_monotonic (header f') = monotonic ts \<and>
     tail_entry_monotonic_valid f'"

lemma count_list_sorted: "count_list (map ei_object_offset (qsort_items items)) p = count_list (map ei_object_offset items) p"
proof -
  have "mset (map ei_object_offset (qsort_items items)) = mset (map ei_object_offset items)"
    by (simp add: qsort_items_def)
  then show ?thesis by (metis count_mset)
qed

lemma append_entry_run:
  assumes ok: "file_ok E f" and L: "entry_lists f L" and env: "env_ok E" "mmap_ok E" and lim: "limited f"
    and adm: "\<forall>x\<in>set iovec. data_adm E f x" and n: "length iovec < 2 ^ 57"
    and ts'_def: "ts' = (case ts of None \<Rightarrow> now | Some ts \<Rightarrow> ts)"
  shows "\<exists>r f' c' L'. journal_file_append_entry E now ts iovec (f, c) = Some (r, (f', c')) \<and>
    file_ok E f' \<and> entry_lists f' L' \<and> (\<forall>p ob. erased f p = Some ob \<longrightarrow> erased f' p = Some ob) \<and>
    (case r of
       Inl _ \<Rightarrow> \<forall>w. prefix (L w) (L' w)
     | Inr q \<Rightarrow> entry_added E ts' iovec c f L q f' L' c' \<and>
         \<not> (tail_entry_monotonic_valid f \<and> monotonic ts' < tail_entry_monotonic (header f)))"
proof (cases "tail_entry_monotonic_valid f \<and> monotonic ts' < tail_entry_monotonic (header f)")
  case True
  then have "journal_file_append_entry E now ts iovec (f, c) = Some (Inl EINVAL, (f, c))"
    unfolding ts'_def by (simp add: journal_file_append_entry_def Let_def)
  with ok L show ?thesis by (intro exI [of _ "Inl EINVAL"]) auto
next
  case False
  obtain r1 f1 where run1: "forE iovec (append_item E) f = Some (r1, f1)" and f1: "file_ok E f1" "extends f f1"
    and out1: "case r1 of Inl _ \<Rightarrow> True | Inr items \<Rightarrow>
       list_all2 (\<lambda>it x. has_data E f1 (ei_object_offset it) x \<and> ei_hash it = jhash x) items iovec"
    using append_items_run [OF env ok adm] by blast
  have L1: "entry_lists f1 L" by (rule entry_lists_extends [OF f1(2) L])
  show ?thesis
  proof (cases r1)
    case (Inl e)
    have "journal_file_append_entry E now ts iovec (f, c) = Some (Inl e, (f1, c))"
      using False run1 Inl unfolding ts'_def by (simp add: journal_file_append_entry_def Let_def)
    with f1 L1 extends_erased_mono [OF f1(2)] show ?thesis by (intro exI [of _ "Inl e"]) auto
  next
    case (Inr items)
    with out1 have la: "list_all2 (\<lambda>it x. has_data E f1 (ei_object_offset it) x \<and> ei_hash it = jhash x) items iovec"
      by simp
    let ?x = "foldl (\<lambda>h x. h XOR jhash x) 0 iovec" and ?its = "qsort_items items"
    have its: "(if iovec \<noteq> [] then ?its else items) = ?its" using la by (auto simp: qsort_items_def)
    have len: "length ?its < 2 ^ 57" using list_all2_lengthD [OF la] n by (simp add: qsort_items_def)
    have dom: "ei_object_offset ` set ?its \<subseteq> dom (data_map f1)"
      using la by (auto simp: qsort_items_def list_all2_conv_all_nth in_set_conv_nth dest!: has_data_dom)
    have lim1: "limited f1"
      using lim f1(2) same_frame_fields(2) [of f f1] by (simp add: limited_def extends_def)
    obtain r f2 c' L' where run2: "journal_file_append_entry_internal E ts' ?x ?its (f1, c) = Some (r, (f2, c'))"
      and f2: "file_ok E f2" "entry_lists f2 L'" and mono: "\<forall>p ob. erased f1 p = Some ob \<longrightarrow> erased f2 p = Some ob"
      and out: "case r of
         Inl _ \<Rightarrow> L' = L \<or> (\<exists>q k. L' = add_to q (take k (map ei_object_offset ?its)) (L(Global := L Global @ [q])))
       | Inr q \<Rightarrow> q = append_position f1 \<and>
           L' = add_to q (map ei_object_offset ?its) (L(Global := L Global @ [q])) \<and>
           entry_map f2 = (entry_map f1)(q \<mapsto> entry_record (new_seqnum f1 c) ts' ?x (boot_id (header f1)) ?its) \<and>
           tail_entry_seqnum (header f2) = new_seqnum f1 c \<and> c' = map_option (\<lambda>_. new_seqnum f1 c) c \<and>
           tail_entry_realtime (header f2) = realtime ts' \<and> tail_entry_monotonic (header f2) = monotonic ts' \<and>
           tail_entry_monotonic_valid f2"
      using append_entry_internal_run [OF env f1(1) L1 lim1 len dom, of ts' ?x c] by blast
    let ?f = "journal_file_post_change E f2"
    note pc = post_change_same [OF f2(1)]
    have run: "journal_file_append_entry E now ts iovec (f, c) = Some (r, (?f, c'))"
    proof -
      have "journal_file_append_entry E now ts iovec (f, c) =
        (case journal_file_append_entry_internal E ts' (foldl (\<lambda>x it. x XOR ei_hash it) 0 items)
           (if iovec \<noteq> [] then ?its else items) (f1, c) of
           None \<Rightarrow> None | Some (r, (f, c)) \<Rightarrow> Some (r, (journal_file_post_change E f, c)))"
        using False run1 Inr unfolding ts'_def by (simp add: journal_file_append_entry_def Let_def)
      with run2 xor_items [OF la] its show ?thesis by simp
    qed
    have kept: "\<forall>p ob. erased f p = Some ob \<longrightarrow> erased ?f p = Some ob"
      using extends_erased_mono [OF f1(2)] mono pc(4) by simp
    have L': "entry_lists ?f L'" using f2(2) pc(2) by simp
    show ?thesis
    proof (cases r)
      case (Inl err)
      with out have "prefix (L w) (L' w)" for w using add_to_prefix by auto
      with run pc(1) L' Inl kept show ?thesis by (intro exI [of _ "Inl err"]) auto
    next
      case (Inr q)
      note o = out [unfolded Inr sum.case]
      have sf: "same_frame f f1" using f1(2) by (simp add: extends_def)
      have ns: "new_seqnum f1 c = new_seqnum f c" "boot_id (header f1) = boot_id (header f)"
        using same_frame_header [OF sf] by (cases c; simp add: new_seqnum_def)+
      have em1: "entry_map f1 = entry_map f" by (rule extends_array_map(2) [OF f1(2)])
      have q: "p < q" if "p \<in> dom (entry_map f)" for p
      proof -
        have "p \<in> dom (store f1)" using that unfolding em1 [symmetric] by (auto simp: entry_map_Some)
        then show ?thesis using append_position_facts(5) [OF file_okD(1) [OF f1(1)]] o by simp
      qed
      then have qn: "entry_map f q = None" by (metis domIff less_irrefl)
      have la': "list_all2 (\<lambda>it x. has_data E ?f (ei_object_offset it) x \<and> ei_hash it = jhash x) items iovec"
        using list_all2_mono [OF la] has_data_mono mono pc(4) by (metis (mono_tags, lifting))
      have "entry_added E ts' iovec c f L q ?f L' c'"
        unfolding entry_added_def
      proof (intro conjI exI [of _ items] allI ballI)
        show "entry_map ?f = (entry_map f)(q \<mapsto> entry_record (new_seqnum f c) ts' ?x (boot_id (header f)) ?its)"
          using o ns by (simp add: pc(5) em1)
        show "L' (Of p) = L (Of p) @ replicate (count_list (map ei_object_offset items) p) q" for p
          using o by (simp add: add_to_Of count_list_sorted)
      qed (use la' qn q o ns pc in auto)
      with run pc(1) L' Inr False kept show ?thesis by (intro exI [of _ "Inr q"]) auto
    qed
  qed
qed

text \<open>
  C2: Appending an entry to a sound file returns and leaves a sound file.  When it succeeds, the new
  entry comes after all others in the list of the file, carries the sequence number after the last
  one, the time stamps, the boot identifier and the combined hash of its data, refers to one object for each field, and is
  added to the lists of exactly these objects; a time stamp that goes backwards is refused.  When it
  fails, no entry is lost: every list is extended at most.  Objects that were there keep their contents.
\<close>

theorem append_entry_correct:
  assumes "file_ok E f" and "entry_lists f L" and "env_ok E" and "mmap_ok E" and "limited f"
    and "\<forall>x\<in>set iovec. data_adm E f x" and "length iovec < 2 ^ 57"
    and "ts' = (case ts of None \<Rightarrow> now | Some ts \<Rightarrow> ts)"
  shows "\<exists>r f' c' L'. journal_file_append_entry E now ts iovec (f, c) = Some (r, (f', c')) \<and>
    file_ok E f' \<and> entry_lists f' L' \<and> (\<forall>p ob. erased f p = Some ob \<longrightarrow> erased f' p = Some ob) \<and>
    (case r of
       Inl _ \<Rightarrow> \<forall>w. prefix (L w) (L' w)
     | Inr q \<Rightarrow> entry_added E ts' iovec c f L q f' L' c' \<and>
         \<not> (tail_entry_monotonic_valid f \<and> monotonic ts' < tail_entry_monotonic (header f)))"
  by (rule append_entry_run [OF assms])

end
