(* ===== verification/File_Seek.thy ===== *)
theory File_Seek
  imports File_Entry Utils
begin

text \<open>
  Reading entries: the cache of entry array chains, access to the n-th entry of a chain, bisection
  over a chain, and the functions that move to an entry by offset, sequence number or time
  (\<open>lib/journal-file.c\<close> from \<open>chain_cache_put\<close> to \<open>journal_file_move_to_entry_by_realtime_for_data\<close>).
  A function that returns 0, 1 or a negative error number is modelled by an option in the monad;
  with 1 comes the offset of the entry found.  A failed assertion ends the program, so that it has
  no result.
\<close>

section \<open>The chain cache\<close>

definition CHAIN_CACHE_MAX :: nat where "CHAIN_CACHE_MAX = 20"

definition NO_INDEX :: nat where "NO_INDEX = two64 - 1"

definition cache_get :: "nat \<Rightarrow> journal_file \<Rightarrow> chain_cache_item option" where
  "cache_get first f = List.find (\<lambda>ci. ci_first ci = first) (chain_cache f)"

text \<open>
  The item to be reused is either the one of this chain, updated in place, or the oldest one when
  the cache is full, or a new one; a new or reused item goes to the end.
\<close>

definition chain_cache_put ::
  "chain_cache_item option \<Rightarrow> nat \<Rightarrow> nat \<Rightarrow> nat \<Rightarrow> nat \<Rightarrow> nat \<Rightarrow> journal_file \<Rightarrow> journal_file" where
  "chain_cache_put ci first array begin tot last_index f =
     (let item = \<lparr>ci_first = first, ci_array = array, ci_begin = begin, ci_total = tot,
                  ci_last_index = last_index\<rparr>
      in case ci of
           None \<Rightarrow>
             if array = first then f
             else if length (chain_cache f) \<ge> CHAIN_CACHE_MAX
             then f\<lparr>chain_cache := tl (chain_cache f) @ [item]\<rparr>
             else f\<lparr>chain_cache := chain_cache f @ [item]\<rparr>
         | Some _ \<Rightarrow>
             f\<lparr>chain_cache := map (\<lambda>c. if ci_first c = first then item else c) (chain_cache f)\<rparr>)"

section \<open>Access by index\<close>

text \<open>The array, the index in it, the number of items before it, and its items.\<close>

partial_function (option) array_get_loop ::
  "env \<Rightarrow> nat \<Rightarrow> nat \<Rightarrow> nat \<Rightarrow> journal_file \<Rightarrow>
   ((nat \<times> nat \<times> nat \<times> nat list) option res \<times> journal_file) option" where
  "array_get_loop E a i t f =
     (if a > 0 then
        (case journal_file_move_to_object E (Some OBJECT_ENTRY_ARRAY) a f of
           None \<Rightarrow> None
         | Some (Inl e, f) \<Rightarrow> Some (Inl e, f)
         | Some (Inr ob, f) \<Rightarrow>
             let k = journal_file_entry_array_n_items ob in
             if i < k then Some (Inr (Some (a, i, t, ea_items (array_of ob))), f)
             else array_get_loop E (ea_next_entry_array_offset (array_of ob)) (i - k) (t + k) f)
      else Some (Inr None, f))"

definition generic_array_get :: "env \<Rightarrow> nat \<Rightarrow> nat \<Rightarrow> nat option jm" where
  "generic_array_get E first i =
     bindE (getE (cache_get first)) (\<lambda>ci.
     let (a, i, t) = (case ci of
           Some c \<Rightarrow> if i > ci_total c then (ci_array c, i - ci_total c, ci_total c) else (first, i, 0)
         | None \<Rightarrow> (first, i, 0))
     in
     bindE (array_get_loop E a i t) (\<lambda>r.
     case r of
       None \<Rightarrow> returnE None
     | Some (a, i, t, items) \<Rightarrow>
         thenE (modifyE (chain_cache_put ci first a (items ! 0) t i))
         (thenE (journal_file_move_to_object E (Some OBJECT_ENTRY) (items ! i))
         (returnE (Some (items ! i))))))"

definition generic_array_get_plus_one :: "env \<Rightarrow> nat \<Rightarrow> nat \<Rightarrow> nat \<Rightarrow> nat option jm" where
  "generic_array_get_plus_one E extra first i =
     (if i = 0 then
        thenE (journal_file_move_to_object E (Some OBJECT_ENTRY) extra) (returnE (Some extra))
      else generic_array_get E first (i - 1))"

section \<open>Bisection\<close>

datatype test_result = TEST_FOUND | TEST_LEFT | TEST_RIGHT

datatype direction = DIRECTION_UP | DIRECTION_DOWN

type_synonym test_object = "nat \<Rightarrow> nat \<Rightarrow> test_result jm"

text \<open>A hit counts as left or right of the needle, depending on the direction.\<close>

definition test_directed :: "test_object \<Rightarrow> direction \<Rightarrow> nat \<Rightarrow> nat \<Rightarrow> test_result jm" where
  "test_directed test_object dir p needle =
     bindE (test_object p needle) (\<lambda>r.
     returnE (if r = TEST_FOUND then if dir = DIRECTION_DOWN then TEST_RIGHT else TEST_LEFT else r))"

text \<open>Test of item \<open>i\<close> of an array; an item 0 is an error.\<close>

definition test_item :: "test_object \<Rightarrow> direction \<Rightarrow> nat \<Rightarrow> nat list \<Rightarrow> nat \<Rightarrow> test_result jm" where
  "test_item test_object dir needle items i =
     thenE (guardE (\<not> items ! i \<le> 0) EBADMSG) (test_directed test_object dir (items ! i) needle)"

partial_function (option) bisect_loop ::
  "test_object \<Rightarrow> direction \<Rightarrow> nat \<Rightarrow> nat list \<Rightarrow> nat \<Rightarrow> nat \<Rightarrow> journal_file \<Rightarrow>
   (nat res \<times> journal_file) option" where
  "bisect_loop test_object dir needle items left right f =
     (if left = right then Some (Inr left, f)
      else if \<not> left < right then None
      else
        let i = (left + right) div 2 in
        case test_item test_object dir needle items i f of
          None \<Rightarrow> None
        | Some (Inl e, f) \<Rightarrow> Some (Inl e, f)
        | Some (Inr r, f) \<Rightarrow>
            if r = TEST_RIGHT then bisect_loop test_object dir needle items left i f
            else bisect_loop test_object dir needle items (i + 1) right f)"

text \<open>
  Narrowing the range to the neighbours of the index looked at last.  The result is the range.
\<close>

definition bisect_hint ::
  "test_object \<Rightarrow> direction \<Rightarrow> nat \<Rightarrow> nat list \<Rightarrow> nat \<Rightarrow> nat \<Rightarrow> (nat \<times> nat) jm" where
  "bisect_hint test_object dir needle items right last_index =
     (if last_index = NO_INDEX then returnE (0, right)
      else if \<not> last_index \<le> right then (\<lambda>f. None)
      else
        bindE (if last_index > 0 then
                 let x = last_index - 1 in
                 bindE (test_item test_object dir needle items x) (\<lambda>r.
                 returnE (if r = TEST_RIGHT then (0, x) else (x + 1, right)))
               else returnE (0, right)) (\<lambda>(left, right).
        if last_index < right then
          let y = last_index + 1 in
          bindE (test_item test_object dir needle items y) (\<lambda>r.
          returnE (if r = TEST_RIGHT then (left, y) else (y + 1, right)))
        else returnE (left, right)))"

text \<open>
  The walk over the arrays.  \<open>n\<close> items are left from the beginning of array \<open>a\<close>, \<open>t\<close> items came
  before it, and \<open>last_p\<close> is the last item of the array before it.
\<close>

record bisect_found =
  bf_array :: nat
  bf_items :: "nat list"
  bf_total :: nat
  bf_index :: nat
  bf_subtract_one :: bool
  bf_last_p :: nat

partial_function (option) bisect_arrays ::
  "env \<Rightarrow> test_object \<Rightarrow> direction \<Rightarrow> nat \<Rightarrow> nat \<Rightarrow> nat \<Rightarrow> nat \<Rightarrow> nat \<Rightarrow> nat \<Rightarrow>
   journal_file \<Rightarrow> (bisect_found option res \<times> journal_file) option" where
  "bisect_arrays E test_object dir needle a n t last_index last_p f =
     (if a > 0 then
        (case journal_file_move_to_object E (Some OBJECT_ENTRY_ARRAY) a f of
           None \<Rightarrow> None
         | Some (Inl e, f) \<Rightarrow> Some (Inl e, f)
         | Some (Inr ob, f) \<Rightarrow>
             let k = journal_file_entry_array_n_items ob;
                 items = ea_items (array_of ob);
                 right = min k n
             in
             if right \<le> 0 then Some (Inr None, f)
             else
               case test_item test_object dir needle items (right - 1) f of
                 None \<Rightarrow> None
               | Some (Inl e, f) \<Rightarrow> Some (Inl e, f)
               | Some (Inr r, f) \<Rightarrow>
                   let found = \<lambda>i sub1. \<lparr>bf_array = a, bf_items = items, bf_total = t,
                         bf_index = i, bf_subtract_one = sub1, bf_last_p = last_p\<rparr>
                   in
                   if r = TEST_RIGHT then
                     bindE (bisect_hint test_object dir needle items (right - 1) last_index)
                       (\<lambda>(left, right).
                     bindE (bisect_loop test_object dir needle items left right) (\<lambda>i.
                     returnE (Some (found i (dir = DIRECTION_UP))))) f
                   else if k > n then
                     (if dir = DIRECTION_UP then Some (Inr (Some (found n True)), f)
                      else Some (Inr None, f))
                   else
                     bisect_arrays E test_object dir needle
                       (ea_next_entry_array_offset (array_of ob)) (n - k) (t + k) NO_INDEX
                       (items ! (right - 1)) f)
      else Some (Inr None, f))"

definition generic_array_bisect ::
  "env \<Rightarrow> nat \<Rightarrow> nat \<Rightarrow> nat \<Rightarrow> test_object \<Rightarrow> direction \<Rightarrow> (nat \<times> nat) option jm" where
  "generic_array_bisect E first n needle test_object dir =
     bindE (getE (cache_get first)) (\<lambda>ci.
     bindE (case ci of
              Some c \<Rightarrow>
                if n > ci_total c then
                  bindE (test_object (ci_begin c) needle) (\<lambda>r.
                  returnE (if r = TEST_LEFT
                           then (ci_array c, n - ci_total c, ci_total c, ci_last_index c)
                           else (first, n, 0, NO_INDEX)))
                else returnE (first, n, 0, NO_INDEX)
            | None \<Rightarrow> returnE (first, n, 0, NO_INDEX)) (\<lambda>(a, n, t, last_index).
     bindE (bisect_arrays E test_object dir needle a n t last_index 0) (\<lambda>r.
     case r of
       None \<Rightarrow> returnE None
     | Some b \<Rightarrow>
         let i = bf_index b; t = bf_total b; subtract_one = bf_subtract_one b in
         if subtract_one \<and> t = 0 \<and> i = 0 then returnE None
         else
           thenE (modifyE (chain_cache_put ci first (bf_array b) (bf_items b ! 0) t
                    (if subtract_one then if i > 0 then i - 1 else NO_INDEX else i)))
           (let p = (if subtract_one \<and> i = 0 then bf_last_p b
                     else if subtract_one then bf_items b ! (i - 1)
                     else bf_items b ! i)
            in
            thenE (journal_file_move_to_object E (Some OBJECT_ENTRY) p)
            (returnE (Some (p, t + i - (if subtract_one then 1 else 0))))))))"

definition generic_array_bisect_plus_one ::
  "env \<Rightarrow> nat \<Rightarrow> nat \<Rightarrow> nat \<Rightarrow> nat \<Rightarrow> test_object \<Rightarrow> direction \<Rightarrow> (nat \<times> nat) option jm" where
  "generic_array_bisect_plus_one E extra first n needle test_object dir =
     (let found = thenE (journal_file_move_to_object E (Some OBJECT_ENTRY) extra)
                    (returnE (Some (extra, 0)))
      in
      if n \<le> 0 then returnE None
      else
        bindE (test_directed test_object dir extra needle) (\<lambda>r.
        if r = TEST_RIGHT then if dir = DIRECTION_DOWN then found else returnE None
        else
          bindE (generic_array_bisect E first (n - 1) needle test_object dir) (\<lambda>b.
          case b of
            None \<Rightarrow> if r = TEST_LEFT \<and> dir = DIRECTION_UP then found else returnE None
          | Some (p, i) \<Rightarrow> returnE (Some (p, i + 1)))))"

section \<open>Moving to an entry\<close>

definition compare_to :: "nat \<Rightarrow> nat \<Rightarrow> test_result" where
  "compare_to v needle = (if v = needle then TEST_FOUND else if v < needle then TEST_LEFT else TEST_RIGHT)"

definition test_object_offset :: test_object where
  "test_object_offset p needle = thenE (assertE (p > 0)) (returnE (compare_to p needle))"

definition test_object_seqnum :: "env \<Rightarrow> test_object" where
  "test_object_seqnum E p needle =
     thenE (assertE (p > 0))
     (bindE (journal_file_move_to_object E (Some OBJECT_ENTRY) p) (\<lambda>ob.
      returnE (compare_to (e_seqnum (entry_of ob)) needle)))"

definition test_object_realtime :: "env \<Rightarrow> test_object" where
  "test_object_realtime E p needle =
     thenE (assertE (p > 0))
     (bindE (journal_file_move_to_object E (Some OBJECT_ENTRY) p) (\<lambda>ob.
      returnE (compare_to (e_realtime (entry_of ob)) needle)))"

definition test_object_monotonic :: "env \<Rightarrow> test_object" where
  "test_object_monotonic E p needle =
     thenE (assertE (p > 0))
     (bindE (journal_file_move_to_object E (Some OBJECT_ENTRY) p) (\<lambda>ob.
      returnE (compare_to (e_monotonic (entry_of ob)) needle)))"

text \<open>Only the offset is asked for.\<close>

definition offset_only :: "('a \<times> 'b) option jm \<Rightarrow> 'a option jm" where
  "offset_only m = bindE m (\<lambda>r. returnE (map_option fst r))"

definition bisect_entries :: "env \<Rightarrow> nat \<Rightarrow> test_object \<Rightarrow> direction \<Rightarrow> (nat \<times> nat) option jm" where
  "bisect_entries E needle test_object dir =
     bindE (getE header) (\<lambda>h.
     generic_array_bisect E (entry_array_offset h) (n_entries h) needle test_object dir)"

definition bisect_data :: "env \<Rightarrow> object \<Rightarrow> nat \<Rightarrow> test_object \<Rightarrow> direction \<Rightarrow> (nat \<times> nat) option jm" where
  "bisect_data E ob needle test_object dir =
     generic_array_bisect_plus_one E (d_entry_offset (data_of ob)) (d_entry_array_offset (data_of ob))
       (d_n_entries (data_of ob)) needle test_object dir"

definition journal_file_move_to_entry_by_offset :: "env \<Rightarrow> nat \<Rightarrow> direction \<Rightarrow> nat option jm" where
  "journal_file_move_to_entry_by_offset E p dir = offset_only (bisect_entries E p test_object_offset dir)"

definition journal_file_move_to_entry_by_seqnum :: "env \<Rightarrow> nat \<Rightarrow> direction \<Rightarrow> nat option jm" where
  "journal_file_move_to_entry_by_seqnum E seqnum dir =
     offset_only (bisect_entries E seqnum (test_object_seqnum E) dir)"

definition journal_file_move_to_entry_by_realtime :: "env \<Rightarrow> nat \<Rightarrow> direction \<Rightarrow> nat option jm" where
  "journal_file_move_to_entry_by_realtime E rt dir =
     offset_only (bisect_entries E rt (test_object_realtime E) dir)"

definition find_data_object_by_boot_id :: "env \<Rightarrow> bytes \<Rightarrow> nat option jm" where
  "find_data_object_by_boot_id E bid =
     journal_file_find_data_object E (ascii ''_BOOT_ID='' @ uuid_to_str bid)"

definition journal_file_move_to_entry_by_monotonic ::
  "env \<Rightarrow> bytes \<Rightarrow> nat \<Rightarrow> direction \<Rightarrow> nat option jm" where
  "journal_file_move_to_entry_by_monotonic E bid mt dir =
     bindE (find_data_object_by_boot_id E bid) (\<lambda>r.
     case r of
       None \<Rightarrow> failE ENOENT
     | Some b \<Rightarrow>
         bindE (getE (\<lambda>f. object_at f b)) (\<lambda>ob.
         offset_only (bisect_data E ob mt (test_object_monotonic E) dir)))"

section \<open>Next and previous entries\<close>

text \<open>The object \<open>o\<close> is given by its type; \<open>None\<close> is the null pointer.\<close>

definition step_index :: "direction \<Rightarrow> nat \<Rightarrow> nat \<Rightarrow> nat option" where
  "step_index dir n i =
     (if dir = DIRECTION_DOWN then if i \<ge> n - 1 then None else Some (i + 1)
      else if i \<le> 0 then None else Some (i - 1))"

definition journal_file_next_entry ::
  "env \<Rightarrow> object option \<Rightarrow> nat \<Rightarrow> direction \<Rightarrow> nat option jm" where
  "journal_file_next_entry E ob p dir =
     thenE (assertE (p > 0 \<or> ob = None))
     (bindE (getE header) (\<lambda>h.
     let n = n_entries h in
     if n \<le> 0 then returnE None
     else
       bindE (case ob of
                None \<Rightarrow> returnE (Some (if dir = DIRECTION_DOWN then 0 else n - 1))
              | Some ob \<Rightarrow>
                  thenE (guardE (o_type ob = OBJECT_ENTRY) EINVAL)
                  (bindE (generic_array_bisect E (entry_array_offset h) (n_entries h) p
                            test_object_offset DIRECTION_DOWN) (\<lambda>r.
                   returnE (case r of None \<Rightarrow> None | Some (q, i) \<Rightarrow> step_index dir n i)))) (\<lambda>i.
       case i of
         None \<Rightarrow> returnE None
       | Some i \<Rightarrow>
           bindE (getE header) (\<lambda>h.
           bindE (generic_array_get E (entry_array_offset h) i) (\<lambda>r.
           case r of
             None \<Rightarrow> returnE None
           | Some ofs \<Rightarrow>
               if p > 0 \<and> (if dir = DIRECTION_DOWN then ofs \<le> p else ofs \<ge> p)
               then failE EBADMSG else returnE (Some ofs))))))"

definition journal_file_skip_entry :: "env \<Rightarrow> object \<Rightarrow> nat \<Rightarrow> int \<Rightarrow> nat option jm" where
  "journal_file_skip_entry E ob p skip =
     thenE (assertE (p > 0))
     (thenE (guardE (o_type ob = OBJECT_ENTRY) EINVAL)
     (bindE (bisect_entries E p test_object_offset DIRECTION_DOWN) (\<lambda>r.
      case r of
        None \<Rightarrow> returnE None
      | Some (q, i) \<Rightarrow>
          let i = (if skip < 0 then if nat (- skip) \<ge> i then 0 else i - nat (- skip)
                   else add64 i (nat skip))
          in
          bindE (getE header) (\<lambda>h.
          let n = n_entries h in
          thenE (guardE (\<not> n \<le> 0) EBADMSG)
          (generic_array_get E (entry_array_offset h) (if i \<ge> n then n - 1 else i))))))"

definition journal_file_next_entry_for_data ::
  "env \<Rightarrow> object option \<Rightarrow> nat \<Rightarrow> nat \<Rightarrow> direction \<Rightarrow> nat option jm" where
  "journal_file_next_entry_for_data E ob p data_offset dir =
     thenE (assertE (p > 0 \<or> ob = None))
     (bindE (journal_file_move_to_object E (Some OBJECT_DATA) data_offset) (\<lambda>d.
     let n = d_n_entries (data_of d) in
     if n \<le> 0 then returnE None
     else
       bindE (case ob of
                None \<Rightarrow> returnE (Some (if dir = DIRECTION_DOWN then 0 else n - 1))
              | Some ob \<Rightarrow>
                  thenE (guardE (o_type ob = OBJECT_ENTRY) EINVAL)
                  (bindE (bisect_data E d p test_object_offset DIRECTION_DOWN) (\<lambda>r.
                   returnE (case r of None \<Rightarrow> None | Some (q, i) \<Rightarrow> step_index dir n i)))) (\<lambda>i.
       case i of
         None \<Rightarrow> returnE None
       | Some i \<Rightarrow>
           generic_array_get_plus_one E (d_entry_offset (data_of d)) (d_entry_array_offset (data_of d)) i)))"

section \<open>Moving to an entry with given data\<close>

definition with_data :: "env \<Rightarrow> nat \<Rightarrow> (object \<Rightarrow> 'a jm) \<Rightarrow> 'a jm" where
  "with_data E data_offset k = bindE (journal_file_move_to_object E (Some OBJECT_DATA) data_offset) k"

definition journal_file_move_to_entry_by_offset_for_data ::
  "env \<Rightarrow> nat \<Rightarrow> nat \<Rightarrow> direction \<Rightarrow> nat option jm" where
  "journal_file_move_to_entry_by_offset_for_data E data_offset p dir =
     with_data E data_offset (\<lambda>d. offset_only (bisect_data E d p test_object_offset dir))"

definition journal_file_move_to_entry_by_seqnum_for_data ::
  "env \<Rightarrow> nat \<Rightarrow> nat \<Rightarrow> direction \<Rightarrow> nat option jm" where
  "journal_file_move_to_entry_by_seqnum_for_data E data_offset seqnum dir =
     with_data E data_offset (\<lambda>d. offset_only (bisect_data E d seqnum (test_object_seqnum E) dir))"

definition journal_file_move_to_entry_by_realtime_for_data ::
  "env \<Rightarrow> nat \<Rightarrow> nat \<Rightarrow> direction \<Rightarrow> nat option jm" where
  "journal_file_move_to_entry_by_realtime_for_data E data_offset rt dir =
     with_data E data_offset (\<lambda>d. offset_only (bisect_data E d rt (test_object_realtime E) dir))"

text \<open>
  By monotonic time: look for the next entry of the data object and of the boot identifier in turn,
  until both are the same.
\<close>

partial_function (option) monotonic_for_data_loop ::
  "env \<Rightarrow> nat \<Rightarrow> nat \<Rightarrow> direction \<Rightarrow> nat \<Rightarrow> journal_file \<Rightarrow> (nat option res \<times> journal_file) option" where
  "monotonic_for_data_loop E data_offset b dir z f =
     (case with_data E data_offset (\<lambda>d. offset_only (bisect_data E d z test_object_offset dir)) f of
        None \<Rightarrow> None
      | Some (Inl e, f) \<Rightarrow> Some (Inl e, f)
      | Some (Inr None, f) \<Rightarrow> Some (Inr None, f)
      | Some (Inr (Some p), f) \<Rightarrow>
          (case with_data E b (\<lambda>d. offset_only (bisect_data E d p test_object_offset dir)) f of
             None \<Rightarrow> None
           | Some (Inl e, f) \<Rightarrow> Some (Inl e, f)
           | Some (Inr None, f) \<Rightarrow> Some (Inr None, f)
           | Some (Inr (Some q), f) \<Rightarrow>
               if p = q then Some (Inr (Some q), f)
               else monotonic_for_data_loop E data_offset b dir q f))"

definition journal_file_move_to_entry_by_monotonic_for_data ::
  "env \<Rightarrow> nat \<Rightarrow> bytes \<Rightarrow> nat \<Rightarrow> direction \<Rightarrow> nat option jm" where
  "journal_file_move_to_entry_by_monotonic_for_data E data_offset bid mt dir =
     bindE (find_data_object_by_boot_id E bid) (\<lambda>r.
     case r of
       None \<Rightarrow> failE ENOENT
     | Some b \<Rightarrow>
         bindE (getE (\<lambda>f. object_at f b)) (\<lambda>ob.
         bindE (offset_only (bisect_data E ob mt (test_object_monotonic E) dir)) (\<lambda>r.
         case r of
           None \<Rightarrow> returnE None
         | Some z \<Rightarrow> monotonic_for_data_loop E data_offset b dir z)))"

end
