(* ===== verification/Seek_Array.thy ===== *)
theory Seek_Array
  imports Entry_Append File_Seek
begin

text \<open>
  Bisection over a chain of entry arrays, part one: the specification (\<open>seek_spec\<close>: where a needle falls
  in a list that is sorted by a key), bisection inside one array with the hint of the index looked at
  last, and the walk over the arrays (\<open>generic_array_bisect\<close> in \<open>lib/journal-file.c\<close>).
\<close>

section \<open>The specification\<close>

text \<open>
  \<open>boundary R xs\<close> is the number of elements before the first one that is right of the needle.  Moving
  down asks for that element, moving up for the one before it.
\<close>

definition is_right :: "direction \<Rightarrow> nat \<Rightarrow> nat \<Rightarrow> bool" where
  "is_right dir needle v \<longleftrightarrow> (if dir = DIRECTION_DOWN then needle \<le> v else needle < v)"

definition boundary :: "('a \<Rightarrow> bool) \<Rightarrow> 'a list \<Rightarrow> nat" where
  "boundary R xs = length (takeWhile (\<lambda>x. \<not> R x) xs)"

definition seek_spec :: "(nat \<Rightarrow> nat) \<Rightarrow> direction \<Rightarrow> nat \<Rightarrow> nat list \<Rightarrow> (nat \<times> nat) option" where
  "seek_spec key dir needle xs =
     (let m = boundary (\<lambda>p. is_right dir needle (key p)) xs in
      case dir of
        DIRECTION_DOWN \<Rightarrow> if m < length xs then Some (xs ! m, m) else None
      | DIRECTION_UP \<Rightarrow> if 0 < m then Some (xs ! (m - 1), m - 1) else None)"

lemma boundary_le [simp]: "boundary R xs \<le> length xs"
  by (simp add: boundary_def length_takeWhile_le)

lemma boundary_simps [simp]:
  "boundary R [] = 0" "boundary R (x # xs) = (if R x then 0 else Suc (boundary R xs))"
  by (simp_all add: boundary_def)

definition split_at :: "('a \<Rightarrow> bool) \<Rightarrow> 'a list \<Rightarrow> bool" where
  "split_at R xs \<longleftrightarrow> (\<forall>i<length xs. R (xs ! i) \<longleftrightarrow> boundary R xs \<le> i)"

lemma split_at_Nil [simp]: "split_at R []"
  by (simp add: split_at_def)

lemma split_at_Cons: "split_at R (x # xs) \<longleftrightarrow> (if R x then \<forall>y\<in>set xs. R y else split_at R xs)"
  by (auto simp: split_at_def all_set_conv_all_nth nth_Cons split: nat.splits)

lemma split_at_append: "split_at R (xs @ ys) \<Longrightarrow> split_at R xs \<and> split_at R ys"
proof (induction xs)
  case (Cons x xs)
  have all: "split_at R zs" if "\<forall>z\<in>set zs. R z" for zs
    using that by (induction zs) (auto simp: split_at_Cons)
  from Cons show ?case by (auto simp: split_at_Cons all split: if_splits)
qed simp

lemma boundary_append:
  "boundary R (xs @ ys) = (if boundary R xs = length xs then length xs + boundary R ys else boundary R xs)"
  by (induction xs) auto

lemma boundary_full: "boundary R xs = length xs \<longleftrightarrow> (\<forall>x\<in>set xs. \<not> R x)"
  by (induction xs) auto

lemma boundary_last:
  assumes "split_at R xs" "xs \<noteq> []"
  shows "R (last xs) \<longleftrightarrow> boundary R xs < length xs"
  using assms by (auto simp: split_at_def last_conv_nth Suc_le_eq)

lemma split_at_sorted:
  assumes "sorted (map key xs)"
  shows "split_at (\<lambda>p. is_right dir needle (key p)) xs"
  using assms by (induction xs) (auto simp: split_at_Cons is_right_def split: if_splits)

section \<open>Bisection in one array\<close>

text \<open>The test compares a key of the entry with the needle and has no effect.\<close>

definition test_ok :: "test_object \<Rightarrow> (nat \<Rightarrow> nat) \<Rightarrow> journal_file \<Rightarrow> nat list \<Rightarrow> bool" where
  "test_ok test key f xs \<longleftrightarrow>
     (\<forall>p\<in>set xs. p > 0 \<and> (\<forall>needle. test p needle f = Some (Inr (compare_to (key p) needle), f)))"

lemma test_ok_sub: "test_ok test key f xs \<Longrightarrow> set ys \<subseteq> set xs \<Longrightarrow> test_ok test key f ys"
  by (auto simp: test_ok_def)

definition directed :: "direction \<Rightarrow> nat \<Rightarrow> nat \<Rightarrow> test_result" where
  "directed dir needle v = (if is_right dir needle v then TEST_RIGHT else TEST_LEFT)"

lemma directed_right [simp]: "directed dir needle v = TEST_RIGHT \<longleftrightarrow> is_right dir needle v"
  by (simp add: directed_def)

lemma test_directed_run:
  assumes "test_ok test key f xs" "p \<in> set xs"
  shows "test_directed test dir p needle f = Some (Inr (directed dir needle (key p)), f)"
  using assms by (cases dir) (auto simp: test_ok_def test_directed_def compare_to_def directed_def is_right_def)

lemma test_item_run:
  assumes "test_ok test key f (take k items)" "i < k" "i < length items"
  shows "test_item test dir needle items i f = Some (Inr (directed dir needle (key (items ! i))), f)"
proof -
  have "items ! i \<in> set (take k items)" using assms(2,3) by (auto simp: in_set_conv_nth)
  with assms(1) show ?thesis
    using test_directed_run [OF assms(1), of "items ! i"] by (auto simp: test_item_def test_ok_def)
qed

lemma bisect_loop_run:
  assumes t: "test_ok test key f (take k items)" and s: "split_at (\<lambda>p. is_right dir needle (key p)) (take k items)"
    and k: "k \<le> length items"
  defines "m \<equiv> boundary (\<lambda>p. is_right dir needle (key p)) (take k items)"
  shows "left \<le> m \<Longrightarrow> m \<le> right \<Longrightarrow> right < k \<Longrightarrow>
    bisect_loop test dir needle items left right f = Some (Inr m, f)"
proof (induction "right - left" arbitrary: left right rule: less_induct)
  case less
  show ?case
  proof (cases "left = right")
    case True
    then show ?thesis using less.prems by (subst bisect_loop.simps) simp
  next
    case False
    let ?i = "(left + right) div 2"
    have lr: "left < right" using False less.prems by simp
    then have i: "left \<le> ?i" "?i < right" by auto
    have R: "is_right dir needle (key (items ! ?i)) \<longleftrightarrow> m \<le> ?i"
      using s k i less.prems(3) by (simp add: split_at_def m_def)
    note run = test_item_run [OF t, of ?i dir needle]
    show ?thesis
    proof (cases "m \<le> ?i")
      case True
      with less.hyps [of ?i left] less.prems i lr run k R False show ?thesis
        by (subst bisect_loop.simps) (simp add: Let_def)
    next
      case F: False
      with less.hyps [of right "?i + 1"] less.prems i lr run k R False show ?thesis
        by (subst bisect_loop.simps) (simp add: Let_def)
    qed
  qed
qed

lemma bisect_hint_run:
  assumes t: "test_ok test key f (take k items)" and s: "split_at (\<lambda>p. is_right dir needle (key p)) (take k items)"
    and k: "k \<le> length items" "0 < k" and li: "last_index = NO_INDEX \<or> last_index < k"
  defines "m \<equiv> boundary (\<lambda>p. is_right dir needle (key p)) (take k items)"
  assumes m: "m < k"
  shows "\<exists>left right. bisect_hint test dir needle items (k - 1) last_index f = Some (Inr (left, right), f) \<and>
    left \<le> m \<and> m \<le> right \<and> right < k"
proof (cases "last_index = NO_INDEX")
  case True
  with m show ?thesis by (simp add: bisect_hint_def)
next
  case False
  with li have li: "last_index < k" by simp
  have R: "is_right dir needle (key (items ! i)) \<longleftrightarrow> m \<le> i" if "i < k" for i
    using s k that by (simp add: split_at_def m_def)
  note run = test_item_run [OF t]
  define hi where "hi = (\<lambda>(left::nat, right).
     if last_index < right then
       let y = last_index + 1 in
       bindE (test_item test dir needle items y) (\<lambda>r.
       returnE (if r = TEST_RIGHT then (left, y) else (y + 1, right)))
     else returnE (left, right))"
  have hi: "\<exists>l r. hi (left, right) f = Some (Inr (l, r), f) \<and> l \<le> m \<and> m \<le> r \<and> r < k"
    if lr: "left \<le> m" "m \<le> right" "right < k" for left right
  proof (cases "last_index < right")
    case True
    then have y: "last_index + 1 < k" using lr by simp
    then have "last_index + 1 < length items" using k by simp
    with y True R [OF y] lr show ?thesis by (auto simp: hi_def Let_def run)
  qed (use lr in \<open>simp add: hi_def\<close>)
  show ?thesis
  proof (cases "last_index > 0")
    case True
    let ?x = "last_index - 1"
    have x: "?x < k" "?x < length items" using li k by auto
    define lo where "lo = bindE (test_item test dir needle items ?x) (\<lambda>r.
        returnE (if r = TEST_RIGHT then (0, ?x) else (?x + 1, k - 1)))"
    obtain left right where lr: "lo f = Some (Inr (left, right), f)"
      "left \<le> m" "m \<le> right" "right < k"
      using R [OF x(1)] x m by (cases "m \<le> ?x") (auto simp: run lo_def)
    have "bisect_hint test dir needle items (k - 1) last_index f = hi (left, right) f"
      using bindE_run(1) [of lo, OF lr(1), of hi] False True li
      unfolding bisect_hint_def hi_def lo_def Let_def by auto
    then show ?thesis using hi [OF lr(2-)] by simp
  next
    case F: False
    then have "bisect_hint test dir needle items (k - 1) last_index f = hi (0, k - 1) f"
      using False li unfolding bisect_hint_def hi_def by auto
    then show ?thesis using hi [of 0 "k - 1"] m by simp
  qed
qed

section \<open>The walk over the arrays\<close>

lemma chain_array:
  assumes lay: "layout f" and mm: "mmap_ok E" and c: "chain (array_next (array_map f)) a (b # as)"
  obtains ob where "b = a" "a > 0"
    "journal_file_move_to_object E (Some OBJECT_ENTRY_ARRAY) a f = Some (Inr ob, f)"
    "journal_file_entry_array_n_items ob = length (items_of (array_map f) a)"
    "ea_items (array_of ob) = items_of (array_map f) a"
    "chain (array_next (array_map f)) (ea_next_entry_array_offset (array_of ob)) as"
proof -
  from c obtain q where a: "a \<noteq> 0" "b = a" "array_next (array_map f) a = Some q"
    and rest: "chain (array_next (array_map f)) q as" by auto
  from a(3) obtain d where d: "array_map f a = Some d" and qd: "q = ea_next_entry_array_offset d"
    by (auto simp: array_next_def)
  from d obtain ob where ob: "store f a = Some ob" "o_type ob = OBJECT_ENTRY_ARRAY" and "d = array_of ob"
    unfolding array_map_of by blast
  then have it: "items_of (array_map f) a = ea_items (array_of ob)" by (simp add: items_of_def d)
  show thesis
    using a rest qd \<open>d = array_of ob\<close> it n_items_array [OF lay ob] move_to_object_stored [OF lay mm ob(1)] ob(2)
    by (intro that [of ob]) auto
qed

text \<open>The first \<open>n\<close> slots of a chain fill its arrays up to the end of one of them.\<close>

primrec fills :: "arrays \<Rightarrow> nat list \<Rightarrow> nat \<Rightarrow> bool" where
  "fills am [] n \<longleftrightarrow> n = 0"
| "fills am (a # as) n \<longleftrightarrow> n = 0 \<or> length (items_of am a) \<le> n \<and> fills am as (n - length (items_of am a))"

lemma fills_append:
  assumes "length (slots am pre) < n"
  shows "fills am (pre @ as) n = fills am as (n - length (slots am pre))"
  using assms by (induction pre arbitrary: n) auto

definition found_at ::
  "arrays \<Rightarrow> nat list \<Rightarrow> direction \<Rightarrow> nat \<Rightarrow> nat \<Rightarrow> nat \<Rightarrow> nat \<Rightarrow> bisect_found \<Rightarrow> bool" where
  "found_at am as dir n t last_p pos b \<longleftrightarrow>
     (\<exists>pre post. as = pre @ bf_array b # post \<and> length (slots am pre) < n \<and>
        bf_items b = items_of am (bf_array b) \<and>
        bf_total b = t + length (slots am pre) \<and> length (slots am pre) + bf_index b = pos \<and>
        bf_index b < length (bf_items b) \<and> bf_subtract_one b = (dir = DIRECTION_UP) \<and>
        bf_last_p b = (if pre = [] then last_p else last (slots am pre)))"

lemma found_at_Cons:
  assumes "found_at am as dir (n - length (items_of am a)) (t + length (items_of am a)) (last (items_of am a)) pos b"
    and "items_of am a \<noteq> []" and "\<And>a. a \<in> set as \<Longrightarrow> items_of am a \<noteq> []"
  shows "found_at am (a # as) dir n t last_p (length (items_of am a) + pos) b"
proof -
  from assms(1) obtain pre post where p: "as = pre @ bf_array b # post"
    "length (slots am pre) < n - length (items_of am a)" "bf_items b = items_of am (bf_array b)"
    "bf_total b = t + length (items_of am a) + length (slots am pre)"
    "length (slots am pre) + bf_index b = pos" "bf_index b < length (bf_items b)"
    "bf_subtract_one b = (dir = DIRECTION_UP)"
    "bf_last_p b = (if pre = [] then last (items_of am a) else last (slots am pre))"
    by (auto simp: found_at_def)
  have "slots am pre \<noteq> []" if "pre \<noteq> []" using that p(1) assms(3) by (cases pre) auto
  with p assms(2) show ?thesis
    unfolding found_at_def by (intro exI [of _ "a # pre"] exI [of _ post]) auto
qed

lemma bisect_arrays_run:
  assumes lay: "layout f" and mm: "mmap_ok E"
  defines "am \<equiv> array_map f"
  shows "chain (array_next am) a as \<Longrightarrow> n \<le> length (slots am as) \<Longrightarrow>
    (\<And>a. a \<in> set as \<Longrightarrow> items_of am a \<noteq> []) \<Longrightarrow>
    split_at (\<lambda>p. is_right dir needle (key p)) (take n (slots am as)) \<Longrightarrow>
    test_ok test key f (take n (slots am as)) \<Longrightarrow>
    last_index = NO_INDEX \<or> last_index < length (items_of am (hd as)) \<and> last_index < n \<Longrightarrow>
    B = boundary (\<lambda>p. is_right dir needle (key p)) (take n (slots am as)) \<Longrightarrow>
    \<exists>r. bisect_arrays E test dir needle a n t last_index last_p f = Some (Inr r, f) \<and>
      (case r of
         None \<Rightarrow> B = n \<and> (dir = DIRECTION_DOWN \<or> fills am as n)
       | Some b \<Rightarrow> found_at am as dir n t last_p B b \<and> (B < n \<or> dir = DIRECTION_UP \<and> \<not> fills am as n))"
proof (induction as arbitrary: a n t last_index last_p B)
  case Nil
  then show ?case by (simp add: bisect_arrays.simps)
next
  case (Cons b as)
  let ?R = "\<lambda>p. is_right dir needle (key p)"
  let ?items = "items_of am a"
  obtain ob where ob: "b = a" "a > 0"
    "journal_file_move_to_object E (Some OBJECT_ENTRY_ARRAY) a f = Some (Inr ob, f)"
    "journal_file_entry_array_n_items ob = length ?items" "ea_items (array_of ob) = ?items"
    and rest: "chain (array_next am) (ea_next_entry_array_offset (array_of ob)) as"
    using chain_array [OF lay mm Cons.prems(1) [unfolded am_def]] unfolding am_def by metis
  let ?k = "length ?items"
  let ?r = "min ?k n"
  note unfold = bisect_arrays.simps [of E test dir needle a n t last_index last_p f]
  show ?case
  proof (cases "n = 0")
    case True
    have "bisect_arrays E test dir needle a n t last_index last_p f = Some (Inr None, f)"
      unfolding unfold using True by (simp add: ob Let_def)
    then show ?thesis using Cons.prems(7) True by simp
  next
    case False
    have ne: "?items \<noteq> []" using Cons.prems(3) ob(1) by auto
    with False have r0: "0 < ?r" "?r \<le> ?k" by auto
    have xs: "take n (slots am (b # as)) = take ?r ?items @ take (n - ?k) (slots am as)"
      by (simp add: ob(1) min_def)
    note sp = split_at_append [OF Cons.prems(4) [unfolded xs]]
    have tt: "test_ok test key f (take ?r ?items)" "test_ok test key f (take (n - ?k) (slots am as))"
      using Cons.prems(5) unfolding xs by (auto elim: test_ok_sub)
    define m where "m = boundary ?R (take ?r ?items)"
    have B: "B = (if m = ?r then ?r + boundary ?R (take (n - ?k) (slots am as)) else m)"
      unfolding Cons.prems(7) xs boundary_append m_def by simp
    have mr: "m \<le> ?r" unfolding m_def using boundary_le [of ?R "take ?r ?items"] by simp
    have last: "is_right dir needle (key (?items ! (?r - 1))) \<longleftrightarrow> m < ?r"
    proof -
      have "take ?r ?items \<noteq> []" using r0 ne by auto
      from boundary_last [OF conjunct1 [OF sp] this] have "?R (last (take ?r ?items)) \<longleftrightarrow> m < ?r"
        by (simp add: m_def)
      moreover have "last (take ?r ?items) = ?items ! (?r - 1)"
      proof -
        have "last (take ?r ?items) = take ?r ?items ! (?r - 1)"
          using r0 ne by (subst last_conv_nth) auto
        also have "\<dots> = ?items ! (?r - 1)" using r0 by (intro nth_take) linarith
        finally show ?thesis .
      qed
      ultimately show ?thesis by simp
    qed
    have tst: "test_item test dir needle ?items (?r - 1) f =
        Some (Inr (directed dir needle (key (?items ! (?r - 1)))), f)"
      using r0 by (intro test_item_run [OF tt(1)]; linarith)
    have li: "last_index = NO_INDEX \<or> last_index < ?r" using Cons.prems(6) ob(1) by auto
    show ?thesis
    proof (cases "m < ?r")
      case True
      obtain left right where h: "bisect_hint test dir needle ?items (?r - 1) last_index f = Some (Inr (left, right), f)"
        "left \<le> m" "m \<le> right" "right < ?r"
        using bisect_hint_run [OF tt(1) conjunct1 [OF sp] r0(2,1) li] True unfolding m_def by blast
      have l: "bisect_loop test dir needle ?items left right f = Some (Inr m, f)"
        unfolding m_def using h r0 unfolding m_def by (intro bisect_loop_run [OF tt(1) conjunct1 [OF sp]]) auto
      let ?b = "\<lparr>bf_array = a, bf_items = ?items, bf_total = t, bf_index = m,
        bf_subtract_one = dir = DIRECTION_UP, bf_last_p = last_p\<rparr>"
      have run: "bisect_arrays E test dir needle a n t last_index last_p f = Some (Inr (Some ?b), f)"
        unfolding unfold using True last tst h(1) l r0(1) by (simp add: ob Let_def)
      have "found_at am (b # as) dir n t last_p m ?b"
        using ob(1) False True unfolding found_at_def by (intro exI [of _ "[]"] exI [of _ as]) auto
      then show ?thesis unfolding run using True B by (auto simp: min_def split: if_splits)
    next
      case nR: False
      with mr have m: "m = ?r" by linarith
      show ?thesis
      proof (cases "?k > n")
        case True
        then have Bn: "B = n" using B m by simp
        let ?b = "\<lparr>bf_array = a, bf_items = ?items, bf_total = t, bf_index = n,
          bf_subtract_one = True, bf_last_p = last_p\<rparr>"
        have run: "bisect_arrays E test dir needle a n t last_index last_p f =
            Some (Inr (if dir = DIRECTION_UP then Some ?b else None), f)"
          unfolding unfold using True last nR tst r0(1) by (simp add: ob Let_def)
        have "found_at am (b # as) DIRECTION_UP n t last_p n ?b"
          using ob(1) False True unfolding found_at_def by (intro exI [of _ "[]"] exI [of _ as]) auto
        then show ?thesis unfolding run using True Bn False ob(1) by (cases dir) auto
      next
        case F: False
        have lp: "?items ! (?r - 1) = last ?items" using F ne by (simp add: last_conv_nth min_def)
        have run: "bisect_arrays E test dir needle a n t last_index last_p f =
          bisect_arrays E test dir needle (ea_next_entry_array_offset (array_of ob)) (n - ?k) (t + ?k)
            NO_INDEX (last ?items) f"
          unfolding unfold using F last nR tst r0(1) lp by (simp add: ob Let_def)
        have n': "n - ?k \<le> length (slots am as)" using Cons.prems(2) ob(1) by simp
        obtain r where r: "bisect_arrays E test dir needle a n t last_index last_p f = Some (Inr r, f)"
          "case r of None \<Rightarrow> B - ?k = n - ?k \<and> (dir = DIRECTION_DOWN \<or> fills am as (n - ?k))
           | Some b \<Rightarrow> found_at am as dir (n - ?k) (t + ?k) (last ?items) (B - ?k) b \<and>
               (B - ?k < n - ?k \<or> dir = DIRECTION_UP \<and> \<not> fills am as (n - ?k))"
          using Cons.IH [OF rest n' _ conjunct2 [OF sp] tt(2), of NO_INDEX "B - ?k" "t + ?k" "last ?items"]
            Cons.prems(3) B m F unfolding run by (auto simp: min_def)
        have Bk: "?k \<le> B" using B m F by (simp add: min_def)
        then have "?k + (B - ?k) = B" by simp
        then show ?thesis
          using r Bk F False found_at_Cons [of am as dir n a t "B - ?k" _ last_p] ne Cons.prems(3) ob(1)
          by (intro exI [of _ r]) (auto split: option.splits)
      qed
    qed
  qed
qed

end
