(* ===== verification/Seek_Chain.thy ===== *)
theory Seek_Chain
  imports Seek_Array
begin

text \<open>
  Bisection over a chain of entry arrays, part two: the invariant of the chain cache, access by index,
  and the correctness of \<open>generic_array_get\<close> and \<open>generic_array_bisect\<close> with a cache that satisfies the
  invariant: the result is the one of the specification, whatever the cache holds.
\<close>

section \<open>The cache\<close>

text \<open>
  An item of the cache describes an array of the chain: the number of slots before it, which is below
  the number \<open>n\<close> of entries of the chain, its first entry, and the index of an entry in it.
\<close>

definition cached :: "arrays \<Rightarrow> nat \<Rightarrow> nat \<Rightarrow> chain_cache_item \<Rightarrow> bool" where
  "cached am first n c \<longleftrightarrow>
     (\<exists>pre post. chain (array_next am) first (pre @ ci_array c # post) \<and>
        ci_total c = length (slots am pre) \<and> ci_total c < n \<and>
        ci_begin c = items_of am (ci_array c) ! 0 \<and>
        (ci_last_index c = NO_INDEX \<or>
         ci_last_index c < length (items_of am (ci_array c)) \<and> ci_total c + ci_last_index c < n))"

definition cache_ok :: "journal_file \<Rightarrow> bool" where
  "cache_ok f \<longleftrightarrow>
     (\<forall>c\<in>set (chain_cache f). \<exists>w. first_of f w = ci_first c \<and>
        cached (array_map f) (first_of f w) (cnt_of f w) c)"

definition cache_set :: "chain_cache_item list \<Rightarrow> journal_file \<Rightarrow> journal_file" where
  "cache_set cc f = f\<lparr>chain_cache := cc\<rparr>"

lemma cache_set_simps [simp]:
  "store (cache_set cc f) = store f" "header (cache_set cc f) = header f"
  "array_map (cache_set cc f) = array_map f" "entry_map (cache_set cc f) = entry_map f"
  "data_map (cache_set cc f) = data_map f" "field_map (cache_set cc f) = field_map f"
  "chain_cache (cache_set cc f) = cc" "cache_set cc' (cache_set cc f) = cache_set cc' f"
  "cache_set (chain_cache f) f = f"
  by (simp_all add: cache_set_def array_map_def entry_map_def data_map_def field_map_def fun_eq_iff)

lemma cache_set_of [simp]:
  "first_of (cache_set cc f) = first_of f" "cnt_of (cache_set cc f) = cnt_of f"
  "extra_of (cache_set cc f) = extra_of f"
  unfolding fun_eq_iff by (metis first_of.simps cnt_of.simps extra_of.simps owner.exhaust cache_set_simps(2,5))+

lemma cache_set_layout [simp]: "layout (cache_set cc f) = layout f"
  by (simp add: layout_def cache_set_def limited_def)

lemma cache_set_lists [simp]: "entry_lists (cache_set cc f) L = entry_lists f L"
  by (simp add: entry_lists_def)

lemma cache_get_Some:
  assumes "cache_get first f = Some c"
  shows "c \<in> set (chain_cache f)" "ci_first c = first"
  using assms by (auto simp: cache_get_def find_Some_iff)

lemma lists_owner:
  assumes ok: "lists_ok am F N A" and "F v = F w" "F w \<noteq> 0"
  shows "v = w"
proof (rule ccontr)
  assume "v \<noteq> w"
  have "F x \<in> set (A x)" if "F x \<noteq> 0" for x
  proof -
    have "chain (array_next am) (F x) (A x)" using ok by (simp add: lists_ok_def)
    with that show ?thesis by (cases "A x") auto
  qed
  with assms(2,3) have "F w \<in> set (A v) \<inter> set (A w)" by (metis IntI)
  with ok \<open>v \<noteq> w\<close> show False unfolding lists_ok_def by blast
qed

lemma cached_first: "cached am first n c \<Longrightarrow> first \<noteq> 0"
  by (metis cached_def chain_zero append_is_Nil_conv list.distinct(1))

lemma cache_hit:
  assumes "lists_ok (array_map f) (first_of f) (cnt_of f) A" "cache_ok f" "cache_get (first_of f w) f = Some c"
  shows "cached (array_map f) (first_of f w) (cnt_of f w) c"
proof -
  note c = cache_get_Some [OF assms(3)]
  with assms(2) obtain v where v: "first_of f v = first_of f w" "cached (array_map f) (first_of f v) (cnt_of f v) c"
    unfolding cache_ok_def by auto
  with lists_owner [OF assms(1) v(1)] cached_first [OF v(2)] show ?thesis by metis
qed

lemma cache_put_ok:
  assumes "cache_ok f" and "cached (array_map f) (first_of f w) (cnt_of f w)
     \<lparr>ci_first = first_of f w, ci_array = a, ci_begin = b, ci_total = t, ci_last_index = i\<rparr>"
  shows "\<exists>cc. chain_cache_put ci (first_of f w) a b t i f = cache_set cc f \<and> cache_ok (cache_set cc f)"
proof -
  let ?item = "\<lparr>ci_first = first_of f w, ci_array = a, ci_begin = b, ci_total = t, ci_last_index = i\<rparr>"
  have ok: "cache_ok (cache_set cc f)" if "set cc \<subseteq> insert ?item (set (chain_cache f))" for cc
    using assms that unfolding cache_ok_def by fastforce
  consider "chain_cache_put ci (first_of f w) a b t i f = cache_set (chain_cache f) f"
    | cc where "chain_cache_put ci (first_of f w) a b t i f = cache_set cc f"
      "set cc \<subseteq> insert ?item (set (chain_cache f))"
  proof (cases ci)
    case None
    have tl: "set (tl (chain_cache f) @ [?item]) \<subseteq> insert ?item (set (chain_cache f))"
      by (cases "chain_cache f") auto
    have "chain_cache_put ci (first_of f w) a b t i f =
       (if a = first_of f w then cache_set (chain_cache f) f
        else if length (chain_cache f) \<ge> CHAIN_CACHE_MAX then cache_set (tl (chain_cache f) @ [?item]) f
        else cache_set (chain_cache f @ [?item]) f)"
      using None by (simp add: chain_cache_put_def Let_def cache_set_def)
    with that tl show thesis by (auto split: if_splits)
  next
    case (Some c)
    then have "chain_cache_put ci (first_of f w) a b t i f =
        cache_set (map (\<lambda>c. if ci_first c = first_of f w then ?item else c) (chain_cache f)) f"
      by (simp add: chain_cache_put_def Let_def cache_set_def)
    then show thesis by (rule that(2)) auto
  qed
  then show ?thesis by cases (use ok assms(1) in \<open>auto intro: exI [of _ "chain_cache f"]\<close>)
qed

section \<open>Access by index\<close>

lemma array_get_loop_run:
  assumes lay: "layout f" and mm: "mmap_ok E"
  defines "am \<equiv> array_map f"
  shows "chain (array_next am) a as \<Longrightarrow> i < length (slots am as) \<Longrightarrow>
    \<exists>pre b post j. as = pre @ b # post \<and> i = length (slots am pre) + j \<and> j < length (items_of am b) \<and>
      array_get_loop E a i t f = Some (Inr (Some (b, j, t + length (slots am pre), items_of am b)), f)"
proof (induction as arbitrary: a i t)
  case (Cons b as)
  obtain ob where ob: "b = a" "a > 0"
    "journal_file_move_to_object E (Some OBJECT_ENTRY_ARRAY) a f = Some (Inr ob, f)"
    "journal_file_entry_array_n_items ob = length (items_of am a)" "ea_items (array_of ob) = items_of am a"
    and rest: "chain (array_next am) (ea_next_entry_array_offset (array_of ob)) as"
    using chain_array [OF lay mm Cons.prems(1) [unfolded am_def]] unfolding am_def by metis
  let ?k = "length (items_of am a)"
  note unfold = array_get_loop.simps [of E a i t f]
  show ?case
  proof (cases "i < ?k")
    case True
    then have "array_get_loop E a i t f = Some (Inr (Some (a, i, t, items_of am a)), f)"
      unfolding unfold by (simp add: ob Let_def)
    with True ob(1) show ?thesis by (intro exI [of _ "[]"] exI [of _ a] exI [of _ as] exI [of _ i]) simp
  next
    case False
    then have i: "i - ?k < length (slots am as)" using Cons.prems(2) ob(1) by simp
    from Cons.IH [OF rest i, of "t + ?k"] obtain pre c post j where
      IH: "as = pre @ c # post" "i - ?k = length (slots am pre) + j" "j < length (items_of am c)"
      "array_get_loop E (ea_next_entry_array_offset (array_of ob)) (i - ?k) (t + ?k) f =
         Some (Inr (Some (c, j, t + ?k + length (slots am pre), items_of am c)), f)" by blast
    have "array_get_loop E a i t f = Some (Inr (Some (c, j, t + ?k + length (slots am pre), items_of am c)), f)"
      unfolding unfold using False IH(4) by (simp add: ob Let_def)
    with IH False ob(1) show ?thesis
      by (intro exI [of _ "a # pre"] exI [of _ c] exI [of _ post] exI [of _ j]) auto
  qed
qed simp

lemma slots_nth: "j < length (items_of am b) \<Longrightarrow> slots am (pre @ b # post) ! (length (slots am pre) + j) = items_of am b ! j"
  by (simp add: nth_append)

lemma entry_stored:
  assumes "layout f" "mmap_ok E" "p \<in> dom (entry_map f)"
  obtains ob where "journal_file_move_to_object E (Some OBJECT_ENTRY) p f = Some (Inr ob, f)"
    "store f p = Some ob" "entry_of ob = the (entry_map f p)"
proof -
  from assms(3) obtain d where "entry_map f p = Some d" by blast
  then obtain ob where "store f p = Some ob" "o_type ob = OBJECT_ENTRY" "d = entry_of ob"
    unfolding entry_map_of by blast
  with \<open>entry_map f p = Some d\<close> move_to_object_stored [OF assms(1,2), of p ob] show thesis by (intro that) auto
qed

lemma generic_array_get_run:
  assumes lay: "layout f" and mm: "mmap_ok E" and c: "cache_ok f"
    and ok: "lists_ok (array_map f) (first_of f) (cnt_of f) A"
    and i: "i < cnt_of f w" and e: "set (elist (array_map f) (cnt_of f) A w) \<subseteq> dom (entry_map f)"
  shows "\<exists>cc. generic_array_get E (first_of f w) i f =
      Some (Inr (Some (elist (array_map f) (cnt_of f) A w ! i)), cache_set cc f) \<and> cache_ok (cache_set cc f)"
proof -
  let ?am = "array_map f"
  have ch: "chain (array_next ?am) (first_of f w) (A w)" and n: "cnt_of f w \<le> length (slots ?am (A w))"
    using ok by (auto simp: lists_ok_def)
  define ci where "ci = cache_get (first_of f w) f"
  define st where "st = (case ci of
      Some c \<Rightarrow> if i > ci_total c then (ci_array c, i - ci_total c, ci_total c) else (first_of f w, i, 0)
    | None \<Rightarrow> (first_of f w, i, 0))"
  have "\<exists>pre as a j t. st = (a, j, t) \<and> A w = pre @ as \<and> chain (array_next ?am) a as \<and>
      t = length (slots ?am pre) \<and> i = t + j"
  proof (cases "\<exists>c. ci = Some c \<and> i > ci_total c")
    case True
    then obtain c where c': "ci = Some c" "i > ci_total c" by blast
    with cache_hit [OF ok c] obtain pre post where h: "chain (array_next ?am) (first_of f w) (pre @ ci_array c # post)"
      "ci_total c = length (slots ?am pre)" unfolding ci_def cached_def by blast
    have "A w = pre @ ci_array c # post" by (rule chain_unique [OF ch h(1)])
    with c' h chain_drop [OF h(1)] show ?thesis
      by (intro exI [of _ pre] exI [of _ "ci_array c # post"] exI) (auto simp: st_def)
  next
    case False
    with ch show ?thesis
      by (intro exI [of _ "[]"] exI [of _ "A w"] exI) (auto simp: st_def split: option.splits)
  qed
  then obtain pre as a j t where st: "st = (a, j, t)" and A: "A w = pre @ as"
    and as: "chain (array_next ?am) a as" and t: "t = length (slots ?am pre)" "i = t + j" by blast
  have "j < length (slots ?am as)" using i n A t by simp
  from array_get_loop_run [OF lay mm as this, of t] obtain pre2 b post k where
    r: "as = pre2 @ b # post" "j = length (slots ?am pre2) + k" "k < length (items_of ?am b)"
    "array_get_loop E a j t f = Some (Inr (Some (b, k, t + length (slots ?am pre2), items_of ?am b)), f)" by blast
  have Aw: "A w = (pre @ pre2) @ b # post" using A r(1) by simp
  have "elist ?am (cnt_of f) A w ! i = slots ?am (A w) ! (length (slots ?am (pre @ pre2)) + k)"
    unfolding elist_def using i by (simp add: t r(2) add.assoc)
  then have it: "items_of ?am b ! k = elist ?am (cnt_of f) A w ! i"
    unfolding Aw using slots_nth [OF r(3), of "pre @ pre2" post] by simp
  have "cached ?am (first_of f w) (cnt_of f w) \<lparr>ci_first = first_of f w, ci_array = b,
      ci_begin = items_of ?am b ! 0, ci_total = t + length (slots ?am pre2), ci_last_index = k\<rparr>"
    unfolding cached_def using ch Aw r(2,3) t i
    by (intro exI [of _ "pre @ pre2"] exI [of _ post]) simp
  from cache_put_ok [OF c this, of ci] obtain cc where
    put: "chain_cache_put ci (first_of f w) b (items_of ?am b ! 0) (t + length (slots ?am pre2)) k f = cache_set cc f"
    and cc: "cache_ok (cache_set cc f)" by blast
  have "elist ?am (cnt_of f) A w ! i \<in> dom (entry_map f)"
    using e i n nth_mem [of i "elist ?am (cnt_of f) A w"] unfolding elist_def by auto
  then obtain ob where "journal_file_move_to_object E (Some OBJECT_ENTRY) (elist ?am (cnt_of f) A w ! i)
      (cache_set cc f) = Some (Inr ob, cache_set cc f)"
    using entry_stored [of "cache_set cc f" E] lay mm by auto
  then have "generic_array_get E (first_of f w) i f =
      Some (Inr (Some (elist ?am (cnt_of f) A w ! i)), cache_set cc f)"
    unfolding generic_array_get_def using st r(4) put it
    by (simp add: ci_def [symmetric] st_def [symmetric])
  with cc show ?thesis by blast
qed

section \<open>Bisection over a chain\<close>

lemma boundary_skip:
  assumes "split_at R xs" "len \<le> length xs" "len = 0 \<or> len < boundary R xs"
  shows "boundary R xs = len + boundary R (drop len xs)" "split_at R (drop len xs)"
    "len = 0 \<or> 0 < boundary R (drop len xs)"
proof -
  have "split_at R (take len xs @ drop len xs)" using assms(1) by simp
  then show "split_at R (drop len xs)" using split_at_append by blast
  have "\<not> R x" if "x \<in> set (take len xs)" for x
  proof -
    from that obtain i where "i < len" "i < length xs" "x = xs ! i" by (auto simp: in_set_conv_nth)
    with assms(1,3) show ?thesis by (auto simp: split_at_def)
  qed
  then have "boundary R (take len xs) = len" using assms(2) boundary_full [of R "take len xs"] by simp
  then have "boundary R (take len xs @ drop len xs) = len + boundary R (drop len xs)"
    using assms(2) unfolding boundary_append by simp
  then show b: "boundary R xs = len + boundary R (drop len xs)" by simp
  show "len = 0 \<or> 0 < boundary R (drop len xs)" using assms(3) b by linarith
qed

text \<open>Where the walk starts.\<close>

definition bisect_start :: "test_object \<Rightarrow> nat \<Rightarrow> nat \<Rightarrow> nat \<Rightarrow> chain_cache_item option \<Rightarrow> (nat \<times> nat \<times> nat \<times> nat) jm" where
  "bisect_start test first n needle ci =
     (case ci of
        Some c \<Rightarrow>
          if n > ci_total c then
            bindE (test (ci_begin c) needle) (\<lambda>r.
            returnE (if r = TEST_LEFT
                     then (ci_array c, n - ci_total c, ci_total c, ci_last_index c)
                     else (first, n, 0, NO_INDEX)))
          else returnE (first, n, 0, NO_INDEX)
      | None \<Rightarrow> returnE (first, n, 0, NO_INDEX))"

lemma bisect_start_run:
  fixes w :: owner
  assumes ok: "lists_ok (array_map f) (first_of f) (cnt_of f) A" and c: "cache_ok f"
  defines "xs \<equiv> elist (array_map f) (cnt_of f) A w"
  assumes t: "test_ok test key f xs" and s: "sorted (map key xs)"
  shows "\<exists>pre as a len li. A w = pre @ as \<and> chain (array_next (array_map f)) a as \<and>
    len = length (slots (array_map f) pre) \<and> (len = 0 \<or> len < boundary (\<lambda>p. is_right dir needle (key p)) xs) \<and>
    (li = NO_INDEX \<or> li < length (items_of (array_map f) (hd as)) \<and> li < cnt_of f w - len) \<and> len \<le> cnt_of f w \<and>
    bisect_start test (first_of f w) (cnt_of f w) needle (cache_get (first_of f w) f) f =
      Some (Inr (a, cnt_of f w - len, len, li), f)"
proof -
  let ?am = "array_map f" and ?R = "\<lambda>p. is_right dir needle (key p)"
  have ch: "chain (array_next ?am) (first_of f w) (A w)" and n: "cnt_of f w \<le> length (slots ?am (A w))"
    and ne: "\<And>a. a \<in> set (A w) \<Longrightarrow> items_of ?am a \<noteq> []" using ok by (auto simp: lists_ok_def)
  have first: ?thesis if "bisect_start test (first_of f w) (cnt_of f w) needle (cache_get (first_of f w) f) f =
      Some (Inr (first_of f w, cnt_of f w, 0, NO_INDEX), f)"
    using that ch by (intro exI [of _ "[]"] exI [of _ "A w"] exI [of _ "first_of f w"] exI [of _ 0] exI [of _ NO_INDEX]) auto
  show ?thesis
  proof (cases "cache_get (first_of f w) f")
    case None
    then show ?thesis by (intro first) (simp add: bisect_start_def)
  next
    case (Some c')
    with cache_hit [OF ok c] obtain pre post where h: "chain (array_next ?am) (first_of f w) (pre @ ci_array c' # post)"
      "ci_total c' = length (slots ?am pre)" "ci_total c' < cnt_of f w" "ci_begin c' = items_of ?am (ci_array c') ! 0"
      "ci_last_index c' = NO_INDEX \<or> ci_last_index c' < length (items_of ?am (ci_array c')) \<and>
         ci_total c' + ci_last_index c' < cnt_of f w" unfolding cached_def by blast
    have A: "A w = pre @ ci_array c' # post" by (rule chain_unique [OF ch h(1)])
    have len: "ci_total c' < length xs" using h(3) n by (simp add: xs_def elist_def)
    have b: "ci_begin c' = xs ! ci_total c'"
    proof -
      have "xs ! ci_total c' = slots ?am (A w) ! (length (slots ?am pre) + 0)"
        using h(2,3) by (simp add: xs_def elist_def)
      then show ?thesis
        using slots_nth [of 0 ?am "ci_array c'" pre post] ne [of "ci_array c'"] unfolding h(4) A by simp
    qed
    have run: "test (ci_begin c') needle f = Some (Inr (compare_to (key (ci_begin c')) needle), f)"
      using t len unfolding test_ok_def b by simp
    show ?thesis
    proof (cases "compare_to (key (ci_begin c')) needle = TEST_LEFT")
      case True
      then have "\<not> ?R (xs ! ci_total c')" by (auto simp: b compare_to_def is_right_def split: if_splits)
      with split_at_sorted [OF s] len have "ci_total c' < boundary ?R xs" unfolding split_at_def by (meson not_le)
      moreover have "chain (array_next ?am) (ci_array c') (ci_array c' # post)" by (rule chain_drop [OF h(1)])
      ultimately show ?thesis using Some True run h(2,3,5) A
        by (intro exI [of _ pre] exI [of _ "ci_array c' # post"] exI [of _ "ci_array c'"]
            exI [of _ "ci_total c'"] exI [of _ "ci_last_index c'"]) (auto simp: bisect_start_def)
    next
      case False
      with Some run h(3) show ?thesis by (intro first) (simp add: bisect_start_def)
    qed
  qed
qed

text \<open>The chain of an owner, filled to the end of one of its arrays.\<close>

definition chain_full :: "journal_file \<Rightarrow> owner \<Rightarrow> bool" where
  "chain_full f w \<longleftrightarrow>
     (\<exists>as. chain (array_next (array_map f)) (first_of f w) as \<and> fills (array_map f) as (cnt_of f w))"

definition bisect_spec :: "(nat \<Rightarrow> nat) \<Rightarrow> bool \<Rightarrow> direction \<Rightarrow> nat \<Rightarrow> nat list \<Rightarrow> (nat \<times> nat) option" where
  "bisect_spec key full dir needle xs =
     (if dir = DIRECTION_UP \<and> full \<and> (\<forall>p\<in>set xs. key p \<le> needle) then None else seek_spec key dir needle xs)"

lemma bisect_spec_down [simp]: "bisect_spec key full DIRECTION_DOWN needle xs = seek_spec key DIRECTION_DOWN needle xs"
  by (simp add: bisect_spec_def)

text \<open>What follows the walk.\<close>

definition bisect_finish ::
  "env \<Rightarrow> chain_cache_item option \<Rightarrow> nat \<Rightarrow> bisect_found option \<Rightarrow> (nat \<times> nat) option jm" where
  "bisect_finish E ci first r =
     (case r of
        None \<Rightarrow> returnE None
      | Some b \<Rightarrow>
          let i = bf_index b; t = bf_total b; subtract_one = bf_subtract_one b in
          if subtract_one \<and> t = 0 \<and> i = 0 then returnE None
          else
            thenE (modifyE (chain_cache_put ci first (bf_array b) (bf_items b ! 0) t
                     (if subtract_one then if i > 0 then i - 1 else NO_INDEX else i)))
            (let p = (if subtract_one \<and> i = 0 then bf_last_p b
                      else if subtract_one then bf_items b ! (i - 1)
                      else bf_items b ! i)
             in
             thenE (journal_file_move_to_object E (Some OBJECT_ENTRY) p)
             (returnE (Some (p, t + i - (if subtract_one then 1 else 0))))))"

lemma generic_array_bisect_alt:
  "generic_array_bisect E first n needle test dir =
     bindE (getE (cache_get first)) (\<lambda>ci.
     bindE (bisect_start test first n needle ci) (\<lambda>(a, n, t, last_index).
     bindE (bisect_arrays E test dir needle a n t last_index 0) (bisect_finish E ci first)))"
  unfolding generic_array_bisect_def bisect_start_def bisect_finish_def [abs_def] by simp

text \<open>The walk ended in the array \<open>bf_array b\<close>, at position \<open>B\<close> of the list.\<close>

lemma bisect_finish_run:
  fixes w :: owner
  assumes lay: "layout f" and mm: "mmap_ok E" and c: "cache_ok f"
    and ch: "chain (array_next (array_map f)) (first_of f w) (pre @ bf_array b # post)"
    and xs: "xs = take (cnt_of f w) (slots (array_map f) (pre @ bf_array b # post))"
    and n: "cnt_of f w = length xs" and e: "set xs \<subseteq> dom (entry_map f)"
    and b: "bf_items b = items_of (array_map f) (bf_array b)" "bf_total b = length (slots (array_map f) pre)"
      "bf_index b < length (bf_items b)" "bf_subtract_one b = (dir = DIRECTION_UP)" "bf_total b < length xs"
      "bf_total b + bf_index b = B"
    and B: "if dir = DIRECTION_UP then 0 < B \<and> B \<le> length xs else B < length xs"
    and lp: "dir = DIRECTION_UP \<Longrightarrow> bf_index b = 0 \<Longrightarrow> bf_last_p b = xs ! (B - 1)"
    and q_def: "q = (if dir = DIRECTION_UP then B - 1 else B)"
  shows "\<exists>cc. bisect_finish E ci (first_of f w) (Some b) f = Some (Inr (Some (xs ! q, q)), cache_set cc f) \<and>
    cache_ok (cache_set cc f)"
proof -
  let ?am = "array_map f"
  have qn: "q < length xs" using B by (auto simp: q_def split: if_splits)
  have item: "xs ! (bf_total b + j) = bf_items b ! j" if "j < length (bf_items b)" "bf_total b + j < length xs" for j
  proof -
    have "xs ! (bf_total b + j) = slots ?am (pre @ bf_array b # post) ! (bf_total b + j)"
      unfolding xs using that(2) n by (intro nth_take) simp
    with that(1) show ?thesis using slots_nth [of j ?am "bf_array b" pre post] unfolding b(1,2) by simp
  qed
  have p: "(if bf_subtract_one b \<and> bf_index b = 0 then bf_last_p b
            else if bf_subtract_one b then bf_items b ! (bf_index b - 1) else bf_items b ! bf_index b) = xs ! q"
  proof (cases "dir = DIRECTION_UP")
    case True
    then have q: "q = bf_total b + (bf_index b - 1)" if "bf_index b > 0" using that b(6) by (simp add: q_def)
    show ?thesis using True lp item [of "bf_index b - 1"] q qn b(3,4) by (cases "bf_index b = 0") (auto simp: q_def)
  next
    case False
    then show ?thesis using item [OF b(3)] qn b(4,6) by (auto simp: q_def)
  qed
  define li where "li = (if bf_subtract_one b then if bf_index b > 0 then bf_index b - 1 else NO_INDEX else bf_index b)"
  have "li = NO_INDEX \<or> li < length (bf_items b) \<and> bf_total b + li < cnt_of f w"
    using b(3,4,6) B n by (auto simp: li_def split: if_splits)
  then have "cached ?am (first_of f w) (cnt_of f w) \<lparr>ci_first = first_of f w, ci_array = bf_array b,
      ci_begin = bf_items b ! 0, ci_total = bf_total b, ci_last_index = li\<rparr>"
    unfolding cached_def using ch b(1,2,5) n by (intro exI [of _ pre] exI [of _ post]) auto
  from cache_put_ok [OF c this, of ci] obtain cc where
    put: "chain_cache_put ci (first_of f w) (bf_array b) (bf_items b ! 0) (bf_total b) li f = cache_set cc f"
    and cc: "cache_ok (cache_set cc f)" by blast
  have "xs ! q \<in> dom (entry_map f)" using e qn by (metis nth_mem subsetD)
  then obtain ob where mv: "journal_file_move_to_object E (Some OBJECT_ENTRY) (xs ! q) (cache_set cc f) = Some (Inr ob, cache_set cc f)"
    using entry_stored [of "cache_set cc f" E "xs ! q"] lay mm by auto
  have idx: "bf_total b + bf_index b - (if bf_subtract_one b then 1 else 0) = q" using b(4,6) by (simp add: q_def)
  have nz: "\<not> (bf_subtract_one b \<and> bf_total b = 0 \<and> bf_index b = 0)" using B b(4,6) by auto
  have "bisect_finish E ci (first_of f w) (Some b) f = Some (Inr (Some (xs ! q, q)), cache_set cc f)"
    unfolding bisect_finish_def option.case Let_def if_not_P [OF nz] p idx li_def [symmetric] using put mv by simp
  with cc show ?thesis by blast
qed

lemma generic_array_bisect_run:
  fixes w :: owner
  assumes lay: "layout f" and mm: "mmap_ok E" and c: "cache_ok f"
    and ok: "lists_ok (array_map f) (first_of f) (cnt_of f) A"
  defines "xs \<equiv> elist (array_map f) (cnt_of f) A w"
  assumes t: "test_ok test key f xs" and s: "sorted (map key xs)" and e: "set xs \<subseteq> dom (entry_map f)"
  shows "\<exists>cc. generic_array_bisect E (first_of f w) (cnt_of f w) needle test dir f =
      Some (Inr (bisect_spec key (chain_full f w) dir needle xs), cache_set cc f) \<and> cache_ok (cache_set cc f)"
proof -
  let ?am = "array_map f" and ?R = "\<lambda>p. is_right dir needle (key p)" and ?n = "cnt_of f w"
  define B where "B = boundary ?R xs"
  have ch: "chain (array_next ?am) (first_of f w) (A w)" and n: "?n \<le> length (slots ?am (A w))"
    and ne: "\<And>a. a \<in> set (A w) \<Longrightarrow> items_of ?am a \<noteq> []" using ok by (auto simp: lists_ok_def)
  have lxs: "length xs = ?n" using n by (simp add: xs_def elist_def)
  have full: "chain_full f w = fills ?am (A w) ?n"
    unfolding chain_full_def using ch chain_unique by blast
  obtain pre as a len li where st: "A w = pre @ as" "chain (array_next ?am) a as" "len = length (slots ?am pre)"
    "len = 0 \<or> len < B" "li = NO_INDEX \<or> li < length (items_of ?am (hd as)) \<and> li < ?n - len" "len \<le> ?n"
    "bisect_start test (first_of f w) ?n needle (cache_get (first_of f w) f) f = Some (Inr (a, ?n - len, len, li), f)"
    using bisect_start_run [OF ok c t [unfolded xs_def] s [unfolded xs_def]] unfolding B_def xs_def by metis
  have d: "take (?n - len) (slots ?am as) = drop len xs"
    unfolding xs_def elist_def drop_take st(1) st(3) by simp
  note sk = boundary_skip [OF split_at_sorted [OF s] _ st(4) [unfolded B_def], unfolded lxs, OF st(6)]
  have "test_ok test key f (drop len xs)" by (rule test_ok_sub [OF t]) (simp add: set_drop_subset)
  moreover have "?n - len \<le> length (slots ?am as)" using n st(1,3) by simp
  ultimately obtain r where run: "bisect_arrays E test dir needle a (?n - len) len li 0 f = Some (Inr r, f)"
    and out: "case r of
         None \<Rightarrow> B - len = ?n - len \<and> (dir = DIRECTION_DOWN \<or> fills ?am as (?n - len))
       | Some b \<Rightarrow> found_at ?am as dir (?n - len) len 0 (B - len) b \<and>
           (B - len < ?n - len \<or> dir = DIRECTION_UP \<and> \<not> fills ?am as (?n - len))"
    using bisect_arrays_run [OF lay mm st(2), of "?n - len" dir needle key test li "B - len" len 0]
      sk st(1,5) ne unfolding d B_def by auto
  have fl: "fills ?am (A w) ?n = fills ?am as (?n - len)" if "len < ?n"
    using that st(3) fills_append [of ?am pre ?n as] by (simp add: st(1))
  have Bn: "B \<le> ?n" unfolding B_def using boundary_le [of ?R xs] lxs by simp
  have lB: "len \<le> B" using st(4) by auto
  have all: "(\<forall>p\<in>set xs. key p \<le> needle) \<longleftrightarrow> B = ?n" if "dir = DIRECTION_UP"
    using that boundary_full [of ?R xs] lxs by (auto simp: B_def is_right_def not_less)
  have seek: "seek_spec key dir needle xs = (case dir of DIRECTION_DOWN \<Rightarrow> if B < ?n then Some (xs ! B, B) else None
      | DIRECTION_UP \<Rightarrow> if 0 < B then Some (xs ! (B - 1), B - 1) else None)"
    unfolding seek_spec_def B_def lxs Let_def by simp
  have eq: "generic_array_bisect E (first_of f w) ?n needle test dir f =
      bisect_finish E (cache_get (first_of f w) f) (first_of f w) r f"
    unfolding generic_array_bisect_alt using st(7) run by simp
  show ?thesis
  proof (cases r)
    case None
    with out lB Bn st(6) have Bn': "B = ?n" "dir = DIRECTION_DOWN \<or> fills ?am as (?n - len)" by auto
    have "bisect_spec key (chain_full f w) dir needle xs = None"
    proof (cases "dir = DIRECTION_UP \<and> len < ?n")
      case True
      then show ?thesis using Bn' fl full all by (simp add: bisect_spec_def)
    next
      case False
      then have "dir = DIRECTION_UP \<Longrightarrow> B = 0" using st(4,6) Bn'(1) by auto
      then show ?thesis using Bn'(1) unfolding seek bisect_spec_def by (auto split: direction.split)
    qed
    then show ?thesis unfolding eq using None c by (intro exI [of _ "chain_cache f"]) (simp add: bisect_finish_def)
  next
    case (Some b)
    with out obtain pre2 post where fd: "as = pre2 @ bf_array b # post" "length (slots ?am pre2) < ?n - len"
      "bf_items b = items_of ?am (bf_array b)" "bf_total b = len + length (slots ?am pre2)"
      "length (slots ?am pre2) + bf_index b = B - len" "bf_index b < length (bf_items b)"
      "bf_subtract_one b = (dir = DIRECTION_UP)" "bf_last_p b = (if pre2 = [] then 0 else last (slots ?am pre2))"
      and or: "B - len < ?n - len \<or> dir = DIRECTION_UP \<and> \<not> fills ?am as (?n - len)"
      by (auto simp: found_at_def)
    have pos: "bf_total b + bf_index b = B" using fd(4,5) lB by simp
    have len: "len < ?n" using fd(2) by simp
    with or all full fl have spec: "bisect_spec key (chain_full f w) dir needle xs = seek_spec key dir needle xs"
      using lB by (auto simp: bisect_spec_def)
    show ?thesis
    proof (cases "dir = DIRECTION_UP \<and> B = 0")
      case True
      then have "bf_total b = 0" "bf_index b = 0" using pos by auto
      then have "bisect_finish E (cache_get (first_of f w) f) (first_of f w) r f = Some (Inr None, f)"
        using True fd(7) by (simp add: bisect_finish_def Some)
      moreover have "seek_spec key dir needle xs = None" using True unfolding seek by simp
      ultimately show ?thesis unfolding eq spec using c by (intro exI [of _ "chain_cache f"]) simp
    next
      case nz: False
      have Aw: "A w = (pre @ pre2) @ bf_array b # post" using st(1) fd(1) by simp
      have xs: "xs = take ?n (slots ?am ((pre @ pre2) @ bf_array b # post))" by (simp add: xs_def elist_def Aw)
      have B: "if dir = DIRECTION_UP then 0 < B \<and> B \<le> length xs else B < length xs"
        using nz or Bn lB len lxs by auto
      have lp: "bf_last_p b = xs ! (B - 1)" if up: "dir = DIRECTION_UP" "bf_index b = 0"
      proof -
        have tB: "len + length (slots ?am pre2) = B" using up pos fd(4) by simp
        with st(4) nz up have "pre2 \<noteq> []" by auto
        then have s2: "slots ?am pre2 \<noteq> []" using ne Aw by (cases pre2) auto
        have "B - 1 = length (slots ?am pre) + (length (slots ?am pre2) - 1)" "B - 1 < ?n"
          using tB st(3) s2 B up lxs by (cases "slots ?am pre2"; auto)+
        then have "xs ! (B - 1) = last (slots ?am pre2)" unfolding xs using s2 by (simp add: nth_append last_conv_nth)
        then show ?thesis using fd(8) \<open>pre2 \<noteq> []\<close> by simp
      qed
      define q where "q = (if dir = DIRECTION_UP then B - 1 else B)"
      have tot: "bf_total b = length (slots ?am (pre @ pre2))" "bf_total b < length xs"
        using fd(2,4) st(3) lxs by simp_all
      obtain cc where "bisect_finish E (cache_get (first_of f w) f) (first_of f w) (Some b) f =
          Some (Inr (Some (xs ! q, q)), cache_set cc f)" "cache_ok (cache_set cc f)"
        using bisect_finish_run [OF lay mm c ch [unfolded Aw] xs lxs [symmetric] e fd(3) tot(1) fd(6,7) tot(2) pos B lp q_def] by blast
      moreover have "seek_spec key dir needle xs = Some (xs ! q, q)"
        unfolding seek q_def using B lxs by (cases dir) auto
      ultimately show ?thesis unfolding eq spec Some by auto
    qed
  qed
qed

end
