(* ===== verification/Seek_File.thy ===== *)
theory Seek_File
  imports Seek_Chain
begin

text \<open>
  Reading a journal file: moving to an entry by offset, sequence number and time, among all entries or
  those of a data object, stepping and skipping, and reading the whole file.  The locale \<open>entry_cursor\<close> is
  the contract of a searchable list of entries, interpreted for the list of the file and for the lists
  of data objects.  The last section adds that appending keeps the order that searching relies on.
\<close>

section \<open>Searching the lists of a file\<close>

definition seek_ok :: "env \<Rightarrow> (owner \<Rightarrow> nat list) \<Rightarrow> journal_file \<Rightarrow> bool" where
  "seek_ok E L f \<longleftrightarrow> layout f \<and> mmap_ok E \<and> entry_lists f L \<and> cache_ok f"

definition entry_key :: "(entry_object \<Rightarrow> nat) \<Rightarrow> journal_file \<Rightarrow> nat \<Rightarrow> nat" where
  "entry_key sel f p = sel (the (entry_map f p))"

lemma entry_key_cache [simp]: "entry_key sel (cache_set cc f) = entry_key sel f"
  by (simp add: entry_key_def fun_eq_iff)

lemma chain_full_cache [simp]: "chain_full (cache_set cc f) w = chain_full f w"
  by (simp add: chain_full_def)

lemma seek_ok_cache: "seek_ok E L f \<Longrightarrow> cache_ok (cache_set cc f) \<Longrightarrow> seek_ok E L (cache_set cc f)"
  by (simp add: seek_ok_def)

lemma seek_ok_entries:
  assumes "seek_ok E L f" and "p \<in> set (L w)"
  shows "p \<in> dom (entry_map f)" "p > 0"
proof -
  show d: "p \<in> dom (entry_map f)" using assms unfolding seek_ok_def entry_lists_def by blast
  then obtain ob where "store f p = Some ob" by (auto simp: entry_map_Some)
  moreover have "layout f" using assms(1) by (simp add: seek_ok_def)
  ultimately show "p > 0" using stored_nonzero [of f p] by auto
qed

lemma test_offset_ok: "seek_ok E L f \<Longrightarrow> test_ok test_object_offset (\<lambda>p. p) f (L w)"
  using seek_ok_entries(2) by (auto simp: test_ok_def test_object_offset_def)

lemma test_entry_ok:
  assumes ok: "seek_ok E L f"
    and t: "\<And>p needle. test p needle = thenE (assertE (p > 0))
      (bindE (journal_file_move_to_object E (Some OBJECT_ENTRY) p) (\<lambda>ob. returnE (compare_to (sel (entry_of ob)) needle)))"
  shows "test_ok test (entry_key sel f) f (L w)"
proof -
  have "test p needle f = Some (Inr (compare_to (entry_key sel f p) needle), f)" if "p \<in> set (L w)" for p needle
  proof -
    have "layout f" "mmap_ok E" using ok by (simp_all add: seek_ok_def)
    from entry_stored [OF this seek_ok_entries(1) [OF ok that]] obtain ob where
      "journal_file_move_to_object E (Some OBJECT_ENTRY) p f = Some (Inr ob, f)" "entry_of ob = the (entry_map f p)" .
    then show ?thesis using seek_ok_entries(2) [OF ok that] by (simp add: t entry_key_def)
  qed
  then show ?thesis using seek_ok_entries(2) [OF ok] by (auto simp: test_ok_def)
qed

lemmas test_key_ok =
  test_entry_ok [OF _ test_object_seqnum_def] test_entry_ok [OF _ test_object_realtime_def]
  test_entry_ok [OF _ test_object_monotonic_def]

lemma bisect_entries_run:
  assumes ok: "seek_ok E L f" and t: "test_ok test key f (L Global)" and s: "sorted (map key (L Global))"
  shows "\<exists>cc. bisect_entries E needle test dir f =
      Some (Inr (bisect_spec key (chain_full f Global) dir needle (L Global)), cache_set cc f) \<and>
    seek_ok E L (cache_set cc f)"
proof -
  from ok have lay: "layout f" "mmap_ok E" "cache_ok f" and "entry_lists f L" by (simp_all add: seek_ok_def)
  then obtain A where A: "lists_ok (array_map f) (first_of f) (cnt_of f) A"
    "L Global = elist (array_map f) (cnt_of f) A Global" by (fastforce simp: entry_lists_def)
  have "set (L Global) \<subseteq> dom (entry_map f)" using seek_ok_entries(1) [OF ok] by blast
  from generic_array_bisect_run [OF lay A(1) t [unfolded A(2)] s [unfolded A(2)] this [unfolded A(2)], of needle dir]
  show ?thesis using seek_ok_cache [OF ok] by (auto simp: A(2) bisect_entries_def)
qed

text \<open>
  The list of a data object has its first entry outside of the arrays.  When moving up in full arrays
  finds nothing, that first entry is the result.
\<close>

definition bisect_data_spec :: "(nat \<Rightarrow> nat) \<Rightarrow> bool \<Rightarrow> direction \<Rightarrow> nat \<Rightarrow> nat list \<Rightarrow> (nat \<times> nat) option" where
  "bisect_data_spec key full dir needle xs =
     (if dir = DIRECTION_UP \<and> full \<and> xs \<noteq> [] \<and> (\<forall>p\<in>set xs. key p \<le> needle) then Some (hd xs, 0)
      else seek_spec key dir needle xs)"

lemma bisect_data_spec_down [simp]:
  "bisect_data_spec key full DIRECTION_DOWN needle xs = seek_spec key DIRECTION_DOWN needle xs"
  by (simp add: bisect_data_spec_def)

lemma seek_spec_Cons:
  "seek_spec key dir needle (e # ys) =
     (if is_right dir needle (key e) then if dir = DIRECTION_DOWN then Some (e, 0) else None
      else case seek_spec key dir needle ys of
             None \<Rightarrow> if dir = DIRECTION_UP then Some (e, 0) else None
           | Some (p, i) \<Rightarrow> Some (p, i + 1))"
proof (cases dir)
  case DIRECTION_UP
  let ?b = "boundary (\<lambda>p. is_right DIRECTION_UP needle (key p)) ys"
  show ?thesis using DIRECTION_UP by (cases ?b) (auto simp: seek_spec_def Let_def comp_def)
qed (auto simp: seek_spec_def Let_def comp_def)

lemma bisect_data_run:
  assumes ok: "seek_ok E L f" and d: "store f p = Some d" "o_type d = OBJECT_DATA"
    and t: "test_ok test key f (L (Of p))" and s: "sorted (map key (L (Of p)))"
  shows "\<exists>cc. bisect_data E d needle test dir f =
      Some (Inr (bisect_data_spec key (chain_full f (Of p)) dir needle (L (Of p))), cache_set cc f) \<and>
    seek_ok E L (cache_set cc f)"
proof -
  from ok have lay: "layout f" "mmap_ok E" "cache_ok f" and el: "entry_lists f L" by (simp_all add: seek_ok_def)
  then obtain A where A: "lists_ok (array_map f) (first_of f) (cnt_of f) A"
    "L (Of p) = extra_of f (Of p) @ elist (array_map f) (cnt_of f) A (Of p)" unfolding entry_lists_def by blast
  have dm: "data_map f p = Some (data_of d)" using d by (auto simp: data_map_of)
  define ys where "ys = elist (array_map f) (cnt_of f) A (Of p)"
  show ?thesis
  proof (cases "d_n_entries (data_of d) = 0")
    case True
    then have "L (Of p) = []" using A(2) dm by (simp add: elist_def)
    then have "bisect_data_spec key (chain_full f (Of p)) dir needle (L (Of p)) = None"
      by (cases dir) (simp_all add: bisect_data_spec_def seek_spec_def)
    moreover have "bisect_data E d needle test dir f = Some (Inr None, f)"
      using True by (simp add: bisect_data_def generic_array_bisect_plus_one_def Let_def)
    ultimately show ?thesis using ok by (intro exI [of _ "chain_cache f"]) simp
  next
    case False
    let ?e = "d_entry_offset (data_of d)"
    have Lp: "L (Of p) = ?e # ys" using A(2) dm False by (simp add: ys_def)
    have fst: "first_of f (Of p) = d_entry_array_offset (data_of d)" "cnt_of f (Of p) = d_n_entries (data_of d) - 1"
      using dm by simp_all
    have edom: "?e \<in> dom (entry_map f)" "set ys \<subseteq> dom (entry_map f)"
      using seek_ok_entries(1) [OF ok, of _ "Of p"] unfolding Lp by auto
    have te: "test_directed test dir ?e needle f = Some (Inr (directed dir needle (key ?e)), f)"
      by (rule test_directed_run [OF t]) (simp add: Lp)
    have "test_ok test key f ys" "sorted (map key ys)" using t s unfolding Lp by (auto simp: test_ok_def)
    from generic_array_bisect_run [OF lay A(1) this [unfolded ys_def] edom(2) [unfolded ys_def], of needle dir]
    obtain cc where b: "generic_array_bisect E (d_entry_array_offset (data_of d)) (d_n_entries (data_of d) - 1)
        needle test dir f = Some (Inr (bisect_spec key (chain_full f (Of p)) dir needle ys), cache_set cc f)"
      "cache_ok (cache_set cc f)" unfolding fst ys_def by blast
    obtain ob where mv: "journal_file_move_to_object E (Some OBJECT_ENTRY) ?e f = Some (Inr ob, f)"
      using entry_stored [OF lay(1,2) edom(1)] by blast
    obtain ob' where mv': "journal_file_move_to_object E (Some OBJECT_ENTRY) ?e (cache_set cc f) = Some (Inr ob', cache_set cc f)"
      using entry_stored [of "cache_set cc f" E ?e] lay edom(1) by auto
    note unf = bisect_data_def generic_array_bisect_plus_one_def Let_def
    show ?thesis
    proof (cases "is_right dir needle (key ?e)")
      case True
      then have "bisect_data E d needle test dir f = Some (Inr (if dir = DIRECTION_DOWN then Some (?e, 0) else None), f)"
        using te mv False by (simp add: unf)
      moreover have "bisect_data_spec key (chain_full f (Of p)) dir needle (L (Of p)) =
          (if dir = DIRECTION_DOWN then Some (?e, 0) else None)"
        using True unfolding Lp bisect_data_spec_def seek_spec_Cons by (auto simp: is_right_def)
      ultimately show ?thesis using ok by (intro exI [of _ "chain_cache f"]) simp
    next
      case nR: False
      have dl: "directed dir needle (key ?e) = TEST_LEFT" using nR by (simp add: directed_def)
      have "bisect_data E d needle test dir f = Some (Inr (case bisect_spec key (chain_full f (Of p)) dir needle ys of
          None \<Rightarrow> if dir = DIRECTION_UP then Some (?e, 0) else None | Some (p, i) \<Rightarrow> Some (p, i + 1)), cache_set cc f)"
        using te False b(1) mv' dl by (simp add: unf split: option.split)
      moreover have "bisect_data_spec key (chain_full f (Of p)) dir needle (L (Of p)) =
          (case bisect_spec key (chain_full f (Of p)) dir needle ys of
             None \<Rightarrow> if dir = DIRECTION_UP then Some (?e, 0) else None | Some (p, i) \<Rightarrow> Some (p, i + 1))"
        using nR unfolding Lp bisect_data_spec_def bisect_spec_def seek_spec_Cons
        by (auto simp: is_right_def not_less split: if_splits)
      ultimately show ?thesis using seek_ok_cache [OF ok b(2)] by auto
    qed
  qed
qed

section \<open>The specification in terms of the list\<close>

lemma seek_down_find: "map_option fst (seek_spec key DIRECTION_DOWN needle xs) = List.find (\<lambda>p. needle \<le> key p) xs"
  by (induction xs) (auto simp: seek_spec_Cons is_right_def split: option.splits,
    simp add: seek_spec_def)

lemma boundary_snoc:
  assumes "split_at R (xs @ [x])"
  shows "boundary R (xs @ [x]) = (if R x then boundary R xs else Suc (length xs))"
proof -
  have "boundary R xs = length xs" if "\<not> R x"
  proof (rule ccontr)
    assume b: "boundary R xs \<noteq> length xs"
    then have "boundary R (xs @ [x]) < Suc (length xs)" by (simp add: boundary_append le_imp_less_Suc)
    then show False using that boundary_last [OF assms] by simp
  qed
  then show ?thesis by (auto simp: boundary_append)
qed

lemma seek_up_find:
  assumes "sorted (map key xs)"
  shows "map_option fst (seek_spec key DIRECTION_UP needle xs) = List.find (\<lambda>p. key p \<le> needle) (rev xs)"
  using assms
proof (induction xs rule: rev_induct)
  case Nil
  then show ?case by (simp add: seek_spec_def)
next
  case (snoc x xs)
  let ?R = "\<lambda>p. is_right DIRECTION_UP needle (key p)"
  note b = boundary_snoc [OF split_at_sorted [OF snoc.prems], of DIRECTION_UP needle]
  have IH: "map_option fst (seek_spec key DIRECTION_UP needle xs) = List.find (\<lambda>p. key p \<le> needle) (rev xs)"
    using snoc by (simp add: sorted_append)
  show ?case
  proof (cases "key x \<le> needle")
    case True
    then show ?thesis using b by (simp add: seek_spec_def comp_def is_right_def)
  next
    case False
    then have "boundary ?R (xs @ [x]) = boundary ?R xs" using b by (simp add: is_right_def)
    moreover have "(xs @ [x]) ! (boundary ?R xs - 1) = xs ! (boundary ?R xs - 1)" if "0 < boundary ?R xs"
    proof -
      have "boundary ?R xs - 1 < length xs" using that boundary_le [of ?R xs] by linarith
      then show ?thesis by (simp add: nth_append)
    qed
    ultimately have "seek_spec key DIRECTION_UP needle (xs @ [x]) = seek_spec key DIRECTION_UP needle xs"
      by (simp add: seek_spec_def comp_def Let_def)
    then show ?thesis using False IH by simp
  qed
qed

text \<open>The entry found: the first one not before the needle, or the last one not after it.\<close>

definition entry_found :: "(nat \<Rightarrow> nat) \<Rightarrow> direction \<Rightarrow> nat \<Rightarrow> nat list \<Rightarrow> nat option" where
  "entry_found key dir needle xs =
     (case dir of
        DIRECTION_DOWN \<Rightarrow> List.find (\<lambda>p. needle \<le> key p) xs
      | DIRECTION_UP \<Rightarrow> List.find (\<lambda>p. key p \<le> needle) (rev xs))"

lemma entry_found_seek:
  "sorted (map key xs) \<Longrightarrow> map_option fst (seek_spec key dir needle xs) = entry_found key dir needle xs"
  by (cases dir) (simp_all add: entry_found_def seek_down_find seek_up_find)

lemma seek_by_run:
  assumes ok: "seek_ok E L f" and t: "test_ok test key f (L Global)" and s: "sorted (map key (L Global))"
  shows "\<exists>f'. offset_only (bisect_entries E needle test dir) f =
      Some (Inr (if dir = DIRECTION_UP \<and> chain_full f Global \<and> (\<forall>p\<in>set (L Global). key p \<le> needle) then None
                 else entry_found key dir needle (L Global)), f') \<and>
    seek_ok E L f'"
proof -
  obtain cc where b: "bisect_entries E needle test dir f =
      Some (Inr (bisect_spec key (chain_full f Global) dir needle (L Global)), cache_set cc f)"
    "seek_ok E L (cache_set cc f)"
    using bisect_entries_run [OF assms] by blast
  then show ?thesis
    by (intro exI [of _ "cache_set cc f"])
      (auto simp: offset_only_def bisect_spec_def entry_found_seek [OF s])
qed

section \<open>Stepping through a list\<close>

text \<open>
  The contract of a list of entries that can be searched for an offset and read at an index, and what
  a step to the next or previous entry does with it.
\<close>

definition neighbour :: "direction \<Rightarrow> nat \<Rightarrow> nat list \<Rightarrow> nat option" where
  "neighbour dir i xs = map_option (\<lambda>j. xs ! j) (step_index dir (length xs) i)"

lemma neighbour_simps:
  "neighbour DIRECTION_DOWN i xs = (if Suc i < length xs then Some (xs ! Suc i) else None)"
  "neighbour DIRECTION_UP i xs = (if 0 < i then Some (xs ! (i - 1)) else None)"
  by (auto simp: neighbour_def step_index_def)

locale entry_cursor =
  fixes ok :: "'s \<Rightarrow> bool" and xs :: "nat list"
    and locate :: "nat \<Rightarrow> ('s, (nat \<times> nat) option) em" and get :: "nat \<Rightarrow> ('s, nat option) em"
  assumes locate_law: "ok s \<Longrightarrow> \<exists>s'. locate p s = Some (Inr (seek_spec (\<lambda>x. x) DIRECTION_DOWN p xs), s') \<and> ok s'"
    and get_law: "ok s \<Longrightarrow> i < length xs \<Longrightarrow> \<exists>s'. get i s = Some (Inr (Some (xs ! i)), s') \<and> ok s'"
    and sorted_law: "ok s \<Longrightarrow> sorted xs"
begin

lemma locate_member:
  assumes "ok s" and i: "i < length xs" and least: "\<And>j. j < i \<Longrightarrow> xs ! j \<noteq> xs ! i"
  shows "\<exists>s'. locate (xs ! i) s = Some (Inr (Some (xs ! i, i)), s') \<and> ok s'"
proof -
  let ?R = "\<lambda>p. is_right DIRECTION_DOWN (xs ! i) p"
  have s: "sorted xs" by (rule sorted_law [OF assms(1)])
  have sp: "split_at ?R xs" using split_at_sorted [of "\<lambda>x. x"] s by simp
  have "?R (xs ! j) \<longleftrightarrow> i \<le> j" if "j < length xs" for j
    using that i least s sorted_nth_mono [OF s] by (auto simp: is_right_def) (metis le_antisym nat_le_linear not_le)+
  with sp i have "boundary ?R xs = i" unfolding split_at_def
    by (metis boundary_le le_antisym le_trans nat_le_linear nat_less_le order_refl)
  then have "seek_spec (\<lambda>x. x) DIRECTION_DOWN (xs ! i) xs = Some (xs ! i, i)"
    using i by (simp add: seek_spec_def comp_def)
  then show ?thesis using locate_law [OF assms(1), of "xs ! i"] by simp
qed

lemma step:
  assumes "ok s" "i < length xs" "\<And>j. j < i \<Longrightarrow> xs ! j \<noteq> xs ! i"
  shows "\<exists>s' s''. bindE (locate (xs ! i)) (\<lambda>r. returnE (case r of None \<Rightarrow> None | Some (q, i) \<Rightarrow> step_index dir (length xs) i)) s =
      Some (Inr (step_index dir (length xs) i), s') \<and> ok s' \<and>
    (case step_index dir (length xs) i of None \<Rightarrow> returnE None | Some j \<Rightarrow> get j) s' = Some (Inr (neighbour dir i xs), s'') \<and> ok s''"
proof -
  from locate_member [OF assms] obtain s' where l: "locate (xs ! i) s = Some (Inr (Some (xs ! i, i)), s')" "ok s'" by blast
  show ?thesis
  proof (cases "step_index dir (length xs) i")
    case None
    with l show ?thesis by (intro exI [of _ s']) (simp add: neighbour_def)
  next
    case (Some j)
    then have "j < length xs" using assms(2) by (auto simp: step_index_def split: if_splits)
    from get_law [OF l(2) this] obtain s'' where "get j s' = Some (Inr (Some (xs ! j)), s'')" "ok s''" by blast
    with l Some show ?thesis by (intro exI [of _ s'] exI [of _ s'']) (simp add: neighbour_def)
  qed
qed

end

lemma get_entry_run:
  assumes ok: "seek_ok E L f" and i: "i < length (L Global)"
  shows "\<exists>cc. generic_array_get E (entry_array_offset (header f)) i f =
      Some (Inr (Some (L Global ! i)), cache_set cc f) \<and> seek_ok E L (cache_set cc f)"
proof -
  from ok have lay: "layout f" "mmap_ok E" "cache_ok f" and "entry_lists f L" by (simp_all add: seek_ok_def)
  then obtain A where A: "lists_ok (array_map f) (first_of f) (cnt_of f) A"
    "L Global = elist (array_map f) (cnt_of f) A Global" by (fastforce simp: entry_lists_def)
  have e: "set (L Global) \<subseteq> dom (entry_map f)" using seek_ok_entries(1) [OF ok] by blast
  have "i < cnt_of f Global" using i A(2) by (simp add: elist_def)
  from generic_array_get_run [OF lay A(1) this e [unfolded A(2)]] show ?thesis
    unfolding A(2) using seek_ok_cache [OF ok] by fastforce
qed

lemma cnt_length:
  assumes "entry_lists f L"
  shows "n_entries (header f) = length (L Global)"
    "store f p = Some d \<Longrightarrow> o_type d = OBJECT_DATA \<Longrightarrow> d_n_entries (data_of d) = length (L (Of p))"
proof -
  from assms obtain A where A: "lists_ok (array_map f) (first_of f) (cnt_of f) A"
    "\<And>w. L w = extra_of f w @ elist (array_map f) (cnt_of f) A w" unfolding entry_lists_def by blast
  then have n: "cnt_of f w = length (elist (array_map f) (cnt_of f) A w)" for w
    by (simp add: lists_ok_def elist_def)
  show "n_entries (header f) = length (L Global)" using n [of Global] A(2) [of Global] by simp
  assume "store f p = Some d" "o_type d = OBJECT_DATA"
  then have "data_map f p = Some (data_of d)" by (auto simp: data_map_of)
  then show "d_n_entries (data_of d) = length (L (Of p))" using n [of "Of p"] A(2) [of "Of p"] by (auto simp: elist_def)
qed

lemma get_data_entry_run:
  assumes ok: "seek_ok E L f" and d: "store f p = Some d" "o_type d = OBJECT_DATA" and i: "i < length (L (Of p))"
  shows "\<exists>cc. generic_array_get_plus_one E (d_entry_offset (data_of d)) (d_entry_array_offset (data_of d)) i f =
      Some (Inr (Some (L (Of p) ! i)), cache_set cc f) \<and> seek_ok E L (cache_set cc f)"
proof -
  from ok have lay: "layout f" "mmap_ok E" "cache_ok f" and el: "entry_lists f L" by (simp_all add: seek_ok_def)
  then obtain A where A: "lists_ok (array_map f) (first_of f) (cnt_of f) A"
    "L (Of p) = extra_of f (Of p) @ elist (array_map f) (cnt_of f) A (Of p)" unfolding entry_lists_def by blast
  have dm: "data_map f p = Some (data_of d)" using d by (auto simp: data_map_of)
  have n: "d_n_entries (data_of d) = length (L (Of p))" by (rule cnt_length(2) [OF el d])
  let ?ys = "elist (array_map f) (cnt_of f) A (Of p)"
  have Lp: "L (Of p) = d_entry_offset (data_of d) # ?ys" using A(2) dm n i by (auto split: if_splits)
  have e: "set (L (Of p)) \<subseteq> dom (entry_map f)" using seek_ok_entries(1) [OF ok] by blast
  show ?thesis
  proof (cases i)
    case 0
    obtain ob where "journal_file_move_to_object E (Some OBJECT_ENTRY) (d_entry_offset (data_of d)) f = Some (Inr ob, f)"
      using entry_stored [OF lay(1,2)] e unfolding Lp by (metis insert_subset list.simps(15))
    with 0 Lp ok show ?thesis by (intro exI [of _ "chain_cache f"]) (simp add: generic_array_get_plus_one_def)
  next
    case (Suc j)
    have "j < cnt_of f (Of p)" using Suc i n dm by simp
    from generic_array_get_run [OF lay A(1) this] obtain cc where
      "generic_array_get E (first_of f (Of p)) j f = Some (Inr (Some (?ys ! j)), cache_set cc f)" "cache_ok (cache_set cc f)"
      using e unfolding Lp by auto
    with Suc Lp dm seek_ok_cache [OF ok] show ?thesis
      by (intro exI [of _ cc]) (simp add: generic_array_get_plus_one_def)
  qed
qed

text \<open>Reading changes nothing but the cache.\<close>

definition reading :: "env \<Rightarrow> (owner \<Rightarrow> nat list) \<Rightarrow> journal_file \<Rightarrow> journal_file \<Rightarrow> bool" where
  "reading E L g f \<longleftrightarrow> seek_ok E L f \<and> (\<exists>cc. f = cache_set cc g)"

lemma reading_same:
  assumes "reading E L g f"
  shows "seek_ok E L f" "store f = store g" "header f = header g" "entry_map f = entry_map g"
  using assms by (auto simp: reading_def)

lemma reading_cache: "reading E L g f \<Longrightarrow> seek_ok E L (cache_set cc f) \<Longrightarrow> reading E L g (cache_set cc f)"
  by (auto simp: reading_def)

lemma reading_refl: "seek_ok E L f \<Longrightarrow> reading E L f f"
  by (auto simp: reading_def intro: exI [of _ "chain_cache f"])

interpretation entries: entry_cursor
  "\<lambda>f. reading E L g f \<and> sorted (L Global)" "L Global"
  "\<lambda>p. generic_array_bisect E (entry_array_offset (header g)) (n_entries (header g)) p test_object_offset DIRECTION_DOWN"
  "generic_array_get E (entry_array_offset (header g))" for E L g
proof (unfold_locales, goal_cases)
  case (1 f p)
  then have r: "reading E L g f" and s: "sorted (map (\<lambda>x. x) (L Global))" by auto
  note ok = reading_same [OF r]
  from bisect_entries_run [OF ok(1) test_offset_ok [OF ok(1)] s, of p DIRECTION_DOWN] 1 show ?case
    by (auto simp: bisect_entries_def ok(3) intro: reading_cache [OF r])
next
  case (2 f i)
  then have r: "reading E L g f" by simp
  note ok = reading_same [OF r]
  from get_entry_run [OF ok(1) 2(2)] 2 show ?case by (auto simp: ok(3) intro: reading_cache [OF r])
qed simp

interpretation data_entries: entry_cursor
  "\<lambda>f. reading E L g f \<and> sorted (L (Of p)) \<and> store f p = Some d \<and> o_type d = OBJECT_DATA" "L (Of p)"
  "\<lambda>q. bisect_data E d q test_object_offset DIRECTION_DOWN"
  "generic_array_get_plus_one E (d_entry_offset (data_of d)) (d_entry_array_offset (data_of d))" for E L g p d
proof (unfold_locales, goal_cases)
  case (1 f q)
  then have r: "reading E L g f" and s: "sorted (map (\<lambda>x. x) (L (Of p)))"
    and d: "store f p = Some d" "o_type d = OBJECT_DATA" by auto
  note ok = reading_same [OF r]
  from bisect_data_run [OF ok(1) d test_offset_ok [OF ok(1)] s, of q DIRECTION_DOWN] 1 show ?case
    by (auto intro: reading_cache [OF r])
next
  case (2 f i)
  then have r: "reading E L g f" by simp
  from get_data_entry_run [OF reading_same(1) [OF r], of p d i] 2 show ?case by (auto intro: reading_cache [OF r])
qed simp

section \<open>Properties\<close>

subsection \<open>Moving to an entry\<close>

lemma strict_neighbour:
  assumes "sorted xs" "distinct xs" "i < length xs" "neighbour dir i xs = Some q"
  shows "if dir = DIRECTION_DOWN then xs ! i < q else q < xs ! i"
proof -
  have lt: "j < k \<Longrightarrow> k < length xs \<Longrightarrow> xs ! j < xs ! k" for j k
    using assms(1,2) strict_sorted_iff sorted_wrt_iff_nth_less by blast
  show ?thesis
    using assms(3,4) lt [of i "Suc i"] lt [of "i - 1" i] by (cases dir) (auto simp: neighbour_simps split: if_splits)
qed

lemma distinct_first: "distinct xs \<Longrightarrow> i < length xs \<Longrightarrow> j < i \<Longrightarrow> xs ! j \<noteq> xs ! i"
  by (simp add: nth_eq_iff_index_eq)

lemma next_entry_member:
  assumes r: "reading E L g f" and s: "sorted (L Global)" "distinct (L Global)" and i: "i < length (L Global)"
    and ob: "o_type ob = OBJECT_ENTRY"
  shows "\<exists>f'. journal_file_next_entry E (Some ob) (L Global ! i) dir f =
      Some (Inr (neighbour dir i (L Global)), f') \<and> reading E L g f'"
proof -
  note ok = reading_same [OF r]
  have n: "n_entries (header g) = length (L Global)"
    using cnt_length(1) [of f L] ok by (simp add: seek_ok_def)
  have p: "L Global ! i > 0" using seek_ok_entries(2) [OF ok(1)] i by (meson nth_mem)
  have n0: "0 < n_entries (header g)" using n i by linarith
  define M where "M = bindE (generic_array_bisect E (entry_array_offset (header g)) (n_entries (header g)) (L Global ! i)
          test_object_offset DIRECTION_DOWN)
        (\<lambda>r. returnE (case r of None \<Rightarrow> None | Some (q, i) \<Rightarrow> step_index dir (n_entries (header g)) i))"
  from entries.step [OF conjI [OF r s(1)] i distinct_first [OF s(2) i], of dir] obtain f1 f2 where
    st: "M f = Some (Inr (step_index dir (n_entries (header g)) i), f1)" "reading E L g f1"
    "(case step_index dir (n_entries (header g)) i of None \<Rightarrow> returnE None
        | Some j \<Rightarrow> generic_array_get E (entry_array_offset (header g)) j) f1 =
      Some (Inr (neighbour dir i (L Global)), f2)" "reading E L g f2" unfolding M_def n by blast
  have m: "thenE (guardE (o_type ob = OBJECT_ENTRY) EINVAL) M f = M f" using ob by simp
  define K where "K = (\<lambda>i'. case i' of
         None \<Rightarrow> returnE None
       | Some i' \<Rightarrow>
           bindE (getE header) (\<lambda>h.
           bindE (generic_array_get E (entry_array_offset h) i') (\<lambda>r.
           case r of
             None \<Rightarrow> returnE None
           | Some ofs \<Rightarrow>
               if L Global ! i > 0 \<and> (if dir = DIRECTION_DOWN then ofs \<le> L Global ! i else ofs \<ge> L Global ! i)
               then failE EBADMSG else returnE (Some ofs))))"
  have "journal_file_next_entry E (Some ob) (L Global ! i) dir f =
      bindE (thenE (guardE (o_type ob = OBJECT_ENTRY) EINVAL) M) K f"
    unfolding journal_file_next_entry_def M_def K_def Let_def using p n0 by (simp add: ok(3))
  then have eq: "journal_file_next_entry E (Some ob) (L Global ! i) dir f = K (step_index dir (n_entries (header g)) i) f1"
    using m st(1) by (simp add: bindE_def)
  show ?thesis
  proof (cases "step_index dir (n_entries (header g)) i")
    case None
    with st(2,3) show ?thesis unfolding eq by (auto simp: K_def)
  next
    case (Some j)
    then obtain q where q: "neighbour dir i (L Global) = Some q" by (simp add: neighbour_def n)
    from strict_neighbour [OF s i q] have "\<not> (if dir = DIRECTION_DOWN then q \<le> L Global ! i else q \<ge> L Global ! i)"
      by (cases dir) auto
    with st(3,4) Some q show ?thesis unfolding eq by (auto simp: K_def reading_same(3) [OF st(2)])
  qed
qed

lemma next_entry_start:
  assumes r: "reading E L g f"
  shows "\<exists>f'. journal_file_next_entry E None 0 dir f =
      Some (Inr (if L Global = [] then None else if dir = DIRECTION_DOWN then Some (hd (L Global)) else Some (last (L Global))), f') \<and>
    reading E L g f'"
proof -
  note ok = reading_same [OF r]
  have n: "n_entries (header g) = length (L Global)" using cnt_length(1) [of f L] ok by (simp add: seek_ok_def)
  show ?thesis
  proof (cases "L Global = []")
    case True
    then show ?thesis using r by (intro exI [of _ f]) (simp add: journal_file_next_entry_def ok(3) n)
  next
    case False
    define i where "i = (if dir = DIRECTION_DOWN then 0 else length (L Global) - 1)"
    have i: "i < length (L Global)" using False by (simp add: i_def)
    from get_entry_run [OF ok(1) i] obtain cc where
      "generic_array_get E (entry_array_offset (header g)) i f = Some (Inr (Some (L Global ! i)), cache_set cc f)"
      "reading E L g (cache_set cc f)" using reading_cache [OF r] unfolding ok(3) by blast
    moreover have "L Global ! i = (if dir = DIRECTION_DOWN then hd (L Global) else last (L Global))"
      using False by (simp add: i_def hd_conv_nth last_conv_nth)
    ultimately show ?thesis using False
      by (intro exI [of _ "cache_set cc f"]) (auto simp: journal_file_next_entry_def ok(3) n Let_def i_def split: if_splits)
  qed
qed

text \<open>
  C31: From an entry of a sound file, \<open>journal_file_next_entry\<close> moves to the neighbour in the order of the
  file, or reports that there is none; without a current entry it starts at the first or the last one.
  It always succeeds and changes nothing but the cache.
\<close>

theorem next_entry_correct:
  assumes "seek_ok E L f" and "sorted (L Global)" and "distinct (L Global)" and "i < length (L Global)"
    and "o_type ob = OBJECT_ENTRY"
  shows "(\<exists>f'. journal_file_next_entry E (Some ob) (L Global ! i) dir f =
      Some (Inr (neighbour dir i (L Global)), f') \<and> reading E L f f') \<and>
    (\<exists>f'. journal_file_next_entry E None 0 dir f =
      Some (Inr (Some (if dir = DIRECTION_DOWN then hd (L Global) else last (L Global))), f') \<and> reading E L f f')"
proof
  have "L Global \<noteq> []" using assms(4) by auto
  then show "\<exists>f'. journal_file_next_entry E None 0 dir f =
      Some (Inr (Some (if dir = DIRECTION_DOWN then hd (L Global) else last (L Global))), f') \<and> reading E L f f'"
    using next_entry_start [OF reading_refl [OF assms(1)], of dir] by (auto split: if_splits)
qed (rule next_entry_member [OF reading_refl [OF assms(1)] assms(2-)])

subsection \<open>Reading the whole file\<close>

text \<open>At most \<open>k\<close> steps from the current entry, as a reader does them.\<close>

primrec traverse :: "env \<Rightarrow> direction \<Rightarrow> nat \<Rightarrow> nat option \<Rightarrow> nat list jm" where
  "traverse E dir 0 cur = returnE []"
| "traverse E dir (Suc k) cur =
     bindE (bindE (getE (\<lambda>f. map_option (object_at f) cur)) (\<lambda>ob.
       journal_file_next_entry E ob (case cur of None \<Rightarrow> 0 | Some p \<Rightarrow> p) dir)) (\<lambda>r.
     case r of
       None \<Rightarrow> returnE []
     | Some q \<Rightarrow> bindE (traverse E dir k (Some q)) (\<lambda>qs. returnE (q # qs)))"

definition listed :: "direction \<Rightarrow> nat list \<Rightarrow> nat list" where
  "listed dir xs = (if dir = DIRECTION_DOWN then xs else rev xs)"

lemma listed_length [simp]: "length (listed dir xs) = length xs"
  by (simp add: listed_def)

lemma listed_neighbour:
  assumes "i < length xs" and "listed dir xs ! j = xs ! i" "distinct xs" "j < length xs"
  shows "neighbour dir i xs = (if Suc j < length xs then Some (listed dir xs ! Suc j) else None)"
proof (cases dir)
  case DIRECTION_UP
  with assms have "length xs - Suc j = i" by (simp add: listed_def rev_nth nth_eq_iff_index_eq)
  then show ?thesis using DIRECTION_UP assms(1,4) by (auto simp: neighbour_simps listed_def rev_nth)
next
  case DIRECTION_DOWN
  with assms have "j = i" by (simp add: listed_def nth_eq_iff_index_eq)
  then show ?thesis using DIRECTION_DOWN by (simp add: neighbour_simps listed_def)
qed

lemma traverse_from:
  assumes s: "sorted (L Global)" "distinct (L Global)"
  shows "reading E L g f \<Longrightarrow> j < length (L Global) \<Longrightarrow> length (L Global) - j \<le> k \<Longrightarrow>
    \<exists>f'. traverse E dir k (Some (listed dir (L Global) ! j)) f =
      Some (Inr (drop (Suc j) (listed dir (L Global))), f') \<and> reading E L g f'"
proof (induction k arbitrary: j f)
  case (Suc k)
  let ?xs = "L Global" and ?ys = "listed dir (L Global)"
  have "?ys ! j \<in> set ?xs" using Suc.prems(2) by (metis listed_def listed_length nth_mem set_rev)
  then obtain i where i: "i < length ?xs" "?xs ! i = ?ys ! j" by (auto simp: in_set_conv_nth)
  have ok: "seek_ok E L f" by (rule reading_same [OF Suc.prems(1)])
  have "?ys ! j \<in> dom (entry_map f)" by (rule seek_ok_entries(1) [OF ok \<open>?ys ! j \<in> set ?xs\<close>])
  then have ty: "o_type (object_at f (?ys ! j)) = OBJECT_ENTRY" by (auto simp: entry_map_Some object_at_def)
  obtain f1 where run: "journal_file_next_entry E (Some (object_at f (?ys ! j))) (?ys ! j) dir f =
      Some (Inr (if Suc j < length ?xs then Some (?ys ! Suc j) else None), f1)" "reading E L g f1"
    using next_entry_member [OF Suc.prems(1) s i(1) ty, of dir]
    unfolding listed_neighbour [OF i(1) i(2) [symmetric] s(2) Suc.prems(2)] i(2) by blast
  show ?case
  proof (cases "Suc j < length ?xs")
    case True
    have "length ?xs - Suc j \<le> k" using Suc.prems(3) by linarith
    from Suc.IH [OF run(2) True this] obtain f2 where
      "traverse E dir k (Some (?ys ! Suc j)) f1 = Some (Inr (drop (Suc (Suc j)) ?ys), f2)" "reading E L g f2" by blast
    moreover have "drop (Suc j) ?ys = ?ys ! Suc j # drop (Suc (Suc j)) ?ys"
      using True by (simp add: Cons_nth_drop_Suc)
    ultimately show ?thesis using run True by (intro exI [of _ f2]) simp
  next
    case False
    with run show ?thesis by (intro exI [of _ f1]) simp
  qed
qed simp

text \<open>
  C30: Reading a sound file from its beginning with \<open>journal_file_next_entry\<close> yields every entry exactly
  once in the order in which they were added, then stops; reading from its end yields the reverse.
\<close>

theorem traverse_complete:
  assumes "seek_ok E L f" and "sorted (L Global)" and "distinct (L Global)" and "length (L Global) < k"
  shows "\<exists>f'. traverse E dir k None f =
      Some (Inr (if dir = DIRECTION_DOWN then L Global else rev (L Global)), f') \<and> reading E L f f'"
proof -
  note r = reading_refl [OF assms(1)]
  obtain k' where k: "k = Suc k'" using assms(4) by (cases k) auto
  from next_entry_start [OF r, of dir] obtain f1 where run: "journal_file_next_entry E None 0 dir f =
      Some (Inr (if L Global = [] then None else if dir = DIRECTION_DOWN then Some (hd (L Global)) else Some (last (L Global))), f1)"
    "reading E L f f1" by blast
  show ?thesis
  proof (cases "L Global = []")
    case True
    with run show ?thesis by (intro exI [of _ f1]) (simp add: k)
  next
    case False
    let ?ys = "listed dir (L Global)"
    have hd: "?ys ! 0 = (if dir = DIRECTION_DOWN then hd (L Global) else last (L Global))"
      using False by (simp add: listed_def hd_conv_nth [symmetric] hd_rev)
    from traverse_from [OF assms(2,3) run(2), of 0 k' dir] False assms(4) k obtain f2 where
      "traverse E dir k' (Some (?ys ! 0)) f1 = Some (Inr (drop 1 ?ys), f2)" "reading E L f f2" by auto
    moreover have "?ys = ?ys ! 0 # drop 1 ?ys" using False by (cases ?ys) (auto simp: listed_def split: if_splits)
    moreover have "journal_file_next_entry E None 0 dir f = Some (Inr (Some (?ys ! 0)), f1)"
      using run(1) False hd by simp
    ultimately have "traverse E dir k None f = Some (Inr ?ys, f2)" unfolding k by simp
    with \<open>reading E L f f2\<close> show ?thesis unfolding listed_def by blast
  qed
qed

subsection \<open>Seeking\<close>


text \<open>The same for the wall clock time, as long as the clock did not go backwards between entries.\<close>

theorem move_to_entry_by_realtime_correct:
  assumes "seek_ok E L f" and "sorted (map (entry_key e_realtime f) (L Global))"
  shows "\<exists>f'. journal_file_move_to_entry_by_realtime E t dir f =
      Some (Inr (if dir = DIRECTION_UP \<and> chain_full f Global \<and> (\<forall>p\<in>set (L Global). entry_key e_realtime f p \<le> t)
                 then None else entry_found (entry_key e_realtime f) dir t (L Global)), f') \<and> seek_ok E L f'"
  unfolding journal_file_move_to_entry_by_realtime_def
  by (rule seek_by_run [OF assms(1) test_key_ok(2) [OF assms(1)] assms(2)])

text \<open>The same for the offset of the entry in the file.\<close>

theorem move_to_entry_by_offset_correct:
  assumes "seek_ok E L f" and "sorted (L Global)"
  shows "\<exists>f'. journal_file_move_to_entry_by_offset E p dir f =
      Some (Inr (if dir = DIRECTION_UP \<and> chain_full f Global \<and> (\<forall>q\<in>set (L Global). q \<le> p)
                 then None else entry_found (\<lambda>q. q) dir p (L Global)), f') \<and> seek_ok E L f'"
  unfolding journal_file_move_to_entry_by_offset_def
  using seek_by_run [OF assms(1) test_offset_ok [OF assms(1)]] assms(2) by simp

lemma seek_data_run:
  assumes ok: "seek_ok E L f" and d: "store f p = Some d" "o_type d = OBJECT_DATA"
    and t: "test_ok test key f (L (Of p))" and s: "sorted (map key (L (Of p)))"
  shows "\<exists>f'. with_data E p (\<lambda>d. offset_only (bisect_data E d needle test dir)) f =
      Some (Inr (if dir = DIRECTION_UP \<and> chain_full f (Of p) \<and> L (Of p) \<noteq> [] \<and> (\<forall>q\<in>set (L (Of p)). key q \<le> needle)
                 then Some (hd (L (Of p))) else entry_found key dir needle (L (Of p))), f') \<and> seek_ok E L f'"
proof -
  have mv: "journal_file_move_to_object E (Some OBJECT_DATA) p f = Some (Inr d, f)"
    using ok d by (intro move_to_object_stored) (auto simp: seek_ok_def)
  obtain cc where b: "bisect_data E d needle test dir f =
      Some (Inr (bisect_data_spec key (chain_full f (Of p)) dir needle (L (Of p))), cache_set cc f)"
    "seek_ok E L (cache_set cc f)"
    using bisect_data_run [OF assms] by blast
  then show ?thesis using mv
    by (intro exI [of _ "cache_set cc f"])
      (auto simp: with_data_def offset_only_def bisect_data_spec_def entry_found_seek [OF s])
qed


definition skip_index :: "nat \<Rightarrow> int \<Rightarrow> nat \<Rightarrow> nat" where
  "skip_index i skip n = nat (max 0 (min (int i + skip) (int n - 1)))"

lemma skip_index_eq:
  assumes "i < n" "\<bar>skip\<bar> < 2 ^ 63" "n \<le> 2 ^ 57"
  defines "j \<equiv> (if skip < 0 then if nat (- skip) \<ge> i then 0 else i - nat (- skip) else add64 i (nat skip))"
  shows "(if j \<ge> n then n - 1 else j) = skip_index i skip n"
proof -
  have "add64 i (nat skip) = i + nat skip" using assms(1-3) by (simp add: add64_def two64_def)
  then show ?thesis using assms(1) unfolding j_def skip_index_def by auto
qed

text \<open>
  C32: Skipping from the entry at index \<open>i\<close> moves by the given number of entries, and stops at the first
  and at the last entry.
\<close>

theorem skip_entry_correct:
  assumes "seek_ok E L f" and "sorted (L Global)" and "distinct (L Global)" and "i < length (L Global)"
    and "o_type ob = OBJECT_ENTRY" and "\<bar>skip\<bar> < 2 ^ 63" and "length (L Global) \<le> 2 ^ 57"
  shows "\<exists>f'. journal_file_skip_entry E ob (L Global ! i) skip f =
      Some (Inr (Some (L Global ! skip_index i skip (length (L Global)))), f') \<and> seek_ok E L f'"
proof -
  note r = reading_refl [OF assms(1)]
  have n: "n_entries (header f) = length (L Global)" using cnt_length(1) [of f L] assms(1) by (simp add: seek_ok_def)
  have p: "L Global ! i > 0" using seek_ok_entries(2) [OF assms(1)] assms(4) by (meson nth_mem)
  from entries.locate_member [OF conjI [OF r assms(2)] assms(4) distinct_first [OF assms(3,4)]] obtain f1 where
    l: "bisect_entries E (L Global ! i) test_object_offset DIRECTION_DOWN f = Some (Inr (Some (L Global ! i, i)), f1)"
    "reading E L f f1" by (auto simp: bisect_entries_def)
  let ?j = "skip_index i skip (length (L Global))"
  have j: "?j < length (L Global)" using assms(4) by (auto simp: skip_index_def)
  from entries.get_law [OF conjI [OF l(2) assms(2)] j] obtain f2 where
    g: "generic_array_get E (entry_array_offset (header f)) ?j f1 = Some (Inr (Some (L Global ! ?j)), f2)"
    "reading E L f f2" by blast
  have n0: "n_entries (header f) > 0" using n assms(4) by linarith
  have "journal_file_skip_entry E ob (L Global ! i) skip f =
      generic_array_get E (entry_array_offset (header f))
        (let j = (if skip < 0 then if nat (- skip) \<ge> i then 0 else i - nat (- skip) else add64 i (nat skip))
         in if j \<ge> n_entries (header f) then n_entries (header f) - 1 else j) f1"
    unfolding journal_file_skip_entry_def Let_def using p assms(5) l n0
    by (simp add: reading_same(3) [OF l(2)])
  also have "\<dots> = Some (Inr (Some (L Global ! ?j)), f2)"
    unfolding Let_def n skip_index_eq [OF assms(4,6,7)] by (rule g(1))
  finally show ?thesis using reading_same(1) [OF g(2)] by blast
qed

text \<open>
  From the entry at index \<open>i\<close> of a data object, given by its first occurrence there,
  \<open>journal_file_next_entry_for_data\<close> moves to the neighbour in the list of the object, or reports that
  there is none; without a current entry it starts at the first or the last one.
\<close>

theorem next_entry_for_data_correct:
  assumes "seek_ok E L f" and "store f p = Some d" and "o_type d = OBJECT_DATA" and "sorted (L (Of p))"
    and "i < length (L (Of p))" and "\<forall>j<i. L (Of p) ! j \<noteq> L (Of p) ! i" and "o_type ob = OBJECT_ENTRY"
  shows "(\<exists>f'. journal_file_next_entry_for_data E (Some ob) (L (Of p) ! i) p dir f =
      Some (Inr (neighbour dir i (L (Of p))), f') \<and> seek_ok E L f') \<and>
    (\<exists>f'. journal_file_next_entry_for_data E None 0 p dir f =
      Some (Inr (Some (if dir = DIRECTION_DOWN then hd (L (Of p)) else last (L (Of p)))), f') \<and> seek_ok E L f')"
proof
  let ?xs = "L (Of p)"
  have mv: "journal_file_move_to_object E (Some OBJECT_DATA) p f = Some (Inr d, f)"
    using assms(1-3) by (intro move_to_object_stored) (auto simp: seek_ok_def)
  have n: "d_n_entries (data_of d) = length ?xs" using cnt_length(2) [of f L p d] assms(1-3) by (simp add: seek_ok_def)
  have ne: "?xs \<noteq> []" using assms(5) by auto
  have q: "?xs ! i > 0" using seek_ok_entries(2) [OF assms(1)] assms(5) by (meson nth_mem)
  have ok: "reading E L f f \<and> sorted ?xs \<and> store f p = Some d \<and> o_type d = OBJECT_DATA"
    using reading_refl assms(1-4) by simp
  from data_entries.step [OF ok assms(5), of dir] assms(6) obtain f1 f2 where st:
    "bindE (bisect_data E d (?xs ! i) test_object_offset DIRECTION_DOWN)
        (\<lambda>r. returnE (case r of None \<Rightarrow> None | Some (q, i) \<Rightarrow> step_index dir (length ?xs) i)) f =
      Some (Inr (step_index dir (length ?xs) i), f1)" "reading E L f f1"
    "(case step_index dir (length ?xs) i of None \<Rightarrow> returnE None
        | Some j \<Rightarrow> generic_array_get_plus_one E (d_entry_offset (data_of d)) (d_entry_array_offset (data_of d)) j) f1 =
      Some (Inr (neighbour dir i ?xs), f2)" "reading E L f f2" by blast
  define M where "M = bindE (bisect_data E d (?xs ! i) test_object_offset DIRECTION_DOWN)
        (\<lambda>r. returnE (case r of None \<Rightarrow> None | Some (q, i) \<Rightarrow> step_index dir (d_n_entries (data_of d)) i))"
  have "0 < d_n_entries (data_of d)" using n ne by simp
  then have "journal_file_next_entry_for_data E (Some ob) (?xs ! i) p dir f =
      bindE (thenE (guardE (o_type ob = OBJECT_ENTRY) EINVAL) M)
        (\<lambda>i. case i of None \<Rightarrow> returnE None
         | Some j \<Rightarrow> generic_array_get_plus_one E (d_entry_offset (data_of d)) (d_entry_array_offset (data_of d)) j) f"
    unfolding journal_file_next_entry_for_data_def Let_def M_def using mv q by simp
  moreover have "thenE (guardE (o_type ob = OBJECT_ENTRY) EINVAL) M f = Some (Inr (step_index dir (length ?xs) i), f1)"
    using st(1) assms(7) unfolding M_def n by simp
  ultimately have "journal_file_next_entry_for_data E (Some ob) (?xs ! i) p dir f = Some (Inr (neighbour dir i ?xs), f2)"
    using st(3) by (simp add: bindE_def)
  with reading_same(1) [OF st(4)] show "\<exists>f'. journal_file_next_entry_for_data E (Some ob) (?xs ! i) p dir f =
      Some (Inr (neighbour dir i ?xs), f') \<and> seek_ok E L f'" by blast
  define k where "k = (if dir = DIRECTION_DOWN then 0 else length ?xs - 1)"
  have k: "k < length ?xs" "?xs ! k = (if dir = DIRECTION_DOWN then hd ?xs else last ?xs)"
    using ne by (auto simp: k_def hd_conv_nth last_conv_nth)
  from data_entries.get_law [OF ok k(1)] obtain f3 where g:
    "generic_array_get_plus_one E (d_entry_offset (data_of d)) (d_entry_array_offset (data_of d)) k f =
      Some (Inr (Some (?xs ! k)), f3)" "reading E L f f3" by blast
  have "journal_file_next_entry_for_data E None 0 p dir f = Some (Inr (Some (?xs ! k)), f3)"
    unfolding journal_file_next_entry_for_data_def Let_def using mv ne g(1) by (simp add: n k_def split: if_splits)
  with reading_same(1) [OF g(2)] k(2) show "\<exists>f'. journal_file_next_entry_for_data E None 0 p dir f =
      Some (Inr (Some (if dir = DIRECTION_DOWN then hd ?xs else last ?xs)), f') \<and> seek_ok E L f'" by auto
qed

section \<open>The order of entries\<close>

text \<open>
  Offsets never decrease in any list, and the sequence numbers of the file increase strictly up to
  the last one, which the header records.
\<close>

definition ordered :: "journal_file \<Rightarrow> (owner \<Rightarrow> nat list) \<Rightarrow> bool" where
  "ordered f L \<longleftrightarrow>
     (\<forall>w. sorted (L w)) \<and> distinct (L Global) \<and>
     sorted_wrt (<) (map (entry_key e_seqnum f) (L Global)) \<and>
     (\<forall>p\<in>set (L Global). entry_key e_seqnum f p \<le> tail_entry_seqnum (header f))"

lemma sorted_snoc_replicate: "sorted xs \<Longrightarrow> (\<And>x. x \<in> set xs \<Longrightarrow> x \<le> q) \<Longrightarrow> sorted (xs @ replicate n q)"
  by (auto simp: sorted_append)

lemma entry_added_ordered:
  assumes L: "entry_lists f L" and o: "ordered f L" and a: "entry_added E ts iovec c f L q f' L' c'"
    and n: "tail_entry_seqnum (header f) + 1 < two64" "\<And>k. c = Some k \<Longrightarrow> k + 1 < two64"
  shows "ordered f' L'" "entry_key e_seqnum f' q = tail_entry_seqnum (header f')"
    "last (L' Global) = q" "L' Global \<noteq> []"
proof -
  from a obtain items where em: "entry_map f' = (entry_map f)(q \<mapsto> entry_record (new_seqnum f c) ts
          (foldl (\<lambda>h x. h XOR jhash x) 0 iovec) (boot_id (header f)) (qsort_items items))"
    and new: "\<forall>p\<in>dom (entry_map f). p < q" and LG: "L' Global = L Global @ [q]"
    and LO: "\<And>p. L' (Of p) = L (Of p) @ replicate (count_list (map ei_object_offset items) p) q"
    and tail: "tail_entry_seqnum (header f') = new_seqnum f c" unfolding entry_added_def by blast
  have lt: "p < q" if "p \<in> set (L w)" for p w using that L new unfolding entry_lists_def by blast
  have k: "entry_key e_seqnum f' p = entry_key e_seqnum f p" if "p \<in> set (L w)" for p w
    using lt [OF that] em by (simp add: entry_key_def)
  show kq: "entry_key e_seqnum f' q = tail_entry_seqnum (header f')"
    using em tail by (simp add: entry_key_def entry_record_def)
  show "last (L' Global) = q" "L' Global \<noteq> []" by (simp_all add: LG)
  have big: "tail_entry_seqnum (header f) < new_seqnum f c"
    using n by (auto simp: new_seqnum_def add64_def two64_def split: option.split)
  have km: "map (entry_key e_seqnum f') (L Global) = map (entry_key e_seqnum f) (L Global)" using k by simp
  have "sorted (L' w)" for w
  proof (cases w)
    case Global
    then show ?thesis using sorted_snoc_replicate [of "L Global" q 1] o lt [of _ Global] LG by (auto simp: ordered_def less_imp_le)
  next
    case (Of p)
    then show ?thesis using sorted_snoc_replicate [of "L w" q] o lt [of _ w] LO by (auto simp: ordered_def less_imp_le)
  qed
  moreover have "distinct (L' Global)" using o lt [of q Global] by (auto simp: ordered_def LG)
  moreover have "sorted_wrt (<) (map (entry_key e_seqnum f') (L' Global))"
    unfolding LG map_append sorted_wrt_append km using o big kq by (auto simp: ordered_def tail intro: le_less_trans)
  moreover have "\<forall>p\<in>set (L' Global). entry_key e_seqnum f' p \<le> tail_entry_seqnum (header f')"
    using o big kq k [of _ Global] unfolding ordered_def LG tail by fastforce
  ultimately show "ordered f' L'" by (simp add: ordered_def)
qed

lemma find_last:
  assumes "sorted_wrt (<) (map key xs)" "xs \<noteq> []" "key (last xs) = (s :: nat)"
  shows "List.find (\<lambda>p. s \<le> key p) xs = Some (last xs)"
  using assms
proof (induction xs)
  case (Cons x xs)
  show ?case
  proof (cases "xs = []")
    case True
    then show ?thesis using Cons.prems by simp
  next
    case False
    then have "key x < s" using Cons.prems last_in_set [OF False] by auto
    then show ?thesis using Cons False by simp
  qed
qed simp

text \<open>
  C33: Appending an entry keeps the order: in every list the offsets do not decrease, and the sequence
  number of the new entry is larger than all others, as long as the counters do not overflow.
\<close>

theorem append_entry_keeps_order:
  assumes "entry_lists f L" and "ordered f L" and "file_ok E f" and "env_ok E" and "mmap_ok E" and "limited f"
    and "\<forall>x\<in>set iovec. data_adm E f x" and "length iovec < 2 ^ 57"
    and "tail_entry_seqnum (header f) + 1 < two64" and "\<forall>k. c = Some k \<longrightarrow> k + 1 < two64"
    and "journal_file_append_entry E now ts iovec (f, c) = Some (Inr q, (f', c'))"
  shows "\<exists>L'. entry_lists f' L' \<and> ordered f' L' \<and> L' Global = L Global @ [q]"
proof -
  from append_entry_run [OF assms(3,1,4-8) refl, where ts = ts and now = now and c = c] assms(11) obtain L' where
    L': "entry_lists f' L'" and a: "entry_added E (case ts of None \<Rightarrow> now | Some ts \<Rightarrow> ts) iovec c f L q f' L' c'" by auto
  have "L' Global = L Global @ [q]" using a by (auto simp: entry_added_def)
  with L' entry_added_ordered(1) [OF assms(1,2) a assms(9)] assms(10) show ?thesis by blast
qed


end
