(* ===== verification/Match_Tree.thy ===== *)
theory Match_Tree
  imports Seek_File
begin

text \<open>
  Matches of the journal reader (\<open>lib/sd-journal.c\<close>): \<open>match_is_valid\<close>, the tree that \<open>sd_journal_add_match\<close>,
  \<open>sd_journal_add_disjunction\<close> and \<open>sd_journal_add_conjunction\<close> build, and its meaning.  The specification
  is the documented formula (values of one field are alternatives, different fields have to hold
  together, and the two separators nest); the tree after any sequence of calls stands for it.
\<close>

section \<open>Match terms\<close>

text \<open>
  A tree of matches.  The children of a term are listed as the code links them: the newest comes first.
\<close>

datatype match =
    MATCH_DISCRETE bytes nat
  | MATCH_OR_TERM "match list"
  | MATCH_AND_TERM "match list"

definition startswith :: "bytes \<Rightarrow> bytes \<Rightarrow> bool" where
  "startswith s pre \<longleftrightarrow> take (length pre) s = pre"

text \<open>The loop over the characters of a match, up to the \<open>=\<close>; the flag says that it is not at the start.\<close>

fun match_valid_loop :: "bytes \<Rightarrow> bool \<Rightarrow> bool" where
  "match_valid_loop [] later = False"
| "match_valid_loop (c # cs) later =
     (if c = 0x3d then later
      else if c = 0x5f then match_valid_loop cs True
      else if c \<ge> 0x41 \<and> c \<le> 0x5a then match_valid_loop cs True
      else if c \<ge> 0x30 \<and> c \<le> 0x39 then match_valid_loop cs True
      else False)"

definition match_is_valid :: "bytes \<Rightarrow> bool" where
  "match_is_valid data =
     (if length data < 2 then False
      else if startswith data [0x5f, 0x5f] then False
      else match_valid_loop data False)"

text \<open>No \<open>=\<close> within the shorter of the two ends the program.\<close>

fun same_field :: "bytes \<Rightarrow> bytes \<Rightarrow> bool option" where
  "same_field (a # as) (b # bs) =
     (if a \<noteq> b then Some False else if a = 0x3d then Some True else same_field as bs)"
| "same_field _ _ = None"

section \<open>Adding matches\<close>

text \<open>
  The matches of a reader.  \<open>match_new\<close> puts a new term in front of the others of its parent, so that
  \<open>level1\<close> and \<open>level2\<close>, when they are set, point to the first term below the level above; only whether
  they are set is kept.
\<close>

record matches =
  level0 :: "match option"
  level1 :: bool
  level2 :: bool

definition no_matches :: matches where
  "no_matches = \<lparr>level0 = None, level1 = False, level2 = False\<rparr>"

fun terms :: "match \<Rightarrow> match list" where
  "terms (MATCH_DISCRETE d h) = []"
| "terms (MATCH_OR_TERM ms) = ms"
| "terms (MATCH_AND_TERM ms) = ms"

fun add_term :: "match \<Rightarrow> match \<Rightarrow> match" where
  "add_term m (MATCH_DISCRETE d h) = MATCH_DISCRETE d h"
| "add_term m (MATCH_OR_TERM ms) = MATCH_OR_TERM (m # ms)"
| "add_term m (MATCH_AND_TERM ms) = MATCH_AND_TERM (m # ms)"

fun on_first :: "(match \<Rightarrow> match) \<Rightarrow> match \<Rightarrow> match" where
  "on_first g (MATCH_DISCRETE d h) = MATCH_DISCRETE d h"
| "on_first g (MATCH_OR_TERM (m # ms)) = MATCH_OR_TERM (g m # ms)"
| "on_first g (MATCH_OR_TERM []) = MATCH_OR_TERM []"
| "on_first g (MATCH_AND_TERM (m # ms)) = MATCH_AND_TERM (g m # ms)"
| "on_first g (MATCH_AND_TERM []) = MATCH_AND_TERM []"

definition ensure_levels :: "matches \<Rightarrow> matches" where
  "ensure_levels j =
     (let j = (case level0 j of None \<Rightarrow> j\<lparr>level0 := Some (MATCH_AND_TERM [])\<rparr> | Some _ \<Rightarrow> j);
          j = (if level1 j then j else j\<lparr>level0 := map_option (add_term (MATCH_OR_TERM [])) (level0 j), level1 := True\<rparr>)
      in if level2 j then j
         else j\<lparr>level0 := map_option (on_first (add_term (MATCH_AND_TERM []))) (level0 j), level2 := True\<rparr>)"

text \<open>
  Looking for a place in the second level: the same match is there already, or there is an \<open>OR\<close> term at
  an index with a match for the same field, or neither.
\<close>

datatype place = AlreadyThere | AddTo nat | NewTerm

fun place_in_term :: "bytes \<Rightarrow> nat \<Rightarrow> nat \<Rightarrow> match list \<Rightarrow> place option" where
  "place_in_term data hash i [] = Some NewTerm"
| "place_in_term data hash i (MATCH_DISCRETE d h # l4) =
     (if h = hash \<and> d = data then Some AlreadyThere
      else case same_field data d of
             None \<Rightarrow> None
           | Some True \<Rightarrow> Some (AddTo i)
           | Some False \<Rightarrow> place_in_term data hash i l4)"
| "place_in_term data hash i (_ # l4) = None"

fun find_place :: "bytes \<Rightarrow> nat \<Rightarrow> nat \<Rightarrow> match list \<Rightarrow> place option" where
  "find_place data hash i [] = Some NewTerm"
| "find_place data hash i (l3 # rest) =
     (case place_in_term data hash i (terms l3) of
        Some NewTerm \<Rightarrow> find_place data hash (Suc i) rest
      | r \<Rightarrow> r)"

fun add_at :: "place \<Rightarrow> match \<Rightarrow> match \<Rightarrow> match" where
  "add_at NewTerm m (MATCH_AND_TERM ms) = MATCH_AND_TERM (MATCH_OR_TERM [m] # ms)"
| "add_at (AddTo i) m (MATCH_AND_TERM ms) = MATCH_AND_TERM (ms[i := add_term m (ms ! i)])"
| "add_at _ m t = t"

definition level2_terms :: "matches \<Rightarrow> match list" where
  "level2_terms j = (case level0 j of None \<Rightarrow> [] | Some t \<Rightarrow> terms (hd (terms (hd (terms t)))))"

text \<open>
  A size of 0 asks for the length of the string.  There is no result when the program is ended.  The
  value says whether a match was added.
\<close>

definition add_match :: "bytes \<Rightarrow> nat \<Rightarrow> matches \<Rightarrow> (bool res \<times> matches) option" where
  "add_match buf sz j =
     (let data = (if sz = 0 then takeWhile (\<lambda>c. c \<noteq> 0) buf else take sz buf) in
      if \<not> match_is_valid data then Some (Inl EINVAL, j)
      else
        let j = ensure_levels j; hash = jhash data in
        case find_place data hash 0 (level2_terms j) of
          None \<Rightarrow> None
        | Some AlreadyThere \<Rightarrow> Some (Inr False, j)
        | Some pl \<Rightarrow>
            Some (Inr True, j\<lparr>level0 := map_option (on_first (on_first (add_at pl (MATCH_DISCRETE data hash)))) (level0 j)\<rparr>))"

definition add_conjunction :: "matches \<Rightarrow> matches" where
  "add_conjunction j =
     (case level0 j of
        None \<Rightarrow> j
      | Some t \<Rightarrow>
          if \<not> level1 j then j
          else if terms (hd (terms t)) = [] then j
          else j\<lparr>level1 := False, level2 := False\<rparr>)"

definition add_disjunction :: "matches \<Rightarrow> matches" where
  "add_disjunction j =
     (case level0 j of
        None \<Rightarrow> j
      | Some t \<Rightarrow>
          if \<not> level1 j then j
          else if \<not> level2 j then j
          else if terms (hd (terms (hd (terms t)))) = [] then j
          else j\<lparr>level2 := False\<rparr>)"

text \<open>A readable form of the matches.  A term without matches has none.\<close>

fun join_strings :: "bytes \<Rightarrow> bytes list \<Rightarrow> bytes" where
  "join_strings sep [] = []"
| "join_strings sep [s] = s"
| "join_strings sep (s # t # ss) = s @ sep @ join_strings sep (t # ss)"

definition term_string :: "bytes \<Rightarrow> bytes option list \<Rightarrow> bytes option" where
  "term_string sep ts =
     (if ts = [] \<or> None \<in> set ts then None
      else let p = join_strings sep (map the ts)
           in Some (if length ts > 1 then ascii ''('' @ p @ ascii '')'' else p))"

fun match_make_string :: "match \<Rightarrow> bytes option" where
  "match_make_string (MATCH_DISCRETE d h) = Some (takeWhile (\<lambda>c. c \<noteq> 0) d)"
| "match_make_string (MATCH_OR_TERM ms) = term_string (ascii '' OR '') (map match_make_string ms)"
| "match_make_string (MATCH_AND_TERM ms) = term_string (ascii '' AND '') (map match_make_string ms)"

definition journal_make_match_string :: "matches \<Rightarrow> bytes option" where
  "journal_make_match_string j = (case level0 j of None \<Rightarrow> Some (ascii ''none'') | Some m \<Rightarrow> match_make_string m)"

section \<open>What matches mean\<close>

text \<open>Whether an entry with the given data satisfies a tree of matches.\<close>

fun sat :: "match \<Rightarrow> bytes set \<Rightarrow> bool" where
  "sat (MATCH_DISCRETE d h) S \<longleftrightarrow> d \<in> S"
| "sat (MATCH_OR_TERM ms) S \<longleftrightarrow> (\<exists>m\<in>set ms. sat m S)"
| "sat (MATCH_AND_TERM ms) S \<longleftrightarrow> ms \<noteq> [] \<and> (\<forall>m\<in>set ms. sat m S)"

definition field :: "bytes \<Rightarrow> bytes" where
  "field d = takeWhile (\<lambda>c. c \<noteq> 0x3d) d"

text \<open>
  The documented meaning: a conjunction of disjunctions of groups of matches.  An entry satisfies a
  group when for every field of the group it has one of the matches for this field.
\<close>

definition group_sat :: "bytes set \<Rightarrow> bytes set \<Rightarrow> bool" where
  "group_sat G S \<longleftrightarrow> (\<forall>d\<in>G. \<exists>e\<in>G. field e = field d \<and> e \<in> S)"

definition spec_sat :: "bytes set list list \<Rightarrow> bytes set \<Rightarrow> bool" where
  "spec_sat C S \<longleftrightarrow> (\<forall>D\<in>set C. \<exists>G\<in>set D. group_sat G S)"

datatype match_op = AddMatch bytes | AddConjunction | AddDisjunction

text \<open>
  The groups given by a sequence of calls, newest first, with two flags: whether the next match goes
  to the last disjunction, and to the last group.
\<close>

fun spec_op :: "match_op \<Rightarrow> bytes set list list \<times> bool \<times> bool \<Rightarrow> bytes set list list \<times> bool \<times> bool" where
  "spec_op (AddMatch d) (C, l1, l2) =
     (if \<not> match_is_valid d then (C, l1, l2)
      else if \<not> l1 \<or> C = [] then ([{d}] # C, True, True)
      else if \<not> l2 then (({d} # hd C) # tl C, True, True)
      else ((insert d (hd (hd C)) # tl (hd C)) # tl C, True, True))"
| "spec_op AddConjunction (C, l1, l2) = (C, False, False)"
| "spec_op AddDisjunction (C, l1, l2) = (C, l1, False)"

fun run_op :: "match_op \<Rightarrow> matches \<Rightarrow> matches option" where
  "run_op (AddMatch d) j = map_option snd (add_match d (length d) j)"
| "run_op AddConjunction j = Some (add_conjunction j)"
| "run_op AddDisjunction j = Some (add_disjunction j)"

primrec match_ops :: "match_op list \<Rightarrow> matches \<Rightarrow> matches option" where
  "match_ops [] j = Some j"
| "match_ops (c # cs) j = (case run_op c j of None \<Rightarrow> None | Some j' \<Rightarrow> match_ops cs j')"

lemma match_valid_loop_field: "match_valid_loop d b \<Longrightarrow> 0x3d \<in> set d"
  by (induction d b rule: match_valid_loop.induct) (auto split: if_splits)

lemma valid_field: "match_is_valid d \<Longrightarrow> 0x3d \<in> set d"
  using match_valid_loop_field by (auto simp: match_is_valid_def split: if_splits)

lemma same_field_eq:
  "0x3d \<in> set a \<Longrightarrow> 0x3d \<in> set b \<Longrightarrow> same_field a b = Some (field a = field b)"
  by (induction a b rule: same_field.induct) (auto simp: field_def)

abbreviation discrete :: "bytes \<Rightarrow> match" where "discrete d \<equiv> MATCH_DISCRETE d (jhash d)"
abbreviation or_term :: "bytes list \<Rightarrow> match" where "or_term ds \<equiv> MATCH_OR_TERM (map discrete ds)"
abbreviation group_term :: "bytes list list \<Rightarrow> match" where "group_term dss \<equiv> MATCH_AND_TERM (map or_term dss)"

text \<open>The matches of a group by fields.\<close>

definition one_field :: "bytes list \<Rightarrow> bool" where
  "one_field ds \<longleftrightarrow> ds \<noteq> [] \<and> (\<forall>d\<in>set ds. match_is_valid d \<and> field d = field (hd ds))"

lemma one_fieldD:
  assumes "one_field ds"
  shows "ds \<noteq> []" "d \<in> set ds \<Longrightarrow> match_is_valid d" "d \<in> set ds \<Longrightarrow> field d = field (hd ds)" "hd ds \<in> set ds"
  using assms unfolding one_field_def by (blast, blast, blast, simp)

lemma one_field_Cons: "one_field ds \<Longrightarrow> match_is_valid d \<Longrightarrow> field (hd ds) = field d \<Longrightarrow> one_field (d # ds)"
  unfolding one_field_def [of "d # ds"] using one_fieldD(2,3) by (metis list.distinct(1) list.sel(1) set_ConsD)

definition by_field :: "bytes list list \<Rightarrow> bool" where
  "by_field dss \<longleftrightarrow> dss \<noteq> [] \<and> (\<forall>ds\<in>set dss. one_field ds) \<and> distinct (map (\<lambda>ds. field (hd ds)) dss)"

definition members :: "bytes list list \<Rightarrow> bytes set" where
  "members dss = set (concat dss)"

lemma same_term:
  assumes "by_field dss" "ds \<in> set dss" "es \<in> set dss" "d \<in> set ds" "e \<in> set es" "field d = field e"
  shows "ds = es"
proof -
  have "one_field ds" "one_field es" using assms(1-3) by (auto simp: by_field_def)
  then have "field (hd ds) = field (hd es)" using one_fieldD(3) assms(4-6) by metis
  then show ?thesis using assms(1-3) unfolding by_field_def by (auto simp: distinct_map inj_on_def)
qed

lemma sat_group:
  assumes "by_field dss"
  shows "sat (group_term dss) S \<longleftrightarrow> group_sat (members dss) S"
proof
  assume l: "sat (group_term dss) S"
  have "\<exists>e\<in>members dss. field e = field d \<and> e \<in> S" if "d \<in> members dss" for d
  proof -
    from that obtain ds where ds: "ds \<in> set dss" "d \<in> set ds" by (auto simp: members_def)
    with l obtain e where "e \<in> set ds" "e \<in> S" by auto
    moreover have "field e = field d" using ds assms \<open>e \<in> set ds\<close> one_fieldD(3) by (metis by_field_def)
    ultimately show ?thesis using ds(1) by (auto simp: members_def)
  qed
  then show "group_sat (members dss) S" by (auto simp: group_sat_def)
next
  assume r: "group_sat (members dss) S"
  have "\<exists>e\<in>set ds. e \<in> S" if ds: "ds \<in> set dss" for ds
  proof -
    have "hd ds \<in> set ds" using ds assms one_fieldD(4) by (auto simp: by_field_def)
    moreover from this have "hd ds \<in> members dss" using ds by (auto simp: members_def)
    ultimately obtain e where e: "e \<in> members dss" "field e = field (hd ds)" "e \<in> S"
      using r unfolding group_sat_def by blast
    then obtain es where "es \<in> set dss" "e \<in> set es" by (auto simp: members_def)
    with same_term [OF assms ds _ \<open>hd ds \<in> set ds\<close>, of es e] e show ?thesis by auto
  qed
  then show "sat (group_term dss) S" using assms by (auto simp: by_field_def)
qed

lemma place_in_term_run:
  assumes "match_is_valid data" "\<forall>d\<in>set ds. match_is_valid d"
  shows "place_in_term data (jhash data) i (map discrete ds) =
    Some (case List.find (\<lambda>d. d = data \<or> field d = field data) ds of
            None \<Rightarrow> NewTerm | Some d \<Rightarrow> if d = data then AlreadyThere else AddTo i)"
  using assms(2)
proof (induction ds)
  case (Cons d ds)
  then have "same_field data d = Some (field data = field d)"
    using same_field_eq valid_field assms(1) by auto
  with Cons show ?case by auto
qed simp

definition place_ok :: "bytes \<Rightarrow> bytes list list \<Rightarrow> nat \<Rightarrow> place \<Rightarrow> bool" where
  "place_ok data dss k pl \<longleftrightarrow>
     (case pl of
        AlreadyThere \<Rightarrow> data \<in> members dss
      | AddTo i \<Rightarrow> k \<le> i \<and> i - k < length dss \<and> field (hd (dss ! (i - k))) = field data
      | NewTerm \<Rightarrow> \<forall>ds\<in>set dss. field (hd ds) \<noteq> field data)"

lemma find_place_run:
  assumes v: "match_is_valid data"
  shows "\<forall>ds\<in>set dss. one_field ds \<Longrightarrow>
    \<exists>pl. find_place data (jhash data) k (map or_term dss) = Some pl \<and> place_ok data dss k pl"
proof (induction dss arbitrary: k)
  case (Cons ds dss)
  then have o: "one_field ds" by simp
  then have vs: "\<forall>d\<in>set ds. match_is_valid d" using one_fieldD(2) by blast
  note p = place_in_term_run [OF v vs, of k]
  show ?case
  proof (cases "List.find (\<lambda>d. d = data \<or> field d = field data) ds")
    case None
    then have n: "field (hd ds) \<noteq> field data" using one_fieldD(4) [OF o] by (auto simp: find_None_iff)
    obtain pl where pl: "find_place data (jhash data) (Suc k) (map or_term dss) = Some pl" "place_ok data dss (Suc k) pl"
      using Cons by auto
    moreover have "place_ok data (ds # dss) k pl"
    proof (cases pl)
      case (AddTo i)
      then have "i - k = Suc (i - Suc k)" "k \<le> i" using pl(2) by (auto simp: place_ok_def)
      with AddTo pl(2) show ?thesis by (auto simp: place_ok_def)
    qed (use pl(2) n in \<open>auto simp: place_ok_def members_def\<close>)
    ultimately show ?thesis using None by (simp add: p)
  next
    case (Some d)
    then have d: "d \<in> set ds" "d = data \<or> field d = field data"
      by (auto simp: find_Some_iff)
    then have "place_ok data (ds # dss) k (if d = data then AlreadyThere else AddTo k)"
      using one_fieldD(3) [OF o] by (auto simp: place_ok_def members_def)
    with Some show ?thesis by (auto simp: p)
  qed
qed (simp add: place_ok_def)

text \<open>What is added to a group.\<close>

lemma add_at_run:
  assumes g: "by_field dss \<or> dss = []" and v: "match_is_valid data" and pl: "place_ok data dss 0 pl" "pl \<noteq> AlreadyThere"
  shows "\<exists>dss'. add_at pl (discrete data) (group_term dss) = group_term dss' \<and> by_field dss' \<and>
    members dss' = insert data (members dss)"
proof (cases pl)
  case NewTerm
  then have "by_field ([data] # dss)" using g v pl by (auto simp: by_field_def place_ok_def one_field_def [of "[data]"])
  with NewTerm show ?thesis by (intro exI [of _ "[data] # dss"]) (auto simp: members_def)
next
  case (AddTo i)
  then have i: "i < length dss" "field (hd (dss ! i)) = field data" using pl by (auto simp: place_ok_def)
  then have g: "by_field dss" using g by auto
  let ?dss = "dss[i := data # dss ! i]"
  have m: "map (\<lambda>ds. field (hd ds)) ?dss = map (\<lambda>ds. field (hd ds)) dss"
    using i by (simp add: list_eq_iff_nth_eq nth_list_update)
  have "one_field (data # dss ! i)" using g i v by (intro one_field_Cons) (auto simp: by_field_def)
  then have "by_field ?dss"
    unfolding by_field_def m using g set_update_subset_insert [of dss i "data # dss ! i"] by (auto simp: by_field_def)
  moreover have "members ?dss = insert data (members dss)"
  proof -
    have "set ?dss = insert (data # dss ! i) (set (take i dss) \<union> set (drop (Suc i) dss))"
      using i(1) by (auto simp: upd_conv_take_nth_drop)
    moreover have "set dss = insert (dss ! i) (set (take i dss) \<union> set (drop (Suc i) dss))"
      using id_take_nth_drop [OF i(1)] by (metis Un_insert_right list.simps(15) set_append)
    ultimately show ?thesis by (auto simp: members_def)
  qed
  moreover have "add_at pl (discrete data) (group_term dss) = group_term ?dss"
    using AddTo i by (simp add: map_update)
  ultimately show ?thesis by blast
qed (use pl in simp)

abbreviation formula :: "bytes list list list list \<Rightarrow> match" where
  "formula C \<equiv> MATCH_AND_TERM (map (\<lambda>D. MATCH_OR_TERM (map group_term D)) C)"

text \<open>The tree of a reader stands for groups that are sorted by field.\<close>

definition stands_for :: "matches \<Rightarrow> bytes list list list list \<Rightarrow> bool" where
  "stands_for j C \<longleftrightarrow> level0 j = (if C = [] then None else Some (formula C)) \<and>
     (\<forall>D\<in>set C. D \<noteq> [] \<and> (\<forall>g\<in>set D. by_field g)) \<and> (level1 j \<longrightarrow> C \<noteq> []) \<and> (level2 j \<longrightarrow> level1 j)"

definition place_of :: "matches \<Rightarrow> bytes list list list list \<Rightarrow> bytes list list \<times> bytes list list list \<times> bytes list list list list" where
  "place_of j C =
     (if \<not> level1 j then ([], [], C)
      else if \<not> level2 j then ([], hd C, tl C) else (hd (hd C), tl (hd C), tl C))"

lemma ensure_levels_run:
  assumes "stands_for j C" and "place_of j C = (g, gs, Ds)"
  shows "level0 (ensure_levels j) = Some (formula ((g # gs) # Ds))" "level1 (ensure_levels j)" "level2 (ensure_levels j)"
    "by_field g \<or> g = []" "\<forall>g\<in>set gs. by_field g" "\<forall>D\<in>set Ds. D \<noteq> [] \<and> (\<forall>g\<in>set D. by_field g)"
proof -
  have c: "level1 j \<Longrightarrow> \<exists>g' gs' Ds'. C = (g' # gs') # Ds'"
    using assms(1) unfolding stands_for_def by (metis list.exhaust list.set_intros(1))
  show "level0 (ensure_levels j) = Some (formula ((g # gs) # Ds))" "level1 (ensure_levels j)" "level2 (ensure_levels j)"
    using assms c by (cases C; auto simp: stands_for_def place_of_def ensure_levels_def Let_def split: if_splits)+
  show "by_field g \<or> g = []" "\<forall>g\<in>set gs. by_field g" "\<forall>D\<in>set Ds. D \<noteq> [] \<and> (\<forall>g\<in>set D. by_field g)"
    using assms c by (auto simp: stands_for_def place_of_def split: if_splits)
qed

lemma add_match_run:
  assumes C: "stands_for j C" and v: "match_is_valid d"
  obtains added j' g gs Ds g' where "add_match d (length d) j = Some (Inr added, j')"
    "place_of j C = (g, gs, Ds)" "stands_for j' ((g' # gs) # Ds)" "members g' = insert d (members g)" "level1 j'" "level2 j'"
proof -
  obtain g gs Ds where p: "place_of j C = (g, gs, Ds)" by (cases "place_of j C") auto
  note e = ensure_levels_run [OF C p]
  let ?j = "ensure_levels j"
  have data: "d \<noteq> []" using v by (auto simp: match_is_valid_def)
  have l2: "level2_terms ?j = map or_term g" using e(1) by (simp add: level2_terms_def)
  have "\<forall>ds\<in>set g. one_field ds" using e(4) by (auto simp: by_field_def)
  then obtain pl where pl: "find_place d (jhash d) 0 (map or_term g) = Some pl" "place_ok d g 0 pl"
    using find_place_run [OF v, of g 0] by blast
  show thesis
  proof (cases "pl = AlreadyThere")
    case True
    then have "add_match d (length d) j = Some (Inr False, ?j)"
      using v pl(1) by (simp add: add_match_def data Let_def l2)
    moreover have m: "d \<in> members g" using True pl(2) by (simp add: place_ok_def)
    then have "by_field g" using e(4) by (auto simp: members_def)
    then have "stands_for ?j ((g # gs) # Ds)" using e by (simp add: stands_for_def)
    ultimately show thesis using that [of False ?j g gs Ds g] p e(2,3) m by (simp add: insert_absorb)
  next
    case False
    let ?j' = "?j\<lparr>level0 := map_option (on_first (on_first (add_at pl (discrete d)))) (level0 ?j)\<rparr>"
    obtain g' where g': "add_at pl (discrete d) (group_term g) = group_term g'" "by_field g'" "members g' = insert d (members g)"
      using add_at_run [OF e(4) v pl(2) False] by blast
    have "add_match d (length d) j = Some (Inr True, ?j')"
      using v pl(1) False by (cases pl) (simp_all add: add_match_def data Let_def l2)
    moreover have "stands_for ?j' ((g' # gs) # Ds)" using e g' by (simp add: stands_for_def)
    ultimately show thesis using that [of True ?j' g gs Ds g'] p e(2,3) g'(3) by simp
  qed
qed

definition abs_groups :: "matches \<Rightarrow> bytes list list list list \<Rightarrow> bytes set list list \<times> bool \<times> bool" where
  "abs_groups j C = (map (map members) C, level1 j, level2 j)"

lemma run_op_step:
  assumes C: "stands_for j C"
  shows "\<exists>j' C'. run_op c j = Some j' \<and> stands_for j' C' \<and> abs_groups j' C' = spec_op c (abs_groups j C)"
proof (cases c)
  case (AddMatch d)
  show ?thesis
  proof (cases "match_is_valid d")
    case False
    then have "add_match d (length d) j = Some (Inl EINVAL, j)"
      by (cases d) (auto simp: add_match_def Let_def match_is_valid_def)
    with False C AddMatch show ?thesis by (auto simp: abs_groups_def)
  next
    case True
    obtain added j' g gs Ds g' where r: "add_match d (length d) j = Some (Inr added, j')"
      "place_of j C = (g, gs, Ds)" "stands_for j' ((g' # gs) # Ds)" "members g' = insert d (members g)" "level1 j'" "level2 j'"
      by (rule add_match_run [OF C True])
    have c: "level1 j \<Longrightarrow> \<exists>g' gs' Ds'. C = (g' # gs') # Ds'"
      using C unfolding stands_for_def by (metis list.exhaust list.set_intros(1))
    have "abs_groups j' ((g' # gs) # Ds) = spec_op c (abs_groups j C)"
      using r(2,4-6) c True AddMatch
      by (cases "level1 j"; cases "level2 j") (auto simp: abs_groups_def place_of_def members_def)
    with r(1,3) AddMatch show ?thesis by auto
  qed
next
  case AddConjunction
  have "level1 j \<Longrightarrow> \<exists>g' gs' Ds'. C = (g' # gs') # Ds'"
    using C unfolding stands_for_def by (metis list.exhaust list.set_intros(1))
  then have "stands_for (add_conjunction j) C \<and>
      abs_groups (add_conjunction j) C = spec_op c (abs_groups j C)"
    using C AddConjunction by (auto simp: stands_for_def add_conjunction_def abs_groups_def)
  with AddConjunction show ?thesis by auto
next
  case AddDisjunction
  have "level1 j \<Longrightarrow> \<exists>g' gs' Ds'. C = (g' # gs') # Ds' \<and> by_field g'"
    using C unfolding stands_for_def by (metis list.exhaust list.set_intros(1))
  then have "stands_for (add_disjunction j) C \<and>
      abs_groups (add_disjunction j) C = spec_op c (abs_groups j C)"
    using C AddDisjunction by (auto simp: stands_for_def add_disjunction_def abs_groups_def by_field_def)
  with AddDisjunction show ?thesis by auto
qed

lemma match_ops_run:
  "stands_for j C \<Longrightarrow> \<exists>j' C'. match_ops cs j = Some j' \<and> stands_for j' C' \<and> abs_groups j' C' = fold spec_op cs (abs_groups j C)"
proof (induction cs arbitrary: j C)
  case (Cons c cs)
  from run_op_step [OF Cons.prems, of c] obtain j1 C1 where
    1: "run_op c j = Some j1" "stands_for j1 C1" "abs_groups j1 C1 = spec_op c (abs_groups j C)" by blast
  from Cons.IH [OF 1(2)] 1 show ?case by auto
qed auto

lemma sat_formula:
  assumes "\<forall>D\<in>set C. D \<noteq> [] \<and> (\<forall>g\<in>set D. by_field g)" "C \<noteq> []"
  shows "sat (formula C) S \<longleftrightarrow> spec_sat (map (map members) C) S"
  using assms sat_group by (fastforce simp: spec_sat_def)

text \<open>
  C17: Whatever sequence of matches, conjunctions and disjunctions a client adds, the calls return, and
  the tree that is built means what is documented: in each group, matches for the same field are
  alternatives and different fields must all match; groups are joined by disjunctions, and these by
  conjunctions.  Strings that are not valid matches change nothing.
\<close>

theorem match_tree_correct:
  "\<exists>j. match_ops cs no_matches = Some j \<and>
    (case level0 j of
       None \<Rightarrow> fst (fold spec_op cs ([], False, False)) = []
     | Some t \<Rightarrow> \<forall>S. sat t S = spec_sat (fst (fold spec_op cs ([], False, False))) S)"
proof -
  have "stands_for no_matches []" by (simp add: stands_for_def no_matches_def)
  from match_ops_run [OF this, of cs] obtain j C where
    j: "match_ops cs no_matches = Some j" "stands_for j C" "abs_groups j C = fold spec_op cs ([], False, False)"
    by (auto simp: abs_groups_def no_matches_def)
  then have "fst (fold spec_op cs ([], False, False)) = map (map members) C" by (metis abs_groups_def fst_conv)
  with j(1,2) sat_formula [of C] show ?thesis by (intro exI [of _ j]) (auto simp: stands_for_def)
qed

end
