(* ===== verification/Match_Search.thy ===== *)
theory Match_Search
  imports Match_Tree
begin

text \<open>
  Searching one file for a tree of matches: \<open>next_for_match\<close>, \<open>find_location_for_match\<close> and the two
  functions with the tree of the reader (\<open>lib/sd-journal.c\<close>).  The locale \<open>searcher\<close> is the contract of a
  search for the next entry of a set; the loop over alternatives and the round trip over conjuncts are
  proved against it and give the contract of the tree from those of its leaves.
\<close>

section \<open>Locations\<close>

datatype location_type = LOCATION_HEAD | LOCATION_TAIL | LOCATION_DISCRETE | LOCATION_SEEK

record location =
  loc_type :: location_type
  seqnum_set :: bool
  realtime_set :: bool
  monotonic_set :: bool
  xor_hash_set :: bool
  loc_seqnum :: nat
  loc_seqnum_id :: bytes
  loc_realtime :: nat
  loc_monotonic :: nat
  loc_boot_id :: bytes
  loc_xor_hash :: nat

section \<open>Searching a file for a match\<close>

definition next_child :: "nat \<Rightarrow> nat \<Rightarrow> nat" where
  "next_child n i = (if Suc i < n then Suc i else 0)"

text \<open>
  The loops over the terms below a term, each given by its search function: the closest result for \<open>OR\<close>
  (0 is no result), and the round for \<open>AND\<close> that goes on until all agree.
\<close>

fun or_loop :: "direction \<Rightarrow> nat option jm list \<Rightarrow> nat \<Rightarrow> nat jm" where
  "or_loop dir [] np = returnE np"
| "or_loop dir (s # ss) np =
     bindE s (\<lambda>r.
     or_loop dir ss (case r of
         None \<Rightarrow> np
       | Some cp \<Rightarrow> if np = 0 \<or> (if dir = DIRECTION_DOWN then cp < np else cp > np) then cp else np))"

partial_function (option) and_loop ::
  "(nat \<Rightarrow> nat option jm) list \<Rightarrow> direction \<Rightarrow> nat \<Rightarrow> nat \<Rightarrow> nat \<Rightarrow> journal_file \<Rightarrow> (nat option res \<times> journal_file) option" where
  "and_loop ss dir i last_moved np f =
     (if i = last_moved then Some (Inr (Some np), f)
      else
        case (ss ! i) np f of
          None \<Rightarrow> None
        | Some (Inl e, f) \<Rightarrow> Some (Inl e, f)
        | Some (Inr None, f) \<Rightarrow> Some (Inr None, f)
        | Some (Inr (Some cp), f) \<Rightarrow>
            if \<not> (if dir = DIRECTION_DOWN then cp \<ge> np else cp \<le> np) then None
            else if (if dir = DIRECTION_DOWN then cp > np else cp < np)
            then and_loop ss dir (next_child (length ss) i) i cp f
            else and_loop ss dir (next_child (length ss) i) last_moved np f)"

definition move_to_entry :: "env \<Rightarrow> nat \<Rightarrow> nat option jm" where
  "move_to_entry E np =
     thenE (assertE (np > 0))
     (thenE (journal_file_move_to_object E (Some OBJECT_ENTRY) np) (returnE (Some np)))"

fun next_for_match :: "env \<Rightarrow> direction \<Rightarrow> match \<Rightarrow> nat \<Rightarrow> nat option jm" where
  "next_for_match E dir (MATCH_DISCRETE data hash) after_offset =
     bindE (journal_file_find_data_object_with_hash E data hash) (\<lambda>r.
     case r of
       None \<Rightarrow> returnE None
     | Some dp \<Rightarrow> journal_file_move_to_entry_by_offset_for_data E dp after_offset dir)"
| "next_for_match E dir (MATCH_OR_TERM ms) after_offset =
     bindE (or_loop dir (map (\<lambda>m. next_for_match E dir m after_offset) ms) 0) (\<lambda>np.
     if np = 0 then returnE None else move_to_entry E np)"
| "next_for_match E dir (MATCH_AND_TERM ms) after_offset =
     (let ss = map (\<lambda>m a. next_for_match E dir m a) ms in
      if ms = [] then returnE None
      else
        bindE (hd ss after_offset) (\<lambda>r.
        case r of
          None \<Rightarrow> returnE None
        | Some np \<Rightarrow>
            thenE (assertE (if dir = DIRECTION_DOWN then np \<ge> after_offset else np \<le> after_offset))
            (bindE (and_loop ss dir (next_child (length ss) 0) 0 np) (\<lambda>r.
             case r of None \<Rightarrow> returnE None | Some np \<Rightarrow> move_to_entry E np))))"

fun all_loop :: "direction \<Rightarrow> nat option jm list \<Rightarrow> nat \<Rightarrow> nat option jm" where
  "all_loop dir [] np = returnE (Some np)"
| "all_loop dir (s # ss) np =
     bindE s (\<lambda>r.
     case r of
       None \<Rightarrow> returnE None
     | Some cp \<Rightarrow>
         all_loop dir ss (if np = 0 \<or> (if dir = DIRECTION_DOWN then cp > np else cp < np) then cp else np))"

text \<open>A call whose result is used unless it is \<open>ENOENT\<close>.\<close>

definition unless_ENOENT :: "'a jm \<Rightarrow> 'a jm \<Rightarrow> 'a jm" where
  "unless_ENOENT m k = (\<lambda>f. case m f of Some (Inl e, f') \<Rightarrow> if e = ENOENT then k f' else Some (Inl e, f') | r \<Rightarrow> r)"

definition find_location_for_data :: "env \<Rightarrow> location \<Rightarrow> direction \<Rightarrow> nat \<Rightarrow> nat option jm" where
  "find_location_for_data E l dir dp =
     (if loc_type l = LOCATION_HEAD then journal_file_next_entry_for_data E None 0 dp DIRECTION_DOWN
      else if loc_type l = LOCATION_TAIL then journal_file_next_entry_for_data E None 0 dp DIRECTION_UP
      else bindE (getE (\<lambda>f. seqnum_id (header f))) (\<lambda>sid.
        if seqnum_set l \<and> uuid_equal (loc_seqnum_id l) sid
        then journal_file_move_to_entry_by_seqnum_for_data E dp (loc_seqnum l) dir
        else
          (let rest = (if realtime_set l
                       then journal_file_move_to_entry_by_realtime_for_data E dp (loc_realtime l) dir
                       else journal_file_next_entry_for_data E None 0 dp dir)
           in if monotonic_set l
              then unless_ENOENT
                     (journal_file_move_to_entry_by_monotonic_for_data E dp (loc_boot_id l) (loc_monotonic l) dir) rest
              else rest)))"

fun find_location_for_match :: "env \<Rightarrow> location \<Rightarrow> direction \<Rightarrow> match \<Rightarrow> nat option jm" where
  "find_location_for_match E l dir (MATCH_DISCRETE data hash) =
     bindE (journal_file_find_data_object_with_hash E data hash) (\<lambda>r.
     case r of
       None \<Rightarrow> returnE None
     | Some dp \<Rightarrow> find_location_for_data E l dir dp)"
| "find_location_for_match E l dir (MATCH_OR_TERM ms) =
     bindE (or_loop dir (map (find_location_for_match E l dir) ms) 0) (\<lambda>np.
     if np = 0 then returnE None
     else thenE (journal_file_move_to_object E (Some OBJECT_ENTRY) np) (returnE (Some np)))"
| "find_location_for_match E l dir (MATCH_AND_TERM ms) =
     (if ms = [] then returnE None
      else
        bindE (all_loop dir (map (find_location_for_match E l dir) ms) 0) (\<lambda>r.
        case r of
          None \<Rightarrow> returnE None
        | Some np \<Rightarrow> next_for_match E dir (MATCH_AND_TERM ms) np))"

definition find_location_with_matches :: "env \<Rightarrow> location \<Rightarrow> match option \<Rightarrow> direction \<Rightarrow> nat option jm" where
  "find_location_with_matches E l lv0 dir =
     (case lv0 of
        None \<Rightarrow>
          if loc_type l = LOCATION_HEAD then journal_file_next_entry E None 0 DIRECTION_DOWN
          else if loc_type l = LOCATION_TAIL then journal_file_next_entry E None 0 DIRECTION_UP
          else bindE (getE (\<lambda>f. seqnum_id (header f))) (\<lambda>sid.
            if seqnum_set l \<and> uuid_equal (loc_seqnum_id l) sid
            then journal_file_move_to_entry_by_seqnum E (loc_seqnum l) dir
            else
              (let rest = (if realtime_set l then journal_file_move_to_entry_by_realtime E (loc_realtime l) dir
                           else journal_file_next_entry E None 0 dir)
               in if monotonic_set l
                  then unless_ENOENT (journal_file_move_to_entry_by_monotonic E (loc_boot_id l) (loc_monotonic l) dir) rest
                  else rest))
      | Some m \<Rightarrow> find_location_for_match E l dir m)"

definition next_with_matches :: "env \<Rightarrow> match option \<Rightarrow> direction \<Rightarrow> nat \<Rightarrow> nat option jm" where
  "next_with_matches E lv0 dir cp =
     (case lv0 of
        None \<Rightarrow> bindE (getE (\<lambda>f. object_at f cp)) (\<lambda>c. journal_file_next_entry E (Some c) cp dir)
      | Some m \<Rightarrow> next_for_match E dir m (if dir = DIRECTION_DOWN then add64 cp 1 else sub64 cp 1))"

section \<open>Searching for the next member of a set\<close>

definition before :: "direction \<Rightarrow> nat \<Rightarrow> nat \<Rightarrow> bool" where
  "before dir a b = (if dir = DIRECTION_DOWN then a \<le> b else b \<le> a)"

lemma before_order:
  "before dir a a" "before dir a b \<Longrightarrow> before dir b c \<Longrightarrow> before dir a c" "before dir a b \<or> before dir b a"
  "before dir a b \<Longrightarrow> before dir b a \<Longrightarrow> a = b"
  by (auto simp: before_def split: if_splits)

definition next_in :: "direction \<Rightarrow> nat \<Rightarrow> nat set \<Rightarrow> nat option" where
  "next_in dir a A =
     (let B = {p \<in> A. before dir a p} in
      if B = {} then None else Some (if dir = DIRECTION_DOWN then Min B else Max B))"

lemma next_in_iff:
  assumes "finite A"
  shows "next_in dir a A = None \<longleftrightarrow> (\<forall>q\<in>A. \<not> before dir a q)"
    and "next_in dir a A = Some p \<longleftrightarrow> p \<in> A \<and> before dir a p \<and> (\<forall>q\<in>A. before dir a q \<longrightarrow> before dir p q)"
proof -
  let ?B = "{p \<in> A. before dir a p}"
  show "next_in dir a A = None \<longleftrightarrow> (\<forall>q\<in>A. \<not> before dir a q)" by (auto simp: next_in_def Let_def)
  have f: "finite ?B" using assms by simp
  show "next_in dir a A = Some p \<longleftrightarrow> p \<in> A \<and> before dir a p \<and> (\<forall>q\<in>A. before dir a q \<longrightarrow> before dir p q)"
  proof (cases "?B = {}")
    case True
    then show ?thesis by (auto simp: next_in_def Let_def)
  next
    case False
    have "Min ?B = p \<longleftrightarrow> p \<in> ?B \<and> (\<forall>q\<in>?B. p \<le> q)" "Max ?B = p \<longleftrightarrow> p \<in> ?B \<and> (\<forall>q\<in>?B. q \<le> p)"
      using Min_eq_iff [OF f False] Max_eq_iff [OF f False] by auto
    with False show ?thesis by (cases dir) (auto simp: next_in_def Let_def before_def)
  qed
qed

lemma next_in_empty [simp]: "next_in dir a {} = None"
  by (simp add: next_in_def)

text \<open>
  The contract of a search in a file that satisfies \<open>I\<close> for the members of \<open>A\<close>: the next one in the
  given direction is found, and \<open>I\<close> is kept.  The members are offsets of entries.
\<close>

locale searcher =
  fixes I :: "journal_file \<Rightarrow> bool" and E :: env and dir :: direction and A :: "nat set" and s :: "nat \<Rightarrow> nat option jm"
  assumes fin: "I f \<Longrightarrow> finite A"
    and law: "I f \<Longrightarrow> \<exists>f'. s a f = Some (Inr (next_in dir a A), f') \<and> I f'"
    and entry: "I f \<Longrightarrow> p \<in> A \<Longrightarrow> move_to_entry E p f = Some (Inr (Some p), f)"
begin

lemma pos: "I f \<Longrightarrow> p \<in> A \<Longrightarrow> p > 0"
  using entry [of f p] by (auto simp: move_to_entry_def assertE_def em_defs split: if_splits)

lemma next_entry: "I f \<Longrightarrow> next_in dir a A = Some p \<Longrightarrow> p \<in> A \<and> before dir a p"
  using next_in_iff(2) [OF fin] by blast

lemma zero: "I f \<Longrightarrow> 0 \<notin> A"
  using pos by blast

end

definition closest :: "direction \<Rightarrow> nat \<Rightarrow> nat option \<Rightarrow> nat" where
  "closest dir np r =
     (case r of None \<Rightarrow> np
      | Some cp \<Rightarrow> if np = 0 \<or> (if dir = DIRECTION_DOWN then cp < np else cp > np) then cp else np)"

lemma closest_Un:
  assumes "finite A" "finite B" "0 \<notin> A" "0 \<notin> B"
  shows "closest dir (closest dir np (next_in dir a A)) (next_in dir a B) = closest dir np (next_in dir a (A \<union> B))"
proof -
  have f: "finite (A \<union> B)" using assms by simp
  consider (n) "next_in dir a A = None" | (m) "next_in dir a B = None"
    | (s) p q where "next_in dir a A = Some p" "next_in dir a B = Some q" by fastforce
  then show ?thesis
  proof cases
    case n
    then have "{p \<in> A \<union> B. before dir a p} = {p \<in> B. before dir a p}"
      unfolding next_in_iff(1) [OF assms(1)] by blast
    then have "next_in dir a (A \<union> B) = next_in dir a B" unfolding next_in_def by simp
    with n show ?thesis by (simp add: closest_def)
  next
    case m
    then have "{p \<in> A \<union> B. before dir a p} = {p \<in> A. before dir a p}"
      unfolding next_in_iff(1) [OF assms(2)] by blast
    then have "next_in dir a (A \<union> B) = next_in dir a A" unfolding next_in_def by simp
    with m show ?thesis by (simp add: closest_def)
  next
    case s
    note p = s(1) [unfolded next_in_iff(2) [OF assms(1)]] and q = s(2) [unfolded next_in_iff(2) [OF assms(2)]]
    have "next_in dir a (A \<union> B) = Some (if before dir p q then p else q)"
      unfolding next_in_iff(2) [OF f] using p q by (cases dir) (auto simp: before_def)
    moreover have "p \<noteq> 0" "q \<noteq> 0" using p q assms(3,4) by metis+
    ultimately show ?thesis using s by (auto simp: closest_def before_def)
  qed
qed

lemma or_loop_run:
  assumes "list_all2 (\<lambda>A s. finite A \<and> 0 \<notin> A \<and> (\<forall>f. I f \<longrightarrow> (\<exists>f'. s f = Some (Inr (next_in dir a A), f') \<and> I f'))) As ss"
    and "I f"
  shows "\<exists>f'. or_loop dir ss np f = Some (Inr (closest dir np (next_in dir a (\<Union>(set As)))), f') \<and> I f'"
  using assms
proof (induction As ss arbitrary: np f rule: list_all2_induct)
  case Nil
  then show ?case by (simp add: closest_def returnE_def)
next
  case (Cons A As s ss)
  then obtain f1 where f1: "s f = Some (Inr (next_in dir a A), f1)" "I f1" by blast
  have "\<forall>B\<in>set As. finite B \<and> 0 \<notin> B" using Cons.hyps(2) by (fastforce simp: list_all2_conv_all_nth in_set_conv_nth)
  then have fin: "finite A" "0 \<notin> A" "finite (\<Union>(set As))" "0 \<notin> \<Union>(set As)" using Cons.hyps(1) by auto
  from Cons.IH [OF f1(2), of "closest dir np (next_in dir a A)"] obtain f2 where
    "or_loop dir ss (closest dir np (next_in dir a A)) f1 =
      Some (Inr (closest dir np (next_in dir a (A \<union> \<Union>(set As)))), f2)" "I f2"
    using closest_Un [OF fin(1,3,2,4)] by metis
  with f1 show ?case by (auto simp: closest_def [symmetric])
qed

subsection \<open>The round over the terms of a conjunction\<close>

lemma next_child_mod: "0 < n \<Longrightarrow> i < n \<Longrightarrow> next_child n i = Suc i mod n"
  by (auto simp: next_child_def mod_Suc)

text \<open>
  \<open>d\<close> terms, from \<open>lm\<close> on, are known to have \<open>np\<close>, and no member of all sets was left behind.
\<close>

definition round_inv :: "direction \<Rightarrow> nat \<Rightarrow> nat set list \<Rightarrow> nat \<Rightarrow> nat \<Rightarrow> nat \<Rightarrow> bool" where
  "round_inv dir a As lm d np \<longleftrightarrow>
     lm < length As \<and> 0 < d \<and> d \<le> length As \<and> (\<forall>k<d. np \<in> As ! ((lm + k) mod length As)) \<and>
     before dir a np \<and> (\<forall>t\<in>\<Inter>(set As). before dir a t \<longrightarrow> before dir np t)"

definition ahead :: "direction \<Rightarrow> nat set list \<Rightarrow> nat \<Rightarrow> nat set" where
  "ahead dir As np = {p \<in> \<Union>(set As). before dir np p \<and> p \<noteq> np}"

lemma finite_meet: "As \<noteq> [] \<Longrightarrow> \<forall>A\<in>set As. finite A \<Longrightarrow> finite (\<Inter>(set As))"
  by (cases As) auto

lemma round_done:
  assumes "round_inv dir a As lm (length As) np" and fin: "\<forall>A\<in>set As. finite A"
  shows "next_in dir a (\<Inter>(set As)) = Some np"
proof -
  let ?n = "length As"
  have n: "0 < ?n" "lm < ?n" using assms(1) by (auto simp: round_inv_def)
  have all: "np \<in> A" if "A \<in> set As" for A
  proof -
    from that obtain k where k: "k < ?n" "A = As ! k" by (auto simp: in_set_conv_nth)
    let ?k = "(k + (?n - lm)) mod ?n"
    have "(lm + ?k) mod ?n = (lm + (k + (?n - lm))) mod ?n" by (simp add: mod_add_right_eq)
    also have "\<dots> = k" using n k by simp
    finally show ?thesis using assms(1) k n unfolding round_inv_def by (metis mod_less_divisor)
  qed
  have "finite (\<Inter>(set As))" using fin n by (intro finite_meet) auto
  then show ?thesis unfolding next_in_iff(2) [OF \<open>finite (\<Inter>(set As))\<close>] using all assms(1) by (auto simp: round_inv_def)
qed


lemma round_same:
  assumes "round_inv dir a As lm d np" "d < length As" "np \<in> As ! ((lm + d) mod length As)"
  shows "round_inv dir a As lm (Suc d) np"
  using assms by (auto simp: round_inv_def less_Suc_eq)

lemma round_moved:
  assumes "round_inv dir a As lm d np" "j < length As" "next_in dir np (As ! j) = Some cp" "finite (As ! j)"
  shows "round_inv dir a As j 1 cp"
proof -
  note c = assms(3) [unfolded next_in_iff(2) [OF assms(4)]]
  have "before dir cp t" if "t \<in> \<Inter>(set As)" "before dir a t" for t
    using that c assms(1,2) by (auto simp: round_inv_def)
  moreover have "before dir a cp" using c assms(1) before_order(2) by (auto simp: round_inv_def)
  ultimately show ?thesis using c assms(2) by (auto simp: round_inv_def)
qed

lemma ahead_psubset:
  assumes "before dir np cp" "cp \<noteq> np" "A \<in> set As" "cp \<in> A" "\<forall>A\<in>set As. finite A"
  shows "card (ahead dir As cp) < card (ahead dir As np)"
proof (rule psubset_card_mono)
  show "finite (ahead dir As np)" using assms(5) by (simp add: ahead_def)
  have "ahead dir As cp \<subseteq> ahead dir As np" using assms(1,2) by (cases dir) (auto simp: ahead_def before_def)
  moreover have "cp \<in> ahead dir As np" "cp \<notin> ahead dir As cp" using assms by (auto simp: ahead_def)
  ultimately show "ahead dir As cp \<subset> ahead dir As np" by blast
qed

lemma and_loop_run:
  assumes ss: "list_all2 (\<lambda>A s. searcher I E dir A s) As ss"
  shows "round_inv dir a As lm d np \<Longrightarrow> I f \<Longrightarrow>
    \<exists>f'. and_loop ss dir ((lm + d) mod length As) lm np f = Some (Inr (next_in dir a (\<Inter>(set As))), f') \<and> I f'"
proof (induction "(card (ahead dir As np), length As - d)" arbitrary: np lm d f rule: wf_induct_rule [OF wf_lex_prod [OF wf_less_than wf_less_than]])
  case (1 np d lm f)
  let ?n = "length As" let ?i = "(lm + d) mod ?n"
  have len: "length ss = ?n" using list_all2_lengthD [OF ss] by simp
  have fin: "\<forall>A\<in>set As. finite A"
    using ss searcher.fin 1(3) by (fastforce simp: list_all2_conv_all_nth in_set_conv_nth)
  have n: "0 < ?n" "lm < ?n" "d \<le> ?n" "0 < d" using 1(2) by (auto simp: round_inv_def)
  show ?case
  proof (cases "d = ?n")
    case True
    then have "?i = lm" using n by simp
    with True 1(2,3) round_done [of dir a As lm np] fin show ?thesis by (subst and_loop.simps) auto
  next
    case False
    then have dn: "d < ?n" using n by simp
    have ne: "?i \<noteq> lm"
      using n dn by (cases "lm + d < ?n") (auto simp: mod_if)
    have i: "?i < ?n" using n by simp
    then have contract: "searcher I E dir (As ! ?i) (ss ! ?i)" using ss by (simp add: list_all2_conv_all_nth)
    obtain f1 where f1: "(ss ! ?i) np f = Some (Inr (next_in dir np (As ! ?i)), f1)" "I f1"
      using searcher.law [OF contract 1(3)] by blast
    have step: "next_child ?n ?i = (lm + Suc d) mod ?n" using next_child_mod [OF n(1) i] by (simp add: mod_Suc_eq)
    have fi: "finite (As ! ?i)" using fin i by auto
    show ?thesis
    proof (cases "next_in dir np (As ! ?i)")
      case None
      have "next_in dir a (\<Inter>(set As)) = None"
      proof -
        have "finite (\<Inter>(set As))" using fin n by (intro finite_meet) auto
        then show ?thesis
          unfolding next_in_iff(1) [OF \<open>finite (\<Inter>(set As))\<close>]
          using None [unfolded next_in_iff(1) [OF fi]] 1(2) nth_mem [OF i] by (auto simp: round_inv_def)
      qed
      with None f1 ne show ?thesis by (subst and_loop.simps) auto
    next
      case (Some cp)
      note c = Some [unfolded next_in_iff(2) [OF fi]]
      show ?thesis
      proof (cases "cp = np")
        case True
        then have r: "round_inv dir a As lm (Suc d) np" using round_same [OF 1(2) dn] c by simp
        have "\<exists>f'. and_loop ss dir ((lm + Suc d) mod ?n) lm np f1 = Some (Inr (next_in dir a (\<Inter>(set As))), f') \<and> I f'"
          using dn by (intro 1(1) r f1(2)) auto
        then show ?thesis using f1(1) Some True ne step len by (subst and_loop.simps) auto
      next
        case False
        have r: "round_inv dir a As ?i 1 cp" by (rule round_moved [OF 1(2) i Some fi])
        have "card (ahead dir As cp) < card (ahead dir As np)"
          using c False fin i by (intro ahead_psubset [of _ _ _ "As ! ?i"]) auto
        then have "\<exists>f'. and_loop ss dir ((?i + 1) mod ?n) ?i cp f1 = Some (Inr (next_in dir a (\<Inter>(set As))), f') \<and> I f'"
          by (intro 1(1) r f1(2)) auto
        moreover have "(?i + 1) mod ?n = (lm + Suc d) mod ?n" by (simp add: mod_Suc_eq)
        moreover have "(if dir = DIRECTION_DOWN then np \<le> cp else cp \<le> np)" "(if dir = DIRECTION_DOWN then np < cp else cp < np)"
          using c False by (auto simp: before_def split: if_splits)
        ultimately show ?thesis using f1(1) Some ne step len by (subst and_loop.simps) auto
      qed
    qed
  qed
qed

section \<open>Searching a file for a tree of matches\<close>

text \<open>The data of the entry at an offset, as far as the lists of the data objects tell.\<close>

definition entry_data :: "env \<Rightarrow> journal_file \<Rightarrow> (owner \<Rightarrow> nat list) \<Rightarrow> nat \<Rightarrow> bytes set" where
  "entry_data E g L q = {d. \<exists>p. has_data E g p d \<and> q \<in> set (L (Of p))}"

definition matching :: "env \<Rightarrow> journal_file \<Rightarrow> (owner \<Rightarrow> nat list) \<Rightarrow> match \<Rightarrow> nat set" where
  "matching E g L m = {q. sat m (entry_data E g L q)}"

text \<open>
  A file that is read.  In the direction of decreasing offsets the arrays of no data object with
  several entries are filled to the last slot, as the search does not work there.
\<close>

definition readable :: "env \<Rightarrow> (owner \<Rightarrow> nat list) \<Rightarrow> direction \<Rightarrow> journal_file \<Rightarrow> journal_file \<Rightarrow> bool" where
  "readable E L dir g f \<longleftrightarrow> reading E L g f \<and> file_ok E g \<and> (\<forall>w. sorted (L w)) \<and>
     (dir = DIRECTION_UP \<longrightarrow> (\<forall>p. chain_full g (Of p) \<longrightarrow> length (L (Of p)) \<le> 1))"

lemma file_ok_cache [simp]: "file_ok E (cache_set cc f) = file_ok E f"
proof -
  have "data_index (cache_set cc f) m = data_index f m" "field_index (cache_set cc f) n = field_index f n" for m n
    by (simp_all add: data_index_def field_index_def cache_set_def)
  moreover have "erased (cache_set cc f) = erased f" by (rule ext) (simp add: erased_def)
  moreover have "data_map (cache_set cc f) = data_map f" "field_map (cache_set cc f) = field_map f"
    by (rule ext, simp add: data_map_def field_map_def)+
  ultimately show ?thesis by (simp add: file_ok_def)
qed

lemma has_data_cache [simp]: "has_data E (cache_set cc f) p x = has_data E f p x"
  by (simp add: has_data_def erased_def)

lemma readableD:
  assumes "readable E L dir g f"
  obtains cc where "f = cache_set cc g" "seek_ok E L f" "file_ok E f" "mmap_ok E" "\<forall>w. sorted (L w)"
    "dir = DIRECTION_UP \<longrightarrow> (\<forall>p. chain_full f (Of p) \<longrightarrow> length (L (Of p)) \<le> 1)"
  using assms by (auto simp: readable_def reading_def seek_ok_def)

lemma find_sorted: "sorted xs \<Longrightarrow> List.find (\<lambda>p. a \<le> p) xs = next_in DIRECTION_DOWN a (set xs)" for xs :: "nat list"
proof (induction xs)
  case (Cons x xs)
  show ?case
  proof (cases "a \<le> x")
    case True
    then have "next_in DIRECTION_DOWN a (set (x # xs)) = Some x"
      using Cons.prems by (subst next_in_iff(2)) (auto simp: before_def)
    with True show ?thesis by simp
  next
    case False
    then have "{p \<in> set (x # xs). before DIRECTION_DOWN a p} = {p \<in> set xs. before DIRECTION_DOWN a p}"
      by (auto simp: before_def)
    with False Cons show ?thesis unfolding next_in_def by simp
  qed
qed simp

lemma find_sorted_rev: "sorted (rev xs) \<Longrightarrow> List.find (\<lambda>p. p \<le> a) xs = next_in DIRECTION_UP a (set xs)" for xs :: "nat list"
proof (induction xs)
  case (Cons x xs)
  have le: "\<forall>y\<in>set xs. y \<le> x" using Cons.prems by (auto simp: sorted_append)
  show ?case
  proof (cases "x \<le> a")
    case True
    then have "next_in DIRECTION_UP a (set (x # xs)) = Some x"
      using le by (subst next_in_iff(2)) (auto simp: before_def)
    with True show ?thesis by simp
  next
    case False
    then have "{p \<in> set (x # xs). before DIRECTION_UP a p} = {p \<in> set xs. before DIRECTION_UP a p}"
      by (auto simp: before_def)
    with False Cons show ?thesis unfolding next_in_def by (simp add: sorted_append)
  qed
qed simp

lemma entry_found_next: "sorted xs \<Longrightarrow> entry_found (\<lambda>q. q) dir a xs = next_in dir a (set xs)"
  using find_sorted_rev [of "rev xs" a] by (cases dir) (simp_all add: entry_found_def find_sorted)

lemma bisect_data_spec_short: "length xs \<le> 1 \<Longrightarrow> bisect_data_spec key full dir a xs = seek_spec key dir a xs"
  by (cases xs) (auto simp: bisect_data_spec_def seek_spec_def is_right_def)

lemma by_offset_for_data_run:
  assumes r: "readable E L dir g f" and d: "has_data E g p x"
  shows "\<exists>f'. journal_file_move_to_entry_by_offset_for_data E p a dir f = Some (Inr (next_in dir a (set (L (Of p)))), f') \<and>
    readable E L dir g f'"
proof -
  obtain cc where f: "f = cache_set cc g" "seek_ok E L f" "file_ok E f" "mmap_ok E" and s: "\<forall>w. sorted (L w)"
    and full: "dir = DIRECTION_UP \<longrightarrow> (\<forall>p. chain_full f (Of p) \<longrightarrow> length (L (Of p)) \<le> 1)" by (rule readableD [OF r])
  from d obtain ob where ob: "store f p = Some ob" "o_type ob = OBJECT_DATA"
    using f(1) by (auto simp: has_data_def erased_Some erase_def)
  have mv: "journal_file_move_to_object E (Some OBJECT_DATA) p f = Some (Inr ob, f)"
    using f ob by (intro move_to_object_stored) (auto simp: seek_ok_def)
  have so: "sorted (map (\<lambda>x. x) (L (Of p)))" using s by simp
  obtain cc' where b: "bisect_data E ob a test_object_offset dir f =
      Some (Inr (bisect_data_spec (\<lambda>p. p) (chain_full f (Of p)) dir a (L (Of p))), cache_set cc' f)"
    "seek_ok E L (cache_set cc' f)"
    using bisect_data_run [OF f(2) ob test_offset_ok [OF f(2)] so] by blast
  have "map_option fst (bisect_data_spec (\<lambda>p. p) (chain_full f (Of p)) dir a (L (Of p))) = next_in dir a (set (L (Of p)))"
  proof -
    have "bisect_data_spec (\<lambda>p. p) (chain_full f (Of p)) dir a (L (Of p)) = seek_spec (\<lambda>p. p) dir a (L (Of p))"
    proof (cases "dir = DIRECTION_UP \<and> chain_full f (Of p)")
      case True
      then show ?thesis using full by (intro bisect_data_spec_short) blast
    qed (auto simp: bisect_data_spec_def)
    then show ?thesis using entry_found_seek [OF so, of dir a] entry_found_next [OF spec [OF s], of dir a "Of p"] by simp
  qed
  with b mv have "journal_file_move_to_entry_by_offset_for_data E p a dir f =
      Some (Inr (next_in dir a (set (L (Of p)))), cache_set cc' f)"
    by (simp add: journal_file_move_to_entry_by_offset_for_data_def with_data_def offset_only_def)
  moreover have "readable E L dir g (cache_set cc' f)" using r b(2) f(1) by (auto simp: readable_def reading_def)
  ultimately show ?thesis by blast
qed

lemma listed_entry:
  assumes r: "readable E L dir g f" and q: "q \<in> set (L w)"
  shows "move_to_entry E q f = Some (Inr (Some q), f)"
proof -
  obtain cc where f: "seek_ok E L f" "mmap_ok E" by (rule readableD [OF r])
  have "layout f" using f(1) by (simp add: seek_ok_def)
  from entry_stored [OF this f(2) seek_ok_entries(1) [OF f(1) q]] obtain ob where
    "journal_file_move_to_object E (Some OBJECT_ENTRY) q f = Some (Inr ob, f)" by metis
  then show ?thesis using seek_ok_entries(2) [OF f(1) q] by (simp add: move_to_entry_def)
qed

text \<open>The hashes of the matches are those of their data.\<close>

fun matchable :: "match \<Rightarrow> bool" where
  "matchable (MATCH_DISCRETE d h) \<longleftrightarrow> h = jhash d \<and> length d < 2 ^ 63"
| "matchable (MATCH_OR_TERM ms) \<longleftrightarrow> (\<forall>m\<in>set ms. matchable m)"
| "matchable (MATCH_AND_TERM ms) \<longleftrightarrow> (\<forall>m\<in>set ms. matchable m)"

lemma matching_simps:
  "matching E g L (MATCH_OR_TERM ms) = \<Union>(set (map (matching E g L) ms))"
  "ms \<noteq> [] \<Longrightarrow> matching E g L (MATCH_AND_TERM ms) = \<Inter>(set (map (matching E g L) ms))"
  "matching E g L (MATCH_AND_TERM []) = {}"
  by (auto simp: matching_def)

lemma matching_discrete:
  assumes "file_ok E g"
  shows "has_data E g p d \<Longrightarrow> matching E g L (MATCH_DISCRETE d h) = set (L (Of p))"
    and "\<nexists>p. has_data E g p d \<Longrightarrow> matching E g L (MATCH_DISCRETE d h) = {}"
proof -
  have u: "p = q" if "has_data E g p d" "has_data E g q d" for p q
    using that file_okD(4) [OF assms] unfolding data_wf_def has_data_def by metis
  then show "has_data E g p d \<Longrightarrow> matching E g L (MATCH_DISCRETE d h) = set (L (Of p))"
    by (auto simp: matching_def entry_data_def)
  show "\<nexists>p. has_data E g p d \<Longrightarrow> matching E g L (MATCH_DISCRETE d h) = {}"
    by (auto simp: matching_def entry_data_def)
qed

lemma discrete_search:
  assumes "matchable (MATCH_DISCRETE d h)"
  shows "searcher (readable E L dir g) E dir (matching E g L (MATCH_DISCRETE d h)) (next_for_match E dir (MATCH_DISCRETE d h))"
proof
  fix f assume r: "readable E L dir g f"
  then have ok: "file_ok E g" by (simp add: readable_def)
  obtain cc where f: "f = cache_set cc g" "file_ok E f" "mmap_ok E" by (rule readableD [OF r])
  note find = find_data_ok [OF f(2,3), of d] and m = matching_discrete [OF ok, where d = d and L = L and h = h]
  have len: "length d < 2 ^ 63" "h = jhash d" using assms by auto
  show "finite (matching E g L (MATCH_DISCRETE d h))" using m by (cases "\<exists>p. has_data E g p d") auto
  show "\<exists>f'. next_for_match E dir (MATCH_DISCRETE d h) a f =
      Some (Inr (next_in dir a (matching E g L (MATCH_DISCRETE d h))), f') \<and> readable E L dir g f'" for a
  proof (cases "\<exists>p. has_data E g p d")
    case True
    then obtain p where p: "has_data E g p d" by blast
    then have "journal_file_find_data_object_with_hash E d h f = Some (Inr (Some p), f)" using find(1) len f(1) by simp
    with by_offset_for_data_run [OF r p, of a] m(1) [OF p] show ?thesis by simp
  next
    case False
    then have "journal_file_find_data_object_with_hash E d h f = Some (Inr None, f)" using find(2) len f(1) by simp
    with r m(2) False show ?thesis by (simp add: returnE_def)
  qed
  show "move_to_entry E p f = Some (Inr (Some p), f)" if "p \<in> matching E g L (MATCH_DISCRETE d h)" for p
    using that listed_entry [OF r] m by (cases "\<exists>p. has_data E g p d") auto
qed

lemma or_search:
  assumes ss: "\<And>m. m \<in> set ms \<Longrightarrow> searcher (readable E L dir g) E dir (matching E g L m) (next_for_match E dir m)"
  shows "searcher (readable E L dir g) E dir (matching E g L (MATCH_OR_TERM ms)) (next_for_match E dir (MATCH_OR_TERM ms))"
proof
  fix f assume r: "readable E L dir g f"
  let ?As = "map (matching E g L) ms"
  note A = matching_simps(1) [of E g L ms]
  show fin: "finite (matching E g L (MATCH_OR_TERM ms))" unfolding A using searcher.fin [OF ss r] by auto
  show entry: "move_to_entry E p f = Some (Inr (Some p), f)"
    if "p \<in> matching E g L (MATCH_OR_TERM ms)" "readable E L dir g f" for p f
    using that searcher.entry [OF ss] unfolding A by auto
  show "\<exists>f'. next_for_match E dir (MATCH_OR_TERM ms) a f =
      Some (Inr (next_in dir a (matching E g L (MATCH_OR_TERM ms))), f') \<and> readable E L dir g f'" for a
  proof -
    have "list_all2 (\<lambda>A s. finite A \<and> 0 \<notin> A \<and>
        (\<forall>f. readable E L dir g f \<longrightarrow> (\<exists>f'. s f = Some (Inr (next_in dir a A), f') \<and> readable E L dir g f')))
      ?As (map (\<lambda>m. next_for_match E dir m a) ms)"
      using searcher.fin [OF ss r] searcher.zero [OF ss r] searcher.law [OF ss]
      by (auto simp: list_all2_map1 list_all2_map2 intro!: list_all2_refl [THEN list_all2_mono] list.rel_refl_strong)
    from or_loop_run [where I = "readable E L dir g", OF this r, of 0] obtain f1 where
      f1: "or_loop dir (map (\<lambda>m. next_for_match E dir m a) ms) 0 f =
        Some (Inr (closest dir 0 (next_in dir a (matching E g L (MATCH_OR_TERM ms)))), f1)" "readable E L dir g f1"
      unfolding A by blast
    show ?thesis
    proof (cases "next_in dir a (matching E g L (MATCH_OR_TERM ms))")
      case None
      with f1 show ?thesis by (simp add: closest_def returnE_def)
    next
      case (Some p)
      then have "p \<in> matching E g L (MATCH_OR_TERM ms)" using next_in_iff(2) [OF fin] by blast
      with entry [OF _ f1(2)] have mv: "move_to_entry E p f1 = Some (Inr (Some p), f1)" by blast
      then have "p \<noteq> 0" by (auto simp: move_to_entry_def assertE_def em_defs split: if_splits)
      with f1 mv Some show ?thesis by (simp add: closest_def)
    qed
  qed
qed

lemma and_search:
  assumes ss: "\<And>m. m \<in> set ms \<Longrightarrow> searcher (readable E L dir g) E dir (matching E g L m) (next_for_match E dir m)"
  shows "searcher (readable E L dir g) E dir (matching E g L (MATCH_AND_TERM ms)) (next_for_match E dir (MATCH_AND_TERM ms))"
proof (cases "ms = []")
  case True
  then show ?thesis by unfold_locales (auto simp: matching_simps returnE_def)
next
  case ne: False
  let ?As = "map (matching E g L) ms" and ?ss = "map (next_for_match E dir) ms"
  note A = matching_simps(2) [OF ne, of E g L]
  have hd: "hd ms \<in> set ms" "?As ! 0 = matching E g L (hd ms)" "hd ?ss = next_for_match E dir (hd ms)"
    using ne by (cases ms; simp)+
  show ?thesis
  proof
    fix f assume r: "readable E L dir g f"
    have fa: "\<forall>A\<in>set ?As. finite A" using searcher.fin [OF ss r] by auto
    show fin: "finite (matching E g L (MATCH_AND_TERM ms))" unfolding A using fa ne by (intro finite_meet) auto
    show entry: "move_to_entry E p f = Some (Inr (Some p), f)"
      if "p \<in> matching E g L (MATCH_AND_TERM ms)" "readable E L dir g f" for p f
      using that searcher.entry [OF ss that(2)] hd(1) unfolding A by auto
    have l2: "list_all2 (\<lambda>A s. searcher (readable E L dir g) E dir A s) ?As ?ss"
      using ss by (auto simp: list_all2_map1 list_all2_map2 intro!: list.rel_refl_strong)
    show "\<exists>f'. next_for_match E dir (MATCH_AND_TERM ms) a f =
        Some (Inr (next_in dir a (matching E g L (MATCH_AND_TERM ms))), f') \<and> readable E L dir g f'" for a
    proof -
      obtain f1 where f1: "next_for_match E dir (hd ms) a f = Some (Inr (next_in dir a (matching E g L (hd ms))), f1)"
        "readable E L dir g f1" using searcher.law [OF ss [OF hd(1)] r] by blast
      have fh: "finite (matching E g L (hd ms))" using searcher.fin [OF ss [OF hd(1)] r] .
      show ?thesis
      proof (cases "next_in dir a (matching E g L (hd ms))")
        case None
        then have "next_in dir a (matching E g L (MATCH_AND_TERM ms)) = None"
          unfolding next_in_iff(1) [OF fin] using next_in_iff(1) [OF fh] hd(1) A by auto
        with None f1 ne hd show ?thesis by (simp add: Let_def returnE_def)
      next
        case (Some np)
        note np = Some [unfolded next_in_iff(2) [OF fh]]
        have "Suc 0 \<le> length ms" using ne by (cases ms) auto
        then have "round_inv dir a ?As 0 1 np" using np hd ne by (auto simp: round_inv_def)
        from and_loop_run [OF l2 this f1(2)] obtain f2 where
          f2: "and_loop ?ss dir (1 mod length ms) 0 np f1 = Some (Inr (next_in dir a (matching E g L (MATCH_AND_TERM ms))), f2)"
          "readable E L dir g f2" unfolding A by auto
        have nc: "next_child (length ms) 0 = 1 mod length ms" using next_child_mod [of "length ms" 0] ne by simp
        have as: "if dir = DIRECTION_DOWN then a \<le> np else np \<le> a" using np by (simp add: before_def)
        show ?thesis
        proof (cases "next_in dir a (matching E g L (MATCH_AND_TERM ms))")
          case None
          with Some f1 f2 ne hd nc as show ?thesis by (simp add: Let_def returnE_def)
        next
          case (Some p)
          then have "p \<in> matching E g L (MATCH_AND_TERM ms)" using next_in_iff(2) [OF fin] by blast
          with entry [OF _ f2(2)] have "move_to_entry E p f2 = Some (Inr (Some p), f2)" by blast
          with Some \<open>next_in dir a (matching E g L (hd ms)) = Some np\<close> f1 f2 ne hd nc as show ?thesis by (simp add: Let_def)
        qed
      qed
    qed
  qed
qed

lemma tree_search:
  "matchable m \<Longrightarrow> searcher (readable E L dir g) E dir (matching E g L m) (next_for_match E dir m)"
proof (induction m)
  case (MATCH_DISCRETE d h)
  then show ?case by (rule discrete_search)
next
  case (MATCH_OR_TERM ms)
  then show ?case by (intro or_search) auto
next
  case (MATCH_AND_TERM ms)
  then show ?case by (intro and_search) auto
qed

interpretation match_search: searcher "\<lambda>f. readable E L dir g f \<and> matchable m" E dir "matching E g L m" "next_for_match E dir m"
  for E L dir g m
  using tree_search [of m E L dir g] by (cases "matchable m") (auto simp: searcher_def)

text \<open>
  C18: Searching a sound file for a tree of matches always returns, and finds the next entry, from the
  given offset on in the given direction, whose data satisfies the tree; it reports that there is
  none exactly if there is none.  In the direction of decreasing offsets this needs that the arrays of
  no data object with several entries are filled to the last slot.
\<close>

theorem next_for_match_correct:
  assumes "seek_ok E L f" and "file_ok E f" and "ordered f L" and "matchable m"
    and "dir = DIRECTION_UP \<longrightarrow> (\<forall>p. chain_full f (Of p) \<longrightarrow> length (L (Of p)) \<le> 1)"
  shows "\<exists>f'. next_for_match E dir m a f =
      Some (Inr (next_in dir a {q. sat m (entry_data E f L q)}), f') \<and> reading E L f f'"
proof -
  have "readable E L dir f f" using assms reading_refl by (simp add: readable_def ordered_def)
  from match_search.law [OF conjI [OF this assms(4)], of a] show ?thesis by (auto simp: matching_def readable_def)
qed

end
