(* ===== verification/Reader.thy ===== *)
theory Reader
  imports Match_Search
begin

text \<open>
  The journal reader (\<open>struct sd_journal\<close> in \<open>src/core/journal-internal.h\<close>, operations in
  \<open>lib/sd-journal.c\<close>): its files and position, the comparison of entries and locations, moving to the
  next and previous entry over all files, skipping and seeking.
\<close>

section \<open>The reader\<close>

text \<open>
  A file of the reader, with the position in it; the files are listed in the order in which the hash
  map of the code is walked.  A path names a file.  \<open>getpid\<close> is the process that makes the
  calls.
\<close>

record reader_file =
  rf_path :: string
  rf_file :: journal_file
  last_direction :: direction
  current_offset :: nat

record sd_journal =
  j_files :: "reader_file list"
  current_location :: location
  current_file :: "string option"
  current_field :: nat
  j_matches :: matches
  original_pid :: nat
  getpid :: nat
  current_invalidate_counter :: "32 word"
  last_invalidate_counter :: "32 word"
  unique_field :: "bytes option"
  unique_file :: "string option"
  unique_offset :: nat
  data_threshold :: nat

type_synonym 'a rm = "(sd_journal, 'a) em"

definition journal_pid_changed :: "sd_journal \<Rightarrow> bool" where
  "journal_pid_changed j \<longleftrightarrow> original_pid j \<noteq> getpid j"

text \<open>The check in front of an operation of the interface.\<close>

definition checked :: "'a rm \<Rightarrow> 'a rm" where
  "checked m = (\<lambda>j. if journal_pid_changed j then Some (Inl ECHILD, j) else m j)"

definition zero_location :: location where
  "zero_location = \<lparr>loc_type = LOCATION_HEAD, seqnum_set = False, realtime_set = False, monotonic_set = False,
     xor_hash_set = False, loc_seqnum = 0, loc_seqnum_id = replicate 16 0, loc_realtime = 0, loc_monotonic = 0,
     loc_boot_id = replicate 16 0, loc_xor_hash = 0\<rparr>"

definition detach_location :: "sd_journal \<Rightarrow> sd_journal" where
  "detach_location j = j\<lparr>current_file := None, current_field := 0,
     j_files := map (\<lambda>rf. rf\<lparr>current_offset := 0\<rparr>) (j_files j)\<rparr>"

definition reset_location :: "sd_journal \<Rightarrow> sd_journal" where
  "reset_location j = (detach_location j)\<lparr>current_location := zero_location\<rparr>"

definition init_location :: "location_type \<Rightarrow> journal_file \<Rightarrow> entry_object \<Rightarrow> location" where
  "init_location ty f e = \<lparr>loc_type = ty, seqnum_set = True, realtime_set = True, monotonic_set = True,
     xor_hash_set = True, loc_seqnum = e_seqnum e, loc_seqnum_id = seqnum_id (header f),
     loc_realtime = e_realtime e, loc_monotonic = e_monotonic e, loc_boot_id = e_boot_id e,
     loc_xor_hash = e_xor_hash e\<rparr>"

definition get_file :: "string \<Rightarrow> sd_journal \<Rightarrow> reader_file option" where
  "get_file path j = List.find (\<lambda>rf. rf_path rf = path) (j_files j)"

definition upd_file :: "string \<Rightarrow> (reader_file \<Rightarrow> reader_file) \<Rightarrow> sd_journal \<Rightarrow> sd_journal" where
  "upd_file path g j = j\<lparr>j_files := map (\<lambda>rf. if rf_path rf = path then g rf else rf) (j_files j)\<rparr>"

definition set_location :: "location_type \<Rightarrow> string \<Rightarrow> entry_object \<Rightarrow> direction \<Rightarrow> nat \<Rightarrow> sd_journal \<Rightarrow> sd_journal" where
  "set_location ty path e dir ofs j =
     (case get_file path j of
        None \<Rightarrow> j
      | Some rf \<Rightarrow>
          (upd_file path (\<lambda>rf. rf\<lparr>last_direction := dir, current_offset := ofs\<rparr>) j)
            \<lparr>current_location := init_location ty (rf_file rf) e, current_file := Some path, current_field := 0\<rparr>)"

text \<open>An operation on one of the files.\<close>

definition on_rfile :: "string \<Rightarrow> 'a jm \<Rightarrow> 'a rm" where
  "on_rfile path m = (\<lambda>j.
     case get_file path j of
       None \<Rightarrow> None
     | Some rf \<Rightarrow>
         (case m (rf_file rf) of
            None \<Rightarrow> None
          | Some (r, f) \<Rightarrow> Some (r, upd_file path (\<lambda>rf. rf\<lparr>rf_file := f\<rparr>) j)))"

definition remove_file_real :: "string \<Rightarrow> sd_journal \<Rightarrow> sd_journal" where
  "remove_file_real path j =
     (let j = j\<lparr>j_files := filter (\<lambda>rf. rf_path rf \<noteq> path) (j_files j),
                current_invalidate_counter := current_invalidate_counter j + 1\<rparr>;
          j = (if current_file j = Some path then j\<lparr>current_file := None, current_field := 0\<rparr> else j)
      in if unique_file j = Some path then j\<lparr>unique_file := None, unique_offset := 0\<rparr> else j)"

subsection \<open>Order of entries\<close>

definition three_way :: "nat \<Rightarrow> nat \<Rightarrow> int" where
  "three_way a b = (if a < b then - 1 else if a > b then 1 else 0)"

text \<open>The first comparison that is not a tie decides.\<close>

fun first_difference :: "int list \<Rightarrow> int" where
  "first_difference [] = 0"
| "first_difference (c # cs) = (if c \<noteq> 0 then c else first_difference cs)"

fun strcmp :: "string \<Rightarrow> string \<Rightarrow> int" where
  "strcmp [] [] = 0"
| "strcmp [] (_ # _) = - 1"
| "strcmp (_ # _) [] = 1"
| "strcmp (a # as) (b # bs) =
     (if a = b then strcmp as bs else int (of_char a) - int (of_char b))"

definition compare_entries :: "bytes \<Rightarrow> entry_object \<Rightarrow> bytes \<Rightarrow> entry_object \<Rightarrow> int" where
  "compare_entries asid ao bsid bo =
     (if uuid_equal (e_boot_id ao) (e_boot_id bo) \<and> e_monotonic ao = e_monotonic bo \<and>
         e_realtime ao = e_realtime bo \<and> e_xor_hash ao = e_xor_hash bo
      then 0
      else first_difference
        [if uuid_equal asid bsid then three_way (e_seqnum ao) (e_seqnum bo) else 0,
         if uuid_equal (e_boot_id ao) (e_boot_id bo) then three_way (e_monotonic ao) (e_monotonic bo) else 0,
         three_way (e_realtime ao) (e_realtime bo),
         three_way (e_xor_hash ao) (e_xor_hash bo)])"

definition compare_entry_order :: "env \<Rightarrow> string \<Rightarrow> bytes \<Rightarrow> entry_object \<Rightarrow> string \<Rightarrow> nat \<Rightarrow> int jm" where
  "compare_entry_order E apath asid ao bpath bp = (\<lambda>bf.
     case journal_file_move_to_object E (Some OBJECT_ENTRY) bp bf of
       None \<Rightarrow> None
     | Some (Inl e, bf) \<Rightarrow> Some (Inr (strcmp apath bpath), bf)
     | Some (Inr bo, bf) \<Rightarrow> Some (Inr (compare_entries asid ao (seqnum_id (header bf)) (entry_of bo)), bf))"

definition compare_with_location :: "bytes \<Rightarrow> entry_object \<Rightarrow> location \<Rightarrow> int" where
  "compare_with_location asid ao l =
     (if monotonic_set l \<and> uuid_equal (e_boot_id ao) (loc_boot_id l) \<and>
         realtime_set l \<and> e_realtime ao = loc_realtime l \<and>
         xor_hash_set l \<and> e_xor_hash ao = loc_xor_hash l
      then 0
      else first_difference
        [if seqnum_set l \<and> uuid_equal asid (loc_seqnum_id l) then three_way (e_seqnum ao) (loc_seqnum l) else 0,
         if monotonic_set l \<and> uuid_equal (e_boot_id ao) (loc_boot_id l)
         then three_way (e_monotonic ao) (loc_monotonic l) else 0,
         if realtime_set l then three_way (e_realtime ao) (loc_realtime l) else 0,
         if xor_hash_set l then three_way (e_xor_hash ao) (loc_xor_hash l) else 0])"

subsection \<open>Moving to the next entry\<close>

definition is_beyond :: "location \<Rightarrow> direction \<Rightarrow> journal_file \<Rightarrow> nat \<Rightarrow> bool" where
  "is_beyond l dir f cp =
     (if loc_type l = LOCATION_DISCRETE then
        (let k = compare_with_location (seqnum_id (header f)) (entry_of (object_at f cp)) l
         in if dir = DIRECTION_DOWN then k > 0 else k < 0)
      else True)"

partial_function (option) beyond_loop ::
  "env \<Rightarrow> location \<Rightarrow> match option \<Rightarrow> direction \<Rightarrow> nat \<Rightarrow> journal_file \<Rightarrow> (nat option res \<times> journal_file) option" where
  "beyond_loop E l lv0 dir cp f =
     (if is_beyond l dir f cp then Some (Inr (Some cp), f)
      else
        case next_with_matches E lv0 dir cp f of
          None \<Rightarrow> None
        | Some (Inl e, f) \<Rightarrow> Some (Inl e, f)
        | Some (Inr None, f) \<Rightarrow> Some (Inr None, f)
        | Some (Inr (Some cp), f) \<Rightarrow> beyond_loop E l lv0 dir cp f)"

definition next_beyond_location ::
  "env \<Rightarrow> location \<Rightarrow> match option \<Rightarrow> direction \<Rightarrow> direction \<Rightarrow> nat \<Rightarrow> nat option jm" where
  "next_beyond_location E l lv0 dir last_dir cur =
     bindE (if last_dir = dir \<and> cur > 0
            then thenE (journal_file_move_to_object E (Some OBJECT_ENTRY) cur) (next_with_matches E lv0 dir cur)
            else find_location_with_matches E l lv0 dir) (\<lambda>r.
     case r of None \<Rightarrow> returnE None | Some cp \<Rightarrow> beyond_loop E l lv0 dir cp)"

text \<open>
  The walk over the files, with the best entry so far.  A file that fails is dropped.
\<close>

definition beyond_in_file :: "env \<Rightarrow> direction \<Rightarrow> string \<Rightarrow> nat option rm" where
  "beyond_in_file E dir path = (\<lambda>j.
     case get_file path j of
       None \<Rightarrow> None
     | Some rf \<Rightarrow>
         on_rfile path (next_beyond_location E (current_location j) (level0 (j_matches j)) dir
           (last_direction rf) (current_offset rf)) j)"

definition better_than :: "env \<Rightarrow> direction \<Rightarrow> string \<Rightarrow> nat \<Rightarrow> string \<Rightarrow> nat \<Rightarrow> bool rm" where
  "better_than E dir path p new_file new_offset = (\<lambda>j.
     case get_file path j of
       None \<Rightarrow> None
     | Some rf \<Rightarrow>
         bindE (on_rfile new_file (compare_entry_order E path (seqnum_id (header (rf_file rf)))
                  (entry_of (object_at (rf_file rf) p)) new_file new_offset)) (\<lambda>k.
         returnE (if dir = DIRECTION_DOWN then k < 0 else k > 0)) j)"

fun next_files :: "env \<Rightarrow> direction \<Rightarrow> string list \<Rightarrow> (string \<times> nat) option \<Rightarrow> (string \<times> nat) option rm" where
  "next_files E dir [] best = returnE best"
| "next_files E dir (path # paths) best = (\<lambda>j.
     case beyond_in_file E dir path j of
       None \<Rightarrow> None
     | Some (Inl e, j) \<Rightarrow> next_files E dir paths best (remove_file_real path j)
     | Some (Inr None, j) \<Rightarrow> next_files E dir paths best j
     | Some (Inr (Some p), j) \<Rightarrow>
         bindE (case best of None \<Rightarrow> returnE True | Some (q, ofs) \<Rightarrow> better_than E dir path p q ofs) (\<lambda>found.
         next_files E dir paths (if found then Some (path, p) else best)) j)"

definition real_journal_next :: "env \<Rightarrow> direction \<Rightarrow> bool rm" where
  "real_journal_next E dir = checked (
     bindE (getE (\<lambda>j. map rf_path (j_files j))) (\<lambda>paths.
     bindE (next_files E dir paths None) (\<lambda>best.
     case best of
       None \<Rightarrow> returnE False
     | Some (path, p) \<Rightarrow>
         bindE (on_rfile path (journal_file_move_to_object E (Some OBJECT_ENTRY) p)) (\<lambda>ob.
         thenE (modifyE (set_location LOCATION_DISCRETE path (entry_of ob) dir p)) (returnE True)))))"

definition sd_journal_next :: "env \<Rightarrow> bool rm" where
  "sd_journal_next E = real_journal_next E DIRECTION_DOWN"

definition sd_journal_previous :: "env \<Rightarrow> bool rm" where
  "sd_journal_previous E = real_journal_next E DIRECTION_UP"

text \<open>\<open>skip\<close> steps at most; the result is how many were made.\<close>

fun next_skip_loop :: "env \<Rightarrow> direction \<Rightarrow> nat \<Rightarrow> nat \<Rightarrow> nat rm" where
  "next_skip_loop E dir 0 c = returnE c"
| "next_skip_loop E dir (Suc skip) c =
     bindE (real_journal_next E dir) (\<lambda>more. if \<not> more then returnE c else next_skip_loop E dir skip (Suc c))"

definition real_journal_next_skip :: "env \<Rightarrow> direction \<Rightarrow> nat \<Rightarrow> nat rm" where
  "real_journal_next_skip E dir skip = checked
     (if skip = 0 then
        bindE (getE (\<lambda>j. loc_type (current_location j))) (\<lambda>ty.
        if ty \<noteq> LOCATION_DISCRETE then bindE (real_journal_next E dir) (\<lambda>b. returnE (if b then 1 else 0))
        else returnE 0)
      else next_skip_loop E dir skip 0)"

subsection \<open>Seeking\<close>

definition seek_to :: "(location \<Rightarrow> location) \<Rightarrow> unit rm" where
  "seek_to u = checked (modifyE (\<lambda>j. let j = reset_location j in j\<lparr>current_location := u (current_location j)\<rparr>))"

definition sd_journal_seek_head :: "unit rm" where
  "sd_journal_seek_head = seek_to (loc_type_update (\<lambda>_. LOCATION_HEAD))"

definition sd_journal_seek_tail :: "unit rm" where
  "sd_journal_seek_tail = seek_to (loc_type_update (\<lambda>_. LOCATION_TAIL))"

definition sd_journal_seek_realtime_usec :: "nat \<Rightarrow> unit rm" where
  "sd_journal_seek_realtime_usec usec =
     seek_to (\<lambda>l. l\<lparr>loc_type := LOCATION_SEEK, loc_realtime := usec, realtime_set := True\<rparr>)"

definition sd_journal_seek_monotonic_usec :: "bytes \<Rightarrow> nat \<Rightarrow> unit rm" where
  "sd_journal_seek_monotonic_usec bid usec =
     seek_to (\<lambda>l. l\<lparr>loc_type := LOCATION_SEEK, loc_boot_id := bid, loc_monotonic := usec, monotonic_set := True\<rparr>)"

subsection \<open>Matches\<close>

definition sd_journal_add_match :: "bytes \<Rightarrow> nat \<Rightarrow> unit rm" where
  "sd_journal_add_match buf sz = checked (\<lambda>j.
     case add_match buf sz (j_matches j) of
       None \<Rightarrow> None
     | Some (Inl e, ms) \<Rightarrow> Some (Inl e, j\<lparr>j_matches := ms\<rparr>)
     | Some (Inr added, ms) \<Rightarrow>
         (let j = j\<lparr>j_matches := ms\<rparr> in Some (Inr (), if added then detach_location j else j)))"

definition sd_journal_add_conjunction :: "unit rm" where
  "sd_journal_add_conjunction = checked (modifyE (\<lambda>j. j\<lparr>j_matches := add_conjunction (j_matches j)\<rparr>))"

definition sd_journal_add_disjunction :: "unit rm" where
  "sd_journal_add_disjunction = checked (modifyE (\<lambda>j. j\<lparr>j_matches := add_disjunction (j_matches j)\<rparr>))"

definition sd_journal_flush_matches :: "sd_journal \<Rightarrow> sd_journal" where
  "sd_journal_flush_matches j = detach_location (j\<lparr>j_matches := no_matches\<rparr>)"

text \<open>A sequence of calls, each of which may fail on its own.\<close>

fun reader_op :: "match_op \<Rightarrow> unit rm" where
  "reader_op (AddMatch d) = sd_journal_add_match d (length d)"
| "reader_op AddConjunction = sd_journal_add_conjunction"
| "reader_op AddDisjunction = sd_journal_add_disjunction"

primrec reader_ops :: "match_op list \<Rightarrow> sd_journal \<Rightarrow> sd_journal option" where
  "reader_ops [] j = Some j"
| "reader_ops (c # cs) j = (case reader_op c j of None \<Rightarrow> None | Some (_, j) \<Rightarrow> reader_ops cs j)"

end
