(* ===== verification/Reader_File.thy ===== *)
theory Reader_File
  imports Reader
begin

text \<open>
  The journal reader in one file: finding the first entry that satisfies the matches from a location on,
  and the next one beyond it.  The locale \<open>locator\<close> is the contract of a location that stands for an
  offset of the file, interpreted for the head and proved for a sequence number.
\<close>

section \<open>Finding the start\<close>

text \<open>The entries of data objects are entries of the file.\<close>

definition linked :: "(owner \<Rightarrow> nat list) \<Rightarrow> bool" where
  "linked L \<longleftrightarrow> (\<forall>p. set (L (Of p)) \<subseteq> set (L Global))"

text \<open>
  The contract of a location that is the same as an offset \<open>b\<close> in a file: among the entries of each
  data object the location finds what a search from \<open>b\<close> on finds.  Then this holds for all trees of
  matches.
\<close>

locale locator =
  fixes E :: env and L :: "owner \<Rightarrow> nat list" and g :: journal_file and l :: location and b :: nat
  assumes leaf: "readable E L DIRECTION_DOWN g f \<Longrightarrow> has_data E g p x \<Longrightarrow>
    \<exists>f'. find_location_for_data E l DIRECTION_DOWN p f = Some (Inr (next_in DIRECTION_DOWN b (set (L (Of p)))), f') \<and>
      readable E L DIRECTION_DOWN g f'"
begin

abbreviation ok :: "journal_file \<Rightarrow> bool" where "ok \<equiv> readable E L DIRECTION_DOWN g"
abbreviation locate :: "match \<Rightarrow> nat option jm" where "locate \<equiv> find_location_for_match E l DIRECTION_DOWN"

lemma discrete:
  assumes "matchable (MATCH_DISCRETE d h)" "ok f"
  shows "\<exists>f'. locate (MATCH_DISCRETE d h) f = Some (Inr (next_in DIRECTION_DOWN b (matching E g L (MATCH_DISCRETE d h))), f') \<and> ok f'"
proof -
  have fo: "file_ok E g" using assms(2) by (simp add: readable_def)
  obtain cc where f: "f = cache_set cc g" "file_ok E f" "mmap_ok E" by (rule readableD [OF assms(2)])
  note find = find_data_ok [OF f(2,3), of d] and m = matching_discrete [OF fo, where d = d and L = L and h = h]
  have len: "length d < 2 ^ 63" "h = jhash d" using assms(1) by auto
  show ?thesis
  proof (cases "\<exists>p. has_data E g p d")
    case True
    then obtain p where p: "has_data E g p d" by blast
    then have "journal_file_find_data_object_with_hash E d h f = Some (Inr (Some p), f)" using find(1) len f(1) by simp
    with leaf [OF assms(2) p] m(1) [OF p] show ?thesis by simp
  next
    case False
    then have "journal_file_find_data_object_with_hash E d h f = Some (Inr None, f)" using find(2) len f(1) by simp
    with assms(2) m(2) False show ?thesis by (simp add: returnE_def)
  qed
qed

lemma disjunction:
  assumes ms: "\<And>m f. m \<in> set ms \<Longrightarrow> ok f \<Longrightarrow>
      \<exists>f'. locate m f = Some (Inr (next_in DIRECTION_DOWN b (matching E g L m)), f') \<and> ok f'"
    and m: "matchable (MATCH_OR_TERM ms)" and f: "ok f"
  shows "\<exists>f'. locate (MATCH_OR_TERM ms) f = Some (Inr (next_in DIRECTION_DOWN b (matching E g L (MATCH_OR_TERM ms))), f') \<and> ok f'"
proof -
  let ?As = "map (matching E g L) ms" and ?A = "matching E g L (MATCH_OR_TERM ms)"
  have c: "searcher ok E DIRECTION_DOWN (matching E g L m) (next_for_match E DIRECTION_DOWN m)" if "m \<in> set ms" for m
    using tree_search m that by auto
  have "list_all2 (\<lambda>A s. finite A \<and> 0 \<notin> A \<and>
      (\<forall>f. ok f \<longrightarrow> (\<exists>f'. s f = Some (Inr (next_in DIRECTION_DOWN b A), f') \<and> ok f'))) ?As (map locate ms)"
    using searcher.fin [OF c f] searcher.zero [OF c f] ms
    by (auto simp: list_all2_map1 list_all2_map2 intro!: list.rel_refl_strong)
  from or_loop_run [where I = ok, OF this f, of 0] obtain f1 where
    f1: "or_loop DIRECTION_DOWN (map locate ms) 0 f = Some (Inr (closest DIRECTION_DOWN 0 (next_in DIRECTION_DOWN b ?A)), f1)"
    "ok f1" unfolding matching_simps(1) by blast
  show ?thesis
  proof (cases "next_in DIRECTION_DOWN b ?A")
    case None
    with f1 show ?thesis by (simp add: closest_def returnE_def)
  next
    case (Some p)
    have r: "ok f1 \<and> matchable (MATCH_OR_TERM ms)" using f1(2) m by simp
    have p: "p \<in> ?A" using match_search.next_entry [OF r Some] by blast
    have mv: "move_to_entry E p f1 = Some (Inr (Some p), f1)" "p > 0"
      using match_search.entry [OF r p] match_search.pos [OF r p] by auto
    then have "thenE (journal_file_move_to_object E (Some OBJECT_ENTRY) p) (returnE (Some p)) f1 = Some (Inr (Some p), f1)"
      by (simp add: move_to_entry_def)
    with f1 Some mv(2) show ?thesis by (simp add: closest_def)
  qed
qed

lemma latest_run:
  assumes "list_all2 (\<lambda>A s. finite A \<and> 0 \<notin> A \<and>
      (\<forall>f. ok f \<longrightarrow> (\<exists>f'. s f = Some (Inr (next_in DIRECTION_DOWN b A), f') \<and> ok f'))) As ss" and "ok f"
  shows "\<exists>r f'. all_loop DIRECTION_DOWN ss np f = Some (Inr r, f') \<and> ok f' \<and>
    (case r of
       None \<Rightarrow> \<exists>A\<in>set As. next_in DIRECTION_DOWN b A = None
     | Some n \<Rightarrow> np \<le> n \<and> (\<forall>t\<in>\<Inter>(set As). b \<le> t \<longrightarrow> np \<le> t \<longrightarrow> n \<le> t) \<and> (As \<noteq> [] \<or> b \<le> np \<longrightarrow> b \<le> n))"
  using assms
proof (induction As ss arbitrary: np f rule: list_all2_induct)
  case Nil
  then show ?case by (simp add: returnE_def)
next
  case (Cons A As s ss)
  then have A: "finite A" "0 \<notin> A" by auto
  from Cons obtain f1 where f1: "s f = Some (Inr (next_in DIRECTION_DOWN b A), f1)" "ok f1" by blast
  show ?case
  proof (cases "next_in DIRECTION_DOWN b A")
    case None
    with f1 show ?thesis by (intro exI [of _ None] exI [of _ f1]) (auto simp: returnE_def)
  next
    case (Some cp)
    note cp = Some [unfolded next_in_iff(2) [OF A(1)]]
    let ?n = "if np = 0 \<or> cp > np then cp else np"
    have n: "np \<le> ?n" "b \<le> ?n" "cp \<le> ?n" using cp by (auto simp: before_def)
    from Cons.IH [OF f1(2), of ?n] obtain r f2 where
      f2: "all_loop DIRECTION_DOWN ss ?n f1 = Some (Inr r, f2)" "ok f2"
      and r: "case r of
       None \<Rightarrow> \<exists>A\<in>set As. next_in DIRECTION_DOWN b A = None
     | Some m \<Rightarrow> ?n \<le> m \<and> (\<forall>t\<in>\<Inter>(set As). b \<le> t \<longrightarrow> ?n \<le> t \<longrightarrow> m \<le> t) \<and> (As \<noteq> [] \<or> b \<le> ?n \<longrightarrow> b \<le> m)" by blast
    have "case r of
       None \<Rightarrow> \<exists>A\<in>set (A # As). next_in DIRECTION_DOWN b A = None
     | Some m \<Rightarrow> np \<le> m \<and> (\<forall>t\<in>\<Inter>(set (A # As)). b \<le> t \<longrightarrow> np \<le> t \<longrightarrow> m \<le> t) \<and> (A # As \<noteq> [] \<or> b \<le> np \<longrightarrow> b \<le> m)"
    proof (cases r)
      case (Some m)
      have "m \<le> t" if "t \<in> A" "t \<in> \<Inter>(set As)" "b \<le> t" "np \<le> t" for t
      proof -
        have "cp \<le> t" using cp that by (auto simp: before_def)
        then have "?n \<le> t" using that(4) by simp
        with that r Some show ?thesis by simp
      qed
      with r Some n show ?thesis by simp
    qed (use r in simp)
    with f1 f2 Some show ?thesis by auto
  qed
qed

lemma conjunction:
  assumes ms: "\<And>m f. m \<in> set ms \<Longrightarrow> ok f \<Longrightarrow>
      \<exists>f'. locate m f = Some (Inr (next_in DIRECTION_DOWN b (matching E g L m)), f') \<and> ok f'"
    and m: "matchable (MATCH_AND_TERM ms)" and f: "ok f"
  shows "\<exists>f'. locate (MATCH_AND_TERM ms) f = Some (Inr (next_in DIRECTION_DOWN b (matching E g L (MATCH_AND_TERM ms))), f') \<and> ok f'"
proof (cases "ms = []")
  case True
  with f show ?thesis by (simp add: returnE_def matching_simps)
next
  case ne: False
  let ?As = "map (matching E g L) ms" and ?A = "matching E g L (MATCH_AND_TERM ms)"
  have c: "searcher ok E DIRECTION_DOWN (matching E g L m) (next_for_match E DIRECTION_DOWN m)" if "m \<in> set ms" for m
    using tree_search m that by auto
  note A = matching_simps(2) [OF ne, of E g L]
  have "list_all2 (\<lambda>A s. finite A \<and> 0 \<notin> A \<and>
      (\<forall>f. ok f \<longrightarrow> (\<exists>f'. s f = Some (Inr (next_in DIRECTION_DOWN b A), f') \<and> ok f'))) ?As (map locate ms)"
    using searcher.fin [OF c f] searcher.zero [OF c f] ms
    by (auto simp: list_all2_map1 list_all2_map2 intro!: list.rel_refl_strong)
  from latest_run [OF this f, of 0] obtain r f1 where
    f1: "all_loop DIRECTION_DOWN (map locate ms) 0 f = Some (Inr r, f1)" "ok f1"
    and r: "case r of None \<Rightarrow> \<exists>A\<in>set ?As. next_in DIRECTION_DOWN b A = None
      | Some n \<Rightarrow> (\<forall>t\<in>?A. b \<le> t \<longrightarrow> n \<le> t) \<and> b \<le> n"
    unfolding A using ne by (force split: option.splits)
  have fin: "finite ?A" using match_search.fin [of E L DIRECTION_DOWN g f "MATCH_AND_TERM ms"] f m by blast
  show ?thesis
  proof (cases r)
    case None
    then obtain m' where m': "m' \<in> set ms" "next_in DIRECTION_DOWN b (matching E g L m') = None" using r by auto
    have "next_in DIRECTION_DOWN b ?A = None"
      unfolding next_in_iff(1) [OF fin] using m' next_in_iff(1) [OF searcher.fin [OF c [OF m'(1)] f]] A by auto
    with f1 None ne show ?thesis by (simp add: returnE_def)
  next
    case (Some n)
    have "{p \<in> ?A. before DIRECTION_DOWN b p} = {p \<in> ?A. before DIRECTION_DOWN n p}"
      using r Some by (auto simp: before_def)
    then have eq: "next_in DIRECTION_DOWN n ?A = next_in DIRECTION_DOWN b ?A" unfolding next_in_def by simp
    from match_search.law [OF conjI [OF f1(2) m], of n] eq obtain f2 where
      "next_for_match E DIRECTION_DOWN (MATCH_AND_TERM ms) n f1 = Some (Inr (next_in DIRECTION_DOWN b ?A), f2)" "ok f2" by auto
    with f1 Some ne show ?thesis by auto
  qed
qed

lemma tree:
  "matchable m \<Longrightarrow> ok f \<Longrightarrow> \<exists>f'. locate m f = Some (Inr (next_in DIRECTION_DOWN b (matching E g L m)), f') \<and> ok f'"
proof (induction m arbitrary: f)
  case (MATCH_DISCRETE d h)
  then show ?case by (rule discrete)
next
  case (MATCH_OR_TERM ms)
  then show ?case by (intro disjunction) auto
next
  case (MATCH_AND_TERM ms)
  then show ?case by (intro conjunction) auto
qed

end

abbreviation seq :: "journal_file \<Rightarrow> nat \<Rightarrow> nat" where "seq g \<equiv> entry_key e_seqnum g"

text \<open>What reading a file relies on, and keeps.\<close>

definition source_ok :: "env \<Rightarrow> (owner \<Rightarrow> nat list) \<Rightarrow> journal_file \<Rightarrow> bool" where
  "source_ok E L g \<longleftrightarrow> file_ok E g \<and> mmap_ok E \<and> entry_lists g L \<and> ordered g L \<and> linked L"

abbreviation scanning :: "env \<Rightarrow> (owner \<Rightarrow> nat list) \<Rightarrow> journal_file \<Rightarrow> journal_file \<Rightarrow> bool" where
  "scanning E L \<equiv> readable E L DIRECTION_DOWN"

lemma seq_less:
  assumes o: "ordered g L" and q: "q \<in> set (L Global)" "r \<in> set (L Global)"
  shows "q < r \<longleftrightarrow> seq g q < seq g r"
proof -
  from q obtain i k where i: "i < length (L Global)" "q = L Global ! i" and k: "k < length (L Global)" "r = L Global ! k"
    by (auto simp: in_set_conv_nth)
  have st: "sorted (L Global)" "distinct (L Global)" "sorted_wrt (<) (map (seq g) (L Global))" using o by (auto simp: ordered_def)
  have lt: "a < b \<Longrightarrow> b < length (L Global) \<Longrightarrow> L Global ! a < L Global ! b \<and> seq g (L Global ! a) < seq g (L Global ! b)" for a b
    using sorted_wrt_nth_less [OF st(3), of a b] sorted_wrt_nth_less [of "(<)" "L Global" a b] st(1,2)
    by (simp add: strict_sorted_iff)
  show ?thesis using lt [of i k] lt [of k i] i k by (cases i k rule: linorder_cases) auto
qed

lemma seq_inj:
  assumes "ordered g L" "q \<in> set (L Global)" "r \<in> set (L Global)" "seq g q = seq g r"
  shows "q = r"
proof -
  have "\<not> q < r" using seq_less [OF assms(1-3)] assms(4) by simp
  moreover have "\<not> r < q" using seq_less [OF assms(1,3,2)] assms(4) by simp
  ultimately show ?thesis by simp
qed

lemma seq_threshold:
  assumes "ordered g L"
  obtains b where "\<forall>q\<in>set (L Global). b \<le> q \<longleftrightarrow> s \<le> seq g q"
proof (cases "\<exists>q\<in>set (L Global). s \<le> seq g q")
  case True
  let ?B = "{q \<in> set (L Global). s \<le> seq g q}"
  have "finite ?B" "?B \<noteq> {}" using True by auto
  then have m: "Min ?B \<in> ?B" "\<And>q. q \<in> ?B \<Longrightarrow> Min ?B \<le> q" using Min_in [of ?B] Min_le [of ?B] by blast+
  have "Min ?B \<le> q \<longleftrightarrow> s \<le> seq g q" if "q \<in> set (L Global)" for q
  proof
    assume "Min ?B \<le> q"
    then have "seq g (Min ?B) \<le> seq g q" using seq_less [OF assms, of q "Min ?B"] that m(1) by (auto simp: not_less [symmetric])
    with m(1) show "s \<le> seq g q" by simp
  qed (use m(2) that in simp)
  with that show thesis by blast
next
  case False
  have "\<not> Suc (Max (set (L Global))) \<le> q" if "q \<in> set (L Global)" for q
    using that by (metis List.finite_set Max_ge not_less_eq_eq)
  with False that [of "Suc (Max (set (L Global)))"] show thesis by blast
qed

lemma scanning_ok:
  assumes "source_ok E L g" "scanning E L g f"
  shows "seek_ok E L f" "\<exists>cc. f = cache_set cc g" "entry_map f = entry_map g" "header f = header g" "store f = store g"
    "entry_key sel f = entry_key sel g"
  using assms(2) by (auto simp: readable_def reading_def entry_key_def fun_eq_iff)

lemma scanning_cache:
  assumes "scanning E L g f" "seek_ok E L (cache_set cc f)"
  shows "scanning E L g (cache_set cc f)"
  using assms by (auto simp: readable_def reading_def)

lemma data_stored: "has_data E g p x \<Longrightarrow> store f = store g \<Longrightarrow> \<exists>ob. store f p = Some ob \<and> o_type ob = OBJECT_DATA"
  by (auto simp: has_data_def erased_Some erase_def)

lemma data_first:
  assumes r: "scanning E L g f" and d: "has_data E g p x"
  shows "\<exists>f'. journal_file_next_entry_for_data E None 0 p DIRECTION_DOWN f =
      Some (Inr (next_in DIRECTION_DOWN 0 (set (L (Of p)))), f') \<and> scanning E L g f'"
proof -
  obtain cc where f: "f = cache_set cc g" "seek_ok E L f" "mmap_ok E" using r by (auto simp: readable_def reading_def seek_ok_def)
  from d f(1) obtain ob where ob: "store f p = Some ob" "o_type ob = OBJECT_DATA" using data_stored [OF d, of f] by auto
  have mv: "journal_file_move_to_object E (Some OBJECT_DATA) p f = Some (Inr ob, f)"
    using f ob by (intro move_to_object_stored) (auto simp: seek_ok_def)
  have n: "d_n_entries (data_of ob) = length (L (Of p))" using cnt_length(2) [of f L p ob] f(2) ob by (simp add: seek_ok_def)
  have s: "sorted (L (Of p))" using r by (simp add: readable_def)
  show ?thesis
  proof (cases "L (Of p)")
    case Nil
    with mv n r show ?thesis by (intro exI [of _ f]) (simp add: journal_file_next_entry_for_data_def Let_def)
  next
    case (Cons q qs)
    then have hd: "next_in DIRECTION_DOWN 0 (set (L (Of p))) = Some (L (Of p) ! 0)"
      using s by (subst next_in_iff(2)) (auto simp: before_def)
    have "0 < length (L (Of p))" using Cons by simp
    from get_data_entry_run [OF f(2) ob this] obtain cc' where
      "generic_array_get_plus_one E (d_entry_offset (data_of ob)) (d_entry_array_offset (data_of ob)) 0 f =
        Some (Inr (Some (L (Of p) ! 0)), cache_set cc' f)" "seek_ok E L (cache_set cc' f)" by blast
    with mv n Cons hd scanning_cache [OF r] show ?thesis
      by (intro exI [of _ "cache_set cc' f"]) (simp add: journal_file_next_entry_for_data_def Let_def)
  qed
qed

interpretation head: locator E L g "l\<lparr>loc_type := LOCATION_HEAD\<rparr>" 0 for E L g l
  by unfold_locales (simp add: find_location_for_data_def data_first)


text \<open>Locations that are given by a sequence number of the same source.\<close>

definition seqnum_location :: "location \<Rightarrow> journal_file \<Rightarrow> bool" where
  "seqnum_location l g \<longleftrightarrow> (loc_type l = LOCATION_DISCRETE \<or> loc_type l = LOCATION_SEEK) \<and> seqnum_set l \<and>
     uuid_equal (loc_seqnum_id l) (seqnum_id (header g))"

lemma find_seq:
  assumes b: "\<forall>q\<in>A. b \<le> q \<longleftrightarrow> s \<le> seq g q" and sub: "set xs \<subseteq> A" and so: "sorted xs"
  shows "List.find (\<lambda>p. s \<le> seq g p) xs = next_in DIRECTION_DOWN b (set xs)"
proof -
  have "List.find (\<lambda>p. s \<le> seq g p) xs = List.find (\<lambda>p. b \<le> p) xs"
    by (rule find_cong) (use b sub in auto)
  then show ?thesis using find_sorted [OF so] by simp
qed

lemma sorted_seq:
  assumes "ordered g L" "set xs \<subseteq> set (L Global)" "sorted xs"
  shows "sorted (map (seq g) xs)"
proof -
  have "seq g x \<le> seq g y" if "x \<in> set xs" "y \<in> set xs" "x \<le> y" for x y
    using seq_less [OF assms(1), of y x] that assms(2) by (auto simp: not_less [symmetric])
  then show ?thesis using assms(3) by (auto simp: sorted_iff_nth_mono)
qed

lemma seqnum_locator:
  assumes ok: "source_ok E L g" and l: "seqnum_location l g"
    and b: "\<forall>q\<in>set (L Global). b \<le> q \<longleftrightarrow> loc_seqnum l \<le> seq g q"
  shows "locator E L g l b"
proof
  fix f p x assume r: "scanning E L g f" and d: "has_data E g p x"
  note f = scanning_ok [OF ok r]
  have o: "ordered g L" "set (L (Of p)) \<subseteq> set (L Global)" "sorted (L (Of p))"
    using ok by (auto simp: source_ok_def linked_def ordered_def)
  from data_stored [OF d f(5)] obtain ob where ob: "store f p = Some ob" "o_type ob = OBJECT_DATA" by blast
  have mv: "journal_file_move_to_object E (Some OBJECT_DATA) p f = Some (Inr ob, f)"
    using f(1) ob by (intro move_to_object_stored) (auto simp: seek_ok_def)
  have so: "sorted (map (entry_key e_seqnum f) (L (Of p)))" using sorted_seq [OF o] f(6) by simp
  obtain cc where "bisect_data E ob (loc_seqnum l) (test_object_seqnum E) DIRECTION_DOWN f =
      Some (Inr (seek_spec (seq g) DIRECTION_DOWN (loc_seqnum l) (L (Of p))), cache_set cc f)" "seek_ok E L (cache_set cc f)"
    using bisect_data_run [OF f(1) ob test_key_ok(1) [OF f(1)] so, of "loc_seqnum l" DIRECTION_DOWN] f(6) by auto
  then have "journal_file_move_to_entry_by_seqnum_for_data E p (loc_seqnum l) DIRECTION_DOWN f =
      Some (Inr (next_in DIRECTION_DOWN b (set (L (Of p)))), cache_set cc f)" "scanning E L g (cache_set cc f)"
    using mv find_seq [OF b o(2,3)] seek_down_find [of "seq g" "loc_seqnum l" "L (Of p)"] scanning_cache [OF r]
    by (simp_all add: journal_file_move_to_entry_by_seqnum_for_data_def with_data_def offset_only_def)
  with l f(4) show "\<exists>f'. find_location_for_data E l DIRECTION_DOWN p f =
      Some (Inr (next_in DIRECTION_DOWN b (set (L (Of p)))), f') \<and> scanning E L g f'"
    by (auto simp: find_location_for_data_def seqnum_location_def)
qed

section \<open>One file\<close>

text \<open>The entries that are wanted: those that satisfy the matches, if there are any.\<close>

definition wanted :: "env \<Rightarrow> match option \<Rightarrow> (owner \<Rightarrow> nat list) \<Rightarrow> journal_file \<Rightarrow> nat set" where
  "wanted E lv0 L g = (case lv0 of None \<Rightarrow> set (L Global) | Some m \<Rightarrow> matching E g L m)"

definition matches_ok :: "match option \<Rightarrow> bool" where
  "matches_ok lv0 \<longleftrightarrow> (case lv0 of None \<Rightarrow> True | Some m \<Rightarrow> matchable m)"

lemma sat_empty: "\<not> sat m {}"
  by (induction m) (auto simp: neq_Nil_conv)

lemma wanted_sub: "source_ok E L g \<Longrightarrow> wanted E lv0 L g \<subseteq> set (L Global)"
proof
  fix q assume ok: "source_ok E L g" and q: "q \<in> wanted E lv0 L g"
  show "q \<in> set (L Global)"
  proof (cases lv0)
    case (Some m)
    then have "entry_data E g L q \<noteq> {}" using q sat_empty [of m] by (auto simp: wanted_def matching_def)
    then show ?thesis using ok by (auto simp: entry_data_def source_ok_def linked_def)
  qed (use q in \<open>simp add: wanted_def\<close>)
qed

lemma wanted_fin: "source_ok E L g \<Longrightarrow> finite (wanted E lv0 L g)"
  by (rule finite_subset [OF wanted_sub]) simp_all

lemma neighbour_next_in:
  assumes "sorted xs" "distinct xs" "i < length xs"
  shows "neighbour DIRECTION_DOWN i xs = next_in DIRECTION_DOWN (Suc (xs ! i)) (set xs)"
proof -
  have ss: "sorted_wrt (<) xs" using assms by (simp add: strict_sorted_iff)
  have lt: "xs ! a < xs ! b \<longleftrightarrow> a < b" if "a < length xs" "b < length xs" for a b
    using sorted_wrt_nth_less [OF ss, of a b] sorted_wrt_nth_less [OF ss, of b a] that
    by (cases a b rule: linorder_cases) auto
  show ?thesis
  proof (cases "Suc i < length xs")
    case True
    have "xs ! Suc i \<le> xs ! k" if "k < length xs" "xs ! i < xs ! k" for k
      using lt [of i k] lt [of k "Suc i"] that assms(3) True by (auto simp: not_less [symmetric])
    then have "next_in DIRECTION_DOWN (Suc (xs ! i)) (set xs) = Some (xs ! Suc i)"
      using True lt [of i "Suc i"] assms(3)
      by (subst next_in_iff(2)) (auto simp: before_def Suc_le_eq in_set_conv_nth)
    with True show ?thesis by (simp add: neighbour_simps)
  next
    case False
    have "\<not> xs ! i < xs ! k" if "k < length xs" for k using lt [of i k] that assms(3) False by auto
    then have "next_in DIRECTION_DOWN (Suc (xs ! i)) (set xs) = None"
      by (subst next_in_iff(1)) (auto simp: before_def Suc_le_eq in_set_conv_nth)
    with False show ?thesis by (simp add: neighbour_simps)
  qed
qed

lemma entry_offset_small:
  assumes "source_ok E L g" "q \<in> set (L w)"
  shows "add64 q 1 = Suc q"
proof -
  have lay: "layout g" "q \<in> dom (entry_map g)" using assms by (auto simp: source_ok_def file_ok_def entry_lists_def)
  then obtain ob where "store g q = Some ob" by (auto simp: entry_map_Some)
  then have "q < 2 ^ 63" using layoutD(5) [OF lay(1)] layout_bounds(3) [OF lay(1)] by fastforce
  then show ?thesis by (simp add: add64_def two64_def)
qed

lemma next_with_matches_run:
  assumes ok: "source_ok E L g" and m: "matches_ok lv0" and r: "scanning E L g f" and q: "q \<in> set (L Global)"
  shows "\<exists>f'. next_with_matches E lv0 DIRECTION_DOWN q f =
      Some (Inr (next_in DIRECTION_DOWN (Suc q) (wanted E lv0 L g)), f') \<and> scanning E L g f'"
proof (cases lv0)
  case None
  note f = scanning_ok [OF ok r]
  from q obtain i where i: "i < length (L Global)" "q = L Global ! i" by (auto simp: in_set_conv_nth)
  have so: "sorted (L Global)" "distinct (L Global)" using ok by (auto simp: source_ok_def ordered_def)
  have rd: "reading E L g f" using r by (simp add: readable_def)
  have "layout f" "mmap_ok E" using f(1) by (auto simp: seek_ok_def)
  from entry_stored [OF this seek_ok_entries(1) [OF f(1) q]] obtain ob where
    ob: "journal_file_move_to_object E (Some OBJECT_ENTRY) q f = Some (Inr ob, f)" by metis
  have at: "object_at f q = ob" "o_type ob = OBJECT_ENTRY"
    using move_to_object_Inr [OF ob] by (auto simp: object_at_def)
  from next_entry_member [OF rd so i(1) at(2), of DIRECTION_DOWN] obtain f' where
    "journal_file_next_entry E (Some ob) q DIRECTION_DOWN f = Some (Inr (next_in DIRECTION_DOWN (Suc q) (set (L Global))), f')"
    "reading E L g f'" using neighbour_next_in [OF so i(1)] i(2) by auto
  with None at r show ?thesis by (auto simp: next_with_matches_def wanted_def readable_def)
next
  case (Some t)
  then have "matchable t" using m by (simp add: matches_ok_def)
  from match_search.law [OF conjI [OF r this], of "Suc q"] Some entry_offset_small [OF ok q] show ?thesis
    by (auto simp: next_with_matches_def wanted_def)
qed

lemma find_location_head:
  assumes ok: "source_ok E L g" and m: "matches_ok lv0" and r: "scanning E L g f" and l: "loc_type l = LOCATION_HEAD"
  shows "\<exists>f'. find_location_with_matches E l lv0 DIRECTION_DOWN f =
      Some (Inr (next_in DIRECTION_DOWN 0 (wanted E lv0 L g)), f') \<and> scanning E L g f'"
proof (cases lv0)
  case None
  have rd: "reading E L g f" "sorted (L Global)" using r by (auto simp: readable_def)
  have "next_in DIRECTION_DOWN 0 (set (L Global)) = (if L Global = [] then None else Some (hd (L Global)))"
    using find_sorted [OF rd(2), of 0] by (cases "L Global") auto
  with next_entry_start [OF rd(1), of DIRECTION_DOWN] None l r show ?thesis
    by (auto simp: find_location_with_matches_def wanted_def readable_def)
next
  case (Some t)
  have "l\<lparr>loc_type := LOCATION_HEAD\<rparr> = l" using l by (cases l) simp
  with head.tree [of t E L g f l] Some m r show ?thesis
    by (auto simp: find_location_with_matches_def wanted_def matches_ok_def)
qed

lemma find_location_seqnum:
  assumes ok: "source_ok E L g" and m: "matches_ok lv0" and r: "scanning E L g f" and l: "seqnum_location l g"
    and b: "\<forall>q\<in>set (L Global). b \<le> q \<longleftrightarrow> loc_seqnum l \<le> seq g q"
  shows "\<exists>f'. find_location_with_matches E l lv0 DIRECTION_DOWN f =
      Some (Inr (next_in DIRECTION_DOWN b (wanted E lv0 L g)), f') \<and> scanning E L g f'"
proof (cases lv0)
  case None
  note f = scanning_ok [OF ok r]
  have o: "ordered g L" "sorted (L Global)" using ok by (auto simp: source_ok_def ordered_def)
  have so: "sorted (map (entry_key e_seqnum f) (L Global))" using sorted_seq [OF o(1) _ o(2)] f(6) by simp
  obtain cc where "bisect_entries E (loc_seqnum l) (test_object_seqnum E) DIRECTION_DOWN f =
      Some (Inr (seek_spec (seq g) DIRECTION_DOWN (loc_seqnum l) (L Global)), cache_set cc f)" "seek_ok E L (cache_set cc f)"
    using bisect_entries_run [OF f(1) test_key_ok(1) [OF f(1)] so, of "loc_seqnum l" DIRECTION_DOWN] f(6)
    by (auto simp: bisect_spec_def)
  then have "journal_file_move_to_entry_by_seqnum E (loc_seqnum l) DIRECTION_DOWN f =
      Some (Inr (next_in DIRECTION_DOWN b (set (L Global))), cache_set cc f)" "scanning E L g (cache_set cc f)"
    using find_seq [OF b _ o(2)] seek_down_find [of "seq g" "loc_seqnum l" "L Global"] scanning_cache [OF r]
    by (simp_all add: journal_file_move_to_entry_by_seqnum_def offset_only_def)
  with l f(4) None show ?thesis by (auto simp: find_location_with_matches_def seqnum_location_def wanted_def)
next
  case (Some t)
  with locator.tree [OF seqnum_locator [OF ok l b], of t f] m r show ?thesis
    by (auto simp: find_location_with_matches_def wanted_def matches_ok_def)
qed

abbreviation entry_rec :: "journal_file \<Rightarrow> nat \<Rightarrow> entry_object" where "entry_rec g q \<equiv> the (entry_map g q)"

lemma object_entry:
  assumes "source_ok E L g" "scanning E L g f" "q \<in> set (L Global)"
  obtains ob where "journal_file_move_to_object E (Some OBJECT_ENTRY) q f = Some (Inr ob, f)" "object_at f q = ob"
    "entry_of ob = entry_rec g q" "q > 0"
proof -
  note f = scanning_ok [OF assms(1,2)]
  have "layout f" "mmap_ok E" using f(1) by (auto simp: seek_ok_def)
  from entry_stored [OF this seek_ok_entries(1) [OF f(1) assms(3)]] obtain ob where
    ob: "journal_file_move_to_object E (Some OBJECT_ENTRY) q f = Some (Inr ob, f)" "entry_of ob = entry_rec f q" by metis
  moreover have "object_at f q = ob" using move_to_object_Inr [OF ob(1)] by (auto simp: object_at_def)
  ultimately show thesis using that [of ob] f(3) seek_ok_entries(2) [OF f(1) assms(3)] by simp
qed

lemma three_way_simps:
  "three_way a b > 0 \<longleftrightarrow> b < a" "three_way a b < 0 \<longleftrightarrow> a < b" "three_way a b = 0 \<longleftrightarrow> a = b"
  by (auto simp: three_way_def)

text \<open>Entries of one source of sequence numbers are compared by these, when they are not taken for the same.\<close>

lemma compare_with_entry:
  assumes "uuid_equal sid (seqnum_id (header g))"
    and "uuid_equal (e_boot_id c) (e_boot_id e) \<Longrightarrow> e_realtime c = e_realtime e \<Longrightarrow> e_xor_hash c = e_xor_hash e \<Longrightarrow>
      e_seqnum c \<le> e_seqnum e"
    and "e_seqnum c = e_seqnum e \<Longrightarrow> c = e"
  shows "compare_with_location sid c (init_location LOCATION_DISCRETE g e) > 0 \<longleftrightarrow> e_seqnum e < e_seqnum c"
proof (cases "e_seqnum c = e_seqnum e")
  case True
  then have "c = e" using assms(3) by simp
  then show ?thesis by (simp add: compare_with_location_def init_location_def uuid_equal_def)
next
  case False
  then show ?thesis using assms(1,2)
    by (auto simp: compare_with_location_def init_location_def three_way_simps)
qed

lemma compare_entries_seqnum:
  assumes "uuid_equal asid bsid" "e_seqnum a \<noteq> e_seqnum b"
    and "\<not> (uuid_equal (e_boot_id a) (e_boot_id b) \<and> e_realtime a = e_realtime b \<and> e_xor_hash a = e_xor_hash b)"
  shows "compare_entries asid a bsid b < 0 \<longleftrightarrow> e_seqnum a < e_seqnum b"
  using assms by (auto simp: compare_entries_def three_way_def)

section \<open>The next entry of one file\<close>

lemma next_in_cong: "{p \<in> A. before dir a p} = {p \<in> B. before dir b p} \<Longrightarrow> next_in dir a A = next_in dir b B"
  unfolding next_in_def by simp

lemma beyond_loop_run:
  assumes ok: "source_ok E L g" and m: "matches_ok lv0"
    and U: "\<And>f q. scanning E L g f \<Longrightarrow> q \<in> wanted E lv0 L g \<Longrightarrow> is_beyond l DIRECTION_DOWN f q \<longleftrightarrow> q \<in> U"
  shows "scanning E L g f \<Longrightarrow> cp \<in> wanted E lv0 L g \<Longrightarrow>
    \<exists>f'. beyond_loop E l lv0 DIRECTION_DOWN cp f =
      Some (Inr (next_in DIRECTION_DOWN cp (wanted E lv0 L g \<inter> U)), f') \<and> scanning E L g f'"
proof (induction "card {q \<in> wanted E lv0 L g. cp < q}" arbitrary: cp f rule: less_induct)
  case less
  let ?W = "wanted E lv0 L g"
  note fin = wanted_fin [OF ok, of lv0]
  have finU: "finite (?W \<inter> U)" using fin by simp
  show ?case
  proof (cases "cp \<in> U")
    case True
    then have "next_in DIRECTION_DOWN cp (?W \<inter> U) = Some cp"
      using less.prems by (subst next_in_iff(2) [OF finU]) (auto simp: before_def)
    with True less.prems U show ?thesis by (subst beyond_loop.simps) auto
  next
    case False
    have nb: "\<not> is_beyond l DIRECTION_DOWN f cp" using U less.prems False by blast
    have q: "cp \<in> set (L Global)" using wanted_sub [OF ok] less.prems(2) by blast
    obtain f1 where f1: "next_with_matches E lv0 DIRECTION_DOWN cp f = Some (Inr (next_in DIRECTION_DOWN (Suc cp) ?W), f1)"
      "scanning E L g f1" using next_with_matches_run [OF ok m less.prems(1) q] by blast
    show ?thesis
    proof (cases "next_in DIRECTION_DOWN (Suc cp) ?W")
      case None
      then have "next_in DIRECTION_DOWN cp (?W \<inter> U) = None"
        using next_in_iff(1) [OF fin, of DIRECTION_DOWN "Suc cp"] False
        by (subst next_in_iff(1) [OF finU]) (auto simp: before_def Suc_le_eq le_less)
      with None f1 nb show ?thesis by (subst beyond_loop.simps) auto
    next
      case (Some c)
      note c = Some [unfolded next_in_iff(2) [OF fin]]
      have "{q \<in> ?W. c < q} \<subset> {q \<in> ?W. cp < q}" using c by (auto simp: before_def)
      then have "card {q \<in> ?W. c < q} < card {q \<in> ?W. cp < q}" using fin by (intro psubset_card_mono) auto
      from less.hyps [OF this f1(2)] c obtain f2 where
        f2: "beyond_loop E l lv0 DIRECTION_DOWN c f1 = Some (Inr (next_in DIRECTION_DOWN c (?W \<inter> U)), f2)"
        "scanning E L g f2" by blast
      have "c \<le> q \<longleftrightarrow> cp \<le> q" if "q \<in> ?W" "q \<in> U" for q
      proof -
        have "q \<noteq> cp" using that(2) False by blast
        then have "cp \<le> q \<Longrightarrow> Suc cp \<le> q" by simp
        then show ?thesis using c that(1) by (auto simp: before_def)
      qed
      then have "next_in DIRECTION_DOWN c (?W \<inter> U) = next_in DIRECTION_DOWN cp (?W \<inter> U)"
        by (intro next_in_cong) (auto simp: before_def)
      with f1 f2 Some nb show ?thesis by (subst beyond_loop.simps) auto
    qed
  qed
qed

text \<open>
  The position of the reader in a file: from where the search goes on, none of the entries ahead is
  behind.
\<close>

lemma next_beyond_run:
  assumes ok: "source_ok E L g" and m: "matches_ok lv0" and f: "scanning E L g f"
    and U: "\<And>f q. scanning E L g f \<Longrightarrow> q \<in> wanted E lv0 L g \<Longrightarrow> is_beyond l DIRECTION_DOWN f q \<longleftrightarrow> q \<in> U"
    and cur: "cur = 0 \<or> (last_dir = DIRECTION_DOWN \<and> cur \<in> set (L Global) \<and> (\<forall>q\<in>wanted E lv0 L g \<inter> U. cur < q))"
    and start: "cur = 0 \<Longrightarrow> \<exists>b f'. find_location_with_matches E l lv0 DIRECTION_DOWN f =
      Some (Inr (next_in DIRECTION_DOWN b (wanted E lv0 L g)), f') \<and> scanning E L g f' \<and> (\<forall>q\<in>wanted E lv0 L g \<inter> U. b \<le> q)"
  shows "\<exists>f'. next_beyond_location E l lv0 DIRECTION_DOWN last_dir cur f =
      Some (Inr (next_in DIRECTION_DOWN 0 (wanted E lv0 L g \<inter> U)), f') \<and> scanning E L g f'"
proof -
  let ?W = "wanted E lv0 L g"
  note fin = wanted_fin [OF ok, of lv0]
  have "\<exists>b f1. (if last_dir = DIRECTION_DOWN \<and> cur > 0
            then thenE (journal_file_move_to_object E (Some OBJECT_ENTRY) cur) (next_with_matches E lv0 DIRECTION_DOWN cur)
            else find_location_with_matches E l lv0 DIRECTION_DOWN) f =
      Some (Inr (next_in DIRECTION_DOWN b ?W), f1) \<and> scanning E L g f1 \<and> (\<forall>q\<in>?W \<inter> U. b \<le> q)"
  proof (cases "cur = 0")
    case True
    then show ?thesis using start by auto
  next
    case False
    then have c: "last_dir = DIRECTION_DOWN" "cur \<in> set (L Global)" "\<forall>q\<in>?W \<inter> U. Suc cur \<le> q" using cur by (auto simp: Suc_le_eq)
    obtain ob where "journal_file_move_to_object E (Some OBJECT_ENTRY) cur f = Some (Inr ob, f)"
      using object_entry [OF ok f c(2)] by metis
    with next_with_matches_run [OF ok m f c(2)] c False show ?thesis by (intro exI [of _ "Suc cur"]) auto
  qed
  then obtain b f1 where f1: "(if last_dir = DIRECTION_DOWN \<and> cur > 0
            then thenE (journal_file_move_to_object E (Some OBJECT_ENTRY) cur) (next_with_matches E lv0 DIRECTION_DOWN cur)
            else find_location_with_matches E l lv0 DIRECTION_DOWN) f = Some (Inr (next_in DIRECTION_DOWN b ?W), f1)"
    "scanning E L g f1" and b: "\<forall>q\<in>?W \<inter> U. b \<le> q" by blast
  have finU: "finite (?W \<inter> U)" using fin by simp
  show ?thesis
  proof (cases "next_in DIRECTION_DOWN b ?W")
    case None
    then have "next_in DIRECTION_DOWN 0 (?W \<inter> U) = None"
      using next_in_iff(1) [OF fin, of DIRECTION_DOWN b] b by (subst next_in_iff(1) [OF finU]) (auto simp: before_def)
    with None f1 show ?thesis unfolding next_beyond_location_def by (auto simp: bindE_def returnE_def)
  next
    case (Some cp)
    note c = Some [unfolded next_in_iff(2) [OF fin]]
    have "next_in DIRECTION_DOWN cp (?W \<inter> U) = next_in DIRECTION_DOWN 0 (?W \<inter> U)"
      by (rule next_in_cong) (use c b in \<open>auto simp: before_def\<close>)
    with beyond_loop_run [OF ok m U f1(2)] c Some f1 show ?thesis
      unfolding next_beyond_location_def by (fastforce simp: bindE_def)
  qed
qed

end
