(* ===== verification/Reader_Merge.thy ===== *)
theory Reader_Merge
  imports Reader_File
begin

text \<open>
  The journal reader over several files: the invariant of its position, moving to the next entry, and
  reading everything that satisfies the matches.
\<close>

section \<open>Several files\<close>

type_synonym source = "string \<times> journal_file \<times> (owner \<Rightarrow> nat list)"

text \<open>What the reader takes for the same entry.\<close>

definition same_entry :: "entry_object \<Rightarrow> entry_object \<Rightarrow> bool" where
  "same_entry a b \<longleftrightarrow> uuid_equal (e_boot_id a) (e_boot_id b) \<and> e_realtime a = e_realtime b \<and> e_xor_hash a = e_xor_hash b"

text \<open>
  Sound files whose sequence numbers come from one source, as those that rotation makes: no number is
  used twice, and no two entries are taken for the same.
\<close>

definition sources_ok :: "env \<Rightarrow> source list \<Rightarrow> bool" where
  "sources_ok E F \<longleftrightarrow> distinct (map fst F) \<and> (\<forall>p g L. (p, g, L) \<in> set F \<longrightarrow> source_ok E L g) \<and>
     (\<forall>p g L p' g' L'. (p, g, L) \<in> set F \<longrightarrow> (p', g', L') \<in> set F \<longrightarrow>
        uuid_equal (seqnum_id (header g)) (seqnum_id (header g')) \<and>
        (\<forall>q\<in>set (L Global). \<forall>q'\<in>set (L' Global).
           seq g q = seq g' q' \<or> same_entry (entry_rec g q) (entry_rec g' q') \<longrightarrow> p = p' \<and> q = q'))"

lemma sources_okD:
  assumes "sources_ok E F" "(p, g, L) \<in> set F"
  shows "source_ok E L g" "(p, g', L') \<in> set F \<Longrightarrow> g' = g \<and> L' = L"
    "(p', g', L') \<in> set F \<Longrightarrow> uuid_equal (seqnum_id (header g)) (seqnum_id (header g'))"
    "(p', g', L') \<in> set F \<Longrightarrow> q \<in> set (L Global) \<Longrightarrow> q' \<in> set (L' Global) \<Longrightarrow>
      seq g q = seq g' q' \<or> same_entry (entry_rec g q) (entry_rec g' q') \<Longrightarrow> p = p' \<and> q = q'"
  using assms unfolding sources_ok_def by (blast, metis eq_key_imp_eq_value prod.inject, blast, blast)

text \<open>A position: at the head, after a sequence number, or from a sequence number on.\<close>

datatype position = AtHead | After nat | From nat

definition ahead_of :: "position \<Rightarrow> journal_file \<Rightarrow> nat set" where
  "ahead_of pos g = {q. case pos of AtHead \<Rightarrow> True | After s \<Rightarrow> s < seq g q | From s \<Rightarrow> s \<le> seq g q}"

definition remaining :: "env \<Rightarrow> match option \<Rightarrow> position \<Rightarrow> source \<Rightarrow> nat set" where
  "remaining E lv0 pos = (\<lambda>(p, g, L). wanted E lv0 L g \<inter> ahead_of pos g)"

text \<open>The state of the reader at a position.\<close>

definition file_at :: "env \<Rightarrow> position \<Rightarrow> source \<Rightarrow> reader_file \<Rightarrow> bool" where
  "file_at E pos = (\<lambda>(p, g, L) rf. rf_path rf = p \<and> scanning E L g (rf_file rf) \<and>
     (current_offset rf = 0 \<or>
      (\<exists>s. pos = After s \<and> last_direction rf = DIRECTION_DOWN \<and> current_offset rf \<in> set (L Global) \<and>
         seq g (current_offset rf) \<le> s)))"

definition located :: "source list \<Rightarrow> position \<Rightarrow> location \<Rightarrow> bool" where
  "located F pos l \<longleftrightarrow>
     (case pos of
        AtHead \<Rightarrow> loc_type l = LOCATION_HEAD
      | After s \<Rightarrow> \<exists>p g L q. (p, g, L) \<in> set F \<and> q \<in> set (L Global) \<and> s = seq g q \<and>
                   l = init_location LOCATION_DISCRETE g (entry_rec g q)
      | From s \<Rightarrow> loc_type l = LOCATION_SEEK \<and> loc_seqnum l = s \<and> (\<forall>p g L. (p, g, L) \<in> set F \<longrightarrow> seqnum_location l g))"

definition reader_at :: "env \<Rightarrow> source list \<Rightarrow> match option \<Rightarrow> position \<Rightarrow> sd_journal \<Rightarrow> bool" where
  "reader_at E F lv0 pos j \<longleftrightarrow> list_all2 (file_at E pos) F (j_files j) \<and> located F pos (current_location j) \<and>
     level0 (j_matches j) = lv0 \<and> \<not> journal_pid_changed j"

lemma file_at_path: "file_at E pos s rf \<Longrightarrow> rf_path rf = fst s"
  by (auto simp: file_at_def)

lemma reader_get_file:
  assumes F: "sources_ok E F" and j: "reader_at E F lv0 pos j" and s: "(p, g, L) \<in> set F"
  obtains rf where "get_file p j = Some rf" "file_at E pos (p, g, L) rf"
proof -
  have la: "list_all2 (file_at E pos) F (j_files j)" using j by (simp add: reader_at_def)
  from s obtain i where i: "i < length F" "F ! i = (p, g, L)" by (auto simp: in_set_conv_nth)
  have fi: "file_at E pos (F ! i) (j_files j ! i)" "i < length (j_files j)" using la i by (auto simp: list_all2_conv_all_nth)
  then have "\<exists>rf\<in>set (j_files j). rf_path rf = p" using file_at_path [OF fi(1)] i by (metis fst_conv nth_mem)
  then obtain rf where rf: "get_file p j = Some rf"
    unfolding get_file_def by (cases "List.find (\<lambda>rf. rf_path rf = p) (j_files j)") (auto simp: find_None_iff)
  then have "rf \<in> set (j_files j)" "rf_path rf = p" unfolding get_file_def by (auto simp: find_Some_iff)
  then obtain k where k: "k < length F" "rf = j_files j ! k" "file_at E pos (F ! k) rf"
    using la by (auto simp: list_all2_conv_all_nth in_set_conv_nth)
  have "fst (F ! k) = p" using file_at_path [OF k(3)] \<open>rf_path rf = p\<close> by simp
  then have "F ! k = (p, g, L)" using sources_okD(2) [OF F s] nth_mem [OF k(1)] by (cases "F ! k") auto
  with rf k(3) that show thesis by simp
qed

lemma files_upd:
  assumes F: "sources_ok E F" and s: "(p, g, L) \<in> set F"
    and la: "list_all2 (file_at E pos) F (j_files j)"
    and h: "\<And>s rf. s \<in> set F \<Longrightarrow> file_at E pos s rf \<Longrightarrow> file_at E pos' s (if rf_path rf = p then h rf else rf)"
  shows "list_all2 (file_at E pos') F (j_files (upd_file p h j))"
  using la h by (auto simp: upd_file_def list_all2_conv_all_nth)

lemma paths_upd: "map rf_path (j_files (upd_file p (\<lambda>rf. rf\<lparr>rf_file := f\<rparr>) j)) = map rf_path (j_files j)"
  by (auto simp: upd_file_def)

lemma reader_paths: "reader_at E F lv0 pos j \<Longrightarrow> map rf_path (j_files j) = map fst F"
proof -
  assume "reader_at E F lv0 pos j"
  then have "list_all2 (file_at E pos) F (j_files j)" by (simp add: reader_at_def)
  then show ?thesis by (induction rule: list_all2_induct) (simp_all add: file_at_path)
qed

text \<open>Reading in a file keeps the state of the reader.\<close>

lemma on_rfile_run:
  assumes F: "sources_ok E F" and j: "reader_at E F lv0 pos j" and s: "(p, g, L) \<in> set F"
    and m: "\<And>f. scanning E L g f \<Longrightarrow> \<exists>f'. m f = Some (r, f') \<and> scanning E L g f'"
  shows "\<exists>j'. on_rfile p m j = Some (r, j') \<and> reader_at E F lv0 pos j'"
proof -
  obtain rf where rf: "get_file p j = Some rf" "file_at E pos (p, g, L) rf" by (rule reader_get_file [OF F j s])
  then obtain f' where f': "m (rf_file rf) = Some (r, f')" "scanning E L g f'" using m [of "rf_file rf"] by (auto simp: file_at_def)
  let ?j = "upd_file p (\<lambda>rf. rf\<lparr>rf_file := f'\<rparr>) j"
  have "file_at E pos s' (if rf_path rf = p then rf\<lparr>rf_file := f'\<rparr> else rf)" if "s' \<in> set F" "file_at E pos s' rf" for s' rf
  proof (cases s')
    case (fields p' g' L')
    show ?thesis
    proof (cases "p' = p")
      case True
      then have "g' = g" "L' = L" using sources_okD(2) [OF F s, of g' L'] that(1) fields by auto
      with that(2) f'(2) fields show ?thesis by (auto simp: file_at_def)
    qed (use that(2) fields in \<open>auto simp: file_at_def\<close>)
  qed
  then have "list_all2 (file_at E pos) F (j_files ?j)"
    using j by (intro files_upd [OF F s, where pos = pos]) (simp_all add: reader_at_def)
  then have "reader_at E F lv0 pos ?j" using j by (simp add: reader_at_def upd_file_def journal_pid_changed_def)
  with rf(1) f'(1) show ?thesis by (simp add: on_rfile_def)
qed

lemma next_in_from:
  assumes "\<forall>q\<in>W. b \<le> q \<longleftrightarrow> q \<in> U"
  shows "next_in DIRECTION_DOWN b W = next_in DIRECTION_DOWN 0 (W \<inter> U)"
  using assms by (intro next_in_cong) (auto simp: before_def)

lemma beyond_in_file_run:
  assumes F: "sources_ok E F" and m: "matches_ok lv0" and j: "reader_at E F lv0 pos j" and s: "(p, g, L) \<in> set F"
  shows "\<exists>j'. beyond_in_file E DIRECTION_DOWN p j =
      Some (Inr (next_in DIRECTION_DOWN 0 (remaining E lv0 pos (p, g, L))), j') \<and> reader_at E F lv0 pos j'"
proof -
  let ?l = "current_location j" and ?W = "wanted E lv0 L g" and ?U = "ahead_of pos g"
  note ok = sources_okD(1) [OF F s]
  have loc: "located F pos ?l" "level0 (j_matches j) = lv0" using j by (auto simp: reader_at_def)
  obtain rf where rf: "get_file p j = Some rf" "file_at E pos (p, g, L) rf" by (rule reader_get_file [OF F j s])
  have o: "ordered g L" using ok by (simp add: source_ok_def)
  note sub = wanted_sub [OF ok, of lv0]
  show ?thesis
  proof (cases "\<exists>n. pos = From n")
    case True
    then obtain n where pos: "pos = From n" by blast
    then have l: "seqnum_location ?l g" "loc_seqnum ?l = n" "loc_type ?l = LOCATION_SEEK" "current_offset rf = 0"
      using loc s rf(2) by (auto simp: located_def file_at_def)
    obtain b where b: "\<forall>q\<in>set (L Global). b \<le> q \<longleftrightarrow> n \<le> seq g q" by (rule seq_threshold [OF o])
    have "next_in DIRECTION_DOWN b ?W = next_in DIRECTION_DOWN 0 (?W \<inter> ?U)"
      using b sub pos by (intro next_in_from) (auto simp: ahead_of_def)
    note fr = this
    have beyond: "is_beyond ?l DIRECTION_DOWN f q" for f q using l(3) by (simp add: is_beyond_def)
    have "\<exists>f'. next_beyond_location E ?l lv0 DIRECTION_DOWN (last_direction rf) (current_offset rf) f =
        Some (Inr (next_in DIRECTION_DOWN 0 (?W \<inter> ?U)), f') \<and> scanning E L g f'" if f: "scanning E L g f" for f
    proof -
      from find_location_seqnum [OF ok m f l(1)] b l(2) obtain f' where
        "find_location_with_matches E ?l lv0 DIRECTION_DOWN f = Some (Inr (next_in DIRECTION_DOWN b ?W), f')" "scanning E L g f'" by blast
      with fr beyond l(4) show ?thesis
        by (auto simp: next_beyond_location_def bindE_def returnE_def beyond_loop.simps split: option.split)
    qed
    from on_rfile_run [OF F j s this] rf(1) loc(2) show ?thesis by (simp add: beyond_in_file_def remaining_def)
  next
    case False
    have U: "is_beyond ?l DIRECTION_DOWN f q \<longleftrightarrow> q \<in> ?U" if f: "scanning E L g f" and q: "q \<in> ?W" for f q
    proof (cases pos)
      case AtHead
      then show ?thesis using loc by (simp add: located_def is_beyond_def ahead_of_def)
    next
      case (After n)
      then obtain p' g' L' q' where c: "(p', g', L') \<in> set F" "q' \<in> set (L' Global)" "n = seq g' q'"
        "?l = init_location LOCATION_DISCRETE g' (entry_rec g' q')" using loc by (auto simp: located_def)
      have qG: "q \<in> set (L Global)" using q sub by blast
      obtain ob where ob: "object_at f q = ob" "entry_of ob = entry_rec g q" using object_entry [OF ok f qG] by metis
      note same = sources_okD(4) [OF F s c(1) qG c(2)]
      have "seq g q = seq g' q' \<Longrightarrow> entry_rec g q = entry_rec g' q'" using same sources_okD(2) [OF F c(1)] s by auto
      moreover have "same_entry (entry_rec g q) (entry_rec g' q') \<Longrightarrow> seq g q \<le> seq g' q'"
        using same sources_okD(2) [OF F c(1)] s by auto
      moreover have "uuid_equal (seqnum_id (header g)) (seqnum_id (header g'))" by (rule sources_okD(3) [OF F s c(1)])
      ultimately have "compare_with_location (seqnum_id (header g)) (entry_rec g q) ?l > 0 \<longleftrightarrow> n < seq g q"
        unfolding c(3,4) entry_key_def by (intro compare_with_entry) (auto simp: same_entry_def)
      then show ?thesis using After ob scanning_ok(4) [OF ok f] c(4)
        by (simp add: is_beyond_def ahead_of_def init_location_def Let_def)
    qed (use False in blast)
    have cur: "current_offset rf = 0 \<or> (last_direction rf = DIRECTION_DOWN \<and> current_offset rf \<in> set (L Global) \<and>
        (\<forall>q\<in>?W \<inter> ?U. current_offset rf < q))"
      using rf(2) seq_less [OF o] sub by (fastforce simp: file_at_def ahead_of_def)
    have start: "\<exists>b f'. find_location_with_matches E ?l lv0 DIRECTION_DOWN f =
        Some (Inr (next_in DIRECTION_DOWN b ?W), f') \<and> scanning E L g f' \<and> (\<forall>q\<in>?W \<inter> ?U. b \<le> q)"
      if f: "scanning E L g f" for f
    proof (cases pos)
      case AtHead
      then show ?thesis using find_location_head [OF ok m f] loc by (auto simp: located_def intro!: exI [of _ 0])
    next
      case (After n)
      then obtain p' g' L' q' where c: "(p', g', L') \<in> set F" "n = seq g' q'"
        "?l = init_location LOCATION_DISCRETE g' (entry_rec g' q')" using loc by (auto simp: located_def)
      have l: "seqnum_location ?l g" "loc_seqnum ?l = n"
        using sources_okD(3) [OF F c(1) s] c by (auto simp: seqnum_location_def init_location_def entry_key_def)
      obtain b where b: "\<forall>q\<in>set (L Global). b \<le> q \<longleftrightarrow> n \<le> seq g q" by (rule seq_threshold [OF o])
      then have "\<forall>q\<in>?W \<inter> ?U. b \<le> q" using sub After by (auto simp: ahead_of_def)
      with find_location_seqnum [OF ok m f l(1)] b l(2) show ?thesis by blast
    qed (use False in blast)
    have "\<exists>f'. next_beyond_location E ?l lv0 DIRECTION_DOWN (last_direction rf) (current_offset rf) f =
        Some (Inr (next_in DIRECTION_DOWN 0 (?W \<inter> ?U)), f') \<and> scanning E L g f'" if "scanning E L g f" for f
      by (rule next_beyond_run [OF ok m that U cur start [OF that]])
    from on_rfile_run [OF F j s this] rf(1) loc(2) show ?thesis by (simp add: beyond_in_file_def remaining_def)
  qed
qed

lemma remaining_sub:
  assumes "sources_ok E F" "(p, g, L) \<in> set F"
  shows "remaining E lv0 pos (p, g, L) \<subseteq> set (L Global)" "finite (remaining E lv0 pos (p, g, L))"
  using wanted_sub [OF sources_okD(1) [OF assms], of lv0] wanted_fin [OF sources_okD(1) [OF assms], of lv0]
  by (auto simp: remaining_def)

lemma better_than_run:
  assumes F: "sources_ok E F" and j: "reader_at E F lv0 pos j"
    and s: "(p, g, L) \<in> set F" "q \<in> set (L Global)" and s': "(p', g', L') \<in> set F" "q' \<in> set (L' Global)" and ne: "p \<noteq> p'"
  shows "\<exists>j'. better_than E DIRECTION_DOWN p q p' q' j = Some (Inr (seq g q < seq g' q'), j') \<and> reader_at E F lv0 pos j'"
proof -
  note ok = sources_okD(1) [OF F s(1)] and ok' = sources_okD(1) [OF F s'(1)]
  obtain rf where rf: "get_file p j = Some rf" "scanning E L g (rf_file rf)"
    using reader_get_file [OF F j s(1)] by (auto simp: file_at_def)
  obtain ob where ob: "object_at (rf_file rf) q = ob" "entry_of ob = entry_rec g q" using object_entry [OF ok rf(2) s(2)] by metis
  let ?k = "compare_entries (seqnum_id (header g)) (entry_rec g q) (seqnum_id (header g')) (entry_rec g' q')"
  have "\<exists>f'. compare_entry_order E p (seqnum_id (header g)) (entry_rec g q) p' q' f = Some (Inr ?k, f') \<and> scanning E L' g' f'"
    if f: "scanning E L' g' f" for f
  proof -
    obtain ob' where "journal_file_move_to_object E (Some OBJECT_ENTRY) q' f = Some (Inr ob', f)" "entry_of ob' = entry_rec g' q'"
      using object_entry [OF ok' f s'(2)] by metis
    then show ?thesis using f scanning_ok(4) [OF ok' f] by (simp add: compare_entry_order_def)
  qed
  from on_rfile_run [where m = "compare_entry_order E p (seqnum_id (header g)) (entry_rec g q) p' q'", OF F j s'(1) this]
  obtain j' where
    j': "on_rfile p' (compare_entry_order E p (seqnum_id (header g)) (entry_rec g q) p' q') j = Some (Inr ?k, j')"
    "reader_at E F lv0 pos j'" by blast
  note d = sources_okD(4) [OF F s(1) s'(1) s(2) s'(2)]
  have "?k < 0 \<longleftrightarrow> seq g q < seq g' q'"
    using compare_entries_seqnum [OF sources_okD(3) [OF F s(1) s'(1)], of "entry_rec g q" "entry_rec g' q'"] d ne
    by (auto simp: entry_key_def same_entry_def)
  then show ?thesis using j' rf(1) ob scanning_ok(4) [OF ok rf(2)] by (simp add: better_than_def)
qed

text \<open>The best entry of some files: the one with the smallest number of those that remain.\<close>

definition best_ok :: "env \<Rightarrow> match option \<Rightarrow> position \<Rightarrow> source list \<Rightarrow> (string \<times> nat) option \<Rightarrow> bool" where
  "best_ok E lv0 pos F best \<longleftrightarrow>
     (case best of
        None \<Rightarrow> \<forall>s\<in>set F. remaining E lv0 pos s = {}
      | Some (p, q) \<Rightarrow> \<exists>g L. (p, g, L) \<in> set F \<and> q \<in> remaining E lv0 pos (p, g, L) \<and>
          (\<forall>p' g' L' q'. (p', g', L') \<in> set F \<longrightarrow> q' \<in> remaining E lv0 pos (p', g', L') \<longrightarrow> seq g q \<le> seq g' q'))"

lemma best_okI:
  assumes "(p, g, L) \<in> set F" "q \<in> remaining E lv0 pos (p, g, L)"
    and "\<And>a h M r. (a, h, M) \<in> set F \<Longrightarrow> r \<in> remaining E lv0 pos (a, h, M) \<Longrightarrow> seq g q \<le> seq h r"
  shows "best_ok E lv0 pos F (Some (p, q))"
  unfolding best_ok_def option.case prod.case using assms by blast

lemma first_remaining:
  assumes F: "sources_ok E F" "(p, g, L) \<in> set F" and q: "next_in DIRECTION_DOWN 0 (remaining E lv0 pos (p, g, L)) = Some q"
  shows "q \<in> remaining E lv0 pos (p, g, L)" "q' \<in> remaining E lv0 pos (p, g, L) \<Longrightarrow> seq g q \<le> seq g q'"
proof -
  note r = remaining_sub [OF F, of lv0 pos] and c = q [unfolded next_in_iff(2) [OF remaining_sub(2) [OF F]]]
  show "q \<in> remaining E lv0 pos (p, g, L)" using c by blast
  have o: "ordered g L" using sources_okD(1) [OF F] by (simp add: source_ok_def)
  show "seq g q \<le> seq g q'" if "q' \<in> remaining E lv0 pos (p, g, L)"
    using seq_less [OF o, of q' q] c that r(1) by (auto simp: before_def not_less [symmetric])
qed

lemma next_files_run:
  assumes F: "sources_ok E F" and m: "matches_ok lv0"
  shows "F = F1 @ F2 \<Longrightarrow> reader_at E F lv0 pos j \<Longrightarrow> best_ok E lv0 pos F1 best \<Longrightarrow>
    \<exists>best' j'. next_files E DIRECTION_DOWN (map fst F2) best j = Some (Inr best', j') \<and>
      best_ok E lv0 pos F best' \<and> reader_at E F lv0 pos j'"
proof (induction F2 arbitrary: F1 best j)
  case Nil
  then show ?case by (auto simp: returnE_def)
next
  case (Cons s F2)
  obtain p g L where s: "s = (p, g, L)" by (cases s) auto
  have sF: "(p, g, L) \<in> set F" using Cons.prems(1) s by simp
  let ?R = "remaining E lv0 pos (p, g, L)"
  have IH: "\<exists>best' j'. next_files E DIRECTION_DOWN (map fst F2) b k = Some (Inr best', j') \<and>
      best_ok E lv0 pos F best' \<and> reader_at E F lv0 pos j'"
    if "reader_at E F lv0 pos k" "best_ok E lv0 pos (F1 @ [s]) b" for b k
    using Cons.IH [of "F1 @ [s]" k b] Cons.prems(1) that by simp
  obtain j1 where j1: "beyond_in_file E DIRECTION_DOWN p j = Some (Inr (next_in DIRECTION_DOWN 0 ?R), j1)" "reader_at E F lv0 pos j1"
    using beyond_in_file_run [OF F m Cons.prems(2) sF] by blast
  show ?case
  proof (cases "next_in DIRECTION_DOWN 0 ?R")
    case None
    then have "?R = {}" using next_in_iff(1) [OF remaining_sub(2) [OF F sF]] by (auto simp: before_def)
    then have "best_ok E lv0 pos (F1 @ [s]) best" using Cons.prems(3) s by (fastforce simp: best_ok_def split: option.splits)
    with IH [OF j1(2)] j1(1) None s show ?thesis by simp
  next
    case (Some q)
    note q = first_remaining [OF F sF Some]
    show ?thesis
    proof (cases best)
      case None
      then have e: "remaining E lv0 pos s' = {}" if "s' \<in> set F1" for s' using Cons.prems(3) that by (simp add: best_ok_def)
      have "seq g q \<le> seq h r" if "(a, h, M) \<in> set (F1 @ [s])" "r \<in> remaining E lv0 pos (a, h, M)" for a h M r
        using that e [of "(a, h, M)"] q(2) [of r] s by auto
      then have "best_ok E lv0 pos (F1 @ [s]) (Some (p, q))" by (intro best_okI [of p g L]) (use q(1) s in auto)
      with IH [OF j1(2)] j1(1) Some None s show ?thesis by (simp add: bindE_def returnE_def)
    next
      case (Some b)
      then obtain p' q' where b: "best = Some (p', q')" by (cases b) auto
      with Cons.prems(3) obtain g' L' where b': "(p', g', L') \<in> set F1" "q' \<in> remaining E lv0 pos (p', g', L')"
        and le: "\<And>a h M r. (a, h, M) \<in> set F1 \<Longrightarrow> r \<in> remaining E lv0 pos (a, h, M) \<Longrightarrow> seq g' q' \<le> seq h r"
        unfolding best_ok_def by auto
      have s': "(p', g', L') \<in> set F" using b'(1) Cons.prems(1) by simp
      have "distinct (map fst F1 @ p # map fst F2)" using F Cons.prems(1) s by (simp add: sources_ok_def)
      moreover have "p' \<in> set (map fst F1)" using b'(1) by force
      ultimately have ne: "p \<noteq> p'" by auto
      have mem: "q \<in> set (L Global)" "q' \<in> set (L' Global)"
        using q(1) b'(2) remaining_sub(1) [OF F sF, of lv0 pos] remaining_sub(1) [OF F s', of lv0 pos] by blast+
      obtain j2 where j2: "better_than E DIRECTION_DOWN p q p' q' j1 = Some (Inr (seq g q < seq g' q'), j2)" "reader_at E F lv0 pos j2"
        using better_than_run [OF F j1(2) sF mem(1) s' mem(2) ne] by blast
      have "best_ok E lv0 pos (F1 @ [s]) (if seq g q < seq g' q' then Some (p, q) else best)"
      proof (cases "seq g q < seq g' q'")
        case True
        have "seq g q \<le> seq h r" if "(a, h, M) \<in> set (F1 @ [s])" "r \<in> remaining E lv0 pos (a, h, M)" for a h M r
          using that le [of a h M r] q(2) True s by auto
        then have "best_ok E lv0 pos (F1 @ [s]) (Some (p, q))" by (intro best_okI [of p g L]) (use q(1) s in auto)
        with True show ?thesis by simp
      next
        case False
        have "seq g' q' \<le> seq h r" if "(a, h, M) \<in> set (F1 @ [s])" "r \<in> remaining E lv0 pos (a, h, M)" for a h M r
          using that le [of a h M r] q(2) [of r] False s by auto
        then have "best_ok E lv0 pos (F1 @ [s]) (Some (p', q'))" by (intro best_okI [of p' g' L']) (use b' in auto)
        with False b show ?thesis by simp
      qed
      moreover have "next_files E DIRECTION_DOWN (map fst (s # F2)) best j =
          next_files E DIRECTION_DOWN (map fst F2) (if seq g q < seq g' q' then Some (p, q) else best) j2"
        using j1(1) j2(1) \<open>next_in DIRECTION_DOWN 0 ?R = Some q\<close> b s by (simp add: bindE_def)
      ultimately show ?thesis using IH [OF j2(2)] by simp
    qed
  qed
qed

text \<open>The entry the reader is at.\<close>

definition current_entry :: "sd_journal \<Rightarrow> (string \<times> nat) option" where
  "current_entry j =
     (case current_file j of
        None \<Rightarrow> None
      | Some p \<Rightarrow> map_option (\<lambda>rf. (p, current_offset rf)) (get_file p j))"

lemma find_map_upd:
  assumes "\<And>rf. rf_path (h rf) = rf_path rf"
  shows "List.find (\<lambda>rf. rf_path rf = p) xs = Some rf \<Longrightarrow>
    List.find (\<lambda>rf. rf_path rf = p) (map (\<lambda>r. if rf_path r = p then h r else r) xs) = Some (h rf)"
  by (induction xs) (auto simp: assms)

lemma set_location_run:
  assumes F: "sources_ok E F" and j: "reader_at E F lv0 pos j" and s: "(p, g, L) \<in> set F" and q: "q \<in> remaining E lv0 pos (p, g, L)"
    and ob: "entry_of ob = entry_rec g q"
  shows "reader_at E F lv0 (After (seq g q)) (set_location LOCATION_DISCRETE p (entry_of ob) DIRECTION_DOWN q j)"
    "current_entry (set_location LOCATION_DISCRETE p (entry_of ob) DIRECTION_DOWN q j) = Some (p, q)"
proof -
  note ok = sources_okD(1) [OF F s]
  have qG: "q \<in> set (L Global)" using q remaining_sub(1) [OF F s] by blast
  obtain rf where rf: "get_file p j = Some rf" "file_at E pos (p, g, L) rf" by (rule reader_get_file [OF F j s])
  let ?h = "\<lambda>rf :: reader_file. rf\<lparr>last_direction := DIRECTION_DOWN, current_offset := q\<rparr>"
  let ?j = "set_location LOCATION_DISCRETE p (entry_of ob) DIRECTION_DOWN q j"
  have hdr: "header (rf_file rf) = header g" using rf(2) scanning_ok(4) [OF ok] by (auto simp: file_at_def)
  have up: "file_at E (After (seq g q)) s' (if rf_path r = p then ?h r else r)" if "s' \<in> set F" "file_at E pos s' r" for s' r
  proof (cases s')
    case (fields p' g' L')
    show ?thesis
    proof (cases "p' = p")
      case True
      then have "g' = g" "L' = L" using sources_okD(2) [OF F s, of g' L'] that(1) fields by auto
      with that(2) qG fields True show ?thesis by (auto simp: file_at_def)
    next
      case False
      have "n \<le> seq g q" if "pos = After n" for n using q that by (auto simp: remaining_def ahead_of_def)
      with that(2) fields False show ?thesis by (fastforce simp: file_at_def)
    qed
  qed
  have "list_all2 (file_at E (After (seq g q))) F (j_files (upd_file p ?h j))"
    by (rule files_upd [OF F s, where pos = pos]) (use j up in \<open>simp_all add: reader_at_def\<close>)
  moreover have "init_location LOCATION_DISCRETE (rf_file rf) (entry_of ob) = init_location LOCATION_DISCRETE g (entry_rec g q)"
    using hdr ob by (simp add: init_location_def)
  ultimately show "reader_at E F lv0 (After (seq g q)) ?j"
    using j rf(1) s qG by (auto simp: reader_at_def set_location_def located_def upd_file_def journal_pid_changed_def)
  have "List.find (\<lambda>rf. rf_path rf = p) (map (\<lambda>r. if rf_path r = p then ?h r else r) (j_files j)) = Some (?h rf)"
    using rf(1) unfolding get_file_def by (intro find_map_upd) auto
  then show "current_entry ?j = Some (p, q)"
    using rf(1) by (simp add: current_entry_def set_location_def get_file_def upd_file_def)
qed


lemma next_run:
  assumes F: "sources_ok E F" and m: "matches_ok lv0" and j: "reader_at E F lv0 pos j"
  obtains j' where "sd_journal_next E j = Some (Inr False, j')" "reader_at E F lv0 pos j'"
      "\<forall>s\<in>set F. remaining E lv0 pos s = {}"
  | j' p g L q where "sd_journal_next E j = Some (Inr True, j')" "reader_at E F lv0 (After (seq g q)) j'"
      "current_entry j' = Some (p, q)" "(p, g, L) \<in> set F" "q \<in> remaining E lv0 pos (p, g, L)"
      "\<And>p' g' L' q'. (p', g', L') \<in> set F \<Longrightarrow> q' \<in> remaining E lv0 pos (p', g', L') \<Longrightarrow> seq g q \<le> seq g' q'"
proof -
  have pid: "\<not> journal_pid_changed j" using j by (simp add: reader_at_def)
  have "best_ok E lv0 pos [] None" by (simp add: best_ok_def)
  from next_files_run [OF F m _ j this, of F] obtain best j1 where
    n: "next_files E DIRECTION_DOWN (map rf_path (j_files j)) None j = Some (Inr best, j1)"
    and b: "best_ok E lv0 pos F best" and j1: "reader_at E F lv0 pos j1" by (auto simp: reader_paths [OF j])
  show thesis
  proof (cases best)
    case None
    then have "sd_journal_next E j = Some (Inr False, j1)"
      using n pid by (simp add: sd_journal_next_def real_journal_next_def checked_def bindE_def getE_def returnE_def)
    with that(1) j1 b None show thesis by (simp add: best_ok_def)
  next
    case (Some e)
    then obtain p q where e: "best = Some (p, q)" by (cases e) auto
    with b obtain g L where s: "(p, g, L) \<in> set F" "q \<in> remaining E lv0 pos (p, g, L)"
      and le: "\<And>p' g' L' q'. (p', g', L') \<in> set F \<Longrightarrow> q' \<in> remaining E lv0 pos (p', g', L') \<Longrightarrow> seq g q \<le> seq g' q'"
      unfolding best_ok_def by auto
    note ok = sources_okD(1) [OF F s(1)]
    have qG: "q \<in> set (L Global)" using s(2) remaining_sub(1) [OF F s(1)] by blast
    obtain rf where rf: "get_file p j1 = Some rf" "scanning E L g (rf_file rf)"
      using reader_get_file [OF F j1 s(1)] by (auto simp: file_at_def)
    from object_entry [OF ok rf(2) qG] obtain ob where
      ob: "journal_file_move_to_object E (Some OBJECT_ENTRY) q (rf_file rf) = Some (Inr ob, rf_file rf)"
      "entry_of ob = entry_rec g q" by metis
    have mv: "\<exists>f'. journal_file_move_to_object E (Some OBJECT_ENTRY) q f = Some (Inr ob, f') \<and> scanning E L g f'"
      if f: "scanning E L g f" for f
    proof -
      obtain ob' where "journal_file_move_to_object E (Some OBJECT_ENTRY) q f = Some (Inr ob', f)" "object_at f q = ob'"
        using object_entry [OF ok f qG] by metis
      moreover have "object_at f q = ob"
        using move_to_object_Inr(1) [OF ob(1)] scanning_ok(5) [OF ok f] scanning_ok(5) [OF ok rf(2)] by (simp add: object_at_def)
      ultimately show ?thesis using f by auto
    qed
    from on_rfile_run [where m = "journal_file_move_to_object E (Some OBJECT_ENTRY) q", OF F j1 s(1) mv] obtain j2 where
      j2: "on_rfile p (journal_file_move_to_object E (Some OBJECT_ENTRY) q) j1 = Some (Inr ob, j2)" "reader_at E F lv0 pos j2" by blast
    note l = set_location_run [OF F j2(2) s ob(2)]
    have "sd_journal_next E j = Some (Inr True, set_location LOCATION_DISCRETE p (entry_of ob) DIRECTION_DOWN q j2)"
      using n pid e j2(1) by (simp add: sd_journal_next_def real_journal_next_def checked_def bindE_def thenE_def getE_def returnE_def modifyE_def)
    from that(2) [OF this l s le] show thesis .
  qed
qed

text \<open>
  C16: Moving to the next entry over several sound files of one source of sequence numbers returns, and
  goes to the entry with the smallest number after the current one among all entries that satisfy
  the matches; it reports the end exactly if there is none.  No file is dropped, and the position
  stays one from which this goes on.
\<close>

theorem sd_journal_next_correct:
  assumes "sources_ok E F" and "matches_ok lv0" and "reader_at E F lv0 pos j"
  shows "\<exists>more j'. sd_journal_next E j = Some (Inr more, j') \<and>
    (if more then \<exists>p g L q. current_entry j' = Some (p, q) \<and> (p, g, L) \<in> set F \<and> q \<in> remaining E lv0 pos (p, g, L) \<and>
       (\<forall>p' g' L'. (p', g', L') \<in> set F \<longrightarrow> (\<forall>q'\<in>remaining E lv0 pos (p', g', L'). seq g q \<le> seq g' q')) \<and>
       reader_at E F lv0 (After (seq g q)) j'
     else (\<forall>s\<in>set F. remaining E lv0 pos s = {}) \<and> reader_at E F lv0 pos j')"
proof (rule next_run [OF assms], goal_cases)
  case (1 j')
  then show ?case by (intro exI [of _ False] exI [of _ j']) simp
next
  case (2 j' p g L q)
  then have "\<forall>p' g' L'. (p', g', L') \<in> set F \<longrightarrow> (\<forall>q'\<in>remaining E lv0 pos (p', g', L'). seq g q \<le> seq g' q')" by blast
  with 2(1-5) show ?case by (intro exI [of _ True] exI [of _ j']) auto
qed

section \<open>Reading everything\<close>

primrec read_entries :: "env \<Rightarrow> nat \<Rightarrow> (string \<times> nat) list rm" where
  "read_entries E 0 = returnE []"
| "read_entries E (Suc n) =
     bindE (sd_journal_next E) (\<lambda>more.
     if \<not> more then returnE []
     else
       bindE (getE current_entry) (\<lambda>e.
       bindE (read_entries E n) (\<lambda>es. returnE (the e # es))))"

definition left :: "env \<Rightarrow> source list \<Rightarrow> match option \<Rightarrow> position \<Rightarrow> (string \<times> nat) set" where
  "left E F lv0 pos = {(p, q). \<exists>g L. (p, g, L) \<in> set F \<and> q \<in> remaining E lv0 pos (p, g, L)}"

definition number :: "source list \<Rightarrow> string \<times> nat \<Rightarrow> nat" where
  "number F = (\<lambda>(p, q). seq (fst (the (map_of F p))) q)"

lemma number_eq: "sources_ok E F \<Longrightarrow> (p, g, L) \<in> set F \<Longrightarrow> number F (p, q) = seq g q"
  by (simp add: number_def sources_ok_def map_of_is_SomeI)

lemma left_finite: "sources_ok E F \<Longrightarrow> finite (left E F lv0 pos)"
proof -
  assume F: "sources_ok E F"
  have "left E F lv0 pos = (\<Union>(p, g, L)\<in>set F. Pair p ` remaining E lv0 pos (p, g, L))" by (auto simp: left_def)
  then show ?thesis using remaining_sub(2) [OF F] by auto
qed

lemma left_step:
  assumes F: "sources_ok E F" and s: "(p, g, L) \<in> set F" "q \<in> remaining E lv0 pos (p, g, L)"
    and le: "\<And>p' g' L' q'. (p', g', L') \<in> set F \<Longrightarrow> q' \<in> remaining E lv0 pos (p', g', L') \<Longrightarrow> seq g q \<le> seq g' q'"
  shows "left E F lv0 pos = insert (p, q) (left E F lv0 (After (seq g q)))" "(p, q) \<notin> left E F lv0 (After (seq g q))"
proof -
  show "(p, q) \<notin> left E F lv0 (After (seq g q))"
    using sources_okD(2) [OF F s(1)] by (auto simp: left_def remaining_def ahead_of_def)
  have "(p', q') = (p, q) \<or> q' \<in> remaining E lv0 (After (seq g q)) (p', g', L')"
    if m: "(p', g', L') \<in> set F" "q' \<in> remaining E lv0 pos (p', g', L')" for p' g' L' q'
  proof (cases "seq g q = seq g' q'")
    case True
    have "q \<in> set (L Global)" "q' \<in> set (L' Global)" using s m remaining_sub(1) [OF F] by blast+
    with True sources_okD(4) [OF F s(1) m(1)] show ?thesis by blast
  next
    case False
    then show ?thesis using le [OF m] m(2) by (auto simp: remaining_def ahead_of_def)
  qed
  moreover have "q' \<in> remaining E lv0 pos (p', g', L')" if "q' \<in> remaining E lv0 (After (seq g q)) (p', g', L')" for p' g' L' q'
    using that s(2) by (auto simp: remaining_def ahead_of_def split: position.splits)
  ultimately have "(a, r) \<in> left E F lv0 pos \<longleftrightarrow> (a, r) \<in> insert (p, q) (left E F lv0 (After (seq g q)))" for a r
    using s unfolding left_def mem_Collect_eq insert_iff prod.case by blast
  then show "left E F lv0 pos = insert (p, q) (left E F lv0 (After (seq g q)))" by auto
qed

lemma read_entries_run:
  assumes F: "sources_ok E F" and m: "matches_ok lv0"
  shows "reader_at E F lv0 pos j \<Longrightarrow> card (left E F lv0 pos) < n \<Longrightarrow>
    \<exists>es j'. read_entries E n j = Some (Inr es, j') \<and> set es = left E F lv0 pos \<and> sorted_wrt (<) (map (number F) es)"
proof (induction n arbitrary: pos j)
  case (Suc n)
  show ?case
  proof (rule next_run [OF F m Suc.prems(1)], goal_cases)
    case (1 j')
    then have "left E F lv0 pos = {}" by (fastforce simp: left_def)
    with 1 show ?case by (simp add: bindE_def returnE_def)
  next
    case (2 j' p g L q)
    note st = left_step [OF F 2(4-6)]
    have "card (left E F lv0 (After (seq g q))) < n"
      using Suc.prems(2) st left_finite [OF F] by simp
    from Suc.IH [OF 2(2) this] obtain es j'' where
      es: "read_entries E n j' = Some (Inr es, j'')" "set es = left E F lv0 (After (seq g q))" "sorted_wrt (<) (map (number F) es)"
      by blast
    have "number F (p, q) < number F e" if "e \<in> set es" for e
      using that es(2) number_eq [OF F 2(4), of q] number_eq [OF F] by (auto simp: left_def remaining_def ahead_of_def)
    moreover have "read_entries E (Suc n) j = Some (Inr ((p, q) # es), j'')"
      using 2(1,3) es(1) by (simp add: bindE_def getE_def returnE_def)
    ultimately show ?case using es(2,3) st(1) by (intro exI [of _ "(p, q) # es"] exI [of _ j'']) auto
  qed
qed simp

section \<open>Reading what was asked for\<close>

text \<open>A reader with these files and matches.\<close>

definition reader_of :: "env \<Rightarrow> source list \<Rightarrow> matches \<Rightarrow> sd_journal \<Rightarrow> bool" where
  "reader_of E F ms j \<longleftrightarrow> list_all2 (\<lambda>(p, g, L) rf. rf_path rf = p \<and> scanning E L g (rf_file rf)) F (j_files j) \<and>
     j_matches j = ms \<and> \<not> journal_pid_changed j"

lemma reader_of_detach: "reader_of E F ms j \<Longrightarrow> reader_of E F ms (detach_location j)"
  unfolding reader_of_def detach_location_def
  by (auto simp: list_all2_map2 journal_pid_changed_def elim: list_all2_mono)

lemma reader_of_matches: "reader_of E F ms j \<Longrightarrow> reader_of E F ms' (j\<lparr>j_matches := ms'\<rparr>)"
  by (auto simp: reader_of_def journal_pid_changed_def)

text \<open>Calls that add matches work on the tree of the reader.\<close>

lemma reader_op_run:
  assumes "reader_of E F ms j" "run_op c ms = Some ms'"
  shows "\<exists>r j'. reader_op c j = Some (r, j') \<and> reader_of E F ms' j'"
proof -
  have p: "\<not> journal_pid_changed j" "j_matches j = ms" using assms(1) by (auto simp: reader_of_def)
  note u = reader_of_matches [OF assms(1), of ms'] reader_of_detach
  show ?thesis
  proof (cases c)
    case (AddMatch d)
    then obtain r where "add_match d (length d) ms = Some (r, ms')" using assms(2) by auto
    then show ?thesis using AddMatch p u by (cases r) (simp_all add: sd_journal_add_match_def checked_def Let_def)
  qed (use assms(2) p u in \<open>simp_all add: sd_journal_add_conjunction_def sd_journal_add_disjunction_def checked_def modifyE_def\<close>)
qed

lemma reader_ops_run:
  "reader_of E F ms j \<Longrightarrow> match_ops cs ms = Some ms' \<Longrightarrow> \<exists>j'. reader_ops cs j = Some j' \<and> reader_of E F ms' j'"
proof (induction cs arbitrary: ms j)
  case (Cons c cs)
  then obtain ms1 where ms1: "run_op c ms = Some ms1" "match_ops cs ms1 = Some ms'" by (auto split: option.splits)
  from reader_op_run [OF Cons.prems(1) ms1(1)] obtain r j1 where "reader_op c j = Some (r, j1)" "reader_of E F ms1 j1" by blast
  with Cons.IH [OF _ ms1(2)] show ?case by auto
qed auto

lemma seek_head_at:
  assumes "reader_of E F ms j"
  obtains j' where "sd_journal_seek_head j = Some (Inr (), j')" "reader_at E F (level0 ms) AtHead j'"
proof -
  let ?j = "(reset_location j)\<lparr>current_location := (current_location (reset_location j))\<lparr>loc_type := LOCATION_HEAD\<rparr>\<rparr>"
  have "list_all2 (file_at E AtHead) F (map (\<lambda>rf. rf\<lparr>current_offset := 0\<rparr>) (j_files j))"
    unfolding list_all2_map2
    by (rule list_all2_mono [where P = "\<lambda>(p, g, L) rf. rf_path rf = p \<and> scanning E L g (rf_file rf)"])
      (use assms in \<open>auto simp: reader_of_def file_at_def\<close>)
  with assms have "reader_at E F (level0 ms) AtHead ?j"
    by (simp add: reader_at_def reader_of_def located_def reset_location_def detach_location_def
        zero_location_def Let_def journal_pid_changed_def)
  moreover have "sd_journal_seek_head j = Some (Inr (), ?j)"
    using assms by (simp add: sd_journal_seek_head_def seek_to_def checked_def reader_of_def modifyE_def Let_def)
  ultimately show thesis by (rule that [rotated])
qed

definition short_op :: "match_op \<Rightarrow> bool" where
  "short_op c \<longleftrightarrow> (case c of AddMatch d \<Rightarrow> length d < 2 ^ 63 | _ \<Rightarrow> True)"

definition spec_ok :: "(bytes \<Rightarrow> bool) \<Rightarrow> bytes set list list \<times> bool \<times> bool \<Rightarrow> bool" where
  "spec_ok P = (\<lambda>(C, l1, l2). (\<forall>D\<in>set C. D \<noteq> [] \<and> (\<forall>G\<in>set D. \<forall>d\<in>G. P d)) \<and> (l1 \<longrightarrow> C \<noteq> []) \<and> (l2 \<longrightarrow> l1))"

lemma spec_op_ok:
  assumes "\<And>d. c = AddMatch d \<Longrightarrow> P d" "spec_ok P s"
  shows "spec_ok P (spec_op c s)"
proof -
  obtain C l1 l2 where s: "s = (C, l1, l2)" by (cases s) auto
  show ?thesis
  proof (cases "C = []")
    case True
    then show ?thesis using assms s by (cases c) (auto simp: spec_ok_def)
  next
    case False
    then obtain G Gs Ds where C: "C = (G # Gs) # Ds" using assms(2) s by (cases C; cases "hd C") (auto simp: spec_ok_def)
    show ?thesis using assms unfolding s C by (cases c) (auto simp: spec_ok_def)
  qed
qed

lemma spec_ops_ok:
  "\<forall>d. AddMatch d \<in> set cs \<longrightarrow> P d \<Longrightarrow> spec_ok P s \<Longrightarrow> spec_ok P (fold spec_op cs s)"
proof (induction cs arbitrary: s)
  case (Cons c cs)
  then show ?case using spec_op_ok [of c P s] by auto
qed simp

lemma matchable_formula:
  assumes "\<forall>D\<in>set C. \<forall>g\<in>set D. \<forall>d\<in>members g. length d < 2 ^ 63"
  shows "matchable (formula C)"
  using assms by (fastforce simp: members_def)

text \<open>The matches that a sequence of calls leaves, and what they mean.\<close>

lemma match_ops_wanted:
  assumes "\<forall>c\<in>set cs. short_op c"
  obtains ms where "match_ops cs no_matches = Some ms" "matches_ok (level0 ms)"
    "\<forall>E L g. source_ok E L g \<longrightarrow> wanted E (level0 ms) L g =
       {q \<in> set (L Global). spec_sat (fst (fold spec_op cs ([], False, False))) (entry_data E g L q)}"
proof -
  let ?C = "fst (fold spec_op cs ([], False, False))"
  have "stands_for no_matches []" by (simp add: stands_for_def no_matches_def)
  from match_ops_run [OF this, of cs] obtain ms C where
    j: "match_ops cs no_matches = Some ms" "stands_for ms C" "abs_groups ms C = fold spec_op cs ([], False, False)"
    by (auto simp: abs_groups_def no_matches_def)
  then have C: "?C = map (map members) C" by (metis abs_groups_def fst_conv)
  have "AddMatch d \<in> set cs \<Longrightarrow> length d < 2 ^ 63" for d using assms by (fastforce simp: short_op_def)
  then have "spec_ok (\<lambda>d. length d < 2 ^ 63) (fold spec_op cs ([], False, False))"
    by (intro spec_ops_ok) (simp_all add: spec_ok_def)
  then have "\<forall>D\<in>set ?C. \<forall>G\<in>set D. \<forall>d\<in>G. length d < 2 ^ 63"
    by (cases "fold spec_op cs ([], False, False)") (simp add: spec_ok_def)
  then have short: "matchable (formula C)" unfolding C by (intro matchable_formula) auto
  have ok: "matches_ok (level0 ms)" using j(2) short by (auto simp: stands_for_def matches_ok_def split: if_splits)
  have "wanted E (level0 ms) L g = {q \<in> set (L Global). spec_sat ?C (entry_data E g L q)}" if "source_ok E L g" for E L g
  proof (cases "C = []")
    case True
    then show ?thesis using j(2) by (simp add: stands_for_def wanted_def C spec_sat_def)
  next
    case False
    then have "level0 ms = Some (formula C)" "\<And>S. sat (formula C) S = spec_sat ?C S"
      using j(2) sat_formula [of C] by (auto simp: stands_for_def C)
    then show ?thesis using wanted_sub [OF that, of "level0 ms"] by (auto simp: wanted_def matching_def)
  qed
  with j(1) ok that show thesis by blast
qed

text \<open>Adding matches, seeking to the head and reading to the end.\<close>

definition read_matching :: "env \<Rightarrow> nat \<Rightarrow> match_op list \<Rightarrow> sd_journal \<Rightarrow> ((string \<times> nat) list res \<times> sd_journal) option" where
  "read_matching E n cs j =
     (case reader_ops cs j of None \<Rightarrow> None | Some j \<Rightarrow> thenE sd_journal_seek_head (read_entries E n) j)"

text \<open>
  C3: A client that adds any sequence of matches, seeks to the head and moves to the next entry until
  there is none gets, over several sound files of one source of sequence numbers, exactly the entries
  whose data satisfies the documented formula of the calls, each once and in the order of their numbers.
  Every call returns, and moving never fails.
\<close>

theorem filtered_reading_complete:
  assumes "sources_ok E F" and "\<forall>c\<in>set cs. short_op c" and "reader_of E F no_matches j"
    and "n > card {(p, q). \<exists>g L. (p, g, L) \<in> set F \<and> q \<in> set (L Global) \<and>
           spec_sat (fst (fold spec_op cs ([], False, False))) (entry_data E g L q)}"
  shows "\<exists>es j'. read_matching E n cs j = Some (Inr es, j') \<and>
    set es = {(p, q). \<exists>g L. (p, g, L) \<in> set F \<and> q \<in> set (L Global) \<and>
      spec_sat (fst (fold spec_op cs ([], False, False))) (entry_data E g L q)} \<and>
    sorted_wrt (<) (map (number F) es)"
proof -
  let ?C = "fst (fold spec_op cs ([], False, False))"
  obtain ms where ms: "match_ops cs no_matches = Some ms" "matches_ok (level0 ms)"
    and w: "\<forall>E L g. source_ok E L g \<longrightarrow> wanted E (level0 ms) L g = {q \<in> set (L Global). spec_sat ?C (entry_data E g L q)}"
    by (rule match_ops_wanted [OF assms(2)])
  obtain j1 where j1: "reader_ops cs j = Some j1" "reader_of E F ms j1" using reader_ops_run [OF assms(3) ms(1)] by blast
  obtain j2 where j2: "sd_journal_seek_head j1 = Some (Inr (), j2)" "reader_at E F (level0 ms) AtHead j2"
    by (rule seek_head_at [OF j1(2)])
  have "wanted E (level0 ms) L g = {q \<in> set (L Global). spec_sat ?C (entry_data E g L q)}" if "(p, g, L) \<in> set F" for p g L
    using w sources_okD(1) [OF assms(1) that] by simp
  then have l: "left E F (level0 ms) AtHead = {(p, q). \<exists>g L. (p, g, L) \<in> set F \<and> q \<in> set (L Global) \<and> spec_sat ?C (entry_data E g L q)}"
    by (fastforce simp: left_def remaining_def ahead_of_def)
  from read_entries_run [OF assms(1) ms(2) j2(2), of n] assms(4) show ?thesis
    using j1(1) j2(1) unfolding l read_matching_def by (simp add: thenE_def bindE_def)
qed

end
