(* ===== verification/File_Copy.thy ===== *)
theory File_Copy
  imports Seek_File
begin

text \<open>
  Copying an entry from one journal file to another, which is used when a volatile journal is flushed to
  disk (\<open>journal_file_copy_entry\<close> in \<open>lib/journal-file.c\<close>).
\<close>

section \<open>Copying an entry\<close>

text \<open>
  The state is the pair of the two files, with the caller's counter of sequence numbers beside the
  second.  The entry is read again after each of its items, as the window it was mapped in may have
  moved.  The reasons why a decompression fails are not told apart.
\<close>

type_synonym copy_state = "journal_file \<times> journal_file \<times> nat option"

definition on_from :: "'a jm \<Rightarrow> (copy_state, 'a) em" where
  "on_from m = (\<lambda>(from, s). case m from of None \<Rightarrow> None | Some (r, from') \<Rightarrow> Some (r, (from', s)))"

definition on_to :: "'a jsm \<Rightarrow> (copy_state, 'a) em" where
  "on_to m = (\<lambda>(from, s). case m s of None \<Rightarrow> None | Some (r, s') \<Rightarrow> Some (r, (from, s')))"

definition copy_payload :: "env \<Rightarrow> object \<Rightarrow> bytes res" where
  "copy_payload E ob =
     (if o_flags ob AND OBJECT_COMPRESSION_MASK \<noteq> 0 then
        (case env_decompress E (o_flags ob AND OBJECT_COMPRESSION_MASK) (d_payload (data_of ob)) of
           None \<Rightarrow> Inl EBADMSG
         | Some data \<Rightarrow> Inr data)
      else Inr (d_payload (data_of ob)))"

definition copy_item :: "env \<Rightarrow> nat \<Rightarrow> nat \<Rightarrow> (copy_state, entry_item) em" where
  "copy_item E p i =
     bindE (getE (\<lambda>(from, to). e_items (entry_of (object_at from p)) ! i)) (\<lambda>it.
     bindE (on_from (journal_file_move_to_object E (Some OBJECT_DATA) (ei_object_offset it))) (\<lambda>ob.
     thenE (guardE (ei_hash it = d_hash (data_of ob)) EBADMSG)
     (bindE (case copy_payload E ob of Inl e \<Rightarrow> failE e | Inr data \<Rightarrow> returnE data) (\<lambda>data.
      bindE (on_to (on_file (append_item E data))) (\<lambda>it'.
      thenE (on_from (journal_file_move_to_object E (Some OBJECT_ENTRY) p))
      (returnE it'))))))"

definition journal_file_copy_entry :: "env \<Rightarrow> nat \<Rightarrow> (copy_state, nat) em" where
  "journal_file_copy_entry E p =
     bindE (getE (\<lambda>(from, to, c). (writable to, object_at from p))) (\<lambda>(w, ob).
     thenE (guardE w EPERM)
     (let ts = \<lparr>realtime = e_realtime (entry_of ob), monotonic = e_monotonic (entry_of ob)\<rparr>;
          n = journal_file_entry_n_items ob
      in bindE (forE [0..<n] (copy_item E p)) (\<lambda>items.
         on_to (journal_file_append_entry_internal E ts (foldl (\<lambda>x it. x XOR ei_hash it) 0 items) items))))"


definition lift_copy :: "journal_file \<Rightarrow> nat option \<Rightarrow> ('a res \<times> journal_file) option \<Rightarrow> ('a res \<times> copy_state) option" where
  "lift_copy from c m = (case m of None \<Rightarrow> None | Some (r, to) \<Rightarrow> Some (r, (from, to, c)))"

text \<open>The entry at \<open>p\<close> is made of the data \<open>xs\<close>.\<close>

definition entry_has :: "env \<Rightarrow> journal_file \<Rightarrow> nat \<Rightarrow> entry_object \<Rightarrow> bytes list \<Rightarrow> bool" where
  "entry_has E f p e xs \<longleftrightarrow> entry_map f p = Some e \<and>
     list_all2 (\<lambda>it x. has_data E f (ei_object_offset it) x \<and> ei_hash it = jhash x) (e_items e) xs"

lemma entry_has_object:
  assumes "file_ok E f" "entry_has E f p e xs"
  obtains ob where "store f p = Some ob" "object_at f p = ob" "entry_of ob = e" "o_type ob = OBJECT_ENTRY"
    "journal_file_entry_n_items ob = length xs"
proof -
  from assms(2) obtain ob where ob: "store f p = Some ob" "o_body ob = EntryBody e"
    and la: "list_all2 (\<lambda>it x. has_data E f (ei_object_offset it) x \<and> ei_hash it = jhash x) (e_items e) xs"
    by (auto simp: entry_has_def entry_map_Some)
  note l = layoutD(4,5) [OF file_okD(1) [OF assms(1)] ob(1)]
  have "o_size ob = sizeof_EntryObject + sizeof_EntryItem * length (e_items e)"
    using l(1) ob(2) by (simp add: object_ok_def)
  moreover have "o_size ob < two64"
    using l(2) layout_bounds(3) [OF file_okD(1) [OF assms(1)]] two63_two64 by linarith
  ultimately have "journal_file_entry_n_items ob = length xs"
    using ob(2) list_all2_lengthD [OF la] by (simp add: journal_file_entry_n_items_def sub64_eq sizeof_defs)
  with ob that show thesis by (simp add: object_at_def entry_of_def)
qed

lemma copy_payload_content:
  "content E ob = Some x \<Longrightarrow> copy_payload E ob = Inr x"
  by (auto simp: copy_payload_def content_def split: if_splits)

lemma copy_item_run:
  assumes ok: "file_ok E from" "mmap_ok E" and e: "entry_has E from p e xs" and i: "i < length xs"
  shows "copy_item E p i (from, to, c) = lift_copy from c (append_item E (xs ! i) to)"
proof -
  obtain ob where ob: "store from p = Some ob" "object_at from p = ob" "entry_of ob = e" "o_type ob = OBJECT_ENTRY"
    using entry_has_object [OF ok(1) e] by metis
  have hd: "has_data E from (ei_object_offset (e_items e ! i)) (xs ! i)" "ei_hash (e_items e ! i) = jhash (xs ! i)"
    using e i by (auto simp: entry_has_def list_all2_conv_all_nth)
  then obtain db where db: "store from (ei_object_offset (e_items e ! i)) = Some db" "o_type db = OBJECT_DATA"
    "content E db = Some (xs ! i)" by (auto simp: has_data_def erased_Some has_data_store)
  have h: "d_hash (data_of db) = jhash (xs ! i)"
    using file_okD(4) [OF ok(1)] db unfolding data_wf_def by (fastforce simp: erased_Some)
  have mv: "journal_file_move_to_object E (Some OBJECT_DATA) (ei_object_offset (e_items e ! i)) from = Some (Inr db, from)"
    "journal_file_move_to_object E (Some OBJECT_ENTRY) p from = Some (Inr ob, from)"
    using ob db by (auto intro: move_to_object_stored [OF file_okD(1) [OF ok(1)] ok(2)])
  show ?thesis
    unfolding copy_item_def
    by (cases "append_item E (xs ! i) to")
      (auto simp: em_defs ob hd h mv copy_payload_content [OF db(3)] on_from_def on_to_def on_file_def lift_copy_def split: sum.splits)
qed

lemma copy_items_run:
  assumes ok: "file_ok E from" "mmap_ok E" and e: "entry_has E from p e xs"
  shows "set js \<subseteq> {..<length xs} \<Longrightarrow>
    forE js (copy_item E p) (from, to, c) = lift_copy from c (forE (map ((!) xs) js) (append_item E) to)"
proof (induction js arbitrary: to)
  case Nil
  then show ?case by (simp add: lift_copy_def returnE_def)
next
  case (Cons j js)
  then have j: "copy_item E p j (from, to, c) = lift_copy from c (append_item E (xs ! j) to)"
    by (intro copy_item_run [OF ok e]) simp
  have IH: "forE js (copy_item E p) (from, t, c) = lift_copy from c (forE (map ((!) xs) js) (append_item E) t)" for t
    using Cons by simp
  show ?case
    by (auto simp: bindE_def j IH lift_copy_def returnE_def split: option.splits sum.splits)
qed


definition entry_copied ::
  "env \<Rightarrow> entry_object \<Rightarrow> bytes list \<Rightarrow> nat option \<Rightarrow> journal_file \<Rightarrow> (owner \<Rightarrow> nat list) \<Rightarrow>
   nat \<Rightarrow> journal_file \<Rightarrow> (owner \<Rightarrow> nat list) \<Rightarrow> bool" where
  "entry_copied E e xs c to L q to' L' \<longleftrightarrow>
     (\<exists>e'. entry_has E to' q e' xs \<and> e_realtime e' = e_realtime e \<and> e_monotonic e' = e_monotonic e \<and>
        e_seqnum e' = new_seqnum to c \<and> e_boot_id e' = boot_id (header to) \<and>
        e_xor_hash e' = foldl (\<lambda>h x. h XOR jhash x) 0 xs \<and>
        entry_map to' = (entry_map to)(q \<mapsto> e') \<and> L' Global = L Global @ [q] \<and>
        (\<forall>x. L' (Of x) = L (Of x) @ replicate (count_list (map ei_object_offset (e_items e')) x) q))"

lemma copy_entry_eq:
  assumes ok: "file_ok E from" "mmap_ok E" and e: "entry_has E from p e xs" and w: "writable to"
  shows "journal_file_copy_entry E p (from, to, c) =
    (case forE xs (append_item E) to of
       None \<Rightarrow> None
     | Some (Inl err, to') \<Rightarrow> Some (Inl err, (from, to', c))
     | Some (Inr items, to') \<Rightarrow>
         on_to (journal_file_append_entry_internal E \<lparr>realtime = e_realtime e, monotonic = e_monotonic e\<rparr>
           (foldl (\<lambda>x it. x XOR ei_hash it) 0 items) items) (from, to', c))"
proof -
  obtain ob where ob: "object_at from p = ob" "entry_of ob = e" "journal_file_entry_n_items ob = length xs"
    using entry_has_object [OF ok(1) e] by metis
  have "forE [0..<length xs] (copy_item E p) (from, to, c) = lift_copy from c (forE xs (append_item E) to)"
    using copy_items_run [OF ok e, of "[0..<length xs]" to c] by (simp add: map_nth lessThan_atLeast0)
  then show ?thesis
    unfolding journal_file_copy_entry_def
    by (auto simp: em_defs Let_def w ob lift_copy_def split: option.splits sum.splits)
qed

text \<open>The entry that is written once its data are in the other file.\<close>

lemma copied_entry_run:
  assumes "env_ok E" "mmap_ok E" and t1: "file_ok E t1" "extends to t1" and L: "entry_lists to L" and "limited to" "length xs < 2 ^ 57"
    and la: "list_all2 (\<lambda>it x. has_data E t1 (ei_object_offset it) x \<and> ei_hash it = jhash x) items xs"
  shows "\<exists>r t2 c' L'. journal_file_append_entry_internal E \<lparr>realtime = e_realtime e, monotonic = e_monotonic e\<rparr>
      (foldl (\<lambda>h x. h XOR jhash x) 0 xs) items (t1, c) = Some (r, (t2, c')) \<and> file_ok E t2 \<and> entry_lists t2 L' \<and>
    (case r of Inl _ \<Rightarrow> \<forall>w. prefix (L w) (L' w) | Inr q \<Rightarrow> entry_copied E e xs c to L q t2 L')"
proof -
  let ?x = "foldl (\<lambda>h x. h XOR jhash x) 0 xs" and ?ts = "\<lparr>realtime = e_realtime e, monotonic = e_monotonic e\<rparr>"
  have L1: "entry_lists t1 L" by (rule entry_lists_extends [OF t1(2) L])
  have len: "length items < 2 ^ 57" using list_all2_lengthD [OF la] assms(7) by simp
  have dom: "ei_object_offset ` set items \<subseteq> dom (data_map t1)"
    using la by (auto simp: list_all2_conv_all_nth in_set_conv_nth dest!: has_data_dom)
  have sf: "same_frame to t1" using t1(2) by (simp add: extends_def)
  have lim1: "limited t1" using assms(6) same_frame_fields(2) [OF sf] by (simp add: limited_def)
  obtain r t2 c' L' where run: "journal_file_append_entry_internal E ?ts ?x items (t1, c) = Some (r, (t2, c'))"
    and t2: "file_ok E t2" "entry_lists t2 L'" and mono: "\<forall>p ob. erased t1 p = Some ob \<longrightarrow> erased t2 p = Some ob"
    and out: "case r of
       Inl _ \<Rightarrow> L' = L \<or> (\<exists>q k. L' = add_to q (take k (map ei_object_offset items)) (L(Global := L Global @ [q])))
     | Inr q \<Rightarrow> q = append_position t1 \<and>
         L' = add_to q (map ei_object_offset items) (L(Global := L Global @ [q])) \<and>
         entry_map t2 = (entry_map t1)(q \<mapsto> entry_record (new_seqnum t1 c) ?ts ?x (boot_id (header t1)) items) \<and>
         tail_entry_seqnum (header t2) = new_seqnum t1 c \<and> c' = map_option (\<lambda>_. new_seqnum t1 c) c \<and>
         tail_entry_realtime (header t2) = realtime ?ts \<and> tail_entry_monotonic (header t2) = monotonic ?ts \<and>
         tail_entry_monotonic_valid t2"
    using append_entry_internal_run [OF assms(1,2) t1(1) L1 lim1 len dom, of ?ts ?x c] by blast
  have "case r of Inl _ \<Rightarrow> \<forall>w. prefix (L w) (L' w) | Inr q \<Rightarrow> entry_copied E e xs c to L q t2 L'"
  proof (cases r)
    case (Inl err)
    with out have "prefix (L w) (L' w)" for w using add_to_prefix by auto
    with Inl show ?thesis by simp
  next
    case (Inr q)
    note o = out [unfolded Inr sum.case]
    have ns: "new_seqnum t1 c = new_seqnum to c" "boot_id (header t1) = boot_id (header to)"
      using same_frame_header [OF sf] by (cases c; simp add: new_seqnum_def)+
    let ?e = "entry_record (new_seqnum to c) ?ts ?x (boot_id (header to)) items"
    have em: "entry_map t2 = (entry_map to)(q \<mapsto> ?e)"
      using o ns by (simp add: extends_array_map(2) [OF t1(2)])
    have "list_all2 (\<lambda>it x. has_data E t2 (ei_object_offset it) x \<and> ei_hash it = jhash x) items xs"
      using list_all2_mono [OF la] has_data_mono mono by (metis (mono_tags, lifting))
    then have "entry_has E t2 q ?e xs" using em by (simp add: entry_has_def entry_record_def)
    with em o have "entry_copied E e xs c to L q t2 L'"
      unfolding entry_copied_def by (intro exI [of _ ?e]) (auto simp: entry_record_def add_to_Of)
    with Inr show ?thesis by simp
  qed
  with run t2 show ?thesis by blast
qed

text \<open>
  C40: Copying an entry to another sound file returns and leaves a sound file.  When it succeeds, that
  file has a new last entry with the same data, in the same order, and the same time stamps, under
  the next sequence number and the boot identifier of the file it is copied to; the entry is added to
  the lists of exactly its data.  The source is unchanged, and a failure loses no entry.
\<close>

theorem copy_entry_correct:
  assumes "file_ok E from" and "entry_has E from p e xs" and "file_ok E to" and "entry_lists to L"
    and "env_ok E" and "mmap_ok E" and "limited to" and "\<forall>x\<in>set xs. data_adm E to x" and "length xs < 2 ^ 57"
  shows "\<exists>r to' c' L'. journal_file_copy_entry E p (from, to, c) = Some (r, (from, to', c')) \<and>
    file_ok E to' \<and> entry_lists to' L' \<and>
    (case r of
       Inl _ \<Rightarrow> \<forall>w. prefix (L w) (L' w)
     | Inr q \<Rightarrow> writable to \<and> entry_copied E e xs c to L q to' L')"
proof (cases "writable to")
  case False
  then have "journal_file_copy_entry E p (from, to, c) = Some (Inl EPERM, (from, to, c))"
    by (simp add: journal_file_copy_entry_def em_defs)
  with assms(3,4) show ?thesis by (intro exI [of _ "Inl EPERM"]) auto
next
  case w: True
  obtain r1 t1 where run1: "forE xs (append_item E) to = Some (r1, t1)" and t1: "file_ok E t1" "extends to t1"
    and out1: "case r1 of Inl _ \<Rightarrow> True | Inr items \<Rightarrow>
         list_all2 (\<lambda>it x. has_data E t1 (ei_object_offset it) x \<and> ei_hash it = jhash x) items xs"
    using append_items_run [OF assms(5,6,3,8)] by blast
  have L1: "entry_lists t1 L" by (rule entry_lists_extends [OF t1(2) assms(4)])
  note eq = copy_entry_eq [OF assms(1,6,2) w, of c]
  show ?thesis
  proof (cases r1)
    case (Inl err)
    with run1 t1 L1 show ?thesis unfolding eq by (intro exI [of _ "Inl err"]) auto
  next
    case (Inr items)
    with out1 have la: "list_all2 (\<lambda>it x. has_data E t1 (ei_object_offset it) x \<and> ei_hash it = jhash x) items xs"
      by simp
    from copied_entry_run [OF assms(5,6) t1 assms(4,7,9) la, of e c]
    obtain r t2 c' L' where run2: "journal_file_append_entry_internal E \<lparr>realtime = e_realtime e, monotonic = e_monotonic e\<rparr>
        (foldl (\<lambda>h x. h XOR jhash x) 0 xs) items (t1, c) = Some (r, (t2, c'))"
      and t2: "file_ok E t2" "entry_lists t2 L'"
      and out: "case r of Inl _ \<Rightarrow> \<forall>w. prefix (L w) (L' w) | Inr q \<Rightarrow> entry_copied E e xs c to L q t2 L'" by blast
    have "journal_file_copy_entry E p (from, to, c) = Some (r, (from, t2, c'))"
      using eq run1 run2 Inr xor_items [OF la] by (simp add: on_to_def)
    with t2 out w show ?thesis by (intro exI conjI) (auto split: sum.split)
  qed
qed

end
