(* ===== verification/Reader_Data.thy ===== *)
theory Reader_Data
  imports Reader_Merge File_Copy
begin

text \<open>
  Reading the entry the journal reader is at: its time stamps, the value of a field and the enumeration of
  all data (\<open>lib/sd-journal.c\<close>); then what an appended entry looks like to the reader.
\<close>

section \<open>Reading the current entry\<close>

text \<open>The file and entry the reader is at; without one the operations below fail.\<close>

definition with_current :: "(string \<Rightarrow> nat \<Rightarrow> 'a rm) \<Rightarrow> 'a rm" where
  "with_current k = (\<lambda>j.
     case current_file j of
       None \<Rightarrow> Some (Inl EADDRNOTAVAIL, j)
     | Some path \<Rightarrow>
         (case get_file path j of
            None \<Rightarrow> None
          | Some rf \<Rightarrow> if current_offset rf \<le> 0 then Some (Inl EADDRNOTAVAIL, j) else k path (current_offset rf) j))"

definition sd_journal_get_realtime_usec :: "env \<Rightarrow> nat rm" where
  "sd_journal_get_realtime_usec E = checked (with_current (\<lambda>path p.
     bindE (on_rfile path (journal_file_move_to_object E (Some OBJECT_ENTRY) p)) (\<lambda>ob.
     returnE (e_realtime (entry_of ob)))))"

text \<open>
  The caller asks for the boot identifier too, or the entry has to be of the current boot, whose
  identifier is given.
\<close>

definition sd_journal_get_monotonic_usec :: "env \<Rightarrow> bool \<Rightarrow> bytes res \<Rightarrow> (nat \<times> bytes) rm" where
  "sd_journal_get_monotonic_usec E with_boot_id this_boot = checked (with_current (\<lambda>path p.
     bindE (on_rfile path (journal_file_move_to_object E (Some OBJECT_ENTRY) p)) (\<lambda>ob.
     let r = (e_monotonic (entry_of ob), e_boot_id (entry_of ob)) in
     if with_boot_id then returnE r
     else case this_boot of
            Inl e \<Rightarrow> failE e
          | Inr bid \<Rightarrow> thenE (guardE (uuid_equal bid (e_boot_id (entry_of ob))) ESTALE) (returnE r))))"

fun field_valid_loop :: "bytes \<Rightarrow> bool" where
  "field_valid_loop [] = True"
| "field_valid_loop (c # cs) =
     (if c = 0x5f then field_valid_loop cs
      else if c \<ge> 0x41 \<and> c \<le> 0x5a then field_valid_loop cs
      else if c \<ge> 0x30 \<and> c \<le> 0x39 then field_valid_loop cs
      else False)"

definition field_is_valid :: "bytes \<Rightarrow> bool" where
  "field_is_valid fld =
     (if fld = [] then False
      else if startswith fld [0x5f, 0x5f] then False
      else field_valid_loop fld)"

text \<open>
  The value of the first item for a field.  A failing \<open>decompress_startswith\<close> returns a negative number, which
  the code takes for a match.
\<close>

definition starts_with_field :: "bytes \<Rightarrow> bytes \<Rightarrow> bool" where
  "starts_with_field fld x \<longleftrightarrow> length x \<ge> length fld + 1 \<and> take (length fld) x = fld \<and> x ! length fld = 0x3d"

fun get_data_loop :: "env \<Rightarrow> nat \<Rightarrow> bytes \<Rightarrow> nat \<Rightarrow> nat list \<Rightarrow> object \<Rightarrow> bytes jm" where
  "get_data_loop E lim fld p [] ob = failE ENOENT"
| "get_data_loop E lim fld p (i # is) ob =
     (let it = e_items (entry_of ob) ! i;
          continue = bindE (journal_file_move_to_object E (Some OBJECT_ENTRY) p) (get_data_loop E lim fld p is)
      in bindE (journal_file_move_to_object E (Some OBJECT_DATA) (ei_object_offset it)) (\<lambda>d.
         thenE (guardE (ei_hash it = d_hash (data_of d)) EBADMSG)
         (let compression = o_flags d AND OBJECT_COMPRESSION_MASK; payload = d_payload (data_of d)
          in if compression \<noteq> 0 then
               (case env_decompress_startswith E compression payload fld of
                  Inr False \<Rightarrow> continue
                | _ \<Rightarrow> (case env_decompress_max E lim compression payload of Inl e \<Rightarrow> failE e | Inr x \<Rightarrow> returnE x))
             else if starts_with_field fld payload then returnE payload
             else continue)))"

definition sd_journal_get_data :: "env \<Rightarrow> bytes \<Rightarrow> bytes rm" where
  "sd_journal_get_data E fld = checked (
     thenE (guardE (field_is_valid fld) EINVAL)
     (bindE (getE data_threshold) (\<lambda>lim.
      with_current (\<lambda>path p. on_rfile path (
        bindE (journal_file_move_to_object E (Some OBJECT_ENTRY) p) (\<lambda>ob.
        get_data_loop E lim fld p [0..<journal_file_entry_n_items ob] ob))))))"

definition return_data :: "env \<Rightarrow> nat \<Rightarrow> object \<Rightarrow> bytes res" where
  "return_data E lim ob =
     (let compression = o_flags ob AND OBJECT_COMPRESSION_MASK in
      if compression \<noteq> 0 then env_decompress_max E lim compression (d_payload (data_of ob))
      else Inr (d_payload (data_of ob)))"

definition item_data :: "env \<Rightarrow> nat \<Rightarrow> entry_item \<Rightarrow> bytes jm" where
  "item_data E lim it =
     bindE (journal_file_move_to_object E (Some OBJECT_DATA) (ei_object_offset it)) (\<lambda>d.
     thenE (guardE (ei_hash it = d_hash (data_of d)) EBADMSG)
     (case return_data E lim d of Inl e \<Rightarrow> failE e | Inr x \<Rightarrow> returnE x))"

definition sd_journal_enumerate_data :: "env \<Rightarrow> bytes option rm" where
  "sd_journal_enumerate_data E = checked (with_current (\<lambda>path p.
     bindE (on_rfile path (journal_file_move_to_object E (Some OBJECT_ENTRY) p)) (\<lambda>ob.
     bindE (getE current_field) (\<lambda>i.
     if i \<ge> journal_file_entry_n_items ob then returnE None
     else
       bindE (getE data_threshold) (\<lambda>lim.
       bindE (on_rfile path (item_data E lim (e_items (entry_of ob) ! i))) (\<lambda>x.
       thenE (modifyE (\<lambda>j. j\<lparr>current_field := add64 (current_field j) 1\<rparr>)) (returnE (Some x))))))))"

definition sd_journal_restart_data :: "sd_journal \<Rightarrow> sd_journal" where
  "sd_journal_restart_data j = j\<lparr>current_field := 0\<rparr>"

definition sd_journal_set_data_threshold :: "nat \<Rightarrow> unit rm" where
  "sd_journal_set_data_threshold sz = checked (modifyE (\<lambda>j. j\<lparr>data_threshold := sz\<rparr>))"

definition sd_journal_get_data_threshold :: "nat rm" where
  "sd_journal_get_data_threshold = checked (getE data_threshold)"

text \<open>A client that enumerates the data until there is no more.\<close>

partial_function (option) enumerate_all :: "env \<Rightarrow> sd_journal \<Rightarrow> (bytes list res \<times> sd_journal) option" where
  "enumerate_all E j =
     (case sd_journal_enumerate_data E j of
        None \<Rightarrow> None
      | Some (Inl e, j) \<Rightarrow> Some (Inl e, j)
      | Some (Inr None, j) \<Rightarrow> Some (Inr [], j)
      | Some (Inr (Some x), j) \<Rightarrow>
          Option.bind (enumerate_all E j) (\<lambda>(r, j). Some (map_sum id (Cons x) r, j)))"

section \<open>The data of an entry\<close>

text \<open>What the decompression library promises, for data within the limit.\<close>

definition decompress_ok :: "env \<Rightarrow> bool" where
  "decompress_ok E \<longleftrightarrow> (\<forall>c x y. env_decompress E c x = Some y \<longrightarrow>
     (\<forall>lim. lim = 0 \<or> length y \<le> lim \<longrightarrow> env_decompress_max E lim c x = Inr y) \<and>
     (\<forall>fld. env_decompress_startswith E c x fld = Inr (starts_with_field fld y)))"

abbreviation within :: "nat \<Rightarrow> bytes \<Rightarrow> bool" where
  "within lim x \<equiv> lim = 0 \<or> length x \<le> lim"

text \<open>The reader is at the entry \<open>q\<close> of a file with these contents.\<close>

definition at_entry :: "env \<Rightarrow> (owner \<Rightarrow> nat list) \<Rightarrow> journal_file \<Rightarrow> string \<Rightarrow> nat \<Rightarrow> sd_journal \<Rightarrow> bool" where
  "at_entry E L g path q j \<longleftrightarrow> source_ok E L g \<and> q \<in> set (L Global) \<and> \<not> journal_pid_changed j \<and> current_file j = Some path \<and>
     (\<exists>rf. get_file path j = Some rf \<and> current_offset rf = q \<and> scanning E L g (rf_file rf))"

lemma at_entryD:
  assumes "at_entry E L g path q j"
  obtains rf where "get_file path j = Some rf" "current_offset rf = q" "scanning E L g (rf_file rf)" "q > 0"
    "source_ok E L g" "q \<in> set (L Global)"
  using assms object_entry unfolding at_entry_def by metis

lemma get_file_upd:
  assumes "get_file path j = Some rf" "\<And>rf. rf_path (u rf) = rf_path rf"
  shows "get_file path (upd_file path u j) = Some (u rf)"
  using find_map_upd [OF assms(2)] assms(1) by (simp add: get_file_def upd_file_def)

lemma on_current:
  assumes j: "at_entry E L g path q j" and m: "\<And>f. scanning E L g f \<Longrightarrow> m f = Some (r, f)"
  obtains j' where "on_rfile path m j = Some (r, j')" "at_entry E L g path q j'" "current_field j' = current_field j"
    "data_threshold j' = data_threshold j"
proof -
  obtain rf where rf: "get_file path j = Some rf" "current_offset rf = q" "scanning E L g (rf_file rf)"
    by (rule at_entryD [OF j])
  let ?j = "upd_file path (\<lambda>r. r\<lparr>rf_file := rf_file rf\<rparr>) j"
  have "get_file path ?j = Some (rf\<lparr>rf_file := rf_file rf\<rparr>)" by (rule get_file_upd [OF rf(1)]) simp
  then have "at_entry E L g path q ?j"
    using j rf(2,3) by (simp add: at_entry_def upd_file_def journal_pid_changed_def)
  moreover have "on_rfile path m j = Some (r, ?j)" using rf(1) m [OF rf(3)] by (simp add: on_rfile_def)
  ultimately show thesis using that [of ?j] by (simp add: upd_file_def)
qed

lemma entry_has_scanning:
  assumes "scanning E L g f" "entry_has E g q e xs"
  shows "file_ok E f" "mmap_ok E" "entry_has E f q e xs"
proof -
  obtain cc where f: "f = cache_set cc g" "file_ok E f" "mmap_ok E" by (rule readableD [OF assms(1)])
  show "file_ok E f" "mmap_ok E" using f by auto
  have "entry_map (cache_set cc g) = entry_map g" by (rule ext) (simp add: entry_map_def)
  then show "entry_has E f q e xs" using assms(2) unfolding f(1) entry_has_def by simp
qed

lemma entry_run:
  assumes "scanning E L g f" "entry_has E g q e xs"
  obtains ob where "\<forall>f. scanning E L g f \<longrightarrow> journal_file_move_to_object E (Some OBJECT_ENTRY) q f = Some (Inr ob, f)"
    "entry_of ob = e" "journal_file_entry_n_items ob = length xs"
proof -
  have "file_ok E g" using assms(1) by (simp add: readable_def)
  from entry_has_object [OF this assms(2)] obtain ob where
    ob: "store g q = Some ob" "entry_of ob = e" "o_type ob = OBJECT_ENTRY" "journal_file_entry_n_items ob = length xs" by metis
  have "journal_file_move_to_object E (Some OBJECT_ENTRY) q f' = Some (Inr ob, f')" if f': "scanning E L g f'" for f'
  proof -
    obtain cc where c: "f' = cache_set cc g" "file_ok E f'" "mmap_ok E" by (rule readableD [OF f'])
    then show ?thesis using ob(1,3) by (intro move_to_object_stored [OF file_okD(1)]) auto
  qed
  then show thesis using that ob by blast
qed

text \<open>The data object of an item.\<close>

lemma item_run:
  assumes "scanning E L g f" "entry_has E g q e xs" "i < length xs"
  obtains d where "journal_file_move_to_object E (Some OBJECT_DATA) (ei_object_offset (e_items e ! i)) f = Some (Inr d, f)"
    "ei_hash (e_items e ! i) = d_hash (data_of d)" "content E d = Some (xs ! i)"
proof -
  note f = entry_has_scanning [OF assms(1,2)]
  have hd: "has_data E f (ei_object_offset (e_items e ! i)) (xs ! i)" "ei_hash (e_items e ! i) = jhash (xs ! i)"
    using f(3) assms(3) by (auto simp: entry_has_def list_all2_conv_all_nth)
  then obtain d where d: "store f (ei_object_offset (e_items e ! i)) = Some d" "o_type d = OBJECT_DATA"
    "content E d = Some (xs ! i)" by (auto simp: has_data_def erased_Some has_data_store)
  have "d_hash (data_of d) = jhash (xs ! i)"
    using file_okD(4) [OF f(1)] d unfolding data_wf_def by (fastforce simp: erased_Some)
  moreover have "journal_file_move_to_object E (Some OBJECT_DATA) (ei_object_offset (e_items e ! i)) f = Some (Inr d, f)"
    using d by (auto intro: move_to_object_stored [OF file_okD(1) [OF f(1)] f(2)])
  ultimately show thesis using that d(3) hd(2) by simp
qed

lemma return_data_content:
  "decompress_ok E \<Longrightarrow> content E d = Some x \<Longrightarrow> within lim x \<Longrightarrow> return_data E lim d = Inr x"
  by (auto simp: decompress_ok_def content_def return_data_def Let_def split: if_splits)

lemma item_data_run:
  assumes "scanning E L g f" "entry_has E g q e xs" "i < length xs" "decompress_ok E" "within lim (xs ! i)"
  shows "item_data E lim (e_items e ! i) f = Some (Inr (xs ! i), f)"
proof -
  obtain d where "journal_file_move_to_object E (Some OBJECT_DATA) (ei_object_offset (e_items e ! i)) f = Some (Inr d, f)"
    "ei_hash (e_items e ! i) = d_hash (data_of d)" "content E d = Some (xs ! i)" by (rule item_run [OF assms(1-3)])
  then show ?thesis using return_data_content [OF assms(4) _ assms(5)] by (simp add: item_data_def em_defs)
qed

lemma enumerate_step:
  assumes j: "at_entry E L g path q j" and e: "entry_has E g q e xs" and D: "decompress_ok E"
    and w: "\<forall>x\<in>set xs. within (data_threshold j) x" and n: "length xs < two64"
  shows "current_field j \<ge> length xs \<Longrightarrow> \<exists>j'. sd_journal_enumerate_data E j = Some (Inr None, j')"
    and "current_field j < length xs \<Longrightarrow> \<exists>j'. sd_journal_enumerate_data E j = Some (Inr (Some (xs ! current_field j)), j') \<and>
      at_entry E L g path q j' \<and> current_field j' = current_field j + 1 \<and> data_threshold j' = data_threshold j"
proof -
  obtain rf where rf: "get_file path j = Some rf" "current_offset rf = q" "scanning E L g (rf_file rf)" "q > 0"
    by (rule at_entryD [OF j])
  have c: "\<not> journal_pid_changed j" "current_file j = Some path" using j by (auto simp: at_entry_def)
  obtain ob where ob: "\<forall>f. scanning E L g f \<longrightarrow> journal_file_move_to_object E (Some OBJECT_ENTRY) q f = Some (Inr ob, f)"
    "entry_of ob = e" "journal_file_entry_n_items ob = length xs" by (rule entry_run [OF rf(3) e])
  obtain j1 where j1: "on_rfile path (journal_file_move_to_object E (Some OBJECT_ENTRY) q) j = Some (Inr ob, j1)"
    "at_entry E L g path q j1" "current_field j1 = current_field j" "data_threshold j1 = data_threshold j"
    by (rule on_current [OF j ob(1) [rule_format]])
  note run = sd_journal_enumerate_data_def checked_def with_current_def c rf(1,2,4) j1(1,3,4) ob(2,3) bindE_def getE_def
  show "\<exists>j'. sd_journal_enumerate_data E j = Some (Inr None, j')" if "current_field j \<ge> length xs"
    using that rf(4) by (simp add: run returnE_def)
  show "\<exists>j'. sd_journal_enumerate_data E j = Some (Inr (Some (xs ! current_field j)), j') \<and>
      at_entry E L g path q j' \<and> current_field j' = current_field j + 1 \<and> data_threshold j' = data_threshold j"
    if i: "current_field j < length xs"
  proof -
    have "within (data_threshold j) (xs ! current_field j)" using w i by auto
    note it = item_data_run [OF _ e i D this, where L = L]
    obtain j2 where
      j2: "on_rfile path (item_data E (data_threshold j) (e_items e ! current_field j)) j1 = Some (Inr (xs ! current_field j), j2)"
      "at_entry E L g path q j2" "current_field j2 = current_field j1" "data_threshold j2 = data_threshold j1"
      by (rule on_current [OF j1(2) it])
    have "add64 (current_field j2) 1 = current_field j + 1" using i n j1(3) j2(3) by (simp add: add64_def)
    moreover have "at_entry E L g path q (j2\<lparr>current_field := k\<rparr>)" for k
      using j2(2) by (simp add: at_entry_def journal_pid_changed_def get_file_def)
    ultimately show ?thesis using i rf(4) j1(4) j2 by (simp add: run thenE_def modifyE_def returnE_def)
  qed
qed

lemma enumerate_all_run:
  assumes e: "entry_has E g q e xs" and D: "decompress_ok E" and n: "length xs < two64"
  shows "at_entry E L g path q j \<Longrightarrow> \<forall>x\<in>set xs. within (data_threshold j) x \<Longrightarrow>
    \<exists>j'. enumerate_all E j = Some (Inr (drop (current_field j) xs), j')"
proof (induction "length xs - current_field j" arbitrary: j)
  case 0
  then obtain j' where "sd_journal_enumerate_data E j = Some (Inr None, j')"
    using enumerate_step(1) [OF 0(2) e D 0(3) n] by auto
  then show ?case using 0(1) by (subst enumerate_all.simps) simp
next
  case (Suc k)
  then have i: "current_field j < length xs" by simp
  from enumerate_step(2) [OF Suc(3) e D Suc(4) n i] obtain j1 where
    j1: "sd_journal_enumerate_data E j = Some (Inr (Some (xs ! current_field j)), j1)"
    "at_entry E L g path q j1" "current_field j1 = current_field j + 1" "data_threshold j1 = data_threshold j" by blast
  have "k = length xs - current_field j1" using Suc(2) j1(3) by simp
  from Suc(1) [OF this j1(2)] Suc(4) j1(3,4) obtain j2 where
    "enumerate_all E j1 = Some (Inr (drop (current_field j + 1) xs), j2)" by auto
  then show ?case using j1(1) Cons_nth_drop_Suc [OF i] by (subst enumerate_all.simps) simp
qed

lemma items_few:
  assumes "file_ok E g" "entry_has E g q e xs"
  shows "length xs < two64"
proof -
  obtain ob where ob: "store g q = Some ob" "entry_of ob = e" "o_type ob = OBJECT_ENTRY" using entry_has_object [OF assms] by metis
  have b: "o_body ob = EntryBody e" using ob by (cases "o_body ob") (simp_all add: entry_of_def)
  note l = layoutD(4,5) [OF file_okD(1) [OF assms(1)] ob(1)]
  have "sizeof_EntryItem * length (e_items e) \<le> o_size ob" using l(1) b by (simp add: object_ok_def)
  moreover have "o_size ob < two64" using l(2) layout_bounds(3) [OF file_okD(1) [OF assms(1)]] two63_two64 by linarith
  moreover have "length (e_items e) = length xs" using assms(2) list_all2_lengthD by (auto simp: entry_has_def)
  ultimately show ?thesis by (simp add: sizeof_defs)
qed

text \<open>
  C20: Enumerating the data of the current entry from the start returns every item of the entry, with its
  uncompressed contents, in the order of the items, and then ends, provided the limit on the size of
  data is off or not reached.
\<close>

theorem enumerate_data_complete:
  assumes "at_entry E L g path q j" and "entry_has E g q e xs" and "decompress_ok E"
    and "\<forall>x\<in>set xs. within (data_threshold j) x"
  shows "\<exists>j'. enumerate_all E (sd_journal_restart_data j) = Some (Inr xs, j')"
proof -
  obtain rf where "source_ok E L g" by (rule at_entryD [OF assms(1)])
  then have "length xs < two64" using items_few [OF _ assms(2)] by (simp add: source_ok_def)
  moreover have "at_entry E L g path q (sd_journal_restart_data j)"
    using assms(1) by (simp add: sd_journal_restart_data_def at_entry_def journal_pid_changed_def get_file_def)
  ultimately show ?thesis
    using enumerate_all_run [OF assms(2,3), of L path "sd_journal_restart_data j"] assms(4) by (simp add: sd_journal_restart_data_def)
qed

section \<open>The value of a fld\<close>

lemma get_data_loop_run:
  assumes e: "entry_has E g q e xs" and D: "decompress_ok E" and w: "\<forall>x\<in>set xs. within lim x"
    and ob: "\<And>f. scanning E L g f \<Longrightarrow> journal_file_move_to_object E (Some OBJECT_ENTRY) q f = Some (Inr ob, f)" "entry_of ob = e"
    and f: "scanning E L g f"
  shows "set is \<subseteq> {..<length xs} \<Longrightarrow> get_data_loop E lim fld q is ob f =
    Some (case List.find (starts_with_field fld) (map ((!) xs) is) of None \<Rightarrow> Inl ENOENT | Some x \<Rightarrow> Inr x, f)"
proof (induction "is")
  case Nil
  then show ?case by (simp add: failE_def)
next
  case (Cons i "is")
  then have i: "i < length xs" by simp
  obtain d where d: "journal_file_move_to_object E (Some OBJECT_DATA) (ei_object_offset (e_items e ! i)) f = Some (Inr d, f)"
    "ei_hash (e_items e ! i) = d_hash (data_of d)" "content E d = Some (xs ! i)" by (rule item_run [OF f e i])
  have "within lim (xs ! i)" using w i by auto
  with d(3) D have c: "o_flags d AND OBJECT_COMPRESSION_MASK \<noteq> 0 \<Longrightarrow>
      env_decompress_startswith E (o_flags d AND OBJECT_COMPRESSION_MASK) (d_payload (data_of d)) fld = Inr (starts_with_field fld (xs ! i)) \<and>
      env_decompress_max E lim (o_flags d AND OBJECT_COMPRESSION_MASK) (d_payload (data_of d)) = Inr (xs ! i)"
    "o_flags d AND OBJECT_COMPRESSION_MASK = 0 \<Longrightarrow> d_payload (data_of d) = xs ! i"
    by (auto simp: decompress_ok_def content_def)
  from Cons have IH: "get_data_loop E lim fld q is ob f =
      Some (case List.find (starts_with_field fld) (map ((!) xs) is) of None \<Rightarrow> Inl ENOENT | Some x \<Rightarrow> Inr x, f)" by simp
  show ?case
    using c by (cases "starts_with_field fld (xs ! i)"; cases "o_flags d AND OBJECT_COMPRESSION_MASK = 0")
      (simp_all add: Let_def ob(1) [OF f] ob(2) d IH em_defs)
qed

text \<open>
  C21: Asking for a field of the current entry gives the first of its data that starts with the name of
  the field and \<open>=\<close>, or the error that says there is none; an invalid name is refused.
\<close>

theorem get_data_correct:
  assumes "at_entry E L g path q j" and "entry_has E g q e xs" and "decompress_ok E"
    and "\<forall>x\<in>set xs. within (data_threshold j) x"
  shows "\<exists>j'. sd_journal_get_data E fld j =
      Some (if \<not> field_is_valid fld then Inl EINVAL
            else case List.find (starts_with_field fld) xs of None \<Rightarrow> Inl ENOENT | Some x \<Rightarrow> Inr x, j')"
proof (cases "field_is_valid fld")
  case False
  then show ?thesis using assms(1) by (simp add: sd_journal_get_data_def checked_def at_entry_def em_defs)
next
  case True
  obtain rf where rf: "get_file path j = Some rf" "current_offset rf = q" "scanning E L g (rf_file rf)" "q > 0"
    by (rule at_entryD [OF assms(1)])
  obtain ob where ob: "\<forall>f. scanning E L g f \<longrightarrow> journal_file_move_to_object E (Some OBJECT_ENTRY) q f = Some (Inr ob, f)"
    "entry_of ob = e" "journal_file_entry_n_items ob = length xs" by (rule entry_run [OF rf(3) assms(2)])
  have "set [0..<length xs] \<subseteq> {..<length xs}" by auto
  note l = get_data_loop_run [OF assms(2-4) ob(1) [rule_format] ob(2) rf(3) this, of fld]
  have "map ((!) xs) [0..<length xs] = xs" by (rule map_nth)
  then show ?thesis
    using True l assms(1) rf ob(1) [rule_format, OF rf(3)] ob(3)
    by (simp add: sd_journal_get_data_def checked_def at_entry_def em_defs with_current_def on_rfile_def)
qed

section \<open>Writing and reading\<close>

lemma has_data_fun: "has_data E f p x \<Longrightarrow> has_data E f p y \<Longrightarrow> x = y"
  by (auto simp: has_data_def)

lemma listed_data:
  assumes "entry_lists f L" "q \<in> set (L (Of p))"
  shows "p \<in> dom (data_map f)"
proof (rule ccontr)
  assume "p \<notin> dom (data_map f)"
  then have "data_map f p = None" by blast
  then have "L (Of p) = []" using assms(1) unfolding entry_lists_def by (auto simp: elist_def)
  with assms(2) show False by simp
qed

lemma added_data:
  assumes L: "entry_lists f L" and a: "entry_added E ts iovec c f L q f' L' c'"
    and kept: "\<forall>p ob. erased f p = Some ob \<longrightarrow> erased f' p = Some ob"
  shows "entry_data E f' L' q = set iovec"
    and "r \<in> set (L Global) \<Longrightarrow> entry_data E f' L' r = entry_data E f L r \<and> entry_rec f' r = entry_rec f r"
    and "linked L \<Longrightarrow> linked L'"
proof -
  from a obtain items where la: "list_all2 (\<lambda>it x. has_data E f' (ei_object_offset it) x \<and> ei_hash it = jhash x) items iovec"
    and q: "entry_map f q = None" and LG: "L' Global = L Global @ [q]"
    and LO: "\<And>p. L' (Of p) = L (Of p) @ replicate (count_list (map ei_object_offset items) p) q"
    and em: "entry_map f' = (entry_map f)(q \<mapsto> entry_record (new_seqnum f c) ts
          (foldl (\<lambda>h x. h XOR jhash x) 0 iovec) (boot_id (header f)) (qsort_items items))"
    unfolding entry_added_def by blast
  have old: "r \<noteq> q" if "r \<in> set (L w)" for r w using that L q unfolding entry_lists_def by fastforce
  have mem: "r \<in> set (L' (Of p)) \<longleftrightarrow> r \<in> set (L (Of p)) \<or> r = q \<and> p \<in> ei_object_offset ` set items" for r p
    unfolding LO by (auto simp: count_list_0_iff)
  have items: "(\<exists>it\<in>set items. has_data E f' (ei_object_offset it) x) \<longleftrightarrow> x \<in> set iovec" for x
  proof
    assume "\<exists>it\<in>set items. has_data E f' (ei_object_offset it) x"
    then obtain i where "i < length items" "has_data E f' (ei_object_offset (items ! i)) x" by (auto simp: in_set_conv_nth)
    moreover from this la have "has_data E f' (ei_object_offset (items ! i)) (iovec ! i)" "i < length iovec"
      by (auto simp: list_all2_conv_all_nth)
    ultimately show "x \<in> set iovec" using has_data_fun by (metis nth_mem)
  next
    assume "x \<in> set iovec"
    then obtain i where "i < length iovec" "x = iovec ! i" by (auto simp: in_set_conv_nth)
    with la show "\<exists>it\<in>set items. has_data E f' (ei_object_offset it) x" by (force simp: list_all2_conv_all_nth)
  qed
  show "entry_data E f' L' q = set iovec"
    using items old unfolding entry_data_def mem by blast
  show "linked L \<Longrightarrow> linked L'" unfolding linked_def LG using mem by auto
  show "entry_data E f' L' r = entry_data E f L r \<and> entry_rec f' r = entry_rec f r" if r: "r \<in> set (L Global)"
  proof
    have "has_data E f' p x \<longleftrightarrow> has_data E f p x" if "r \<in> set (L (Of p))" for p x
    proof -
      from listed_data [OF L that] obtain ob where "erased f p = Some ob" by (auto simp: data_map_Some erased_def)
      with kept show ?thesis by (auto simp: has_data_def)
    qed
    then show "entry_data E f' L' r = entry_data E f L r" using old [OF r] unfolding entry_data_def mem by blast
    show "entry_rec f' r = entry_rec f r" using old [OF r] em by simp
  qed
qed

text \<open>Every entry consists of data objects that list it.\<close>

definition items_ok :: "env \<Rightarrow> (owner \<Rightarrow> nat list) \<Rightarrow> journal_file \<Rightarrow> bool" where
  "items_ok E L f \<longleftrightarrow> (\<forall>q\<in>set (L Global). \<exists>e xs. entry_has E f q e xs \<and> set xs = entry_data E f L q)"

lemma added_items:
  assumes L: "entry_lists f L" and a: "entry_added E ts iovec c f L q f' L' c'"
    and kept: "\<forall>p ob. erased f p = Some ob \<longrightarrow> erased f' p = Some ob" and ok: "items_ok E L f"
  shows "items_ok E L' f'" "\<exists>e xs. entry_has E f' q e xs \<and> mset xs = mset iovec"
proof -
  from a obtain items where la: "list_all2 (\<lambda>it x. has_data E f' (ei_object_offset it) x \<and> ei_hash it = jhash x) items iovec"
    and q: "entry_map f q = None" and LG: "L' Global = L Global @ [q]"
    and em: "entry_map f' = (entry_map f)(q \<mapsto> entry_record (new_seqnum f c) ts
          (foldl (\<lambda>h x. h XOR jhash x) 0 iovec) (boot_id (header f)) (qsort_items items))"
    unfolding entry_added_def by blast
  have "mset (qsort_items items) = mset items" by (simp add: qsort_items_def)
  from list_all2_reorder_left_invariance [OF la this] obtain xs where
    xs: "list_all2 (\<lambda>it x. has_data E f' (ei_object_offset it) x \<and> ei_hash it = jhash x) (qsort_items items) xs" "mset xs = mset iovec"
    by blast
  have eq: "e_items (entry_record s ts h b is) = is" for s ts h b "is" by (simp add: entry_record_def)
  have new: "entry_has E f' q (entry_record (new_seqnum f c) ts (foldl (\<lambda>h x. h XOR jhash x) 0 iovec)
      (boot_id (header f)) (qsort_items items)) xs"
    using xs(1) em by (simp add: entry_has_def eq)
  then show "\<exists>e xs. entry_has E f' q e xs \<and> mset xs = mset iovec" using xs(2) by blast
  have "\<exists>e xs. entry_has E f' r e xs \<and> set xs = entry_data E f' L' r" if r: "r \<in> set (L Global)" for r
  proof -
    obtain e xs where h: "entry_has E f r e xs" "set xs = entry_data E f L r" using ok r by (auto simp: items_ok_def)
    have "r \<noteq> q" using r L q unfolding entry_lists_def by fastforce
    moreover have "has_data E f p x \<Longrightarrow> has_data E f' p x" for p x using kept by (auto simp: has_data_def)
    ultimately have "entry_has E f' r e xs"
      using h(1) em by (auto simp: entry_has_def elim: list_all2_mono)
    with h(2) added_data(2) [OF L a kept r] show ?thesis by auto
  qed
  moreover have "set xs = entry_data E f' L' q" using xs(2) added_data(1) [OF L a kept] mset_eq_setD by blast
  ultimately show "items_ok E L' f'" using new unfolding items_ok_def LG by auto
qed

text \<open>
  C4: What the writer appends is what the reader finds: after a successful append to a file that is
  ready for reading, it still is; the new entry comes last, and it has exactly the given data, as
  items and for searching, while the data and the fields of all other entries stay the same.
\<close>

theorem append_entry_visible:
  assumes "source_ok E L f" and "items_ok E L f" and "env_ok E" and "limited f"
    and "\<forall>x\<in>set iovec. data_adm E f x" and "length iovec < 2 ^ 57"
    and "tail_entry_seqnum (header f) + 1 < two64" and "\<forall>k. c = Some k \<longrightarrow> k + 1 < two64"
    and "journal_file_append_entry E now ts iovec (f, c) = Some (Inr q, (f', c'))"
  shows "\<exists>L' e xs. source_ok E L' f' \<and> items_ok E L' f' \<and> L' Global = L Global @ [q] \<and>
    entry_has E f' q e xs \<and> mset xs = mset iovec \<and> entry_data E f' L' q = set iovec \<and>
    (\<forall>r\<in>set (L Global). entry_data E f' L' r = entry_data E f L r \<and> entry_rec f' r = entry_rec f r)"
proof -
  from assms(1) have ok: "file_ok E f" "mmap_ok E" "entry_lists f L" "ordered f L" "linked L" by (auto simp: source_ok_def)
  from append_entry_run [OF ok(1,3) assms(3) ok(2) assms(4-6) refl, where ts = ts and now = now and c = c] assms(9) obtain L' where
    f': "file_ok E f'" "entry_lists f' L'" "\<forall>p ob. erased f p = Some ob \<longrightarrow> erased f' p = Some ob"
    and a: "entry_added E (case ts of None \<Rightarrow> now | Some ts \<Rightarrow> ts) iovec c f L q f' L' c'" by auto
  note d = added_data [OF ok(3) a f'(3)] and i = added_items [OF ok(3) a f'(3) assms(2)]
  have "ordered f' L'" by (rule entry_added_ordered(1) [OF ok(3,4) a assms(7)]) (use assms(8) in blast)
  with f' d(3) ok have "source_ok E L' f'" by (simp add: source_ok_def)
  moreover have "L' Global = L Global @ [q]" using a by (auto simp: entry_added_def)
  ultimately show ?thesis using d(1,2) i by blast
qed

end
