(* ===== verification/Reader_Cursor.thy ===== *)
theory Reader_Cursor
  imports Reader_Data
begin

text \<open>
  Cursors, the strings that name an entry across readers (\<open>lib/sd-journal.c\<close>): printing one, seeking to one
  and testing one, with the parts of the C library and of \<open>shared/util.c\<close> they rest on.
\<close>

section \<open>Numbers and words in strings\<close>

text \<open>\<open>PRIx64\<close>: lower case hexadecimal digits without leading zeros.\<close>

fun hex_u64 :: "nat \<Rightarrow> bytes" where
  "hex_u64 n = (if n < 16 then [char_hex (of_nat n)] else hex_u64 (n div 16) @ [char_hex (of_nat (n mod 16))])"

declare hex_u64.simps [simp del]

text \<open>
  \<open>sscanf\<close> with \<open>%llx\<close>: white space, a sign, a prefix \<open>0x\<close> and digits, of which there has to be one.  A number
  that is too large becomes the largest one.
\<close>

definition is_space :: "u8 \<Rightarrow> bool" where
  "is_space c \<longleftrightarrow> c = 0x20 \<or> c \<ge> 9 \<and> c \<le> 13"

definition is_hex :: "u8 \<Rightarrow> bool" where
  "is_hex c \<longleftrightarrow> c \<ge> 0x30 \<and> c \<le> 0x39 \<or> c \<ge> 0x41 \<and> c \<le> 0x46 \<or> c \<ge> 0x61 \<and> c \<le> 0x66"

definition hex_value :: "u8 \<Rightarrow> nat" where
  "hex_value c = unat (if c \<le> 0x39 then c - 0x30 else if c \<le> 0x46 then c - 0x41 + 10 else c - 0x61 + 10)"

definition scan_llx :: "bytes \<Rightarrow> nat option" where
  "scan_llx s =
     (let s = dropWhile is_space s;
          neg = (take 1 s = [0x2d]);
          s = (if take 1 s = [0x2d] \<or> take 1 s = [0x2b] then drop 1 s else s);
          s = (if take 2 s = [0x30, 0x78] \<or> take 2 s = [0x30, 0x58] then drop 2 s else s);
          ds = takeWhile is_hex s;
          v = foldl (\<lambda>a c. 16 * a + hex_value c) 0 ds
      in if ds = [] then None
         else if v \<ge> two64 then Some (two64 - 1)
         else Some (if neg then (two64 - v) mod two64 else v))"

text \<open>\<open>split\<close> without quotes, and the words that \<open>FOREACH_WORD_SEPARATOR\<close> goes through.\<close>

definition split_word :: "bytes \<Rightarrow> bytes \<Rightarrow> (bytes \<times> bytes) option" where
  "split_word separator current =
     (if current = [] then None
      else
        let current = dropWhile (\<lambda>c. c \<in> set separator) current in
        if current = [] then None
        else Some (takeWhile (\<lambda>c. c \<notin> set separator) current, dropWhile (\<lambda>c. c \<notin> set separator) current))"

lemma split_word_shorter: "split_word sep s = Some (w, rest) \<Longrightarrow> length rest < length s"
proof -
  assume "split_word sep s = Some (w, rest)"
  then have c: "dropWhile (\<lambda>c. c \<in> set sep) s \<noteq> []" (is "?c \<noteq> []")
    "rest = dropWhile (\<lambda>c. c \<notin> set sep) (dropWhile (\<lambda>c. c \<in> set sep) s)"
    by (auto simp: split_word_def Let_def split: if_splits)
  have "hd ?c \<notin> set sep" using hd_dropWhile [OF c(1)] .
  then have "rest = dropWhile (\<lambda>c. c \<notin> set sep) (tl ?c)" using c by (cases ?c) auto
  then have "length rest \<le> length (tl ?c)" by (simp only: length_dropWhile_le)
  moreover have "length (tl ?c) < length ?c" using c(1) by (cases ?c) auto
  ultimately show ?thesis using length_dropWhile_le [of "\<lambda>c. c \<in> set sep" s] by linarith
qed

function words_of :: "bytes \<Rightarrow> bytes \<Rightarrow> bytes list" where
  "words_of sep s = (case split_word sep s of None \<Rightarrow> [] | Some (w, rest) \<Rightarrow> w # words_of sep rest)"
  by pat_completeness auto
termination
  by (relation "measure (length \<circ> snd)") (auto dest: split_word_shorter)

declare words_of.simps [simp del]

section \<open>Cursors\<close>

definition cursor_string :: "bytes \<Rightarrow> entry_object \<Rightarrow> bytes" where
  "cursor_string sid e =
     ascii ''s='' @ uuid_to_str sid @ ascii '';i='' @ hex_u64 (e_seqnum e) @ ascii '';b='' @ uuid_to_str (e_boot_id e) @
     ascii '';m='' @ hex_u64 (e_monotonic e) @ ascii '';t='' @ hex_u64 (e_realtime e) @ ascii '';x='' @ hex_u64 (e_xor_hash e)"

definition sd_journal_get_cursor :: "env \<Rightarrow> bytes rm" where
  "sd_journal_get_cursor E = checked (with_current (\<lambda>path p. on_rfile path (
     bindE (journal_file_move_to_object E (Some OBJECT_ENTRY) p) (\<lambda>ob.
     getE (\<lambda>f. cursor_string (seqnum_id (header f)) (entry_of ob))))))"

text \<open>The fields of a cursor that are set.\<close>

record cursor_fields =
  c_seqnum_id :: "bytes option"
  c_seqnum :: "nat option"
  c_boot_id :: "bytes option"
  c_monotonic :: "nat option"
  c_realtime :: "nat option"
  c_xor_hash :: "nat option"

definition no_fields :: cursor_fields where
  "no_fields = \<lparr>c_seqnum_id = None, c_seqnum = None, c_boot_id = None, c_monotonic = None, c_realtime = None, c_xor_hash = None\<rparr>"

definition need :: "'a option \<Rightarrow> ('a \<Rightarrow> 'b res) \<Rightarrow> 'b res" where
  "need v k = (case v of None \<Rightarrow> Inl EINVAL | Some x \<Rightarrow> k x)"

definition cursor_item :: "bytes \<Rightarrow> cursor_fields \<Rightarrow> cursor_fields res" where
  "cursor_item word c =
     (if length word < 2 \<or> word ! 1 \<noteq> 0x3d then Inl EINVAL
      else
        let item = drop 2 word; key = word ! 0 in
        if key = 0x73 then need (uuid_parse item) (\<lambda>v. Inr (c\<lparr>c_seqnum_id := Some v\<rparr>))
        else if key = 0x69 then need (scan_llx item) (\<lambda>v. Inr (c\<lparr>c_seqnum := Some v\<rparr>))
        else if key = 0x62 then need (uuid_parse item) (\<lambda>v. Inr (c\<lparr>c_boot_id := Some v\<rparr>))
        else if key = 0x6d then need (scan_llx item) (\<lambda>v. Inr (c\<lparr>c_monotonic := Some v\<rparr>))
        else if key = 0x74 then need (scan_llx item) (\<lambda>v. Inr (c\<lparr>c_realtime := Some v\<rparr>))
        else if key = 0x78 then need (scan_llx item) (\<lambda>v. Inr (c\<lparr>c_xor_hash := Some v\<rparr>))
        else Inr c)"

fun cursor_items :: "bytes list \<Rightarrow> cursor_fields \<Rightarrow> cursor_fields res" where
  "cursor_items [] c = Inr c"
| "cursor_items (w # ws) c = (case cursor_item w c of Inl e \<Rightarrow> Inl e | Inr c \<Rightarrow> cursor_items ws c)"

definition cursor_location :: "cursor_fields \<Rightarrow> location \<Rightarrow> location" where
  "cursor_location c l =
     (let l = l\<lparr>loc_type := LOCATION_SEEK\<rparr>;
          l = (case c_realtime c of None \<Rightarrow> l | Some v \<Rightarrow> l\<lparr>loc_realtime := v, realtime_set := True\<rparr>);
          l = (case (c_seqnum c, c_seqnum_id c) of
                 (Some v, Some i) \<Rightarrow> l\<lparr>loc_seqnum := v, loc_seqnum_id := i, seqnum_set := True\<rparr> | _ \<Rightarrow> l);
          l = (case (c_monotonic c, c_boot_id c) of
                 (Some v, Some i) \<Rightarrow> l\<lparr>loc_monotonic := v, loc_boot_id := i, monotonic_set := True\<rparr> | _ \<Rightarrow> l)
      in case c_xor_hash c of None \<Rightarrow> l | Some v \<Rightarrow> l\<lparr>loc_xor_hash := v, xor_hash_set := True\<rparr>)"

definition sd_journal_seek_cursor :: "bytes \<Rightarrow> unit rm" where
  "sd_journal_seek_cursor cursor = checked (
     thenE (guardE (cursor \<noteq> []) EINVAL)
     (case cursor_items (words_of (ascii '';'') cursor) no_fields of
        Inl e \<Rightarrow> failE e
      | Inr c \<Rightarrow>
          if (c_seqnum c = None \<or> c_seqnum_id c = None) \<and> (c_monotonic c = None \<or> c_boot_id c = None) \<and> c_realtime c = None
          then failE EINVAL
          else modifyE (\<lambda>j. let j = reset_location j in j\<lparr>current_location := cursor_location c (current_location j)\<rparr>)))"

text \<open>Whether a word of a cursor agrees with an entry of a file with the given source of numbers.\<close>

definition test_cursor_item :: "bytes \<Rightarrow> entry_object \<Rightarrow> bytes \<Rightarrow> bool res" where
  "test_cursor_item sid e word =
     (if length word < 2 \<or> word ! 1 \<noteq> 0x3d then Inl EINVAL
      else
        let item = drop 2 word; key = word ! 0 in
        if key = 0x73 then need (uuid_parse item) (\<lambda>v. Inr (uuid_equal v sid))
        else if key = 0x69 then need (scan_llx item) (\<lambda>v. Inr (v = e_seqnum e))
        else if key = 0x62 then need (uuid_parse item) (\<lambda>v. Inr (uuid_equal v (e_boot_id e)))
        else if key = 0x6d then need (scan_llx item) (\<lambda>v. Inr (v = e_monotonic e))
        else if key = 0x74 then need (scan_llx item) (\<lambda>v. Inr (v = e_realtime e))
        else if key = 0x78 then need (scan_llx item) (\<lambda>v. Inr (v = e_xor_hash e))
        else Inr True)"

fun test_cursor_items :: "bytes \<Rightarrow> entry_object \<Rightarrow> bytes list \<Rightarrow> bool res" where
  "test_cursor_items sid e [] = Inr True"
| "test_cursor_items sid e (w # ws) =
     (case test_cursor_item sid e w of Inl er \<Rightarrow> Inl er | Inr ok \<Rightarrow> if \<not> ok then Inr False else test_cursor_items sid e ws)"

definition sd_journal_test_cursor :: "env \<Rightarrow> bytes \<Rightarrow> bool rm" where
  "sd_journal_test_cursor E cursor = checked (
     thenE (guardE (cursor \<noteq> []) EINVAL)
     (with_current (\<lambda>path p. on_rfile path (
        bindE (journal_file_move_to_object E (Some OBJECT_ENTRY) p) (\<lambda>ob.
        bindE (getE (\<lambda>f. seqnum_id (header f))) (\<lambda>sid.
        case test_cursor_items sid (entry_of ob) (words_of (ascii '';'') cursor) of Inl e \<Rightarrow> failE e | Inr b \<Rightarrow> returnE b))))))"

section \<open>Printing and scanning\<close>

lemma hex_digit:
  assumes "n < 16"
  shows "is_hex (char_hex (of_nat n))" "hex_value (char_hex (of_nat n)) = n" "char_hex (of_nat n) \<notin> {0x20, 0x2d, 0x2b, 0x78, 0x58, 0x3b}"
    "\<not> is_space (char_hex (of_nat n))"
proof -
  have "list_all (\<lambda>n. is_hex (char_hex (of_nat n)) \<and> hex_value (char_hex (of_nat n)) = n \<and>
      char_hex (of_nat n) \<notin> {0x20, 0x2d, 0x2b, 0x78, 0x58, 0x3b} \<and> \<not> is_space (char_hex (of_nat n))) [0..<16]"
    by (simp add: upt_rec char_hex_def is_hex_def hex_value_def is_space_def)
  with assms show "is_hex (char_hex (of_nat n))" "hex_value (char_hex (of_nat n)) = n"
    "char_hex (of_nat n) \<notin> {0x20, 0x2d, 0x2b, 0x78, 0x58, 0x3b}" "\<not> is_space (char_hex (of_nat n))"
    by (auto simp: list_all_iff)
qed

definition hex_string :: "bytes \<Rightarrow> bool" where
  "hex_string s \<longleftrightarrow> s \<noteq> [] \<and> (\<forall>c\<in>set s. is_hex c \<and> \<not> is_space c \<and> c \<notin> {0x20, 0x2d, 0x2b, 0x78, 0x58, 0x3b})"

lemma hex_u64_string: "hex_string (hex_u64 n)"
proof (induction n rule: hex_u64.induct)
  case (1 n)
  show ?case
  proof (cases "n < 16")
    case True
    then show ?thesis using hex_digit [of n] by (subst hex_u64.simps) (simp add: hex_string_def)
  next
    case False
    then show ?thesis using 1 hex_digit [of "n mod 16"] by (subst hex_u64.simps) (auto simp: hex_string_def)
  qed
qed

lemma hex_u64_value: "foldl (\<lambda>a c. 16 * a + hex_value c) 0 (hex_u64 n) = n"
proof (induction n rule: hex_u64.induct)
  case (1 n)
  then show ?case using hex_digit(2) [of n] hex_digit(2) [of "n mod 16"] by (subst hex_u64.simps) auto
qed

lemma hex_string_scan:
  assumes "hex_string s" "foldl (\<lambda>a c. 16 * a + hex_value c) 0 s < two64"
  shows "scan_llx s = Some (foldl (\<lambda>a c. 16 * a + hex_value c) 0 s)"
proof -
  obtain c cs where s: "s = c # cs" using assms(1) by (cases s) (auto simp: hex_string_def)
  have h: "\<forall>c\<in>set s. is_hex c \<and> \<not> is_space c \<and> c \<notin> {0x20, 0x2d, 0x2b, 0x78, 0x58, 0x3b}" using assms(1) by (simp add: hex_string_def)
  have d: "dropWhile is_space s = s" using h s by simp
  have t: "takeWhile is_hex s = s" using h by (simp add: takeWhile_eq_all_conv)
  have 1: "take 1 s \<noteq> [0x2d]" "take 1 s \<noteq> [0x2b]" using h s by auto
  have 2: "take 2 s \<noteq> [0x30, 0x78]" "take 2 s \<noteq> [0x30, 0x58]" using h s by (cases cs; auto)+
  have "s \<noteq> []" using s by simp
  then show ?thesis unfolding scan_llx_def Let_def d using 1 2 assms(2) by (simp add: t del: One_nat_def)
qed

lemma scan_hex: "n < two64 \<Longrightarrow> scan_llx (hex_u64 n) = Some n"
  using hex_string_scan [OF hex_u64_string, of n] by (simp add: hex_u64_value)

lemma uuid_string: "\<forall>c\<in>set (uuid_to_str u). c \<noteq> 0x3b"
proof -
  have "c \<noteq> 0x3b" if "c \<in> set hex_table" for c using that by (auto simp: hex_table_def ascii_def)
  moreover have "hex_table ! unat (v :: u8) \<in> set hex_table" if "v < 16" for v
  proof -
    have "unat v < 16" using that by (simp add: word_less_nat_alt)
    then show ?thesis by (intro nth_mem) (simp add: hex_table_def ascii_def)
  qed
  ultimately show ?thesis using nibbles(1,2) by (auto simp: uuid_to_str_def)
qed

lemma words_of_last: "w \<noteq> [] \<Longrightarrow> \<forall>c\<in>set w. c \<noteq> s \<Longrightarrow> words_of [s] w = [w]"
proof -
  assume w: "w \<noteq> []" "\<forall>c\<in>set w. c \<noteq> s"
  have d: "dropWhile (\<lambda>c. c \<in> set [s]) w = w" using w by (cases w) auto
  have t: "takeWhile (\<lambda>c. c \<notin> set [s]) w = w" "dropWhile (\<lambda>c. c \<notin> set [s]) w = []" using w by (auto simp: takeWhile_eq_all_conv dropWhile_eq_Nil_conv)
  have n: "words_of [s] [] = []" by (subst words_of.simps) (simp add: split_word_def)
  show ?thesis using w(1) n by (subst words_of.simps) (simp only: split_word_def Let_def d t if_False if_True option.case prod.case)
qed

lemma words_of_Cons: "w \<noteq> [] \<Longrightarrow> \<forall>c\<in>set w. c \<noteq> s \<Longrightarrow> words_of [s] (w @ s # rest) = w # words_of [s] rest"
proof -
  assume w: "w \<noteq> []" "\<forall>c\<in>set w. c \<noteq> s"
  have d: "dropWhile (\<lambda>c. c \<in> set [s]) (w @ s # rest) = w @ s # rest" using w by (cases w) auto
  have t: "takeWhile (\<lambda>c. c \<notin> set [s]) (w @ s # rest) = w" "dropWhile (\<lambda>c. c \<notin> set [s]) (w @ s # rest) = s # rest"
    using w by (auto simp: takeWhile_append dropWhile_append takeWhile_eq_all_conv)
  have r: "words_of [s] (s # rest) = words_of [s] rest"
    by (subst (1 2) words_of.simps) (simp add: split_word_def)
  show ?thesis using w(1) r by (subst words_of.simps) (simp only: split_word_def Let_def d t if_False append_is_Nil_conv list.distinct option.case prod.case simp_thms)
qed

text \<open>The words of a cursor.\<close>

definition cursor_words :: "bytes \<Rightarrow> entry_object \<Rightarrow> bytes list" where
  "cursor_words sid e =
     [ascii ''s='' @ uuid_to_str sid, ascii ''i='' @ hex_u64 (e_seqnum e), ascii ''b='' @ uuid_to_str (e_boot_id e),
      ascii ''m='' @ hex_u64 (e_monotonic e), ascii ''t='' @ hex_u64 (e_realtime e), ascii ''x='' @ hex_u64 (e_xor_hash e)]"

lemma cursor_string_words: "words_of (ascii '';'') (cursor_string sid e) = cursor_words sid e"
proof -
  have h: "\<forall>c\<in>set (hex_u64 n). c \<noteq> 0x3b" for n using hex_u64_string [of n] by (auto simp: hex_string_def)
  have a: "\<forall>c\<in>set w. c \<noteq> 0x3b \<Longrightarrow> \<forall>c\<in>set (k # 0x3d # w). c \<noteq> 0x3b" if "k \<noteq> 0x3b" for k :: u8 and w using that by auto
  have eq: "cursor_string sid e = (0x73 # 0x3d # uuid_to_str sid) @ 0x3b # (0x69 # 0x3d # hex_u64 (e_seqnum e)) @ 0x3b #
      (0x62 # 0x3d # uuid_to_str (e_boot_id e)) @ 0x3b # (0x6d # 0x3d # hex_u64 (e_monotonic e)) @ 0x3b #
      (0x74 # 0x3d # hex_u64 (e_realtime e)) @ 0x3b # (0x78 # 0x3d # hex_u64 (e_xor_hash e))"
    by (simp add: cursor_string_def ascii_def)
  have sep: "ascii '';'' = [0x3b]" by (simp add: ascii_def)
  show ?thesis
    unfolding sep eq
    by (subst words_of_Cons, simp, intro a uuid_string h, simp)+
      (subst words_of_last, simp, intro a h, simp, simp add: cursor_words_def ascii_def)
qed


section \<open>Seeking to a cursor\<close>

text \<open>The fields of an entry are 64-bit numbers and identifiers of 16 bytes.\<close>

definition entry_range :: "entry_object \<Rightarrow> bool" where
  "entry_range e \<longleftrightarrow> e_seqnum e < two64 \<and> e_monotonic e < two64 \<and> e_realtime e < two64 \<and> e_xor_hash e < two64 \<and>
     length (e_boot_id e) = 16"

lemma uuid_roundtrip: "length u = 16 \<Longrightarrow> uuid_parse (uuid_to_str u) = Some u"
  using parse_plain [of u 16] by (simp add: uuid_parse_def)

lemma uuid_equal_eq: "uuid_equal a b \<longleftrightarrow> a = b"
  unfolding uuid_equal_def by (metis append_take_drop_id)

lemma cursor_items_words:
  assumes "entry_range e" "length sid = 16"
  shows "cursor_items (cursor_words sid e) no_fields =
      Inr \<lparr>c_seqnum_id = Some sid, c_seqnum = Some (e_seqnum e), c_boot_id = Some (e_boot_id e),
        c_monotonic = Some (e_monotonic e), c_realtime = Some (e_realtime e), c_xor_hash = Some (e_xor_hash e)\<rparr>"
    and "test_cursor_items sid e (cursor_words sid e) = Inr True"
  using assms
  by (simp_all add: cursor_words_def cursor_item_def test_cursor_item_def need_def no_fields_def ascii_def uuid_roundtrip scan_hex
      entry_range_def uuid_equal_eq)

lemma cursor_string_nonempty: "cursor_string sid e \<noteq> []"
  by (simp add: cursor_string_def ascii_def)

lemma seek_cursor_at:
  assumes F: "sources_ok E F" and s: "(p, g, L) \<in> set F" and q: "q \<in> set (L Global)" and j: "reader_of E F ms j"
    and e: "entry_range (entry_rec g q)" "length (seqnum_id (header g)) = 16"
  obtains j' where "sd_journal_seek_cursor (cursor_string (seqnum_id (header g)) (entry_rec g q)) j = Some (Inr (), j')"
    "reader_at E F (level0 ms) (From (seq g q)) j'"
proof -
  let ?c = "\<lparr>c_seqnum_id = Some (seqnum_id (header g)), c_seqnum = Some (e_seqnum (entry_rec g q)),
    c_boot_id = Some (e_boot_id (entry_rec g q)), c_monotonic = Some (e_monotonic (entry_rec g q)),
    c_realtime = Some (e_realtime (entry_rec g q)), c_xor_hash = Some (e_xor_hash (entry_rec g q))\<rparr>"
  let ?j = "(reset_location j)\<lparr>current_location := cursor_location ?c (current_location (reset_location j))\<rparr>"
  have "list_all2 (file_at E (From (seq g q))) F (map (\<lambda>rf. rf\<lparr>current_offset := 0\<rparr>) (j_files j))"
    unfolding list_all2_map2
    by (rule list_all2_mono [where P = "\<lambda>(p, g, L) rf. rf_path rf = p \<and> scanning E L g (rf_file rf)"])
      (use j in \<open>auto simp: reader_of_def file_at_def\<close>)
  moreover have "uuid_equal (seqnum_id (header g)) (seqnum_id (header g'))" if "(p', g', L') \<in> set F" for p' g' L'
    by (rule sources_okD(3) [OF F s that])
  ultimately have "reader_at E F (level0 ms) (From (seq g q)) ?j"
    using j by (auto simp: reader_at_def reader_of_def located_def reset_location_def detach_location_def cursor_location_def
        Let_def journal_pid_changed_def seqnum_location_def entry_key_def)
  moreover have "sd_journal_seek_cursor (cursor_string (seqnum_id (header g)) (entry_rec g q)) j = Some (Inr (), ?j)"
    using j cursor_items_words(1) [OF e] cursor_string_words [of "seqnum_id (header g)" "entry_rec g q"]
      cursor_string_nonempty [of "seqnum_id (header g)" "entry_rec g q"]
    by (simp add: sd_journal_seek_cursor_def checked_def reader_of_def em_defs Let_def)
  ultimately show thesis by (rule that [rotated])
qed

lemma reader_at_entry:
  assumes F: "sources_ok E F" and j: "reader_at E F lv0 pos j" and c: "current_entry j = Some (p, q)"
    and s: "(p, g, L) \<in> set F" "q \<in> set (L Global)"
  shows "at_entry E L g p q j"
proof -
  obtain rf where rf: "get_file p j = Some rf" "file_at E pos (p, g, L) rf" by (rule reader_get_file [OF F j s(1)])
  then show ?thesis
    using c s j sources_okD(1) [OF F s(1)] by (auto simp: at_entry_def current_entry_def reader_at_def file_at_def split: option.splits)
qed

lemma get_cursor_run:
  assumes j: "at_entry E L g path q j"
  shows "\<exists>j'. sd_journal_get_cursor E j = Some (Inr (cursor_string (seqnum_id (header g)) (entry_rec g q)), j')"
    and "test_cursor_items (seqnum_id (header g)) (entry_rec g q) (words_of (ascii '';'') c) = Inr b \<Longrightarrow> c \<noteq> [] \<Longrightarrow>
      \<exists>j'. sd_journal_test_cursor E c j = Some (Inr b, j')"
proof -
  obtain rf where rf: "get_file path j = Some rf" "current_offset rf = q" "scanning E L g (rf_file rf)" "q > 0"
    and ok: "source_ok E L g" "q \<in> set (L Global)" by (rule at_entryD [OF j])
  have cur: "\<not> journal_pid_changed j" "current_file j = Some path" using j by (auto simp: at_entry_def)
  obtain ob where ob: "journal_file_move_to_object E (Some OBJECT_ENTRY) q (rf_file rf) = Some (Inr ob, rf_file rf)"
    "entry_of ob = entry_rec g q" using object_entry [OF ok(1) rf(3) ok(2)] by metis
  note h = scanning_ok(4) [OF ok(1) rf(3)]
  show "\<exists>j'. sd_journal_get_cursor E j = Some (Inr (cursor_string (seqnum_id (header g)) (entry_rec g q)), j')"
    using cur rf ob h by (simp add: sd_journal_get_cursor_def checked_def with_current_def on_rfile_def em_defs)
  show "\<exists>j'. sd_journal_test_cursor E c j = Some (Inr b, j')"
    if "test_cursor_items (seqnum_id (header g)) (entry_rec g q) (words_of (ascii '';'') c) = Inr b" "c \<noteq> []"
    using that cur rf ob h by (simp add: sd_journal_test_cursor_def checked_def with_current_def on_rfile_def em_defs)
qed

text \<open>
  C19: A cursor leads back to its entry: the cursor of the current entry of a reader, given to any reader
  of the same files (with matches that the entry satisfies), is accepted, the next entry after seeking
  to it is that entry, and the entry agrees with the cursor.
\<close>

theorem cursor_roundtrip:
  assumes "sources_ok E F" and "(p, g, L) \<in> set F" and "at_entry E L g p q j"
    and "entry_range (entry_rec g q)" and "length (seqnum_id (header g)) = 16"
    and "reader_of E F ms j'" and "matches_ok (level0 ms)" and "q \<in> wanted E (level0 ms) L g"
  shows "\<exists>c j1 j2 j3 j4. sd_journal_get_cursor E j = Some (Inr c, j1) \<and>
    sd_journal_seek_cursor c j' = Some (Inr (), j2) \<and> sd_journal_next E j2 = Some (Inr True, j3) \<and>
    current_entry j3 = Some (p, q) \<and> sd_journal_test_cursor E c j3 = Some (Inr True, j4)"
proof -
  let ?c = "cursor_string (seqnum_id (header g)) (entry_rec g q)" and ?pos = "From (seq g q)"
  have q: "q \<in> set (L Global)" using assms(3) by (simp add: at_entry_def)
  obtain j2 where j2: "sd_journal_seek_cursor ?c j' = Some (Inr (), j2)" "reader_at E F (level0 ms) ?pos j2"
    by (rule seek_cursor_at [OF assms(1,2) q assms(6,4,5)])
  have rem: "q \<in> remaining E (level0 ms) ?pos (p, g, L)" using assms(8) by (simp add: remaining_def ahead_of_def)
  show ?thesis
  proof (rule next_run [OF assms(1,7) j2(2)], goal_cases)
    case (1 j3)
    with assms(2) rem show ?case by fastforce
  next
    case (2 j3 p' g' L' q')
    have q': "q' \<in> set (L' Global)" using 2(5) remaining_sub(1) [OF assms(1) 2(4)] by blast
    have "seq g' q' = seq g q" using 2(5) 2(6) [OF assms(2) rem] by (auto simp: remaining_def ahead_of_def)
    then have e: "p' = p" "q' = q" using sources_okD(4) [OF assms(1) 2(4) assms(2) q' q] by auto
    have j3: "at_entry E L g p q j3"
      using reader_at_entry [OF assms(1) 2(2) _ assms(2) q] 2(3) e by simp
    have "\<exists>j4. sd_journal_test_cursor E ?c j3 = Some (Inr True, j4)"
      using get_cursor_run(2) [OF j3, of ?c True] cursor_items_words(2) [OF assms(4,5)]
      by (simp add: cursor_string_words cursor_string_nonempty)
    with get_cursor_run(1) [OF assms(3)] j2(1) 2(1,3) e show ?case by blast
  qed
qed

end
