(* ===== verification/File_Open.thy ===== *)
theory File_Open
  imports Seek_File
begin

text \<open>
  Opening and closing journal files, and their limits: the header (\<open>journal_file_init_header\<close>,
  \<open>journal_file_refresh_header\<close>, \<open>journal_file_verify_header\<close>), the default limits, \<open>journal_file_open\<close>,
  \<open>journal_file_close\<close>, rotation, and the time range of a file (\<open>lib/journal-file.c\<close>).  The lemmas say what
  opening an existing file for writing goes through.
\<close>

section \<open>The environment\<close>

text \<open>
  What opening a file gets from outside: which compression libraries were there at build time, the
  results of \<open>open\<close>, of writing and mapping the header, and of \<open>fstatvfs\<close> (fragment size and number of
  blocks), the random bytes, the boot identifier, and the time.
\<close>

record open_env =
  oe_have_xz :: bool
  oe_have_lz4 :: bool
  oe_open :: "errno option"
  oe_pwrite :: "nat res"
  oe_map_header :: "errno option"
  oe_statvfs :: "(nat \<times> nat) option"
  oe_random :: bytes
  oe_boot_id :: "bytes option"
  oe_now :: nat

section \<open>The header\<close>

definition HEADER_INCOMPATIBLE_COMPRESSED_XZ :: nat where "HEADER_INCOMPATIBLE_COMPRESSED_XZ = 1"
definition HEADER_INCOMPATIBLE_COMPRESSED_LZ4 :: nat where "HEADER_INCOMPATIBLE_COMPRESSED_LZ4 = 2"

definition HEADER_INCOMPATIBLE_SUPPORTED :: "open_env \<Rightarrow> nat" where
  "HEADER_INCOMPATIBLE_SUPPORTED OE =
     (if oe_have_xz OE \<and> oe_have_lz4 OE
      then HEADER_INCOMPATIBLE_COMPRESSED_XZ OR HEADER_INCOMPATIBLE_COMPRESSED_LZ4
      else if oe_have_xz OE then HEADER_INCOMPATIBLE_COMPRESSED_XZ
      else if oe_have_lz4 OE then HEADER_INCOMPATIBLE_COMPRESSED_LZ4 else 0)"

definition JOURNAL_HEADER_COMPRESSED_XZ :: "header \<Rightarrow> bool" where
  "JOURNAL_HEADER_COMPRESSED_XZ h \<longleftrightarrow> incompatible_flags h AND HEADER_INCOMPATIBLE_COMPRESSED_XZ \<noteq> 0"

definition JOURNAL_HEADER_COMPRESSED_LZ4 :: "header \<Rightarrow> bool" where
  "JOURNAL_HEADER_COMPRESSED_LZ4 h \<longleftrightarrow> incompatible_flags h AND HEADER_INCOMPATIBLE_COMPRESSED_LZ4 \<noteq> 0"

definition HEADER_SIGNATURE :: bytes where
  "HEADER_SIGNATURE = ascii ''LPKSHHRH''"

definition HEADER_SIZE_MIN :: nat where
  "HEADER_SIZE_MIN = ALIGN64 208"

definition zero_header :: header where
  "zero_header = \<lparr>signature = replicate 8 0, compatible_flags = 0, incompatible_flags = 0, state = 0,
     file_id = replicate 16 0, machine_id = replicate 16 0, boot_id = replicate 16 0,
     seqnum_id = replicate 16 0, header_size = 0, arena_size = 0,
     data_hash_table_offset = 0, data_hash_table_size = 0, field_hash_table_offset = 0,
     field_hash_table_size = 0, tail_object_offset = 0, n_objects = 0, n_entries = 0,
     tail_entry_seqnum = 0, head_entry_seqnum = 0, entry_array_offset = 0, head_entry_realtime = 0,
     tail_entry_realtime = 0, tail_entry_monotonic = 0, n_data = 0, n_fields = 0, n_tags = 0,
     n_entry_arrays = 0\<rparr>"

definition new_header :: "open_env \<Rightarrow> journal_file option \<Rightarrow> journal_file \<Rightarrow> header" where
  "new_header OE template f =
     (let h = zero_header\<lparr>signature := HEADER_SIGNATURE, header_size := ALIGN64 sizeof_Header,
            incompatible_flags :=
              (if compress_xz f then HEADER_INCOMPATIBLE_COMPRESSED_XZ else 0) OR
              (if compress_lz4 f then HEADER_INCOMPATIBLE_COMPRESSED_LZ4 else 0),
            compatible_flags := 0, file_id := uuid_gen_rand (oe_random OE)\<rparr>
      in case template of
           Some t \<Rightarrow> h\<lparr>seqnum_id := seqnum_id (header t), tail_entry_seqnum := tail_entry_seqnum (header t)\<rparr>
         | None \<Rightarrow> h\<lparr>seqnum_id := file_id h\<rparr>)"

text \<open>The header goes to an empty file; a short write leaves only a part of it there.\<close>

definition journal_file_init_header :: "open_env \<Rightarrow> journal_file option \<Rightarrow> unit jm" where
  "journal_file_init_header OE template = (\<lambda>f.
     case oe_pwrite OE of
       Inl e \<Rightarrow> Some (Inl e, f)
     | Inr k \<Rightarrow>
         if k \<noteq> sizeof_Header then Some (Inl EIO, f\<lparr>file_size := k\<rparr>)
         else Some (Inr (), f\<lparr>header := new_header OE template f, file_size := sizeof_Header\<rparr>))"

text \<open>A failure of \<open>boot_get_id\<close> is passed on; its value, \<open>-1\<close>, is the number of \<open>EPERM\<close>.\<close>

definition journal_file_refresh_header :: "open_env \<Rightarrow> unit jm" where
  "journal_file_refresh_header OE =
     (case oe_boot_id OE of
        None \<Rightarrow> failE EPERM
      | Some bid \<Rightarrow>
          thenE (modifyE (\<lambda>f.
            let f = (if uuid_equal bid (boot_id (header f)) then f\<lparr>tail_entry_monotonic_valid := True\<rparr> else f)
            in upd_header (\<lambda>h. h\<lparr>boot_id := bid\<rparr>) f))
          (ignoreE journal_file_set_online))"

definition journal_file_verify_header :: "open_env \<Rightarrow> unit jm" where
  "journal_file_verify_header OE =
     bindE (getE (\<lambda>f. f)) (\<lambda>f.
     let h = header f; aend = add64 (header_size h) (arena_size h) in
     thenE (guardE (signature h = HEADER_SIGNATURE) EBADMSG)
     (thenE (guardE (\<not> (of_nat (incompatible_flags h) AND NOT (of_nat (HEADER_INCOMPATIBLE_SUPPORTED OE)) :: u32) \<noteq> 0)
               EPROTONOSUPPORT)
     (thenE (guardE (\<not> (writable f \<and> compatible_flags h \<noteq> 0)) EPROTONOSUPPORT)
     (thenE (guardE (\<not> state h \<ge> STATE_MAX) EBADMSG)
     (thenE (guardE (\<not> header_size h < HEADER_SIZE_MIN) EBADMSG)
     (thenE (guardE (header_contains_n_entry_arrays h) EBADMSG)
     (thenE (guardE (\<not> aend > st_size f) ENODATA)
     (thenE (guardE (\<not> tail_object_offset h > aend) ENODATA)
     (thenE (guardE (VALID64 (data_hash_table_offset h) \<and> VALID64 (field_hash_table_offset h) \<and>
                     VALID64 (tail_object_offset h) \<and> VALID64 (entry_array_offset h)) ENODATA)
     (thenE (if writable f then
               if state h = STATE_ONLINE then failE EBUSY
               else if state h = STATE_ARCHIVED then failE ESHUTDOWN
               else if state h \<noteq> STATE_OFFLINE then failE EBUSY
               else returnE ()
             else returnE ())
     (modifyE (\<lambda>f. f\<lparr>compress_xz := JOURNAL_HEADER_COMPRESSED_XZ h,
                      compress_lz4 := JOURNAL_HEADER_COMPRESSED_LZ4 h\<rparr>))))))))))))"

section \<open>Limits\<close>

definition JOURNAL_FILE_SIZE_MIN :: nat where "JOURNAL_FILE_SIZE_MIN = 4 * 1024 * 1024"
definition DEFAULT_MAX_USE_LOWER :: nat where "DEFAULT_MAX_USE_LOWER = 1 * 1024 * 1024"
definition DEFAULT_MAX_USE_UPPER :: nat where "DEFAULT_MAX_USE_UPPER = 4 * 1024 * 1024 * 1024"
definition DEFAULT_MAX_SIZE_UPPER :: nat where "DEFAULT_MAX_SIZE_UPPER = 128 * 1024 * 1024"
definition DEFAULT_KEEP_FREE_UPPER :: nat where "DEFAULT_KEEP_FREE_UPPER = 4 * 1024 * 1024 * 1024"
definition DEFAULT_KEEP_FREE :: nat where "DEFAULT_KEEP_FREE = 1024 * 1024"

text \<open>\<open>(uint64_t) -1\<close> asks for a value to be chosen.\<close>

definition AUTO :: nat where "AUTO = two64 - 1"

definition journal_reset_metrics :: journal_metrics where
  "journal_reset_metrics = \<lparr>max_size = AUTO, min_size = AUTO, max_use = AUTO, min_use = AUTO, keep_free = AUTO\<rparr>"

definition default_max_use :: "env \<Rightarrow> nat \<Rightarrow> nat \<Rightarrow> nat" where
  "default_max_use E fs_size v =
     (if v = AUTO then
        if fs_size > 0 then
          let u = PAGE_ALIGN E (fs_size div 10);
              u = (if u > DEFAULT_MAX_USE_UPPER then DEFAULT_MAX_USE_UPPER else u)
          in if u < DEFAULT_MAX_USE_LOWER then DEFAULT_MAX_USE_LOWER else u
        else DEFAULT_MAX_USE_LOWER
      else
        let u = PAGE_ALIGN E v
        in if u < JOURNAL_FILE_SIZE_MIN * 2 then JOURNAL_FILE_SIZE_MIN * 2 else u)"

definition default_max_size :: "env \<Rightarrow> nat \<Rightarrow> nat \<Rightarrow> nat" where
  "default_max_size E use v =
     (let s = (if v = AUTO then
                 let s = PAGE_ALIGN E (use div 8)
                 in if s > DEFAULT_MAX_SIZE_UPPER then DEFAULT_MAX_SIZE_UPPER else s
               else PAGE_ALIGN E v)
      in if s < JOURNAL_FILE_SIZE_MIN then JOURNAL_FILE_SIZE_MIN else s)"

definition journal_default_metrics :: "env \<Rightarrow> open_env \<Rightarrow> journal_metrics \<Rightarrow> journal_metrics" where
  "journal_default_metrics E OE m =
     (let fs_size = (case oe_statvfs OE of None \<Rightarrow> 0 | Some (frsize, blocks) \<Rightarrow> mul64 frsize blocks);
          mu = default_max_use E fs_size (max_use m);
          ms = default_max_size E mu (max_size m);
          mu = (if mul64 ms 2 > mu then mul64 ms 2 else mu);
          mi = (if min_size m = AUTO then JOURNAL_FILE_SIZE_MIN
                else let s = PAGE_ALIGN E (min_size m)
                     in if s < JOURNAL_FILE_SIZE_MIN then JOURNAL_FILE_SIZE_MIN else s);
          ms = (if min_size m \<noteq> AUTO \<and> mi > ms then mi else ms);
          kf = (if keep_free m = AUTO then
                  if fs_size > 0 then
                    let k = PAGE_ALIGN E (mul64 fs_size 3 div 20)
                    in if k > DEFAULT_KEEP_FREE_UPPER then DEFAULT_KEEP_FREE_UPPER else k
                  else DEFAULT_KEEP_FREE
                else keep_free m)
      in m\<lparr>max_use := mu, max_size := ms, min_size := mi, keep_free := kf\<rparr>)"

section \<open>Opening and closing\<close>

text \<open>
  The file on disk is part of the state: its size, header, tables and objects.  The other members are
  those of the object in memory.
\<close>

definition O_ACCMODE :: nat where "O_ACCMODE = 3"
definition O_RDONLY :: nat where "O_RDONLY = 0"
definition O_RDWR :: nat where "O_RDWR = 2"
definition O_CREAT :: nat where "O_CREAT = 64"

definition endswith :: "string \<Rightarrow> string \<Rightarrow> bool" where
  "endswith s pf =
     (let sl = length s; pl = length pf in
      if pl = 0 then True
      else if sl < pl then False
      else if drop (sl - pl) s \<noteq> pf then False else True)"

text \<open>Closing marks a file that is online as offline, whatever the reason for closing it.\<close>

definition journal_file_close :: "journal_file \<Rightarrow> journal_file" where
  "journal_file_close f = (case journal_file_set_offline f of Some (_, f') \<Rightarrow> f'\<lparr>fd_ok := False\<rparr> | None \<Rightarrow> f)"

definition zero_metrics :: journal_metrics where
  "zero_metrics = \<lparr>max_size = 0, min_size = 0, max_use = 0, min_use = 0, keep_free = 0\<rparr>"

definition open_alloc :: "open_env \<Rightarrow> nat \<Rightarrow> bool \<Rightarrow> journal_file \<Rightarrow> journal_file" where
  "open_alloc OE flags compress f =
     f\<lparr>fd_ok := False, writable := (flags AND O_ACCMODE) \<noteq> O_RDONLY,
       compress_xz := (\<not> oe_have_lz4 OE \<and> oe_have_xz OE \<and> compress), compress_lz4 := (oe_have_lz4 OE \<and> compress),
       tail_entry_monotonic_valid := False, st_size := 0, metrics := zero_metrics, chain_cache := []\<rparr>"

definition open_stat :: "env \<Rightarrow> unit jm" where
  "open_stat E = (\<lambda>f. case env_fstat E of Some e \<Rightarrow> Some (Inl e, f) | None \<Rightarrow> Some (Inr (), f\<lparr>st_size := file_size f\<rparr>))"

definition open_steps ::
  "env \<Rightarrow> open_env \<Rightarrow> journal_metrics option \<Rightarrow> journal_file option \<Rightarrow> unit jm" where
  "open_steps E OE mtr template =
     thenE (case oe_open OE of Some e \<Rightarrow> failE e | None \<Rightarrow> returnE ())
     (thenE (open_stat E)
     (bindE (getE (\<lambda>f. st_size f = 0 \<and> writable f)) (\<lambda>newly_created.
      thenE (if newly_created then thenE (journal_file_init_header OE template) (open_stat E) else returnE ())
      (bindE (getE st_size) (\<lambda>sz.
       thenE (guardE (\<not> sz < HEADER_SIZE_MIN) EIO)
       (thenE (case oe_map_header OE of Some e \<Rightarrow> failE e | None \<Rightarrow> modifyE (\<lambda>f. f\<lparr>fd_ok := True\<rparr>))
       (thenE (if \<not> newly_created then journal_file_verify_header OE else returnE ())
       (bindE (getE writable) (\<lambda>w.
        thenE (if w then
                 thenE (modifyE (\<lambda>f. case mtr of
                           Some m \<Rightarrow> f\<lparr>metrics := journal_default_metrics E OE m\<rparr>
                         | None \<Rightarrow> (case template of Some t \<Rightarrow> f\<lparr>metrics := metrics t\<rparr> | None \<Rightarrow> f)))
                 (journal_file_refresh_header OE)
               else returnE ())
        (thenE (if newly_created then
                  thenE (journal_file_setup_field_hash_table E) (journal_file_setup_data_hash_table E)
                else returnE ())
        (thenE (journal_file_map_field_hash_table E) (journal_file_map_data_hash_table E))))))))))))"

definition journal_file_open ::
  "env \<Rightarrow> open_env \<Rightarrow> string \<Rightarrow> nat \<Rightarrow> bool \<Rightarrow> journal_metrics option \<Rightarrow> journal_file option \<Rightarrow> unit jm" where
  "journal_file_open E OE fname flags compress mtr template = (\<lambda>f.
     if (flags AND O_ACCMODE) \<noteq> O_RDONLY \<and> (flags AND O_ACCMODE) \<noteq> O_RDWR then Some (Inl EINVAL, f)
     else if \<not> endswith fname ''.journal'' \<and> \<not> endswith fname ''.journal~'' then Some (Inl EINVAL, f)
     else
       case open_steps E OE mtr template (open_alloc OE flags compress f) of
         None \<Rightarrow> None
       | Some (Inl e, f') \<Rightarrow> Some (Inl e, journal_file_close f')
       | Some (Inr u, f') \<Rightarrow> Some (Inr u, f'))"

text \<open>
  The file that takes the place of the renamed one is \<open>fresh\<close>.  The results are those of the call, the
  old file and the new one.
\<close>

definition journal_file_rotate ::
  "env \<Rightarrow> open_env \<Rightarrow> string \<Rightarrow> nat \<Rightarrow> errno option \<Rightarrow> bool \<Rightarrow> journal_file \<Rightarrow> journal_file \<Rightarrow>
   (unit res \<times> journal_file \<times> journal_file) option" where
  "journal_file_rotate E OE path flags rename_result compress old_file fresh =
     (if \<not> writable old_file then Some (Inl EINVAL, old_file, fresh)
      else if \<not> endswith path ''.journal'' then Some (Inl EINVAL, old_file, fresh)
      else
        case rename_result of
          Some e \<Rightarrow> Some (Inl e, old_file, fresh)
        | None \<Rightarrow>
            let old_file = set_state STATE_ARCHIVED old_file in
            case journal_file_open E OE path flags compress None (Some old_file) fresh of
              None \<Rightarrow> None
            | Some (r, new_file) \<Rightarrow> Some (r, journal_file_close old_file, new_file))"

definition journal_file_open_reliably ::
  "env \<Rightarrow> open_env \<Rightarrow> string \<Rightarrow> nat \<Rightarrow> errno option \<Rightarrow> bool \<Rightarrow> journal_metrics option \<Rightarrow> journal_file option \<Rightarrow>
   journal_file \<Rightarrow> journal_file \<Rightarrow> (unit res \<times> journal_file \<times> journal_file) option" where
  "journal_file_open_reliably E OE fname flags rename_result compress mtr template f fresh =
     (case journal_file_open E OE fname flags compress mtr template f of
        None \<Rightarrow> None
      | Some (Inr u, f') \<Rightarrow> Some (Inr u, f', fresh)
      | Some (Inl e, f') \<Rightarrow>
          if e \<noteq> EBADMSG \<and> e \<noteq> ENODATA \<and> e \<noteq> EHOSTDOWN \<and> e \<noteq> EPROTONOSUPPORT \<and> e \<noteq> EBUSY \<and> e \<noteq> ESHUTDOWN
          then Some (Inl e, f', fresh)
          else if (flags AND O_ACCMODE) = O_RDONLY then Some (Inl e, f', fresh)
          else if flags AND O_CREAT = 0 then Some (Inl e, f', fresh)
          else if \<not> endswith fname ''.journal'' then Some (Inl e, f', fresh)
          else
            case rename_result of
              Some e \<Rightarrow> Some (Inl e, f', fresh)
            | None \<Rightarrow>
                (case journal_file_open E OE fname flags compress mtr template fresh of
                   None \<Rightarrow> None
                 | Some (r, new_file) \<Rightarrow> Some (r, f', new_file)))"

section \<open>Time range and rotation\<close>

text \<open>The arguments say which of the two ends are asked for.\<close>

definition journal_file_get_cutoff_realtime_usec :: "journal_file \<Rightarrow> bool \<Rightarrow> bool \<Rightarrow> (nat option \<times> nat option) res" where
  "journal_file_get_cutoff_realtime_usec f from to =
     (if from \<and> head_entry_realtime (header f) = 0 then Inl ENOENT
      else if to \<and> tail_entry_realtime (header f) = 0 then Inl ENOENT
      else Inr (if from then Some (head_entry_realtime (header f)) else None,
                if to then Some (tail_entry_realtime (header f)) else None))"

definition journal_file_get_cutoff_monotonic_usec ::
  "env \<Rightarrow> bytes \<Rightarrow> bool \<Rightarrow> bool \<Rightarrow> (nat option \<times> nat option) option jm" where
  "journal_file_get_cutoff_monotonic_usec E bid from to =
     bindE (find_data_object_by_boot_id E bid) (\<lambda>r.
     case r of
       None \<Rightarrow> returnE None
     | Some p \<Rightarrow>
         bindE (getE (\<lambda>f. data_of (object_at f p))) (\<lambda>d.
         if d_n_entries d \<le> 0 then returnE None
         else
           bindE (if from then
                    bindE (journal_file_move_to_object E (Some OBJECT_ENTRY) (d_entry_offset d)) (\<lambda>ob.
                    returnE (Some (e_monotonic (entry_of ob))))
                  else returnE None) (\<lambda>a.
           if to then
             bindE (journal_file_move_to_object E (Some OBJECT_DATA) p) (\<lambda>dob.
             bindE (generic_array_get_plus_one E (d_entry_offset (data_of dob)) (d_entry_array_offset (data_of dob))
                      (d_n_entries (data_of dob) - 1)) (\<lambda>r.
             case r of
               None \<Rightarrow> returnE None
             | Some q \<Rightarrow>
                 bindE (getE (\<lambda>f. entry_of (object_at f q))) (\<lambda>e.
                 returnE (Some (a, Some (e_monotonic e))))))
           else returnE (Some (a, None)))))"

definition journal_file_rotate_suggested :: "open_env \<Rightarrow> nat \<Rightarrow> journal_file \<Rightarrow> bool" where
  "journal_file_rotate_suggested OE max_file_usec f =
     (let h = header f in
      if header_size h < sizeof_Header then True
      else if header_contains_n_data h \<and>
              mul64 (n_data h) 4 > mul64 (data_hash_table_size h div sizeof_HashItem) 3 then True
      else if header_contains_n_fields h \<and>
              mul64 (n_fields h) 4 > mul64 (field_hash_table_size h div sizeof_HashItem) 3 then True
      else if header_contains_n_data h \<and> header_contains_n_fields h \<and> n_data h > 0 \<and> n_fields h = 0 then True
      else if max_file_usec > 0 \<and> head_entry_realtime h > 0 \<and>
              oe_now OE > add64 (head_entry_realtime h) max_file_usec then True
      else False)"

lemma bind_basic [simp]:
  "bindE (getE g) k s = k (g s) s" "bindE (returnE x) k s = k x s"
  "thenE (modifyE u) m s = m (u s)" "thenE (returnE x) m s = m s"
  by (simp_all add: thenE_def em_defs)

section \<open>Limits are sane\<close>

lemma PAGE_ALIGN_below: "PAGE_ALIGN E x < two64"
proof -
  have "unat (y :: u64) < two64" for y using unsigned_less [of y] by (simp add: two64_def)
  then show ?thesis unfolding PAGE_ALIGN_def ALIGN_TO_def .
qed


section \<open>Opening\<close>

definition open_ok :: "env \<Rightarrow> open_env \<Rightarrow> bool" where
  "open_ok E OE \<longleftrightarrow> env_ok E \<and> mmap_ok E \<and> env_fstat E = None \<and> oe_open OE = None \<and> oe_map_header OE = None \<and>
     oe_boot_id OE \<noteq> None"

definition write_name :: "string \<Rightarrow> nat \<Rightarrow> bool" where
  "write_name fname flags \<longleftrightarrow> flags AND O_ACCMODE = O_RDWR \<and> (endswith fname ''.journal'' \<or> endswith fname ''.journal~'')"

lemma open_write:
  assumes "write_name fname flags"
  shows "journal_file_open E OE fname flags compress mtr template f =
    (case open_steps E OE mtr template (open_alloc OE flags compress f) of
         None \<Rightarrow> None
       | Some (Inl e, f') \<Rightarrow> Some (Inl e, journal_file_close f')
       | Some (Inr u, f') \<Rightarrow> Some (Inr u, f'))"
  using assms by (auto simp: journal_file_open_def write_name_def)

definition header_valid :: "open_env \<Rightarrow> header \<Rightarrow> nat \<Rightarrow> bool" where
  "header_valid OE h sz \<longleftrightarrow>
     signature h = HEADER_SIGNATURE \<and>
     (of_nat (incompatible_flags h) AND NOT (of_nat (HEADER_INCOMPATIBLE_SUPPORTED OE)) :: u32) = 0 \<and>
     compatible_flags h = 0 \<and> state h < STATE_MAX \<and> HEADER_SIZE_MIN \<le> header_size h \<and>
     header_contains_n_entry_arrays h \<and> add64 (header_size h) (arena_size h) \<le> sz \<and>
     tail_object_offset h \<le> add64 (header_size h) (arena_size h) \<and>
     VALID64 (data_hash_table_offset h) \<and> VALID64 (field_hash_table_offset h) \<and>
     VALID64 (tail_object_offset h) \<and> VALID64 (entry_array_offset h)"

definition verified :: "journal_file \<Rightarrow> journal_file" where
  "verified f = f\<lparr>compress_xz := JOURNAL_HEADER_COMPRESSED_XZ (header f),
     compress_lz4 := JOURNAL_HEADER_COMPRESSED_LZ4 (header f)\<rparr>"

lemma verify_header_run:
  assumes "header_valid OE (header f) (st_size f)" "writable f"
  shows "journal_file_verify_header OE f =
    (if state (header f) = STATE_ONLINE then Some (Inl EBUSY, f)
     else if state (header f) = STATE_ARCHIVED then Some (Inl ESHUTDOWN, f)
     else Some (Inr (), verified f))"
  using assms unfolding journal_file_verify_header_def header_valid_def
  by (auto simp: Let_def verified_def state_defs)

lemma mod_and_accmode: "flags AND O_ACCMODE = O_RDWR \<Longrightarrow> (flags AND O_ACCMODE \<noteq> O_RDONLY)"
  by (simp add: O_RDWR_def O_RDONLY_def)

text \<open>What an existing file goes through when it is opened for writing.\<close>

definition open_tail :: "env \<Rightarrow> open_env \<Rightarrow> journal_metrics option \<Rightarrow> journal_file option \<Rightarrow> unit jm" where
  "open_tail E OE mtr template =
     thenE (thenE (modifyE (\<lambda>f. case mtr of
               Some m \<Rightarrow> f\<lparr>metrics := journal_default_metrics E OE m\<rparr>
             | None \<Rightarrow> (case template of Some t \<Rightarrow> f\<lparr>metrics := metrics t\<rparr> | None \<Rightarrow> f)))
       (journal_file_refresh_header OE))
     (thenE (journal_file_map_field_hash_table E) (journal_file_map_data_hash_table E))"

definition opened :: "open_env \<Rightarrow> nat \<Rightarrow> bool \<Rightarrow> journal_file \<Rightarrow> journal_file" where
  "opened OE flags compress f = (open_alloc OE flags compress f)\<lparr>fd_ok := True, st_size := file_size f\<rparr>"

lemma opened_simps [simp]:
  "header (opened OE flags compress f) = header f" "store (opened OE flags compress f) = store f"
  "st_size (opened OE flags compress f) = file_size f" "fd_ok (opened OE flags compress f)"
  "flags AND O_ACCMODE = O_RDWR \<Longrightarrow> writable (opened OE flags compress f)"
  by (simp_all add: opened_def open_alloc_def O_RDWR_def O_RDONLY_def)

lemma open_existing:
  assumes ok: "open_ok E OE" and nm: "write_name fname flags" and sz: "HEADER_SIZE_MIN \<le> file_size f" "0 < file_size f"
    and v: "header_valid OE (header f) (file_size f)"
  shows "journal_file_open E OE fname flags compress mtr template f =
    (if state (header f) = STATE_ONLINE then Some (Inl EBUSY, journal_file_close (opened OE flags compress f))
     else if state (header f) = STATE_ARCHIVED then Some (Inl ESHUTDOWN, journal_file_close (opened OE flags compress f))
     else case open_tail E OE mtr template (verified (opened OE flags compress f)) of
         None \<Rightarrow> None
       | Some (Inl e, f') \<Rightarrow> Some (Inl e, journal_file_close f')
       | Some (Inr u, f') \<Rightarrow> Some (Inr u, f'))"
proof -
  let ?f = "open_alloc OE flags compress f" and ?g = "opened OE flags compress f"
  from ok have o: "oe_open OE = None" "env_fstat E = None" "oe_map_header OE = None" by (auto simp: open_ok_def)
  have w: "writable ?f" using nm by (simp add: open_alloc_def write_name_def O_RDWR_def O_RDONLY_def)
  have fs: "file_size ?f = file_size f" "?f\<lparr>st_size := file_size f, fd_ok := True\<rparr> = ?g"
    by (simp_all add: open_alloc_def opened_def)
  have wg: "writable ?g" using nm by (simp add: write_name_def)
  have vg: "journal_file_verify_header OE ?g =
    (if state (header f) = STATE_ONLINE then Some (Inl EBUSY, ?g)
     else if state (header f) = STATE_ARCHIVED then Some (Inl ESHUTDOWN, ?g)
     else Some (Inr (), verified ?g))"
    using verify_header_run [of OE ?g] v wg by simp
  have wv: "writable (verified ?g)" using wg by (simp add: verified_def)
  have steps: "open_steps E OE mtr template ?f =
      thenE (journal_file_verify_header OE)
        (bindE (getE writable) (\<lambda>w.
           thenE (if w then
                 thenE (modifyE (\<lambda>f. case mtr of
                           Some m \<Rightarrow> f\<lparr>metrics := journal_default_metrics E OE m\<rparr>
                         | None \<Rightarrow> (case template of Some t \<Rightarrow> f\<lparr>metrics := metrics t\<rparr> | None \<Rightarrow> f)))
                 (journal_file_refresh_header OE)
               else returnE ())
           (thenE (returnE ())
           (thenE (journal_file_map_field_hash_table E) (journal_file_map_data_hash_table E))))) ?g"
    unfolding open_steps_def using o sz w fs by (simp add: open_stat_def)
  have "open_steps E OE mtr template ?f =
    (if state (header f) = STATE_ONLINE then Some (Inl EBUSY, ?g)
     else if state (header f) = STATE_ARCHIVED then Some (Inl ESHUTDOWN, ?g)
     else open_tail E OE mtr template (verified ?g))"
  proof (cases "state (header f) = STATE_ONLINE \<or> state (header f) = STATE_ARCHIVED")
    case True
    then show ?thesis unfolding steps using vg by (auto simp: thenE_def bindE_def)
  next
    case False
    then have "journal_file_verify_header OE ?g = Some (Inr (), verified ?g)" using vg by simp
    then show ?thesis unfolding steps open_tail_def using False wv by (simp add: thenE_def bindE_def)
  qed
  then show ?thesis unfolding open_write [OF nm] by simp
qed

lemma close_opened:
  assumes "state (header f) = STATE_ONLINE" "flags AND O_ACCMODE = O_RDWR"
  shows "header (journal_file_close (opened OE flags compress f)) = (header f)\<lparr>state := STATE_OFFLINE\<rparr>"
    "store (journal_file_close (opened OE flags compress f)) = store f"
    "file_size (journal_file_close (opened OE flags compress f)) = file_size f"
proof -
  have "journal_file_set_offline (opened OE flags compress f) = Some (Inr (), set_state STATE_OFFLINE (opened OE flags compress f))"
    using assms by (simp add: journal_file_set_offline_def)
  then show "header (journal_file_close (opened OE flags compress f)) = (header f)\<lparr>state := STATE_OFFLINE\<rparr>"
    "store (journal_file_close (opened OE flags compress f)) = store f"
    "file_size (journal_file_close (opened OE flags compress f)) = file_size f"
    by (simp_all add: journal_file_close_def set_state_def) (simp add: opened_def open_alloc_def)
qed

lemma header_valid_offline: "header_valid OE h sz \<Longrightarrow> header_valid OE (h\<lparr>state := STATE_OFFLINE\<rparr>) sz"
  by (simp add: header_valid_def state_defs header_contains_defs)

lemma move_to_errors:
  assumes "mmap_ok E" "journal_file_move_to E p n f = Some (Inl e, f')"
  shows "e = EINVAL \<or> e = EADDRNOTAVAIL"
  using assms by (auto simp: journal_file_move_to_def mmap_ok_def Let_def split: if_splits option.splits)

lemma open_tail_result:
  assumes "open_ok E OE"
  shows "\<exists>r g. open_tail E OE mtr template f = Some (r, g) \<and> (\<forall>e. r = Inl e \<longrightarrow> e = EINVAL \<or> e = EADDRNOTAVAIL)"
proof -
  from assms obtain bid where b: "oe_boot_id OE = Some bid" and mm: "mmap_ok E" by (auto simp: open_ok_def)
  obtain f1 where r: "thenE (modifyE (\<lambda>f. case mtr of
               Some m \<Rightarrow> f\<lparr>metrics := journal_default_metrics E OE m\<rparr>
             | None \<Rightarrow> (case template of Some t \<Rightarrow> f\<lparr>metrics := metrics t\<rparr> | None \<Rightarrow> f)))
       (journal_file_refresh_header OE) f = Some (Inr (), f1)"
  proof -
    have "\<exists>g'. ignoreE journal_file_set_online g = Some (Inr (), g')" for g
      by (simp add: ignoreE_def journal_file_set_online_def)
    then obtain h where "ignoreE journal_file_set_online g = Some (Inr (), h g)" for g by metis
    then show thesis using that by (simp add: journal_file_refresh_header_def b)
  qed
  have none: "journal_file_map_field_hash_table E g \<noteq> None" "journal_file_map_data_hash_table E g \<noteq> None" for g
    by (auto simp: journal_file_map_field_hash_table_def journal_file_map_data_hash_table_def move_to_returns)
  have err: "e = EINVAL \<or> e = EADDRNOTAVAIL"
    if "journal_file_map_field_hash_table E g = Some (Inl e, g') \<or> journal_file_map_data_hash_table E g = Some (Inl e, g')" for e g g'
    using that
    by (auto simp: journal_file_map_field_hash_table_def journal_file_map_data_hash_table_def dest: move_to_errors [OF mm])
  have "open_tail E OE mtr template f = thenE (journal_file_map_field_hash_table E) (journal_file_map_data_hash_table E) f1"
    unfolding open_tail_def using r by simp
  moreover have "thenE (journal_file_map_field_hash_table E) (journal_file_map_data_hash_table E) f1 \<noteq> None"
    using none by (simp add: em_None)
  moreover have "e = EINVAL \<or> e = EADDRNOTAVAIL"
    if "thenE (journal_file_map_field_hash_table E) (journal_file_map_data_hash_table E) f1 = Some (Inl e, g)" for e g
    using that err by (auto simp: em_Inl)
  ultimately show ?thesis by auto
qed

text \<open>
  C38: Opening a file for writing that was not closed properly is refused with \<open>EBUSY\<close>; but the refused
  file is closed, which marks it as offline, so that a second attempt takes it for a clean one.
\<close>

theorem open_unclean_marks_offline:
  assumes "open_ok E OE" and "write_name fname flags" and "HEADER_SIZE_MIN \<le> file_size f"
    and "header_valid OE (header f) (file_size f)" and "state (header f) = STATE_ONLINE"
  shows "\<exists>f'. journal_file_open E OE fname flags compress mtr template f = Some (Inl EBUSY, f') \<and>
    header f' = (header f)\<lparr>state := STATE_OFFLINE\<rparr> \<and> store f' = store f \<and>
    (\<exists>r f''. journal_file_open E OE fname flags compress mtr template f' = Some (r, f'') \<and> r \<noteq> Inl EBUSY)"
proof -
  have sz: "0 < file_size f" using assms(3) by (simp add: HEADER_SIZE_MIN_def ALIGN64_def)
  let ?f = "journal_file_close (opened OE flags compress f)"
  have fl: "flags AND O_ACCMODE = O_RDWR" using assms(2) by (simp add: write_name_def)
  note c = close_opened [OF assms(5) fl, of OE compress]
  have "journal_file_open E OE fname flags compress mtr template f = Some (Inl EBUSY, ?f)"
    using open_existing [OF assms(1-3) sz assms(4)] assms(5) by simp
  moreover have "\<exists>r f''. journal_file_open E OE fname flags compress mtr template ?f = Some (r, f'') \<and> r \<noteq> Inl EBUSY"
  proof -
    obtain r g where t: "open_tail E OE mtr template (verified (opened OE flags compress ?f)) = Some (r, g)"
      "\<forall>e. r = Inl e \<longrightarrow> e = EINVAL \<or> e = EADDRNOTAVAIL" using open_tail_result [OF assms(1)] by blast
    have "header_valid OE (header ?f) (file_size ?f)" using header_valid_offline [OF assms(4)] by (simp add: c)
    note v = this
    have "state (header ?f) \<noteq> STATE_ONLINE" "state (header ?f) \<noteq> STATE_ARCHIVED" by (simp_all add: c state_defs)
    then have "journal_file_open E OE fname flags compress mtr template ?f =
        Some (r, case r of Inl e \<Rightarrow> journal_file_close g | Inr _ \<Rightarrow> g)"
      using open_existing [OF assms(1,2) _ _ v, of compress mtr template] assms(3) sz t(1) by (cases r) (simp_all add: c)
    then show ?thesis using t(2) by auto
  qed
  ultimately show ?thesis using c by blast
qed

end
