(* ===== verification/File_Create.thy ===== *)
theory File_Create
  imports File_Open
begin

text \<open>
  New journal files: when the limits leave room for the hash tables and the disk has the space, opening
  an empty file for writing writes the header, allocates and zeroes both tables, and leaves a sound
  file without entries.  Rotation and opening reliably rest on this.
\<close>

section \<open>Room for an object\<close>

text \<open>System calls that succeed: space can be had up to the largest file offset.\<close>

definition space_ok :: "env \<Rightarrow> bool" where
  "space_ok E \<longleftrightarrow> env_fstat E = None \<and> (\<forall>pos len. pos + len < 2 ^ 63 \<longrightarrow> env_fallocate E pos len = None)"

lemma next_offset_value:
  assumes lay: "layout f" and mm: "mmap_ok E"
  shows "(if tail_object_offset (header f) = 0 then getE (\<lambda>f. header_size (header f))
       else bindE (journal_file_move_to_object E None (tail_object_offset (header f)))
         (\<lambda>tail. returnE (add64 (tail_object_offset (header f)) (ALIGN64 (o_size tail))))) f =
     Some (Inr (append_position f), f)"
proof (cases "tail_object_offset (header f) = 0")
  case True
  then show ?thesis by (simp add: append_position_def)
next
  case False
  let ?t = "tail_object_offset (header f)"
  from False layout_tail(2) [OF lay] obtain tob where tob: "store f ?t = Some tob" by blast
  have mv: "journal_file_move_to_object E None ?t f = Some (Inr tob, f)"
    by (rule move_to_object_stored [OF lay mm tob]) simp
  note l = layoutD [OF lay tob] and b = layout_bounds [OF lay] and ap = append_position_facts [OF lay]
  have "ALIGN64 (o_size tob) = (o_size tob + 7) div 8 * 8"
    using l(5) b(3) by (intro ALIGN64_eq) (simp add: two64_def)
  moreover have "?t + (o_size tob + 7) div 8 * 8 = append_position f"
    using False tob by (simp add: append_position_def object_at_def)
  ultimately show ?thesis using False mv ap(3) by (simp add: add64_def two64_def)
qed

lemma allocate_succeeds:
  assumes ok: "env_ok E" and sp: "space_ok E" and lay: "layout f" and lim: "limited f"
    and p: "p \<le> 2 ^ 63" and n: "n \<le> 2 ^ 62" and big: "\<not> allocate_too_big E f (allocate_needed E p n f)"
  shows "\<exists>f'. journal_file_allocate E p n f = Some (Inr (), f')"
proof (cases "allocate_needed E p n f \<le> arena_end f")
  case True
  then show ?thesis by (simp add: journal_file_allocate_def)
next
  case False
  let ?n = "allocate_needed E p n f" and ?r = "allocate_rounded f (allocate_needed E p n f)"
  have m: "?n \<le> max_size (metrics f)" "max_size (metrics f) \<le> 2 ^ 60"
    using big lim by (auto simp: allocate_too_big_def limited_def)
  let ?b = "(?n + FILE_SIZE_INCREASE - 1) div FILE_SIZE_INCREASE * FILE_SIZE_INCREASE"
  have b: "?n \<le> ?b" by (rule round_up_block) (simp add: FILE_SIZE_INCREASE_def)
  have "?b < ?n + FILE_SIZE_INCREASE" by (rule round_up_block) (simp add: FILE_SIZE_INCREASE_def)
  then have "?b < two64" using m by (simp add: FILE_SIZE_INCREASE_def two64_def)
  moreover have a: "add64 ?n FILE_SIZE_INCREASE = ?n + FILE_SIZE_INCREASE"
    using m by (simp add: add64_def two64_def FILE_SIZE_INCREASE_def)
  moreover have "sub64 (?n + FILE_SIZE_INCREASE) 1 = ?n + FILE_SIZE_INCREASE - 1"
    using m by (intro sub64_eq) (simp_all add: two64_def FILE_SIZE_INCREASE_def)
  ultimately have e: "mul64 (sub64 (add64 ?n FILE_SIZE_INCREASE) 1 div FILE_SIZE_INCREASE) FILE_SIZE_INCREASE = ?b"
    by (simp add: mul64_def del: One_nat_def)
  have r: "?n \<le> ?r" "?r \<le> 2 ^ 60"
    using b m lim unfolding allocate_rounded_def e Let_def limited_def by auto
  have ae: "arena_end f < two64" using layout_bounds(3) [OF lay] by (simp add: arena_end_def add64_def two64_def)
  have "sub64 ?r (arena_end f) = ?r - arena_end f" using False r ae by (intro sub64_eq) (auto simp: two64_def)
  then have "env_fallocate E (arena_end f) (sub64 ?r (arena_end f)) = None"
    using sp r False unfolding space_ok_def by (elim conjE allE [of _ "arena_end f"] allE [of _ "?r - arena_end f"]) auto
  then show ?thesis using False big sp by (simp add: journal_file_allocate_def Let_def space_ok_def)
qed

lemma append_object_succeeds:
  assumes ok: "env_ok E" "mmap_ok E" "space_ok E" and lay: "layout f" and lim: "limited f"
    and on: "writable f" "fd_ok f" "state (header f) = STATE_ONLINE" and n: "0 < n" "n \<le> 2 ^ 62"
    and fr: "object_ok (fresh_object ty n)"
    and big: "\<not> allocate_too_big E f (allocate_needed E (append_position f) n f)"
  shows "\<exists>g. journal_file_append_object E ty n f =
      Some (Inr (append_position f), appended (append_position f) (fresh_object ty n) g) \<and> grown f g \<and>
    state (header g) = STATE_ONLINE \<and> layout (appended (append_position f) (fresh_object ty n) g)"
proof -
  let ?p = "append_position f"
  note ap = append_position_facts [OF lay]
  obtain g where al: "journal_file_allocate E ?p n f = Some (Inr (), g)"
    using allocate_succeeds [OF ok(1,3) lay lim ap(3) n(2) big] by blast
  note g = allocate_run(2) [OF ok(1) lay ap(3) n(2) al] allocate_run(3) [OF ok(1) lay ap(3) n(2) al refl]
  have mv: "journal_file_move_to E ?p n g = Some (Inr (), g)"
    using ok(2) n g(2) layout_bounds(4) [OF g(1)] by (subst move_to_in_arena [OF g(1)]) (auto simp: mmap_ok_def)
  have run: "journal_file_append_object E ty n f = Some (Inr ?p, appended ?p (fresh_object ty n) g)"
    unfolding journal_file_append_object_def using on next_offset_value [OF lay ok(2)] al mv
    by (simp add: journal_file_set_online_def appended_def fresh_object_def add_tail_def [abs_def])
  have gr: "grown f g" using allocate_run(1) [OF ok(1) lay ap(3) n(2) al] g(1) by (simp add: grown_def)
  have st: "state (header g) = STATE_ONLINE"
    using al on(3) by (auto simp: journal_file_allocate_def Let_def split: if_splits option.splits)
  have "layout (appended ?p (fresh_object ty n) g)"
    unfolding appended_def using append_position_same [of f g] gr fr g
    by (intro layout_append) (auto simp: grown_def fresh_object_def)
  with run gr st show ?thesis by blast
qed


section \<open>The tables of a new file\<close>

lemma needed_below:
  assumes ok: "env_ok E" and pg: "env_page_size E \<le> 2 ^ 16" and lay: "layout f" and s: "p + n \<le> 2 ^ 61"
    and hs: "header_size (header f) \<le> p"
  shows "allocate_needed E p n f \<le> p + n + 2 ^ 16"
proof -
  from ok obtain k where k: "k < 32" "env_page_size E = 2 ^ k" by (auto simp: env_ok_def)
  have a: "add64 p n = p + n" using s by (simp add: add64_def two64_def)
  have "PAGE_ALIGN E (p + n) = (p + n + 2 ^ k - 1) div 2 ^ k * 2 ^ k"
    unfolding PAGE_ALIGN_def k(2) using k s pg by (intro ALIGN_TO_eq [OF refl]) (auto simp: two64_def)
  also have "\<dots> < p + n + 2 ^ k" by (rule round_up_block) simp
  finally show ?thesis unfolding allocate_needed_def a Let_def using hs k pg by auto
qed

definition room_ok :: "env \<Rightarrow> journal_file \<Rightarrow> bool" where
  "room_ok E f \<longleftrightarrow> env_page_size E \<le> 2 ^ 16 \<and> limited f \<and> JOURNAL_FILE_SIZE_MIN \<le> max_size (metrics f) \<and>
     (keep_free (metrics f) = 0 \<or> env_statvfs E = None)"

lemma room_not_big:
  assumes "env_ok E" and r: "room_ok E f" and "layout f" "header_size (header f) \<le> p"
    and "p + n + 2 ^ 16 \<le> max_size (metrics f)"
  shows "\<not> allocate_too_big E f (allocate_needed E p n f)"
proof -
  have "p + n \<le> 2 ^ 61" using assms(5) r by (auto simp: room_ok_def limited_def)
  then have "allocate_needed E p n f \<le> p + n + 2 ^ 16"
    using needed_below [OF assms(1) _ assms(3) _ assms(4)] r by (simp add: room_ok_def)
  then show ?thesis using assms(5) r by (auto simp: allocate_too_big_def room_ok_def)
qed

lemma data_table_size:
  assumes "limited f" "JOURNAL_FILE_SIZE_MIN \<le> max_size (metrics f)"
  shows "data_hash_table_bytes f \<le> max_size (metrics f) div 32" "DEFAULT_DATA_HASH_TABLE_SIZE \<le> data_hash_table_bytes f"
    "data_hash_table_bytes f mod 16 = 0"
proof -
  let ?m = "max_size (metrics f)"
  have m: "4194304 \<le> ?m" "?m \<le> 2 ^ 60" using assms by (auto simp: JOURNAL_FILE_SIZE_MIN_def limited_def)
  have "mul64 ?m 4 = ?m * 4" using m by (simp add: mul64_def two64_def)
  moreover have "?m * 4 div 768 div 3 * 16 \<le> ?m div 32"
  proof -
    have "?m * 4 div 768 div 3 = ?m div 576" by (simp add: div_mult2_eq [symmetric])
    moreover have "?m div 576 * 16 \<le> ?m div 32"
    proof -
      have "?m div 576 = ?m div 32 div 18" by (simp add: div_mult2_eq [symmetric])
      then show ?thesis using div_times_less_eq_dividend [of "?m div 32" 18] by linarith
    qed
    ultimately show ?thesis by simp
  qed
  moreover have "?m * 4 div 768 div 3 * 16 < two64" using m calculation(2) by (simp add: two64_def)
  ultimately have s: "mul64 (mul64 ?m 4 div 768 div 3) sizeof_HashItem = ?m * 4 div 768 div 3 * 16"
    by (simp add: mul64_def sizeof_defs)
  show "data_hash_table_bytes f \<le> ?m div 32" "DEFAULT_DATA_HASH_TABLE_SIZE \<le> data_hash_table_bytes f"
    "data_hash_table_bytes f mod 16 = 0"
    unfolding data_hash_table_bytes_def s Let_def using \<open>?m * 4 div 768 div 3 * 16 \<le> ?m div 32\<close> m
    by (auto simp: DEFAULT_DATA_HASH_TABLE_SIZE_def sizeof_defs)
qed

text \<open>A file that has just got its header.\<close>

definition blank :: "env \<Rightarrow> journal_file \<Rightarrow> bool" where
  "blank E f \<longleftrightarrow> layout f \<and> store f = Map.empty \<and> room_ok E f \<and> writable f \<and> fd_ok f \<and>
     state (header f) = STATE_ONLINE \<and> header_size (header f) = 240 \<and> n_data (header f) = 0 \<and>
     n_fields (header f) = 0 \<and> n_entries (header f) = 0 \<and> entry_array_offset (header f) = 0"

definition field_table_set :: "nat \<Rightarrow> journal_file \<Rightarrow> journal_file" where
  "field_table_set p f = upd_header (\<lambda>h. h\<lparr>field_hash_table_offset := add64 p sizeof_HashTableObject,
       field_hash_table_size := DEFAULT_FIELD_HASH_TABLE_SIZE\<rparr>)
     (f\<lparr>field_hash_table := replicate (DEFAULT_FIELD_HASH_TABLE_SIZE div sizeof_HashItem) zero_hash_item\<rparr>)"

definition data_table_set :: "nat \<Rightarrow> nat \<Rightarrow> journal_file \<Rightarrow> journal_file" where
  "data_table_set s p f = upd_header (\<lambda>h. h\<lparr>data_hash_table_offset := add64 p sizeof_HashTableObject,
       data_hash_table_size := s\<rparr>)
     (f\<lparr>data_hash_table := replicate (s div sizeof_HashItem) zero_hash_item\<rparr>)"

lemma table_set_simps [simp]:
  "store (field_table_set p f) = store f" "store (data_table_set s p f) = store f"
  "metrics (field_table_set p f) = metrics f" "metrics (data_table_set s p f) = metrics f"
  "writable (field_table_set p f) = writable f" "writable (data_table_set s p f) = writable f"
  "fd_ok (field_table_set p f) = fd_ok f" "fd_ok (data_table_set s p f) = fd_ok f"
  "header (field_table_set p f) = (header f)\<lparr>field_hash_table_offset := add64 p sizeof_HashTableObject,
     field_hash_table_size := DEFAULT_FIELD_HASH_TABLE_SIZE\<rparr>"
  "header (data_table_set s p f) = (header f)\<lparr>data_hash_table_offset := add64 p sizeof_HashTableObject,
     data_hash_table_size := s\<rparr>"
  "field_hash_table (field_table_set p f) = replicate 333 zero_hash_item"
  "field_hash_table (data_table_set s p f) = field_hash_table f"
  "data_hash_table (data_table_set s p f) = replicate (s div 16) zero_hash_item"
  by (simp_all add: field_table_set_def data_table_set_def upd_header_def DEFAULT_FIELD_HASH_TABLE_SIZE_def sizeof_defs)

lemma field_table_layout [simp]: "layout (field_table_set p f) = layout f"
  by (rule layout_cong) (simp_all add: erased_def fun_eq_iff field_table_set_def upd_header_def)

lemma data_table_layout [simp]: "layout (data_table_set s p f) = layout f"
  by (rule layout_cong) (simp_all add: erased_def fun_eq_iff data_table_set_def upd_header_def)

lemma grown_same:
  assumes "grown f g"
  shows "store g = store f" "layout g" "metrics g = metrics f" "writable g = writable f" "fd_ok g = fd_ok f"
    "append_position g = append_position f"
    "(header g)\<lparr>state := 0, arena_size := 0\<rparr> = (header f)\<lparr>state := 0, arena_size := 0\<rparr>"
  using assms same_content_fields [of f g] append_position_same [of f g] by (auto simp: grown_def)

lemma setup_tables:
  assumes env: "env_ok E" "mmap_ok E" "space_ok E" and b: "blank E f"
  shows "\<exists>g1 g2. let s = data_hash_table_bytes f;
      f1 = field_table_set 240 (appended 240 (fresh_object OBJECT_FIELD_HASH_TABLE 5344) g1);
      f2 = data_table_set s 5584 (appended 5584 (fresh_object OBJECT_DATA_HASH_TABLE (16 + s)) g2) in
    thenE (journal_file_setup_field_hash_table E) (journal_file_setup_data_hash_table E) f = Some (Inr (), f2) \<and>
    grown f g1 \<and> layout f1 \<and> grown f1 g2 \<and> layout f2 \<and> state (header g2) = STATE_ONLINE"
proof -
  have lay: "layout f" and st: "store f = Map.empty" and r: "room_ok E f" and on: "writable f" "fd_ok f" "state (header f) = STATE_ONLINE"
    and hs: "header_size (header f) = 240" using b by (auto simp: blank_def)
  have lim: "limited f" and m: "4194304 \<le> max_size (metrics f)" using r by (auto simp: room_ok_def JOURNAL_FILE_SIZE_MIN_def)
  define s where "s = data_hash_table_bytes f"
  have s: "s \<le> max_size (metrics f) div 32" "32752 \<le> s" "s \<le> 2 ^ 56"
    using data_table_size [OF lim] m lim
    by (auto simp: s_def JOURNAL_FILE_SIZE_MIN_def DEFAULT_DATA_HASH_TABLE_SIZE_def sizeof_defs limited_def)
  have p1: "append_position f = 240" using layout_tail(1) [OF lay] st hs by (simp add: append_position_def)
  have fr: "object_ok (fresh_object OBJECT_FIELD_HASH_TABLE 5344)" "object_ok (fresh_object OBJECT_DATA_HASH_TABLE (16 + s))"
    by (simp_all add: object_ok_def fresh_object_def sizeof_defs)
  have "\<not> allocate_too_big E f (allocate_needed E 240 5344 f)"
    using m hs by (intro room_not_big [OF env(1) r lay]) auto
  then obtain g1 where g1: "journal_file_append_object E OBJECT_FIELD_HASH_TABLE 5344 f =
      Some (Inr 240, appended 240 (fresh_object OBJECT_FIELD_HASH_TABLE 5344) g1)" "grown f g1" "state (header g1) = STATE_ONLINE"
      "layout (appended 240 (fresh_object OBJECT_FIELD_HASH_TABLE 5344) g1)"
    using append_object_succeeds [OF env lay lim on _ _ fr(1)] unfolding p1 by auto
  note sg = grown_same [OF g1(2)]
  let ?f1 = "field_table_set 240 (appended 240 (fresh_object OBJECT_FIELD_HASH_TABLE 5344) g1)"
  have m1: "metrics ?f1 = metrics f" by (simp add: sg appended_def upd_header_def put_object_def)
  have r1: "room_ok E ?f1" "limited ?f1" using r lim unfolding room_ok_def limited_def m1 by auto
  have hs1: "header_size (header ?f1) = 240" using sg(7) hs by (cases "header g1"; cases "header f") (simp add: add_tail_def)
  have on1: "writable ?f1" "fd_ok ?f1" "state (header ?f1) = STATE_ONLINE"
    using g1(3) on sg by (simp_all add: appended_def upd_header_def put_object_def add_tail_def)
  have lay1: "layout ?f1" using g1(4) by simp
  have p2: "append_position ?f1 = 5584"
    by (simp add: append_position_def add_tail_def object_at_def fresh_object_def)
  have s1: "data_hash_table_bytes ?f1 = s" unfolding s_def data_hash_table_bytes_def m1 ..
  have "\<not> allocate_too_big E ?f1 (allocate_needed E 5584 (16 + s) ?f1)"
    using m hs1 s by (intro room_not_big [OF env(1) r1(1) lay1]) (unfold m1 hs1, auto)
  then obtain g2 where g2: "journal_file_append_object E OBJECT_DATA_HASH_TABLE (16 + s) ?f1 =
      Some (Inr 5584, appended 5584 (fresh_object OBJECT_DATA_HASH_TABLE (16 + s)) g2)" "grown ?f1 g2" "state (header g2) = STATE_ONLINE"
      "layout (appended 5584 (fresh_object OBJECT_DATA_HASH_TABLE (16 + s)) g2)"
    using append_object_succeeds [OF env lay1 r1(2) on1 _ _ fr(2)] s(3) unfolding p2 by auto
  have a: "add64 sizeof_HashTableObject DEFAULT_FIELD_HASH_TABLE_SIZE = 5344" "add64 sizeof_HashTableObject s = 16 + s"
    using s(3) by (simp_all add: add64_def two64_def sizeof_defs DEFAULT_FIELD_HASH_TABLE_SIZE_def)
  have "journal_file_setup_field_hash_table E f = Some (Inr (), ?f1)"
    unfolding journal_file_setup_field_hash_table_def Let_def a using g1(1) by (simp add: field_table_set_def)
  moreover have "journal_file_setup_data_hash_table E ?f1 =
      Some (Inr (), data_table_set s 5584 (appended 5584 (fresh_object OBJECT_DATA_HASH_TABLE (16 + s)) g2))"
    unfolding journal_file_setup_data_hash_table_def using g2(1) s1 a(2) by (simp add: data_table_set_def)
  ultimately show ?thesis
    unfolding Let_def s_def [symmetric] using g1(2) g2 lay1 by (intro exI [of _ g1] exI [of _ g2]) simp
qed

definition head_core :: "header \<Rightarrow> header" where
  "head_core h = h\<lparr>state := 0, arena_size := 0, tail_object_offset := 0, n_objects := 0,
     data_hash_table_offset := 0, data_hash_table_size := 0, field_hash_table_offset := 0, field_hash_table_size := 0\<rparr>"

lemma head_core_fields:
  assumes "head_core h = head_core k"
  shows "signature h = signature k" "compatible_flags h = compatible_flags k" "incompatible_flags h = incompatible_flags k"
    "header_size h = header_size k" "n_entries h = n_entries k" "tail_entry_seqnum h = tail_entry_seqnum k"
    "head_entry_seqnum h = head_entry_seqnum k" "entry_array_offset h = entry_array_offset k" "n_data h = n_data k"
    "n_fields h = n_fields k" "seqnum_id h = seqnum_id k" "boot_id h = boot_id k" "file_id h = file_id k"
  using assms by (cases h; cases k; simp add: head_core_def)+

lemma head_core_simps [simp]:
  "head_core (add_tail p h) = head_core h"
  "head_core (h\<lparr>field_hash_table_offset := x, field_hash_table_size := y\<rparr>) = head_core h"
  "head_core (h\<lparr>data_hash_table_offset := x, data_hash_table_size := y\<rparr>) = head_core h"
  "head_core (h\<lparr>state := n\<rparr>) = head_core h"
  by (simp_all add: head_core_def add_tail_def)

lemma head_core_grown: "grown f g \<Longrightarrow> head_core (header g) = head_core (header f)"
  using grown_same(7) [of f g] by (cases "header f"; cases "header g") (simp add: head_core_def)

lemma grown_tables:
  assumes "grown f g"
  shows "field_hash_table g = field_hash_table f"
    "field_hash_table_size (header g) = field_hash_table_size (header f)"
    "field_hash_table_offset (header g) = field_hash_table_offset (header f)"
proof -
  show "field_hash_table g = field_hash_table f" using assms by (simp add: grown_def same_content_simps)
  show "field_hash_table_size (header g) = field_hash_table_size (header f)"
    "field_hash_table_offset (header g) = field_hash_table_offset (header f)"
    using grown_same(7) [OF assms] by (cases "header f"; cases "header g"; simp)+
qed

text \<open>A file with nothing but its two hash tables.\<close>

definition empty_journal :: "env \<Rightarrow> journal_file \<Rightarrow> bool" where
  "empty_journal E f \<longleftrightarrow> file_ok E f \<and> entry_lists f (\<lambda>_. []) \<and> ordered f (\<lambda>_. [])"

lemma empty_tables: "0 < n \<Longrightarrow> table_ok (replicate n zero_hash_item) Map.empty Map.empty"
  unfolding table_ok_def buckets_ok_def
  by (intro exI [of _ "\<lambda>_. []"]) (simp add: zero_hash_item_def)

lemma empty_maps:
  "data_next Map.empty = Map.empty" "data_hashes Map.empty = Map.empty"
  "field_next Map.empty = Map.empty" "field_hashes Map.empty = Map.empty"
  by (auto simp: data_next_def data_hashes_def field_next_def field_hashes_def)

lemma setup_tables_sound:
  assumes env: "env_ok E" "mmap_ok E" "space_ok E" and b: "blank E f"
  shows "\<exists>f'. thenE (journal_file_setup_field_hash_table E) (journal_file_setup_data_hash_table E) f = Some (Inr (), f') \<and>
    empty_journal E f' \<and> head_core (header f') = head_core (header f) \<and> state (header f') = STATE_ONLINE \<and>
    metrics f' = metrics f \<and> writable f' \<and> fd_ok f' \<and>
    field_hash_table_offset (header f') = 256 \<and> field_hash_table_size (header f') = 5328 \<and>
    data_hash_table_offset (header f') = 5600 \<and> 0 < data_hash_table_size (header f') \<and> tail_object_offset (header f') = 5584 \<and>
    5600 + data_hash_table_size (header f') \<le> header_size (header f') + arena_size (header f')"
proof -
  define s where "s = data_hash_table_bytes f"
  from setup_tables [OF assms] obtain g1 g2 where
    run: "thenE (journal_file_setup_field_hash_table E) (journal_file_setup_data_hash_table E) f =
      Some (Inr (), data_table_set s 5584 (appended 5584 (fresh_object OBJECT_DATA_HASH_TABLE (16 + s)) g2))"
    and g1: "grown f g1" and lay1: "layout (field_table_set 240 (appended 240 (fresh_object OBJECT_FIELD_HASH_TABLE 5344) g1))"
    and g2: "grown (field_table_set 240 (appended 240 (fresh_object OBJECT_FIELD_HASH_TABLE 5344) g1)) g2"
    and lay2: "layout (data_table_set s 5584 (appended 5584 (fresh_object OBJECT_DATA_HASH_TABLE (16 + s)) g2))"
    and on: "state (header g2) = STATE_ONLINE"
    unfolding Let_def s_def by blast
  let ?f1 = "field_table_set 240 (appended 240 (fresh_object OBJECT_FIELD_HASH_TABLE 5344) g1)"
  let ?f2 = "data_table_set s 5584 (appended 5584 (fresh_object OBJECT_DATA_HASH_TABLE (16 + s)) g2)"
  have bl: "limited f" "JOURNAL_FILE_SIZE_MIN \<le> max_size (metrics f)" "store f = Map.empty" "writable f" "fd_ok f"
    "header_size (header f) = 240" "n_data (header f) = 0" "n_fields (header f) = 0" "n_entries (header f) = 0"
    "entry_array_offset (header f) = 0"
    using b by (auto simp: blank_def room_ok_def)
  have s: "32752 \<le> s" "s mod 16 = 0" "s \<le> 2 ^ 56"
    using data_table_size [OF bl(1,2)] bl(1)
    by (auto simp: s_def DEFAULT_DATA_HASH_TABLE_SIZE_def sizeof_defs limited_def)
  have core: "head_core (header ?f2) = head_core (header f)"
    using head_core_grown [OF g1] head_core_grown [OF g2] by simp
  note h = head_core_fields [OF core]
  have st: "store ?f2 = [240 \<mapsto> fresh_object OBJECT_FIELD_HASH_TABLE 5344, 5584 \<mapsto> fresh_object OBJECT_DATA_HASH_TABLE (16 + s)]"
    by (simp add: grown_same(1) [OF g2] grown_same(1) [OF g1] bl(3))
  have maps: "data_map ?f2 = Map.empty" "field_map ?f2 = Map.empty" "array_map ?f2 = Map.empty" "entry_map ?f2 = Map.empty"
    unfolding data_map_def field_map_def array_map_def entry_map_def fun_eq_iff st by (simp_all add: fresh_object_def)
  have er: "o_type ob \<noteq> OBJECT_DATA \<and> o_type ob \<noteq> OBJECT_FIELD" if "erased ?f2 p = Some ob" for p ob
    using that unfolding erased_def st by (auto simp: fresh_object_def erase_def split: if_splits)
  have ft: "field_hash_table ?f2 = replicate 333 zero_hash_item" "field_hash_table_size (header ?f2) = 5328"
    "field_hash_table_offset (header ?f2) = 256"
    using grown_tables [OF g2]
    by (simp_all add: DEFAULT_FIELD_HASH_TABLE_SIZE_def sizeof_defs add_tail_def add64_def two64_def)
  have "data_index ?f2 (data_map ?f2)"
    unfolding data_index_def maps empty_maps using s empty_tables [of "s div 16"] h(4,9) bl
    by (auto simp: sizeof_defs header_contains_defs)
  moreover have "field_index ?f2 (field_map ?f2)"
    unfolding field_index_def maps empty_maps ft using empty_tables [of 333] h(4,10) bl
    by (simp add: sizeof_defs header_contains_defs)
  moreover have "data_wf E (erased ?f2)" "field_wf (erased ?f2)"
    using er unfolding data_wf_def field_wf_def by blast+
  ultimately have ok: "file_ok E ?f2" using lay2 by (simp add: file_ok_def)
  have v: "first_of ?f2 w = 0" "cnt_of ?f2 w = 0" "extra_of ?f2 w = []" for w
    by (cases w; simp only: first_of.simps cnt_of.simps extra_of.simps maps h(5,8) bl(9,10) option.case)+
  then have "lists_ok (array_map ?f2) (first_of ?f2) (cnt_of ?f2) (\<lambda>_. [])" by (simp add: lists_ok_def)
  then have el: "entry_lists ?f2 (\<lambda>_. [])"
    unfolding entry_lists_def using v by (intro conjI exI [of _ "\<lambda>_. []"]) (auto simp: elist_def)
  have fit: "5584 + (16 + s) \<le> header_size (header ?f2) + arena_size (header ?f2)"
    using layoutD(5) [OF lay2, of 5584 "fresh_object OBJECT_DATA_HASH_TABLE (16 + s)"] unfolding st by (simp add: fresh_object_def)
  have dt: "data_hash_table_offset (header ?f2) = 5600" "data_hash_table_size (header ?f2) = s" "tail_object_offset (header ?f2) = 5584"
    by (simp_all add: add64_def two64_def sizeof_defs add_tail_def)
  have rest: "metrics ?f2 = metrics f" "writable ?f2" "fd_ok ?f2" "state (header ?f2) = STATE_ONLINE"
    using grown_same [OF g1] grown_same [OF g2] bl(4,5) on by (simp_all add: appended_def upd_header_def put_object_def add_tail_def)
  have "empty_journal E ?f2" using ok el by (simp add: empty_journal_def ordered_def)
  with run core ft(2,3) dt rest fit s show ?thesis by (intro exI [of _ ?f2]) simp
qed

section \<open>New files\<close>

definition chosen_metrics :: "env \<Rightarrow> open_env \<Rightarrow> journal_metrics option \<Rightarrow> journal_file option \<Rightarrow> journal_metrics" where
  "chosen_metrics E OE mtr template =
     (case mtr of
        Some m \<Rightarrow> journal_default_metrics E OE m
      | None \<Rightarrow> (case template of Some t \<Rightarrow> metrics t | None \<Rightarrow> zero_metrics))"

text \<open>The limits leave room for the tables, and the disk has the space.\<close>

definition limits_ok :: "env \<Rightarrow> journal_metrics \<Rightarrow> bool" where
  "limits_ok E M \<longleftrightarrow> JOURNAL_FILE_SIZE_MIN \<le> max_size M \<and> max_size M \<le> 2 ^ 60 \<and> env_page_size E \<le> 2 ^ 16 \<and>
     (keep_free M = 0 \<or> env_statvfs E = None)"

definition created ::
  "env \<Rightarrow> open_env \<Rightarrow> nat \<Rightarrow> bool \<Rightarrow> journal_metrics \<Rightarrow> journal_file option \<Rightarrow> bytes \<Rightarrow> journal_file \<Rightarrow> journal_file" where
  "created E OE flags compress M template bid f =
     (let g = open_alloc OE flags compress f in
      g\<lparr>header := (new_header OE template g)\<lparr>boot_id := bid, state := STATE_ONLINE\<rparr>, file_size := 240, st_size := 240,
        fd_ok := True, metrics := M, tail_entry_monotonic_valid := uuid_equal bid (replicate 16 0)\<rparr>)"

lemma align_header: "ALIGN64 240 = 240" "HEADER_SIZE_MIN = 208"
  by (simp_all add: ALIGN64_def HEADER_SIZE_MIN_def)

lemma new_header_fields [simp]:
  "header_size (new_header OE t g) = 240" "arena_size (new_header OE t g) = 0" "tail_object_offset (new_header OE t g) = 0"
  "n_objects (new_header OE t g) = 0" "n_data (new_header OE t g) = 0" "n_fields (new_header OE t g) = 0"
  "n_entries (new_header OE t g) = 0" "entry_array_offset (new_header OE t g) = 0" "state (new_header OE t g) = 0"
  "boot_id (new_header OE t g) = replicate 16 0" "signature (new_header OE t g) = HEADER_SIGNATURE"
  "compatible_flags (new_header OE t g) = 0"
  "tail_entry_seqnum (new_header OE t g) = (case t of None \<Rightarrow> 0 | Some f \<Rightarrow> tail_entry_seqnum (header f))"
  "incompatible_flags (new_header OE t g) = (if compress_xz g then 1 else 0) OR (if compress_lz4 g then 2 else 0)"
  by (cases t; simp add: new_header_def zero_header_def Let_def sizeof_defs align_header
      HEADER_INCOMPATIBLE_COMPRESSED_XZ_def HEADER_INCOMPATIBLE_COMPRESSED_LZ4_def)+

lemma created_blank:
  assumes "limits_ok E M" "store f = Map.empty" "flags AND O_ACCMODE = O_RDWR"
  shows "blank E (created E OE flags compress M template bid f)"
proof -
  let ?c = "created E OE flags compress M template bid f"
  have v: "store ?c = Map.empty" "metrics ?c = M" "writable ?c" "fd_ok ?c" "st_size ?c = 240" "file_size ?c = 240"
    "state (header ?c) = STATE_ONLINE" "header_size (header ?c) = 240" "arena_size (header ?c) = 0"
    "tail_object_offset (header ?c) = 0" "n_objects (header ?c) = 0" "n_data (header ?c) = 0" "n_fields (header ?c) = 0"
    "n_entries (header ?c) = 0" "entry_array_offset (header ?c) = 0"
    using assms(2,3) by (simp_all add: created_def Let_def open_alloc_def O_RDWR_def O_RDONLY_def)
  have "layout ?c" unfolding layout_def Let_def v by (simp add: sizeof_defs)
  moreover have "room_ok E ?c" unfolding room_ok_def limited_def v
    using assms(1) by (auto simp: limits_ok_def JOURNAL_FILE_SIZE_MIN_def)
  ultimately show ?thesis unfolding blank_def using v by simp
qed

lemma open_new_steps:
  assumes ok: "open_ok E OE" "oe_boot_id OE = Some bid" "oe_pwrite OE = Inr 240" and f: "file_size f = 0"
    and fl: "flags AND O_ACCMODE = O_RDWR"
  shows "open_steps E OE mtr template (open_alloc OE flags compress f) =
    thenE (thenE (journal_file_setup_field_hash_table E) (journal_file_setup_data_hash_table E))
      (thenE (journal_file_map_field_hash_table E) (journal_file_map_data_hash_table E))
      (created E OE flags compress (chosen_metrics E OE mtr template) template bid f)"
proof -
  from ok have o: "oe_open OE = None" "env_fstat E = None" "oe_map_header OE = None" by (auto simp: open_ok_def)
  let ?a = "open_alloc OE flags compress f"
  have w: "writable ?a" "file_size ?a = 0" "metrics ?a = zero_metrics" "tail_entry_monotonic_valid ?a = False"
    using fl f by (simp_all add: open_alloc_def O_RDWR_def O_RDONLY_def)
  let ?b = "?a\<lparr>header := new_header OE template ?a, file_size := 240, st_size := 240, fd_ok := True\<rparr>"
  let ?m = "?b\<lparr>metrics := chosen_metrics E OE mtr template\<rparr>"
  have init: "thenE (journal_file_init_header OE template) (open_stat E) (?a\<lparr>st_size := 0\<rparr>) =
      Some (Inr (), ?a\<lparr>header := new_header OE template ?a, file_size := 240, st_size := 240\<rparr>)"
    using o ok(3) by (simp add: journal_file_init_header_def open_stat_def sizeof_defs new_header_def Let_def)
  have set: "(case mtr of Some m \<Rightarrow> ?b\<lparr>metrics := journal_default_metrics E OE m\<rparr>
       | None \<Rightarrow> (case template of Some t \<Rightarrow> ?b\<lparr>metrics := metrics t\<rparr> | None \<Rightarrow> ?b)) = ?m"
    using w(3) by (auto simp: chosen_metrics_def split: option.split)
  have refresh: "journal_file_refresh_header OE ?m =
      Some (Inr (), created E OE flags compress (chosen_metrics E OE mtr template) template bid f)"
    using ok(2) w by (auto simp: journal_file_refresh_header_def created_def Let_def upd_header_def ignoreE_def
        journal_file_set_online_def state_defs set_state_def)
  have wb: "writable ?b" using w(1) by simp
  show ?thesis
    unfolding open_steps_def using o w init set refresh wb
    by (simp add: open_stat_def align_header)
qed

lemma map_tables:
  assumes "layout f" "mmap_ok E" "0 < field_hash_table_size (header f)" "0 < data_hash_table_size (header f)"
    and "field_hash_table_offset (header f) + field_hash_table_size (header f) \<le> header_size (header f) + arena_size (header f)"
    and "data_hash_table_offset (header f) + data_hash_table_size (header f) \<le> header_size (header f) + arena_size (header f)"
  shows "thenE (journal_file_map_field_hash_table E) (journal_file_map_data_hash_table E) f = Some (Inr (), f)"
proof -
  have "journal_file_map_field_hash_table E f = Some (Inr (), f)" "journal_file_map_data_hash_table E f = Some (Inr (), f)"
    using assms move_to_in_arena [OF assms(1)]
    by (auto simp: journal_file_map_field_hash_table_def journal_file_map_data_hash_table_def mmap_ok_def)
  then show ?thesis by simp
qed

lemma open_new_run:
  assumes ok: "open_ok E OE" "space_ok E" "oe_pwrite OE = Inr 240" and f: "file_size f = 0" "store f = Map.empty"
    and nm: "write_name fname flags" and lim: "limits_ok E (chosen_metrics E OE mtr template)"
  shows "\<exists>f' bid. oe_boot_id OE = Some bid \<and>
    journal_file_open E OE fname flags compress mtr template f = Some (Inr (), f') \<and>
    empty_journal E f' \<and> state (header f') = STATE_ONLINE \<and> writable f' \<and> fd_ok f' \<and>
    metrics f' = chosen_metrics E OE mtr template \<and>
    head_core (header f') = head_core ((new_header OE template (open_alloc OE flags compress f))\<lparr>boot_id := bid\<rparr>) \<and>
    field_hash_table_offset (header f') = 256 \<and> field_hash_table_size (header f') = 5328 \<and>
    data_hash_table_offset (header f') = 5600 \<and> 0 < data_hash_table_size (header f') \<and> tail_object_offset (header f') = 5584 \<and>
    5600 + data_hash_table_size (header f') \<le> header_size (header f') + arena_size (header f')"
proof -
  from ok(1) obtain bid where bid: "oe_boot_id OE = Some bid" and env: "env_ok E" "mmap_ok E" by (auto simp: open_ok_def)
  have fl: "flags AND O_ACCMODE = O_RDWR" using nm by (simp add: write_name_def)
  let ?c = "created E OE flags compress (chosen_metrics E OE mtr template) template bid f"
  have b: "blank E ?c" by (rule created_blank [OF lim f(2) fl])
  obtain f' where f': "thenE (journal_file_setup_field_hash_table E) (journal_file_setup_data_hash_table E) ?c = Some (Inr (), f')"
    "empty_journal E f'" "head_core (header f') = head_core (header ?c)" "state (header f') = STATE_ONLINE"
    "metrics f' = metrics ?c" "writable f'" "fd_ok f'"
    "field_hash_table_offset (header f') = 256" "field_hash_table_size (header f') = 5328"
    "data_hash_table_offset (header f') = 5600" "0 < data_hash_table_size (header f')" "tail_object_offset (header f') = 5584"
    "5600 + data_hash_table_size (header f') \<le> header_size (header f') + arena_size (header f')"
    using setup_tables_sound [OF env ok(2) b] by blast
  have "layout f'" using f'(2) file_okD(1) by (auto simp: empty_journal_def)
  then have "thenE (journal_file_map_field_hash_table E) (journal_file_map_data_hash_table E) f' = Some (Inr (), f')"
    using f' env by (intro map_tables) simp_all
  then have "journal_file_open E OE fname flags compress mtr template f = Some (Inr (), f')"
    unfolding open_write [OF nm] open_new_steps [OF ok(1) bid ok(3) f(1) fl] using f'(1) by simp
  moreover have "metrics ?c = chosen_metrics E OE mtr template"
    "head_core (header ?c) = head_core ((new_header OE template (open_alloc OE flags compress f))\<lparr>boot_id := bid\<rparr>)"
    by (simp_all add: created_def Let_def)
  ultimately show ?thesis using f' bid by metis
qed

lemma flags_supported:
  assumes "oe_have_lz4 OE \<or> \<not> l" "oe_have_xz OE \<or> \<not> x"
  shows "(of_nat ((if x then 1 else 0) OR (if l then 2 else 0)) AND NOT (of_nat (HEADER_INCOMPATIBLE_SUPPORTED OE)) :: u32) = 0"
  using assms by (cases "oe_have_xz OE"; cases "oe_have_lz4 OE"; cases x; cases l)
    (simp_all add: HEADER_INCOMPATIBLE_SUPPORTED_def HEADER_INCOMPATIBLE_COMPRESSED_XZ_def HEADER_INCOMPATIBLE_COMPRESSED_LZ4_def)

text \<open>
  C34: Opening an empty file for writing succeeds when the system calls do, and makes a sound journal
  file without entries that is online; its first entry continues the sequence numbers of the template.
\<close>

theorem open_new_sound:
  assumes "open_ok E OE" and "space_ok E" and "oe_pwrite OE = Inr 240" and "file_size f = 0" and "store f = Map.empty"
    and "write_name fname flags" and "limits_ok E (chosen_metrics E OE mtr template)"
  shows "\<exists>f'. journal_file_open E OE fname flags compress mtr template f = Some (Inr (), f') \<and>
    file_ok E f' \<and> entry_lists f' (\<lambda>_. []) \<and> ordered f' (\<lambda>_. []) \<and> state (header f') = STATE_ONLINE \<and>
    tail_entry_seqnum (header f') = (case template of None \<Rightarrow> 0 | Some t \<Rightarrow> tail_entry_seqnum (header t)) \<and>
    (\<forall>t. template = Some t \<longrightarrow> seqnum_id (header f') = seqnum_id (header t))"
proof -
  obtain f' bid where f': "journal_file_open E OE fname flags compress mtr template f = Some (Inr (), f')"
    "empty_journal E f'" "state (header f') = STATE_ONLINE"
    and core: "head_core (header f') = head_core ((new_header OE template (open_alloc OE flags compress f))\<lparr>boot_id := bid\<rparr>)"
    using open_new_run [OF assms] by blast
  note h = head_core_fields [OF core]
  have "seqnum_id (header f') = seqnum_id (header t)" if "template = Some t" for t
    using that h(11) by (simp add: new_header_def Let_def)
  with f' h(6) show ?thesis by (auto simp: empty_journal_def)
qed

lemma close_online:
  assumes "state (header f) = STATE_ONLINE" "writable f" "fd_ok f"
  shows "header (journal_file_close f) = (header f)\<lparr>state := STATE_OFFLINE\<rparr>" "store (journal_file_close f) = store f"
    "file_size (journal_file_close f) = file_size f" "data_hash_table (journal_file_close f) = data_hash_table f"
    "field_hash_table (journal_file_close f) = field_hash_table f"
  using assms by (simp_all add: journal_file_close_def journal_file_set_offline_def set_state_def)

text \<open>The rest of opening a file that was made and closed before, with the same environment.\<close>

lemma reopen_tail:
  assumes f': "layout f'" "state (header f') = STATE_ONLINE" "writable f'" "fd_ok f'"
    and mt: "metrics f' = chosen_metrics E OE mtr template" and bid: "oe_boot_id OE = Some bid" "boot_id (header f') = bid"
    and fl: "flags AND O_ACCMODE = O_RDWR" and E: "mmap_ok E"
    and t: "field_hash_table_offset (header f') = 256" "field_hash_table_size (header f') = 5328"
      "data_hash_table_offset (header f') = 5600" "0 < data_hash_table_size (header f')" "tail_object_offset (header f') = 5584"
      "5600 + data_hash_table_size (header f') \<le> header_size (header f') + arena_size (header f')"
  shows "\<exists>f''. open_tail E OE mtr template (verified (opened OE flags compress (journal_file_close f'))) = Some (Inr (), f'') \<and>
    store f'' = store f' \<and> data_hash_table f'' = data_hash_table f' \<and> field_hash_table f'' = field_hash_table f' \<and>
    header f'' = header f'"
proof -
  let ?c = "journal_file_close f'"
  have c: "header ?c = (header f')\<lparr>state := STATE_OFFLINE\<rparr>" "store ?c = store f'" "file_size ?c = file_size f'"
    "data_hash_table ?c = data_hash_table f'" "field_hash_table ?c = field_hash_table f'"
    using f' by (simp_all add: close_online)
  let ?o = "verified (opened OE flags compress ?c)"
  define g where "g = ?o\<lparr>metrics := metrics f', tail_entry_monotonic_valid := True, header := header f'\<rparr>"
  have o: "header ?o = (header f')\<lparr>state := STATE_OFFLINE\<rparr>" "writable ?o" "fd_ok ?o" "metrics ?o = zero_metrics"
    using fl by (simp_all add: verified_def c) (simp add: opened_def open_alloc_def)
  have b: "(header f')\<lparr>boot_id := bid, state := STATE_ONLINE\<rparr> = header f'" using bid(2) f'(2) by (cases "header f'") simp
  have mset: "(case mtr of Some m \<Rightarrow> ?o\<lparr>metrics := journal_default_metrics E OE m\<rparr>
     | None \<Rightarrow> (case template of Some t \<Rightarrow> ?o\<lparr>metrics := metrics t\<rparr> | None \<Rightarrow> ?o)) = ?o\<lparr>metrics := metrics f'\<rparr>"
    using o(4) by (auto simp: mt chosen_metrics_def split: option.split)
  have "uuid_equal bid (boot_id (header f'))" using bid(2) by (simp add: uuid_equal_def)
  then have "thenE (modifyE (\<lambda>f. case mtr of Some m \<Rightarrow> f\<lparr>metrics := journal_default_metrics E OE m\<rparr>
           | None \<Rightarrow> (case template of Some t \<Rightarrow> f\<lparr>metrics := metrics t\<rparr> | None \<Rightarrow> f)))
       (journal_file_refresh_header OE) ?o = Some (Inr (), g)"
    using bid(1) o b by (simp add: mset journal_file_refresh_header_def upd_header_def ignoreE_def journal_file_set_online_def
        set_state_def state_defs g_def)
  moreover have gv: "store g = store f'" "header g = header f'" "metrics g = metrics f'" "st_size g = file_size f'"
    "file_size g = file_size f'" "data_hash_table g = data_hash_table f'" "field_hash_table g = field_hash_table f'"
    by (simp_all add: g_def verified_def c) (simp_all add: opened_def open_alloc_def c)
  moreover have "layout g"
    using f'(1) unfolding layout_def Let_def limited_def gv by auto
  ultimately have "open_tail E OE mtr template ?o = Some (Inr (), g)"
    unfolding open_tail_def using map_tables [of g E] t E by simp
  with gv show ?thesis by blast
qed

text \<open>
  C35: A new file that is closed can be opened for writing again, and still has the same objects and
  header, up to the state and the boot identifier.
\<close>

theorem create_close_reopen:
  assumes "open_ok E OE" and "space_ok E" and "oe_pwrite OE = Inr 240" and "file_size f = 0" and "store f = Map.empty"
    and "write_name fname flags" and "limits_ok E (chosen_metrics E OE mtr template)"
  shows "\<exists>f' f''. journal_file_open E OE fname flags compress mtr template f = Some (Inr (), f') \<and>
    journal_file_open E OE fname flags compress mtr template (journal_file_close f') = Some (Inr (), f'') \<and>
    store f'' = store f' \<and> data_hash_table f'' = data_hash_table f' \<and> field_hash_table f'' = field_hash_table f' \<and>
    header f'' = header f' \<and> state (header (journal_file_close f')) = STATE_OFFLINE"
proof -
  obtain f' bid where bid: "oe_boot_id OE = Some bid" and run: "journal_file_open E OE fname flags compress mtr template f = Some (Inr (), f')"
    and f': "empty_journal E f'" "state (header f') = STATE_ONLINE" "writable f'" "fd_ok f'"
    and mt: "metrics f' = chosen_metrics E OE mtr template"
    and core: "head_core (header f') = head_core ((new_header OE template (open_alloc OE flags compress f))\<lparr>boot_id := bid\<rparr>)"
    and t: "field_hash_table_offset (header f') = 256" "field_hash_table_size (header f') = 5328"
      "data_hash_table_offset (header f') = 5600" "0 < data_hash_table_size (header f')" "tail_object_offset (header f') = 5584"
      "5600 + data_hash_table_size (header f') \<le> header_size (header f') + arena_size (header f')"
    using open_new_run [OF assms] by metis
  have lay: "layout f'" using f'(1) file_okD(1) by (auto simp: empty_journal_def)
  note h = head_core_fields [OF core] and lb = layout_bounds [OF lay]
  let ?c = "journal_file_close f'"
  have c: "header ?c = (header f')\<lparr>state := STATE_OFFLINE\<rparr>" "store ?c = store f'" "file_size ?c = file_size f'"
    "data_hash_table ?c = data_hash_table f'" "field_hash_table ?c = field_hash_table f'"
    using f'(2-4) by (simp_all add: close_online)
  have a: "add64 (header_size (header f')) (arena_size (header f')) = header_size (header f') + arena_size (header f')"
    using lb(3) by (simp add: add64_def two64_def)
  have a': "add64 240 (arena_size (header f')) = 240 + arena_size (header f')" using a h(4) by (simp add: align_header)
  have fl: "flags AND O_ACCMODE = O_RDWR" using assms(6) by (simp add: write_name_def)
  have "header_valid OE (header ?c) (file_size ?c)"
    unfolding header_valid_def c using h lb t flags_supported [of OE "oe_have_lz4 OE \<and> compress" "\<not> oe_have_lz4 OE \<and> oe_have_xz OE \<and> compress"]
    by (simp add: a a' state_defs align_header header_contains_defs VALID64_eq open_alloc_def)
  moreover have sz: "HEADER_SIZE_MIN \<le> file_size ?c" "0 < file_size ?c"
    using lb(1,4,5) by (simp_all add: c align_header sizeof_defs)
  ultimately have op: "journal_file_open E OE fname flags compress mtr template ?c =
    (case open_tail E OE mtr template (verified (opened OE flags compress ?c)) of
         None \<Rightarrow> None
       | Some (Inl e, f') \<Rightarrow> Some (Inl e, journal_file_close f')
       | Some (Inr u, f') \<Rightarrow> Some (Inr u, f'))"
    using open_existing [OF assms(1,6), of ?c compress mtr template] by (simp add: c state_defs)
  have "boot_id (header f') = bid" using h(12) by simp
  from reopen_tail [OF lay f'(2-4) mt bid this fl _ t] assms(1) have "\<exists>f''. open_tail E OE mtr template (verified (opened OE flags compress ?c)) = Some (Inr (), f'') \<and>
    store f'' = store f' \<and> data_hash_table f'' = data_hash_table f' \<and> field_hash_table f'' = field_hash_table f' \<and>
    header f'' = header f'" by (simp add: open_ok_def)
  then show ?thesis using run op c by (auto simp: state_defs)
qed

text \<open>
  C36: Rotating a file whose path ends in \<open>.journal\<close> succeeds when the system calls do: the old file is
  archived with all its objects, and a new one without entries takes over the limits, the identity of
  the sequence and the last sequence number, so that numbering goes on across the two.
\<close>

theorem rotate_correct:
  assumes "open_ok E OE" and "space_ok E" and "oe_pwrite OE = Inr 240" and "file_size fresh = 0" and "store fresh = Map.empty"
    and "write_name path flags" and "endswith path ''.journal''" and "writable old" and "limits_ok E (metrics old)"
  shows "\<exists>old' new. journal_file_rotate E OE path flags None compress old fresh = Some (Inr (), old', new) \<and>
    header old' = (header old)\<lparr>state := STATE_ARCHIVED\<rparr> \<and> store old' = store old \<and>
    file_ok E new \<and> entry_lists new (\<lambda>_. []) \<and> state (header new) = STATE_ONLINE \<and> metrics new = metrics old \<and>
    seqnum_id (header new) = seqnum_id (header old) \<and>
    (\<forall>c. new_seqnum new c = new_seqnum old c)"
proof -
  let ?o = "set_state STATE_ARCHIVED old"
  have m: "chosen_metrics E OE None (Some ?o) = metrics old" by (simp add: chosen_metrics_def set_state_def)
  obtain f' bid where f': "journal_file_open E OE path flags compress None (Some ?o) fresh = Some (Inr (), f')"
    "empty_journal E f'" "state (header f') = STATE_ONLINE" "metrics f' = metrics old"
    and core: "head_core (header f') = head_core ((new_header OE (Some ?o) (open_alloc OE flags compress fresh))\<lparr>boot_id := bid\<rparr>)"
    using open_new_run [OF assms(1-6), where mtr = None and template = "Some ?o" and compress = compress]
    unfolding m using assms(9) by auto
  note h = head_core_fields [OF core]
  have s: "seqnum_id (header f') = seqnum_id (header old)" "tail_entry_seqnum (header f') = tail_entry_seqnum (header old)"
    using h(6,11) by (simp_all add: new_header_def Let_def set_state_def)
  have c: "header (journal_file_close ?o) = (header old)\<lparr>state := STATE_ARCHIVED\<rparr>" "store (journal_file_close ?o) = store old"
    by (simp_all add: journal_file_close_def journal_file_set_offline_def set_state_def state_defs)
  have "journal_file_rotate E OE path flags None compress old fresh = Some (Inr (), journal_file_close ?o, f')"
    using assms(7,8) f'(1) by (simp add: journal_file_rotate_def Let_def)
  moreover have "new_seqnum f' q = new_seqnum old q" for q using s(2) by (cases q) (simp_all add: new_seqnum_def)
  ultimately show ?thesis using f' s(1) c by (auto simp: empty_journal_def)
qed

text \<open>
  C37: With the option to create files, opening a file for writing reliably never fails because the
  file at the path is damaged, truncated, incompatible, not closed properly or archived: it is moved
  aside, unchanged in its objects, and a sound file without entries takes its place.
\<close>

theorem open_reliably_replaces:
  assumes "open_ok E OE" and "space_ok E" and "oe_pwrite OE = Inr 240" and "file_size fresh = 0" and "store fresh = Map.empty"
    and "write_name fname flags" and "endswith fname ''.journal''" and "flags AND O_CREAT \<noteq> 0"
    and "limits_ok E (chosen_metrics E OE mtr template)"
    and "journal_file_open E OE fname flags compress mtr template f = Some (Inl e, f')"
    and "e \<in> {EBADMSG, ENODATA, EHOSTDOWN, EPROTONOSUPPORT, EBUSY, ESHUTDOWN}"
  shows "\<exists>new. journal_file_open_reliably E OE fname flags None compress mtr template f fresh = Some (Inr (), f', new) \<and>
    file_ok E new \<and> entry_lists new (\<lambda>_. []) \<and> state (header new) = STATE_ONLINE"
proof -
  obtain new bid where new: "journal_file_open E OE fname flags compress mtr template fresh = Some (Inr (), new)"
    "empty_journal E new" "state (header new) = STATE_ONLINE"
    using open_new_run [OF assms(1-6,9)] by blast
  have acc: "\<not> flags AND O_ACCMODE = O_RDONLY" using assms(6) by (simp add: write_name_def O_RDWR_def O_RDONLY_def)
  have "journal_file_open_reliably E OE fname flags None compress mtr template f fresh = Some (Inr (), f', new)"
    using new(1) assms(7,8,10,11) acc by (auto simp: journal_file_open_reliably_def)
  with new show ?thesis by (auto simp: empty_journal_def)
qed

text \<open>
  The fill level at which rotation is suggested: a file with a current header, below three
  quarters in both hash tables, whose data is indexed by fields, and younger than the limit, is kept.
\<close>

theorem rotate_suggested_iff:
  assumes "header_size (header f) = sizeof_Header" and "n_data (header f) < 2 ^ 62" and "n_fields (header f) < 2 ^ 62"
    and "data_hash_table_size (header f) < two64" and "field_hash_table_size (header f) < two64"
    and "head_entry_realtime (header f) + max_file_usec < two64"
  shows "journal_file_rotate_suggested OE max_file_usec f \<longleftrightarrow>
    3 * (data_hash_table_size (header f) div 16) < 4 * n_data (header f) \<or>
    3 * (field_hash_table_size (header f) div 16) < 4 * n_fields (header f) \<or>
    (0 < n_data (header f) \<and> n_fields (header f) = 0) \<or>
    (0 < max_file_usec \<and> 0 < head_entry_realtime (header f) \<and>
     head_entry_realtime (header f) + max_file_usec < oe_now OE)"
proof -
  have m: "mul64 (n_data (header f)) 4 = 4 * n_data (header f)" "mul64 (n_fields (header f)) 4 = 4 * n_fields (header f)"
    "mul64 (data_hash_table_size (header f) div 16) 3 = 3 * (data_hash_table_size (header f) div 16)"
    "mul64 (field_hash_table_size (header f) div 16) 3 = 3 * (field_hash_table_size (header f) div 16)"
    "add64 (head_entry_realtime (header f)) max_file_usec = head_entry_realtime (header f) + max_file_usec"
    using assms(2-6) by (auto simp: mul64_def add64_def two64_def)
  have "header_contains_n_data (header f)" "header_contains_n_fields (header f)"
    using assms(1) by (simp_all add: header_contains_defs sizeof_defs)
  then show ?thesis
    unfolding journal_file_rotate_suggested_def Let_def sizeof_HashItem_def m using assms(1) by auto
qed

end
