(* ===== verification/File_Example.thy ===== *)
theory File_Example
  imports Seek_File
begin

text \<open>
  A small file and an environment without failures, to show that the hypotheses of the properties
  can hold: an empty file with one bucket in each hash table, to which entries can be appended.
\<close>

definition demo_env :: env where
  "demo_env = \<lparr>env_page_size = 4096, env_statvfs = None,
     env_fallocate = (\<lambda>pos len. if pos + len < 2 ^ 63 then None else Some ENOSPC),
     env_fstat = None, env_mmap = (\<lambda>_ _. None),
     env_compress = (\<lambda>x. CompressOk OBJECT_COMPRESSED_XZ x),
     env_decompress = (\<lambda>_ x. Some x), env_stale = [], env_ftruncate = None,
     env_decompress_max = (\<lambda>n _ x. Inr (if n = 0 then x else take n x)),
     env_decompress_startswith = (\<lambda>_ x s. Inr (take (length s + 1) x = s @ [0x3d]))\<rparr>"

definition demo_header :: header where
  "demo_header = \<lparr>signature = [], compatible_flags = 0, incompatible_flags = 0, state = STATE_ONLINE,
     file_id = replicate 16 1, machine_id = replicate 16 2, boot_id = replicate 16 3,
     seqnum_id = replicate 16 1, header_size = 240, arena_size = 8388368,
     data_hash_table_offset = 0, data_hash_table_size = 16, field_hash_table_offset = 0,
     field_hash_table_size = 16, tail_object_offset = 0, n_objects = 0, n_entries = 0,
     tail_entry_seqnum = 0, head_entry_seqnum = 0, entry_array_offset = 0, head_entry_realtime = 0,
     tail_entry_realtime = 0, tail_entry_monotonic = 0, n_data = 0, n_fields = 0, n_tags = 0,
     n_entry_arrays = 0\<rparr>"

definition demo_file :: journal_file where
  "demo_file = \<lparr>fd_ok = True, writable = True, compress_xz = False, compress_lz4 = False,
     tail_entry_monotonic_valid = False, st_size = 8388608, file_size = 8388608,
     header = demo_header, data_hash_table = [zero_hash_item], field_hash_table = [zero_hash_item],
     metrics = \<lparr>max_size = 134217728, min_size = 0, max_use = 0, min_use = 0, keep_free = 0\<rparr>,
     chain_cache = [], store = Map.empty\<rparr>"

lemma demo_env_ok: "env_ok demo_env" "mmap_ok demo_env"
proof -
  have "env_page_size demo_env = 2 ^ 12" by (simp add: demo_env_def)
  moreover have "(12 :: nat) < 32" by simp
  ultimately have "\<exists>k<32. env_page_size demo_env = 2 ^ k" by blast
  then show "env_ok demo_env" by (auto simp: env_ok_def demo_env_def)
  show "mmap_ok demo_env" by (simp add: mmap_ok_def demo_env_def)
qed

lemma demo_maps:
  "data_map demo_file = Map.empty" "field_map demo_file = Map.empty" "array_map demo_file = Map.empty"
  "entry_map demo_file = Map.empty" "erased demo_file = Map.empty" "limited demo_file"
  by (auto simp: data_map_def field_map_def array_map_def entry_map_def erased_def demo_file_def limited_def)

lemma demo_table: "table_ok [zero_hash_item] Map.empty Map.empty"
  unfolding table_ok_def buckets_ok_def by (intro exI [of _ "\<lambda>_. []"]) (simp add: zero_hash_item_def)

lemma demo_file_ok: "file_ok demo_env demo_file"
proof -
  have l: "layout demo_file" by (simp add: layout_def demo_file_def demo_header_def sizeof_defs limited_def)
  have m: "data_next Map.empty = Map.empty" "data_hashes Map.empty = Map.empty"
    "field_next Map.empty = Map.empty" "field_hashes Map.empty = Map.empty"
    by (auto simp: data_next_def data_hashes_def field_next_def field_hashes_def)
  have "data_index demo_file Map.empty" "field_index demo_file Map.empty"
    using demo_table by (simp_all add: data_index_def field_index_def m demo_file_def demo_header_def
        sizeof_defs header_contains_defs)
  with l show ?thesis by (simp add: file_ok_def demo_maps data_wf_def field_wf_def)
qed

lemma demo_entry_lists: "entry_lists demo_file (\<lambda>_. [])"
proof -
  have f: "first_of demo_file w = 0" "cnt_of demo_file w = 0" "extra_of demo_file w = []" for w
    by (cases w; simp add: demo_maps; simp add: demo_file_def demo_header_def)+
  then have "lists_ok (array_map demo_file) (first_of demo_file) (cnt_of demo_file) (\<lambda>_. [])"
    by (simp add: lists_ok_def)
  with f show ?thesis unfolding entry_lists_def by (intro conjI exI [of _ "\<lambda>_. []"]) (auto simp: elist_def)
qed

lemmas demo_ok = demo_file_ok demo_entry_lists demo_env_ok demo_maps(6)

theorem find_data_object_correct_witness:
  "\<exists>r. journal_file_find_data_object demo_env [0x61] demo_file = Some (Inr r, demo_file) \<and>
    (case r of None \<Rightarrow> (\<nexists>p. has_data demo_env demo_file p [0x61]) | Some p \<Rightarrow> has_data demo_env demo_file p [0x61])"
  by (rule find_data_object_correct) (simp_all add: demo_ok)

lemma demo_compressible: "compressible demo_env (compress_xz demo_file) x"
  by (simp add: compressible_def demo_file_def)

theorem append_data_interns_witness:
  "\<exists>r f'. journal_file_append_data demo_env [0x61, 0x3d, 0x62] demo_file = Some (r, f') \<and>
    file_ok demo_env f' \<and> extends demo_file f' \<and>
    (case r of
       Inl e \<Rightarrow> True
     | Inr p \<Rightarrow> journal_file_find_data_object demo_env [0x61, 0x3d, 0x62] f' = Some (Inr (Some p), f') \<and>
         journal_file_append_data demo_env [0x61, 0x3d, 0x62] f' = Some (Inr p, f'))"
  by (rule append_data_interns) (simp_all add: demo_ok demo_compressible)


definition demo_ts :: dual_timestamp where
  "demo_ts = \<lparr>realtime = 5, monotonic = 7\<rparr>"

theorem append_entry_correct_witness:
  "\<exists>r f' c' L'. journal_file_append_entry demo_env demo_ts None [[0x61, 0x3d, 0x62]] (demo_file, Some 3) =
      Some (r, (f', c')) \<and>
    file_ok demo_env f' \<and> entry_lists f' L' \<and> (\<forall>p ob. erased demo_file p = Some ob \<longrightarrow> erased f' p = Some ob) \<and>
    (case r of
       Inl _ \<Rightarrow> \<forall>w. prefix ((\<lambda>_. []) w) (L' w)
     | Inr q \<Rightarrow> entry_added demo_env demo_ts [[0x61, 0x3d, 0x62]] (Some 3) demo_file (\<lambda>_. []) q f' L' c' \<and>
         \<not> (tail_entry_monotonic_valid demo_file \<and> monotonic demo_ts < tail_entry_monotonic (header demo_file)))"
  by (rule append_entry_correct) (simp_all add: demo_ok demo_compressible data_adm_def)

text \<open>Appending the data runs through.\<close>

lemma demo_append_data_runs: "\<exists>p f'. journal_file_append_data demo_env [0x61] demo_file = Some (Inr p, f')"
proof -
  have m: "memchr EQUALS [0x61] = None" by (simp add: memchr_def EQUALS_def)
  show ?thesis
    unfolding journal_file_append_data_def m Let_def
    by (simp add: journal_file_find_data_object_with_hash_def find_data_loop.simps demo_file_def demo_header_def
      zero_hash_item_def data_bucket_def sizeof_defs Let_def journal_file_append_object_def journal_file_set_online_def
      state_defs journal_file_allocate_def arena_end_def allocate_needed_def PAGE_ALIGN_def ALIGN_TO_def add64_def two64_def demo_env_def
      journal_file_move_to_def put_object_def upd_header_def upd_object_def on_data_def store_payload_def
      journal_file_link_data_def object_at_def upd_data_table_def header_contains_defs journal_file_move_to_object_def VALID64_def minimum_header_size_def)
qed

section \<open>A file with two entries\<close>

definition seek_entry :: "nat \<Rightarrow> object" where
  "seek_entry n = \<lparr>o_flags = 0, o_size = 64, o_body = EntryBody \<lparr>e_seqnum = n, e_realtime = 10 * n,
     e_monotonic = n, e_boot_id = replicate 16 3, e_xor_hash = 0, e_items = []\<rparr>\<rparr>"

definition seek_array :: "nat list \<Rightarrow> object" where
  "seek_array items = \<lparr>o_flags = 0, o_size = 56,
     o_body = EntryArrayBody \<lparr>ea_next_entry_array_offset = 0, ea_items = items\<rparr>\<rparr>"

definition seek_data :: object where
  "seek_data = \<lparr>o_flags = 0, o_size = 65, o_body = DataBody \<lparr>d_hash = 0, d_next_hash_offset = 0,
     d_next_field_offset = 0, d_entry_offset = 296, d_entry_array_offset = 496, d_n_entries = 2,
     d_payload = [0x61]\<rparr>\<rparr>"

definition seek_file :: journal_file where
  "seek_file = demo_file\<lparr>header := demo_header\<lparr>entry_array_offset := 240, n_entries := 2,
       n_objects := 5, tail_object_offset := 496, tail_entry_seqnum := 2\<rparr>,
     store := [240 \<mapsto> seek_array [296, 360, 0, 0], 296 \<mapsto> seek_entry 1, 360 \<mapsto> seek_entry 2,
       424 \<mapsto> seek_data, 496 \<mapsto> seek_array [360, 0, 0, 0]]\<rparr>"

definition seek_lists :: "owner \<Rightarrow> nat list" where
  "seek_lists w = (if w = Global \<or> w = Of 424 then [296, 360] else [])"

lemma seek_store:
  "store seek_file p =
     (if p = 240 then Some (seek_array [296, 360, 0, 0]) else if p = 296 then Some (seek_entry 1)
      else if p = 360 then Some (seek_entry 2) else if p = 424 then Some seek_data
      else if p = 496 then Some (seek_array [360, 0, 0, 0]) else None)"
  by (simp add: seek_file_def)

lemma seek_dom: "dom (store seek_file) = {240, 296, 360, 424, 496}"
  by (auto simp: seek_file_def)

lemma seek_layout: "layout seek_file"
proof -
  have o: "object_ok (seek_entry n)" "length xs = 4 \<Longrightarrow> object_ok (seek_array xs)" "object_ok seek_data"
    "o_size (seek_entry n) = 64" "o_size (seek_array xs) = 56" "o_size seek_data = 65" for n xs
    by (simp_all add: object_ok_def seek_entry_def seek_array_def seek_data_def sizeof_defs)
  have h: "header_size (header seek_file) = 240" "arena_size (header seek_file) = 8388368"
    "tail_object_offset (header seek_file) = 496" "n_objects (header seek_file) = 5" "st_size seek_file = 8388608"
    "file_size seek_file = 8388608" "limited seek_file"
    by (simp_all add: seek_file_def demo_header_def demo_file_def limited_def)
  have ne: "store seek_file \<noteq> Map.empty" using seek_dom by force
  have d: "p + o_size ob \<le> q" if "store seek_file p = Some ob" "q \<in> {240, 296, 360, 424, 496}" "p < q" for p q ob
    using that by (auto simp: seek_store o split: if_splits)
  show ?thesis unfolding layout_def Let_def h seek_dom using ne d by (auto simp: seek_store o sizeof_defs split: if_splits)
qed

lemma seek_maps:
  "array_map seek_file = [240 \<mapsto> \<lparr>ea_next_entry_array_offset = 0, ea_items = [296, 360, 0, 0]\<rparr>,
     496 \<mapsto> \<lparr>ea_next_entry_array_offset = 0, ea_items = [360, 0, 0, 0]\<rparr>]"
  "dom (entry_map seek_file) = {296, 360}"
  "entry_key e_seqnum seek_file 296 = 1" "entry_key e_seqnum seek_file 360 = 2"
  "entry_key e_realtime seek_file 296 = 10" "entry_key e_realtime seek_file 360 = 20"
  "data_map seek_file p = (if p = 424 then Some (data_of seek_data) else None)"
  by (auto simp: array_map_def entry_map_def entry_key_def data_map_def seek_store seek_array_def seek_entry_def
      seek_data_def data_of_def fun_eq_iff split: if_splits)

lemma seek_file_lists: "entry_lists seek_file seek_lists"
proof -
  let ?A = "\<lambda>w. if w = Global then [240] else if w = Of 424 then [496] else []"
  have f: "first_of seek_file w = (if w = Global then 240 else if w = Of 424 then 496 else 0)"
    "cnt_of seek_file w = (if w = Global then 2 else if w = Of 424 then 1 else 0)"
    "extra_of seek_file w = (if w = Of 424 then [296] else [])" for w
    by (cases w; simp add: seek_maps(7) seek_data_def data_of_def; simp add: seek_file_def)+
  have "lists_ok (array_map seek_file) (first_of seek_file) (cnt_of seek_file) ?A"
    unfolding lists_ok_def f by (auto simp: seek_maps(1) array_next_def items_of_def)
  moreover have "seek_lists w = extra_of seek_file w @ elist (array_map seek_file) (cnt_of seek_file) ?A w" for w
    unfolding elist_def f by (auto simp: seek_lists_def seek_maps(1) items_of_def)
  moreover have "set (seek_lists w) \<subseteq> {296, 360}" for w by (auto simp: seek_lists_def)
  ultimately show ?thesis unfolding entry_lists_def seek_maps(2) by blast
qed

lemma seek_demo_ok: "seek_ok demo_env seek_lists seek_file"
  using seek_layout seek_file_lists demo_env_ok(2) by (simp add: seek_ok_def cache_ok_def seek_file_def demo_file_def)

lemma seek_lists_simps [simp]: "seek_lists Global = [296, 360]" "seek_lists (Of 424) = [296, 360]"
  by (simp_all add: seek_lists_def)

lemma seek_types: "o_type (seek_entry n) = OBJECT_ENTRY" "o_type seek_data = OBJECT_DATA"
  "store seek_file 424 = Some seek_data"
  by (simp_all add: seek_entry_def seek_data_def seek_store)


theorem move_to_entry_by_realtime_correct_witness:
  "\<exists>f'. journal_file_move_to_entry_by_realtime demo_env 15 DIRECTION_DOWN seek_file =
      Some (Inr (if DIRECTION_DOWN = DIRECTION_UP \<and> chain_full seek_file Global \<and>
                   (\<forall>p\<in>set (seek_lists Global). entry_key e_realtime seek_file p \<le> 15)
                 then None else entry_found (entry_key e_realtime seek_file) DIRECTION_DOWN 15 (seek_lists Global)), f') \<and>
    seek_ok demo_env seek_lists f'"
  by (rule move_to_entry_by_realtime_correct) (simp_all add: seek_demo_ok seek_maps)

theorem move_to_entry_by_offset_correct_witness:
  "\<exists>f'. journal_file_move_to_entry_by_offset demo_env 300 DIRECTION_DOWN seek_file =
      Some (Inr (if DIRECTION_DOWN = DIRECTION_UP \<and> chain_full seek_file Global \<and> (\<forall>q\<in>set (seek_lists Global). q \<le> 300)
                 then None else entry_found (\<lambda>q. q) DIRECTION_DOWN 300 (seek_lists Global)), f') \<and>
    seek_ok demo_env seek_lists f'"
  by (rule move_to_entry_by_offset_correct) (simp_all add: seek_demo_ok)


theorem next_entry_correct_witness:
  "(\<exists>f'. journal_file_next_entry demo_env (Some (seek_entry 1)) (seek_lists Global ! 0) DIRECTION_DOWN seek_file =
      Some (Inr (neighbour DIRECTION_DOWN 0 (seek_lists Global)), f') \<and> reading demo_env seek_lists seek_file f') \<and>
    (\<exists>f'. journal_file_next_entry demo_env None 0 DIRECTION_DOWN seek_file =
      Some (Inr (Some (if DIRECTION_DOWN = DIRECTION_DOWN then hd (seek_lists Global) else last (seek_lists Global))), f') \<and>
     reading demo_env seek_lists seek_file f')"
  by (rule next_entry_correct) (simp_all add: seek_demo_ok seek_types)

theorem traverse_complete_witness:
  "\<exists>f'. traverse demo_env DIRECTION_UP 3 None seek_file =
      Some (Inr (if DIRECTION_UP = DIRECTION_DOWN then seek_lists Global else rev (seek_lists Global)), f') \<and>
    reading demo_env seek_lists seek_file f'"
  by (rule traverse_complete) (simp_all add: seek_demo_ok)

theorem skip_entry_correct_witness:
  "\<exists>f'. journal_file_skip_entry demo_env (seek_entry 1) (seek_lists Global ! 0) 7 seek_file =
      Some (Inr (Some (seek_lists Global ! skip_index 0 7 (length (seek_lists Global)))), f') \<and>
    seek_ok demo_env seek_lists f'"
  by (rule skip_entry_correct) (simp_all add: seek_demo_ok seek_types)

theorem next_entry_for_data_correct_witness:
  "(\<exists>f'. journal_file_next_entry_for_data demo_env (Some (seek_entry 2)) (seek_lists (Of 424) ! 1) 424 DIRECTION_UP seek_file =
      Some (Inr (neighbour DIRECTION_UP 1 (seek_lists (Of 424))), f') \<and> seek_ok demo_env seek_lists f') \<and>
    (\<exists>f'. journal_file_next_entry_for_data demo_env None 0 424 DIRECTION_UP seek_file =
      Some (Inr (Some (if DIRECTION_UP = DIRECTION_DOWN then hd (seek_lists (Of 424)) else last (seek_lists (Of 424)))), f') \<and>
     seek_ok demo_env seek_lists f')"
  by (rule next_entry_for_data_correct [where d = seek_data]) (simp_all add: seek_demo_ok seek_types)


section \<open>Appending to the empty file\<close>

lemma demo_append_object:
  "journal_file_append_object demo_env OBJECT_ENTRY 64 demo_file =
     Some (Inr 240, upd_header (add_tail 240) (put_object 240 (fresh_object OBJECT_ENTRY 64) demo_file))"
proof -
  have "append_position demo_file = 240" by (simp add: append_position_def demo_file_def demo_header_def)
  moreover have "PAGE_ALIGN demo_env 304 = 4096" by (simp add: PAGE_ALIGN_def ALIGN_TO_def demo_env_def)
  ultimately show ?thesis
    using append_object_room [of demo_file demo_env 64 OBJECT_ENTRY] file_okD(1) [OF demo_file_ok] demo_env_ok(2)
    by (simp add: demo_file_def demo_header_def state_defs)
qed

definition demo_written :: journal_file where
  "demo_written = upd_object 240 (on_entry (\<lambda>e. e\<lparr>e_seqnum := 1, e_items := [], e_realtime := realtime demo_ts,
     e_monotonic := monotonic demo_ts, e_xor_hash := 0, e_boot_id := boot_id (header (seqnum_set 1
       (upd_header (add_tail 240) (put_object 240 (fresh_object OBJECT_ENTRY 64) demo_file))))\<rparr>))
     (seqnum_set 1 (upd_header (add_tail 240) (put_object 240 (fresh_object OBJECT_ENTRY 64) demo_file)))"

lemma demo_written_views:
  "store demo_written = [240 \<mapsto> \<lparr>o_flags = 0, o_size = 64, o_body = EntryBody \<lparr>e_seqnum = 1, e_realtime = 5,
     e_monotonic = 7, e_boot_id = replicate 16 3, e_xor_hash = 0, e_items = []\<rparr>\<rparr>]"
  "header demo_written = demo_header\<lparr>tail_object_offset := 240, n_objects := 1, tail_entry_seqnum := 1, head_entry_seqnum := 1\<rparr>"
  "writable demo_written" "fd_ok demo_written"
  by (simp_all add: demo_written_def upd_object_def on_entry_def seqnum_set_def upd_header_def add_tail_def put_object_def
      fresh_object_def demo_file_def demo_header_def demo_ts_def add64_def two64_def sizeof_defs fun_eq_iff)

lemma demo_append_array:
  "journal_file_append_object demo_env OBJECT_ENTRY_ARRAY 56 demo_written =
     Some (Inr 304, upd_header (add_tail 304) (put_object 304 (fresh_object OBJECT_ENTRY_ARRAY 56) demo_written))"
proof -
  have "length ([] :: entry_item list) < 2 ^ 57"
    "journal_file_append_object demo_env OBJECT_ENTRY (sizeof_EntryObject + sizeof_EntryItem * length ([] :: entry_item list))
      demo_file = Some (Inr 240, upd_header (add_tail 240) (put_object 240 (fresh_object OBJECT_ENTRY 64) demo_file))"
    using demo_append_object by (simp_all add: sizeof_defs)
  from entry_object_written(1) [OF demo_env_ok demo_file_ok demo_entry_lists demo_maps(6) this, where s = 1 and ts = demo_ts and x = 0]
  have l: "layout demo_written" unfolding demo_written_def by (rule file_okD(1))
  have "append_position demo_written = 304"
    by (simp add: append_position_def demo_written_views object_at_def)
  moreover have "PAGE_ALIGN demo_env 360 = 4096" by (simp add: PAGE_ALIGN_def ALIGN_TO_def demo_env_def)
  ultimately show ?thesis
    using append_object_room [of demo_written demo_env 56 OBJECT_ENTRY_ARRAY] l demo_env_ok(2)
    by (simp add: demo_written_views demo_header_def state_defs)
qed

lemma demo_append_entry_runs:
  "\<exists>q f' c'. journal_file_append_entry demo_env demo_ts None [] (demo_file, None) = Some (Inr q, (f', c'))"
proof -
  have w: "journal_file_append_entry_internal demo_env demo_ts 0 [] (demo_file, None) =
     thenE (on_file (journal_file_link_entry demo_env 240 240)) (returnE 240) (demo_written, None)"
  proof -
    let ?f = "upd_header (add_tail 240) (put_object 240 (fresh_object OBJECT_ENTRY 64) demo_file)"
    have s: "new_seqnum ?f None = 1"
      by (simp add: new_seqnum_def upd_header_def add_tail_def put_object_def demo_file_def demo_header_def add64_def two64_def)
    have z: "add64 sizeof_EntryObject (mul64 (length ([] :: entry_item list)) sizeof_EntryItem) = 64"
      by (simp add: add64_def mul64_def two64_def sizeof_defs)
    show ?thesis
      unfolding journal_file_append_entry_internal_def z Let_def demo_written_def
      by (simp add: demo_append_object on_file_def next_seqnum_run s del: One_nat_def)
  qed
  have t: "tail_entry_monotonic_valid demo_file = False" by (simp add: demo_file_def)
  have fs: "find_slot demo_env 0 0 0 0 demo_written = Some (Inr (SlotMissing 0 0 0), demo_written)"
    by (simp add: find_slot.simps [of _ 0])
  have "\<exists>g. journal_file_link_entry demo_env 240 240 demo_written = Some (Inr (), g)"
    unfolding journal_file_link_entry_def link_entry_into_array_def
    using fs demo_append_array
    by (simp add: demo_written_views object_at_def demo_header_def new_array_items_def add64_def mul64_def two64_def
        sizeof_defs journal_file_entry_n_items_def sub64_def)
  then show ?thesis
    unfolding journal_file_append_entry_def using t w by (auto simp: Let_def on_file_def)
qed


theorem append_entry_keeps_order_witness:
  "\<exists>q f' c' L'. journal_file_append_entry demo_env demo_ts None [] (demo_file, None) = Some (Inr q, (f', c')) \<and>
     entry_lists f' L' \<and> ordered f' L' \<and> L' Global = [q]"
proof -
  obtain q f' c' where run: "journal_file_append_entry demo_env demo_ts None [] (demo_file, None) = Some (Inr q, (f', c'))"
    using demo_append_entry_runs by blast
  have "ordered demo_file (\<lambda>_. [])" by (simp add: ordered_def)
  moreover have "tail_entry_seqnum (header demo_file) + 1 < two64" by (simp add: demo_file_def demo_header_def two64_def)
  ultimately show ?thesis
    using run append_entry_keeps_order [OF demo_entry_lists _ demo_file_ok demo_env_ok demo_maps(6) _ _ _ _ run] by auto
qed

end
