(* ===== verification/Open_Example.thy ===== *)
theory Open_Example
  imports File_Create File_Copy File_Example
begin

text \<open>
  Environments and files for which the hypotheses of the properties about opening, rotating and
  copying hold.
\<close>

section \<open>Opening\<close>

definition demo_open_env :: open_env where
  "demo_open_env = \<lparr>oe_have_xz = True, oe_have_lz4 = False, oe_open = None, oe_pwrite = Inr 240, oe_map_header = None,
     oe_statvfs = Some (4096, 1000000), oe_random = replicate 16 7, oe_boot_id = Some (replicate 16 3), oe_now = 1000\<rparr>"

text \<open>A file that was just created by \<open>open\<close>.\<close>

definition demo_blank :: journal_file where
  "demo_blank = demo_file\<lparr>file_size := 0, st_size := 0, header := zero_header\<rparr>"

text \<open>A file that was not closed properly.\<close>

definition demo_unclean :: journal_file where
  "demo_unclean = demo_file\<lparr>header := demo_header\<lparr>signature := HEADER_SIGNATURE\<rparr>\<rparr>"

lemma demo_open_ok: "open_ok demo_env demo_open_env" "space_ok demo_env" "oe_pwrite demo_open_env = Inr 240"
  "file_size demo_blank = 0" "store demo_blank = Map.empty" "write_name ''a.journal'' (O_RDWR OR O_CREAT)"
  using demo_env_ok by (simp_all add: open_ok_def space_ok_def demo_env_def demo_open_env_def demo_blank_def demo_file_def
      write_name_def O_RDWR_def O_ACCMODE_def O_CREAT_def endswith_def Let_def)

lemma demo_limits: "limits_ok demo_env (chosen_metrics demo_env demo_open_env None (Some demo_file))"
  "limits_ok demo_env (metrics demo_file)"
  by (simp_all add: limits_ok_def chosen_metrics_def demo_file_def demo_env_def JOURNAL_FILE_SIZE_MIN_def)

lemma demo_unclean_ok: "HEADER_SIZE_MIN \<le> file_size demo_unclean"
  "header_valid demo_open_env (header demo_unclean) (file_size demo_unclean)"
  "state (header demo_unclean) = STATE_ONLINE"
  by (simp_all add: demo_unclean_def demo_file_def demo_header_def header_valid_def align_header state_defs
      header_contains_defs VALID64_eq add64_def two64_def)

lemma demo_default_max_size: "max_size (journal_default_metrics demo_env demo_open_env journal_reset_metrics) = 51200000"
  by (simp add: journal_default_metrics_def default_max_size_def default_max_use_def Let_def demo_open_env_def demo_env_def
      journal_reset_metrics_def AUTO_def two64_def mul64_def PAGE_ALIGN_def ALIGN_TO_def JOURNAL_FILE_SIZE_MIN_def
      DEFAULT_MAX_SIZE_UPPER_def DEFAULT_MAX_USE_UPPER_def DEFAULT_MAX_USE_LOWER_def)


theorem open_unclean_marks_offline_witness:
  "\<exists>f'. journal_file_open demo_env demo_open_env ''a.journal'' (O_RDWR OR O_CREAT) True None None demo_unclean = Some (Inl EBUSY, f') \<and>
    header f' = (header demo_unclean)\<lparr>state := STATE_OFFLINE\<rparr> \<and> store f' = store demo_unclean \<and>
    (\<exists>r f''. journal_file_open demo_env demo_open_env ''a.journal'' (O_RDWR OR O_CREAT) True None None f' = Some (r, f'') \<and> r \<noteq> Inl EBUSY)"
  by (rule open_unclean_marks_offline [OF demo_open_ok(1,6) demo_unclean_ok])

theorem open_new_sound_witness:
  "\<exists>f'. journal_file_open demo_env demo_open_env ''a.journal'' (O_RDWR OR O_CREAT) True None (Some demo_file) demo_blank = Some (Inr (), f') \<and>
    file_ok demo_env f' \<and> entry_lists f' (\<lambda>_. []) \<and> ordered f' (\<lambda>_. []) \<and> state (header f') = STATE_ONLINE \<and>
    tail_entry_seqnum (header f') = (case Some demo_file of None \<Rightarrow> 0 | Some t \<Rightarrow> tail_entry_seqnum (header t)) \<and>
    (\<forall>t. Some demo_file = Some t \<longrightarrow> seqnum_id (header f') = seqnum_id (header t))"
  by (rule open_new_sound [OF demo_open_ok demo_limits(1)])

theorem create_close_reopen_witness:
  "\<exists>f' f''. journal_file_open demo_env demo_open_env ''a.journal'' (O_RDWR OR O_CREAT) True None (Some demo_file) demo_blank = Some (Inr (), f') \<and>
    journal_file_open demo_env demo_open_env ''a.journal'' (O_RDWR OR O_CREAT) True None (Some demo_file) (journal_file_close f') = Some (Inr (), f'') \<and>
    store f'' = store f' \<and> data_hash_table f'' = data_hash_table f' \<and> field_hash_table f'' = field_hash_table f' \<and>
    header f'' = header f' \<and> state (header (journal_file_close f')) = STATE_OFFLINE"
  by (rule create_close_reopen [OF demo_open_ok demo_limits(1)])

lemma demo_journal_name: "endswith ''a.journal'' ''.journal''" "(O_RDWR OR O_CREAT) AND O_CREAT \<noteq> 0" "writable demo_file"
  by (simp_all add: endswith_def Let_def O_RDWR_def O_CREAT_def demo_file_def)

theorem rotate_correct_witness:
  "\<exists>old' new. journal_file_rotate demo_env demo_open_env ''a.journal'' (O_RDWR OR O_CREAT) None True demo_file demo_blank = Some (Inr (), old', new) \<and>
    header old' = (header demo_file)\<lparr>state := STATE_ARCHIVED\<rparr> \<and> store old' = store demo_file \<and>
    file_ok demo_env new \<and> entry_lists new (\<lambda>_. []) \<and> state (header new) = STATE_ONLINE \<and> metrics new = metrics demo_file \<and>
    seqnum_id (header new) = seqnum_id (header demo_file) \<and>
    (\<forall>c. new_seqnum new c = new_seqnum demo_file c)"
  by (rule rotate_correct [OF demo_open_ok demo_journal_name(1,3) demo_limits(2)])

lemma demo_unclean_refused: "\<exists>f'. journal_file_open demo_env demo_open_env ''a.journal'' (O_RDWR OR O_CREAT) True None (Some demo_file)
    demo_unclean = Some (Inl EBUSY, f')"
proof -
  have "0 < file_size demo_unclean" by (simp add: demo_unclean_def demo_file_def)
  then show ?thesis using open_existing [OF demo_open_ok(1,6) demo_unclean_ok(1) _ demo_unclean_ok(2)] demo_unclean_ok(3) by simp
qed

theorem open_reliably_replaces_witness:
  "\<exists>f' new. journal_file_open_reliably demo_env demo_open_env ''a.journal'' (O_RDWR OR O_CREAT) None True None (Some demo_file)
      demo_unclean demo_blank = Some (Inr (), f', new) \<and>
    file_ok demo_env new \<and> entry_lists new (\<lambda>_. []) \<and> state (header new) = STATE_ONLINE"
proof -
  obtain f' where "journal_file_open demo_env demo_open_env ''a.journal'' (O_RDWR OR O_CREAT) True None (Some demo_file)
    demo_unclean = Some (Inl EBUSY, f')" using demo_unclean_refused by blast
  from open_reliably_replaces [OF demo_open_ok demo_journal_name(1,2) demo_limits(1) this] show ?thesis by auto
qed

theorem rotate_suggested_iff_witness:
  "journal_file_rotate_suggested demo_open_env 5 demo_file \<longleftrightarrow>
    3 * (data_hash_table_size (header demo_file) div 16) < 4 * n_data (header demo_file) \<or>
    3 * (field_hash_table_size (header demo_file) div 16) < 4 * n_fields (header demo_file) \<or>
    (0 < n_data (header demo_file) \<and> n_fields (header demo_file) = 0) \<or>
    (0 < (5 :: nat) \<and> 0 < head_entry_realtime (header demo_file) \<and>
     head_entry_realtime (header demo_file) + 5 < oe_now demo_open_env)"
  by (rule rotate_suggested_iff) (simp_all add: demo_file_def demo_header_def sizeof_defs two64_def)

section \<open>Copying\<close>

text \<open>A file with one data object and one entry that refers to it.\<close>

definition copy_data :: data_object where
  "copy_data = \<lparr>d_hash = jhash [0x61], d_next_hash_offset = 0, d_next_field_offset = 0, d_entry_offset = 312,
     d_entry_array_offset = 0, d_n_entries = 1, d_payload = [0x61]\<rparr>"

definition copy_entry :: entry_object where
  "copy_entry = \<lparr>e_seqnum = 1, e_realtime = 10, e_monotonic = 1, e_boot_id = replicate 16 3, e_xor_hash = jhash [0x61],
     e_items = [\<lparr>ei_object_offset = 240, ei_hash = jhash [0x61]\<rparr>]\<rparr>"

definition copy_file :: journal_file where
  "copy_file = demo_file\<lparr>header := demo_header\<lparr>n_objects := 2, n_data := 1, tail_object_offset := 312\<rparr>,
     data_hash_table := [\<lparr>head_hash_offset = 240, tail_hash_offset = 240\<rparr>],
     store := [240 \<mapsto> \<lparr>o_flags = 0, o_size = 65, o_body = DataBody copy_data\<rparr>,
       312 \<mapsto> \<lparr>o_flags = 0, o_size = 80, o_body = EntryBody copy_entry\<rparr>]\<rparr>"

lemma copy_store: "store copy_file p =
   (if p = 240 then Some \<lparr>o_flags = 0, o_size = 65, o_body = DataBody copy_data\<rparr>
    else if p = 312 then Some \<lparr>o_flags = 0, o_size = 80, o_body = EntryBody copy_entry\<rparr> else None)"
  by (simp add: copy_file_def)

lemma copy_layout: "layout copy_file"
proof -
  have h: "header_size (header copy_file) = 240" "arena_size (header copy_file) = 8388368"
    "tail_object_offset (header copy_file) = 312" "n_objects (header copy_file) = 2" "st_size copy_file = 8388608"
    "file_size copy_file = 8388608" "limited copy_file"
    by (simp_all add: copy_file_def demo_header_def demo_file_def limited_def)
  have d: "dom (store copy_file) = {240, 312}" by (auto simp: copy_store split: if_splits)
  have ne: "store copy_file \<noteq> Map.empty" using d by force
  show ?thesis unfolding layout_def Let_def h d using ne
    by (auto simp: copy_store object_ok_def copy_data_def copy_entry_def sizeof_defs split: if_splits)
qed

lemma copy_maps: "data_map copy_file = [240 \<mapsto> copy_data]" "field_map copy_file = Map.empty"
  "entry_map copy_file = [312 \<mapsto> copy_entry]"
  by (auto simp: data_map_def field_map_def entry_map_def copy_store fun_eq_iff)

lemma copy_erased: "erased copy_file p = (if p = 240 then Some (erase \<lparr>o_flags = 0, o_size = 65, o_body = DataBody copy_data\<rparr>)
    else if p = 312 then Some (erase \<lparr>o_flags = 0, o_size = 80, o_body = EntryBody copy_entry\<rparr>) else None)"
  by (simp add: erased_def copy_store)


lemma copy_file_ok: "file_ok demo_env copy_file"
proof -
  have nx: "data_next [240 \<mapsto> copy_data] = [240 \<mapsto> 0]" "data_hashes [240 \<mapsto> copy_data] = [240 \<mapsto> jhash [0x61]]"
    "field_next Map.empty = Map.empty" "field_hashes Map.empty = Map.empty"
    by (auto simp: data_next_def data_hashes_def field_next_def field_hashes_def copy_data_def fun_eq_iff)
  have "table_ok [\<lparr>head_hash_offset = 240, tail_hash_offset = 240\<rparr>] [240 \<mapsto> 0] [240 \<mapsto> jhash [0x61]]"
    unfolding table_ok_def buckets_ok_def by (intro exI [of _ "\<lambda>_. [240]"]) auto
  then have "data_index copy_file [240 \<mapsto> copy_data]" "field_index copy_file Map.empty"
    using demo_table by (simp_all add: data_index_def field_index_def nx copy_file_def demo_file_def demo_header_def
        sizeof_defs header_contains_defs)
  moreover have "data_wf demo_env (erased copy_file)" "field_wf (erased copy_file)"
    by (auto simp: data_wf_def field_wf_def copy_erased erase_def content_def data_of_def copy_data_def split: if_splits)
  ultimately show ?thesis using copy_layout by (simp add: file_ok_def copy_maps)
qed

lemma copy_entry_has: "entry_has demo_env copy_file 312 copy_entry [[0x61]]"
  by (auto simp: entry_has_def copy_maps copy_entry_def has_data_def copy_erased erase_def content_def data_of_def copy_data_def)

theorem copy_entry_correct_witness:
  "\<exists>r to' c' L'. journal_file_copy_entry demo_env 312 (copy_file, demo_file, None) = Some (r, (copy_file, to', c')) \<and>
    file_ok demo_env to' \<and> entry_lists to' L' \<and>
    (case r of
       Inl _ \<Rightarrow> \<forall>w. prefix [] (L' w)
     | Inr q \<Rightarrow> writable demo_file \<and> entry_copied demo_env copy_entry [[0x61]] None demo_file (\<lambda>_. []) q to' L')"
  using copy_entry_correct [OF copy_file_ok copy_entry_has demo_ok, of None] demo_compressible by (simp add: data_adm_def)

end
