(* ===== verification/Reader_Example.thy ===== *)
theory Reader_Example
  imports Reader_Cursor Open_Example
begin

text \<open>
  Two files with one entry each, and a reader over them, for which the hypotheses of the properties
  about the reader hold.
\<close>

definition read_data :: data_object where
  "read_data = \<lparr>d_hash = jhash [0x41, 0x3d, 0x62], d_next_hash_offset = 0, d_next_field_offset = 0, d_entry_offset = 312,
     d_entry_array_offset = 0, d_n_entries = 1, d_payload = [0x41, 0x3d, 0x62]\<rparr>"

definition read_entry :: "nat \<Rightarrow> entry_object" where
  "read_entry n = \<lparr>e_seqnum = n, e_realtime = 10 * n, e_monotonic = n, e_boot_id = replicate 16 3,
     e_xor_hash = jhash [0x41, 0x3d, 0x62], e_items = [\<lparr>ei_object_offset = 240, ei_hash = jhash [0x41, 0x3d, 0x62]\<rparr>]\<rparr>"

definition read_array :: entry_array_object where
  "read_array = \<lparr>ea_next_entry_array_offset = 0, ea_items = [312, 0, 0, 0]\<rparr>"

definition read_file :: "nat \<Rightarrow> journal_file" where
  "read_file n = demo_file\<lparr>header := demo_header\<lparr>n_objects := 3, n_data := 1, tail_object_offset := 392,
       entry_array_offset := 392, n_entries := 1, tail_entry_seqnum := n\<rparr>,
     data_hash_table := [\<lparr>head_hash_offset = 240, tail_hash_offset = 240\<rparr>],
     store := [240 \<mapsto> \<lparr>o_flags = 0, o_size = 67, o_body = DataBody read_data\<rparr>,
       312 \<mapsto> \<lparr>o_flags = 0, o_size = 80, o_body = EntryBody (read_entry n)\<rparr>,
       392 \<mapsto> \<lparr>o_flags = 0, o_size = 56, o_body = EntryArrayBody read_array\<rparr>]\<rparr>"

definition read_lists :: "owner \<Rightarrow> nat list" where
  "read_lists w = (if w = Global \<or> w = Of 240 then [312] else [])"

lemma read_store: "store (read_file n) p =
   (if p = 240 then Some \<lparr>o_flags = 0, o_size = 67, o_body = DataBody read_data\<rparr>
    else if p = 312 then Some \<lparr>o_flags = 0, o_size = 80, o_body = EntryBody (read_entry n)\<rparr>
    else if p = 392 then Some \<lparr>o_flags = 0, o_size = 56, o_body = EntryArrayBody read_array\<rparr> else None)"
  by (simp add: read_file_def)

lemma read_layout: "layout (read_file n)"
proof -
  have h: "header_size (header (read_file n)) = 240" "arena_size (header (read_file n)) = 8388368"
    "tail_object_offset (header (read_file n)) = 392" "n_objects (header (read_file n)) = 3" "st_size (read_file n) = 8388608"
    "file_size (read_file n) = 8388608" "limited (read_file n)"
    by (simp_all add: read_file_def demo_header_def demo_file_def limited_def)
  have d: "dom (store (read_file n)) = {240, 312, 392}" by (auto simp: read_store split: if_splits)
  have ne: "store (read_file n) \<noteq> Map.empty" using d by force
  show ?thesis unfolding layout_def Let_def h d using ne
    by (auto simp: read_store object_ok_def read_data_def read_entry_def read_array_def sizeof_defs split: if_splits)
qed

lemma read_maps: "data_map (read_file n) = [240 \<mapsto> read_data]" "field_map (read_file n) = Map.empty"
  "entry_map (read_file n) = [312 \<mapsto> read_entry n]" "array_map (read_file n) = [392 \<mapsto> read_array]"
  by (auto simp: data_map_def field_map_def entry_map_def array_map_def read_store fun_eq_iff)

lemma read_erased: "erased (read_file n) p =
   (if p = 240 then Some (erase \<lparr>o_flags = 0, o_size = 67, o_body = DataBody read_data\<rparr>)
    else if p = 312 then Some (erase \<lparr>o_flags = 0, o_size = 80, o_body = EntryBody (read_entry n)\<rparr>)
    else if p = 392 then Some (erase \<lparr>o_flags = 0, o_size = 56, o_body = EntryArrayBody read_array\<rparr>) else None)"
  by (simp add: erased_def read_store)

lemma read_file_ok: "file_ok demo_env (read_file n)"
proof -
  have nx: "data_next [240 \<mapsto> read_data] = [240 \<mapsto> 0]" "data_hashes [240 \<mapsto> read_data] = [240 \<mapsto> jhash [0x41, 0x3d, 0x62]]"
    "field_next Map.empty = Map.empty" "field_hashes Map.empty = Map.empty"
    by (auto simp: data_next_def data_hashes_def field_next_def field_hashes_def read_data_def fun_eq_iff)
  have "table_ok [\<lparr>head_hash_offset = 240, tail_hash_offset = 240\<rparr>] [240 \<mapsto> 0] [240 \<mapsto> jhash [0x41, 0x3d, 0x62]]"
    unfolding table_ok_def buckets_ok_def by (intro exI [of _ "\<lambda>_. [240]"]) auto
  then have "data_index (read_file n) [240 \<mapsto> read_data]" "field_index (read_file n) Map.empty"
    using demo_table by (simp_all add: data_index_def field_index_def nx read_file_def demo_file_def demo_header_def
        sizeof_defs header_contains_defs)
  moreover have "data_wf demo_env (erased (read_file n))" "field_wf (erased (read_file n))"
    by (auto simp: data_wf_def field_wf_def read_erased erase_def content_def data_of_def read_data_def split: if_splits)
  ultimately show ?thesis using read_layout by (simp add: file_ok_def read_maps)
qed

lemma read_entry_lists: "entry_lists (read_file n) read_lists"
proof -
  let ?A = "\<lambda>w. if w = Global then [392] else []"
  have f: "first_of (read_file n) w = (if w = Global then 392 else 0)" "cnt_of (read_file n) w = (if w = Global then 1 else 0)"
    "extra_of (read_file n) w = (if w = Of 240 then [312] else [])" for w
    by (cases w; simp add: read_maps read_data_def; simp add: read_file_def)+
  have "lists_ok (array_map (read_file n)) (first_of (read_file n)) (cnt_of (read_file n)) ?A"
    unfolding lists_ok_def f by (auto simp: read_maps array_next_def items_of_def read_array_def)
  moreover have "read_lists w = extra_of (read_file n) w @ elist (array_map (read_file n)) (cnt_of (read_file n)) ?A w" for w
    unfolding elist_def f by (auto simp: read_lists_def read_maps items_of_def read_array_def)
  moreover have "set (read_lists w) \<subseteq> dom (entry_map (read_file n))" for w by (auto simp: read_lists_def read_maps)
  ultimately show ?thesis unfolding entry_lists_def by blast
qed

lemma read_keys: "entry_key e_seqnum (read_file n) 312 = n" "entry_rec (read_file n) 312 = read_entry n"
  "tail_entry_seqnum (header (read_file n)) = n"
  by (simp_all add: entry_key_def read_maps read_entry_def) (simp add: read_file_def)

lemma read_ordered: "ordered (read_file n) read_lists" "linked read_lists"
  by (auto simp: ordered_def read_lists_def linked_def read_keys)

lemma read_source_ok: "source_ok demo_env read_lists (read_file n)"
  using read_file_ok read_entry_lists read_ordered demo_env_ok(2) by (simp add: source_ok_def)

lemma read_seek_ok: "seek_ok demo_env read_lists (read_file n)"
  using read_layout read_entry_lists demo_env_ok(2) by (simp add: seek_ok_def cache_ok_def read_file_def demo_file_def)

definition read_sources :: "source list" where
  "read_sources = [(''a'', read_file 1, read_lists), (''b'', read_file 2, read_lists)]"

lemma read_sources_ok: "sources_ok demo_env read_sources"
proof -
  have "uuid_equal (seqnum_id (header (read_file n))) (seqnum_id (header (read_file k)))" for n k
    by (simp add: read_file_def uuid_equal_def)
  then show ?thesis
    using read_source_ok by (auto simp: sources_ok_def read_keys read_sources_def read_lists_def same_entry_def read_entry_def)
qed

definition reader_file_of :: "string \<Rightarrow> journal_file \<Rightarrow> reader_file" where
  "reader_file_of p f = \<lparr>rf_path = p, rf_file = f, last_direction = DIRECTION_DOWN, current_offset = 0\<rparr>"

definition demo_reader :: sd_journal where
  "demo_reader = \<lparr>j_files = [reader_file_of ''a'' (read_file 1), reader_file_of ''b'' (read_file 2)],
     current_location = zero_location, current_file = None, current_field = 0, j_matches = no_matches,
     original_pid = 7, getpid = 7, current_invalidate_counter = 0, last_invalidate_counter = 0, unique_field = None,
     unique_file = None, unique_offset = 0, data_threshold = 65536\<rparr>"

lemma read_scanning: "scanning demo_env read_lists (read_file n) (read_file n)"
  using read_seek_ok read_file_ok read_ordered reading_refl by (simp add: readable_def ordered_def)

lemma demo_reader_of: "reader_of demo_env read_sources no_matches demo_reader"
  using read_scanning by (simp add: reader_of_def read_sources_def demo_reader_def reader_file_of_def journal_pid_changed_def)

theorem next_for_match_correct_witness:
  "\<exists>f'. next_for_match demo_env DIRECTION_UP (MATCH_AND_TERM [MATCH_DISCRETE [0x41, 0x3d, 0x62] (jhash [0x41, 0x3d, 0x62])]) 400 (read_file 1) =
      Some (Inr (next_in DIRECTION_UP 400 {q. sat (MATCH_AND_TERM [MATCH_DISCRETE [0x41, 0x3d, 0x62] (jhash [0x41, 0x3d, 0x62])])
        (entry_data demo_env (read_file 1) read_lists q)}), f') \<and> reading demo_env read_lists (read_file 1) f'"
proof -
  have "length (read_lists (Of p)) \<le> 1" for p by (simp add: read_lists_def)
  then show ?thesis
    by (intro next_for_match_correct) (simp_all add: read_seek_ok read_file_ok read_ordered)
qed

theorem sd_journal_next_correct_witness:
  "\<exists>more j'. sd_journal_next demo_env demo_reader = Some (Inr more, j') \<and>
    (if more then \<exists>p g L q. current_entry j' = Some (p, q) \<and> (p, g, L) \<in> set read_sources \<and>
       q \<in> remaining demo_env None AtHead (p, g, L) \<and>
       (\<forall>p' g' L'. (p', g', L') \<in> set read_sources \<longrightarrow> (\<forall>q'\<in>remaining demo_env None AtHead (p', g', L'). seq g q \<le> seq g' q')) \<and>
       reader_at demo_env read_sources None (After (seq g q)) j'
     else (\<forall>s\<in>set read_sources. remaining demo_env None AtHead s = {}) \<and> reader_at demo_env read_sources None AtHead j')"
proof (rule sd_journal_next_correct [OF read_sources_ok])
  show "matches_ok None" by (simp add: matches_ok_def)
  show "reader_at demo_env read_sources None AtHead demo_reader"
    using read_scanning by (simp add: reader_at_def read_sources_def demo_reader_def reader_file_of_def file_at_def
        located_def zero_location_def no_matches_def journal_pid_changed_def)
qed

lemma read_entry_data: "entry_data demo_env (read_file n) read_lists 312 = {[0x41, 0x3d, 0x62]}"
  by (auto simp: entry_data_def read_lists_def has_data_def read_erased erase_def content_def data_of_def read_data_def)

text \<open>Both entries have the data; they are read in the order of their numbers.\<close>

theorem filtered_reading_complete_witness:
  "\<exists>es j'. read_matching demo_env 3 [AddMatch [0x41, 0x3d, 0x62]] demo_reader = Some (Inr es, j') \<and>
     set es = {(''a'', 312), (''b'', 312)} \<and> sorted_wrt (<) (map (number read_sources) es)"
proof -
  have short: "\<forall>c\<in>set [AddMatch [0x41, 0x3d, 0x62]]. short_op c" by (simp add: short_op_def)
  let ?S = "{(p, q). \<exists>g L. (p, g, L) \<in> set read_sources \<and> q \<in> set (L Global) \<and>
     spec_sat (fst (fold spec_op [AddMatch [0x41, 0x3d, 0x62]] ([], False, False))) (entry_data demo_env g L q)}"
  have v: "match_is_valid [0x41, 0x3d, 0x62]" by (simp add: match_is_valid_def startswith_def)
  have S: "?S = {(''a'', 312), (''b'', 312)}"
    using read_entry_data v by (auto simp: read_sources_def read_lists_def spec_sat_def group_sat_def)
  then have "card ?S < 3" by simp
  from filtered_reading_complete [OF read_sources_ok short demo_reader_of this] S show ?thesis by auto
qed

theorem append_entry_visible_witness:
  "\<exists>q f' c' L'. journal_file_append_entry demo_env demo_ts None [] (demo_file, None) = Some (Inr q, (f', c')) \<and>
     source_ok demo_env L' f' \<and> L' Global = [q] \<and> entry_data demo_env f' L' q = {}"
proof -
  obtain q f' c' where run: "journal_file_append_entry demo_env demo_ts None [] (demo_file, None) = Some (Inr q, (f', c'))"
    using demo_append_entry_runs by blast
  have "source_ok demo_env (\<lambda>_. []) demo_file" "items_ok demo_env (\<lambda>_. []) demo_file"
    using demo_ok by (simp_all add: source_ok_def ordered_def linked_def items_ok_def)
  moreover have "tail_entry_seqnum (header demo_file) + 1 < two64" by (simp add: demo_file_def demo_header_def two64_def)
  ultimately show ?thesis
    using run append_entry_visible [OF _ _ demo_env_ok(1) demo_maps(6) _ _ _ _ run, of "\<lambda>_. []"] by auto
qed

text \<open>The reader at the entry of the first file.\<close>

definition demo_at :: sd_journal where
  "demo_at = demo_reader\<lparr>current_file := Some ''a'',
     j_files := [(reader_file_of ''a'' (read_file 1))\<lparr>current_offset := 312\<rparr>, reader_file_of ''b'' (read_file 2)]\<rparr>"

lemma demo_at_entry: "at_entry demo_env read_lists (read_file 1) ''a'' 312 demo_at"
  using read_source_ok read_scanning [of 1]
  by (simp add: at_entry_def demo_at_def demo_reader_def reader_file_of_def journal_pid_changed_def get_file_def read_lists_def)

lemma read_entry_has: "entry_has demo_env (read_file n) 312 (read_entry n) [[0x41, 0x3d, 0x62]]"
  by (simp add: entry_has_def read_maps) (simp add: read_entry_def has_data_def read_erased erase_def content_def data_of_def read_data_def)

lemma demo_decompress_ok: "decompress_ok demo_env"
proof -
  have "take (Suc (length s)) x = s @ [0x3d] \<longleftrightarrow> starts_with_field s x" for s x :: bytes
  proof (cases "length x \<ge> length s + 1")
    case True
    then show ?thesis by (simp add: starts_with_field_def take_Suc_conv_app_nth)
  next
    case False
    then have "length (take (Suc (length s)) x) \<noteq> length (s @ [0x3d :: u8])" by simp
    then show ?thesis using False unfolding starts_with_field_def by metis
  qed
  then show ?thesis by (simp add: decompress_ok_def demo_env_def)
qed

theorem enumerate_data_complete_witness:
  "\<exists>j'. enumerate_all demo_env (sd_journal_restart_data demo_at) = Some (Inr [[0x41, 0x3d, 0x62]], j')"
  by (rule enumerate_data_complete [OF demo_at_entry read_entry_has demo_decompress_ok])
    (simp add: demo_at_def demo_reader_def)

theorem get_data_correct_witness:
  "\<exists>j'. sd_journal_get_data demo_env [0x41] demo_at =
      Some (if \<not> field_is_valid [0x41] then Inl EINVAL
            else case List.find (starts_with_field [0x41]) [[0x41, 0x3d, 0x62]] of None \<Rightarrow> Inl ENOENT | Some x \<Rightarrow> Inr x, j')"
  by (rule get_data_correct [OF demo_at_entry read_entry_has demo_decompress_ok])
    (simp add: demo_at_def demo_reader_def)

theorem cursor_roundtrip_witness:
  "\<exists>c j1 j2 j3 j4. sd_journal_get_cursor demo_env demo_at = Some (Inr c, j1) \<and>
    sd_journal_seek_cursor c demo_reader = Some (Inr (), j2) \<and> sd_journal_next demo_env j2 = Some (Inr True, j3) \<and>
    current_entry j3 = Some (''a'', 312) \<and> sd_journal_test_cursor demo_env c j3 = Some (Inr True, j4)"
proof (rule cursor_roundtrip [OF read_sources_ok _ demo_at_entry _ _ demo_reader_of])
  show "(''a'', read_file 1, read_lists) \<in> set read_sources" by (simp add: read_sources_def)
  have "jhash x < two64" for x using unsigned_less [of "hash64 LittleEndian (byte_at x) 0 (length x)"] by (simp add: jhash_def two64_def)
  then show "entry_range (entry_rec (read_file 1) 312)"
    unfolding read_keys by (simp add: entry_range_def read_entry_def two64_def)
  show "length (seqnum_id (header (read_file 1))) = 16" by (simp add: read_file_def demo_header_def)
  show "matches_ok (level0 no_matches)" "312 \<in> wanted demo_env (level0 no_matches) read_lists (read_file 1)"
    by (simp_all add: matches_ok_def no_matches_def wanted_def read_lists_def)
qed

end
