(* ===== verification/Native_Protocol.thy ===== *)
theory Native_Protocol
  imports Match_Tree
begin

text \<open>
  The native protocol: the datagram a client builds from its fields (\<open>lib/journal-send.c\<close>) and how the
  daemon takes it apart (\<open>src/core/journald-native.c\<close>), with the calls it makes for each entry.  The loop
  is a partial function: a datagram on which it does not come to its end, because it runs for ever or
  an assertion stops the program, has no result.  The release of the memory at the end of the function
  is not modelled.
\<close>

section \<open>Sending\<close>

fun le_value :: "bytes \<Rightarrow> nat" where
  "le_value [] = 0"
| "le_value (b # bs) = unat b + 256 * le_value bs"

text \<open>
  One field as it goes into the datagram: as a line, or, when it contains a newline, as the name, the
  size and the value.
\<close>

definition sendv_item :: "bytes \<Rightarrow> bytes res" where
  "sendv_item x =
     (if length x \<le> 1 then Inl EINVAL
      else case memchr 0x3d x of
        None \<Rightarrow> Inl EINVAL
      | Some c \<Rightarrow>
          if c = 0 then Inl EINVAL
          else case memchr 0x0a x of
            Some nl \<Rightarrow>
              if nl < c then Inl EINVAL
              else Inr (take c x @ [0x0a] @ le64_bytes (length x - c - 1) @ drop (c + 1) x @ [0x0a])
          | None \<Rightarrow> Inr (x @ [0x0a]))"

definition names_program :: "bytes \<Rightarrow> bool" where
  "names_program x \<longleftrightarrow> memchr 0x3d x = Some 17 \<and> startswith x (ascii ''SYSLOG_IDENTIFIER'')"

fun sendv_items :: "bytes list \<Rightarrow> bytes res" where
  "sendv_items [] = Inr []"
| "sendv_items (x # xs) =
     (case sendv_item x of
        Inl e \<Rightarrow> Inl e
      | Inr b \<Rightarrow> (case sendv_items xs of Inl e \<Rightarrow> Inl e | Inr bs \<Rightarrow> Inr (b @ bs)))"

text \<open>The datagram that is sent for a list of fields by a program with the given name.\<close>

definition sd_journal_sendv :: "bytes \<Rightarrow> bytes list \<Rightarrow> bytes res" where
  "sd_journal_sendv program iov =
     (if iov = [] then Inl EINVAL
      else case sendv_items iov of
        Inl e \<Rightarrow> Inl e
      | Inr w \<Rightarrow> Inr (if \<exists>x\<in>set iov. names_program x then w
                      else w @ ascii ''SYSLOG_IDENTIFIER='' @ program @ [0x0a]))"

section \<open>Receiving\<close>

definition ENTRY_SIZE_MAX :: nat where "ENTRY_SIZE_MAX = 1024 * 1024 * 770"
definition DATA_SIZE_MAX :: nat where "DATA_SIZE_MAX = 1024 * 1024 * 768"
definition LOG_INFO :: nat where "LOG_INFO = 6"
definition LOG_PRIMASK :: nat where "LOG_PRIMASK = 7"
definition LOG_FACMASK :: nat where "LOG_FACMASK = 0x3f8"

definition field_char :: "u8 \<Rightarrow> bool" where
  "field_char a \<longleftrightarrow> \<not> ((a < 0x41 \<or> a > 0x5a) \<and> (a < 0x30 \<or> a > 0x39) \<and> a \<noteq> 0x5f)"

definition valid_user_field :: "bytes \<Rightarrow> bool \<Rightarrow> bool" where
  "valid_user_field p allow_protected =
     (if length p = 0 then False
      else if length p > 64 then False
      else if \<not> allow_protected \<and> p ! 0 = 0x5f then False
      else if p ! 0 \<ge> 0x30 \<and> p ! 0 \<le> 0x39 then False
      else list_all field_char p)"

text \<open>
  What the parser gets from outside.  The vectors that \<open>dispatch_message_real\<close> and \<open>dispatch_message_object\<close> fill in point to
  buffers of their own stack frames, which are left before the vectors are read: \<open>ne_meta\<close> and \<open>ne_object\<close> are
  what is found there.  Only the first bytes of the buffer that \<open>OBJECT_PID=\<close> is parsed from are set:
  \<open>ne_object_pid\<close> is the result for them and whatever follows.
\<close>

record native_env =
  ne_uid :: "nat option"
  ne_meta :: "bytes list"
  ne_object :: "nat \<Rightarrow> bytes list"
  ne_object_pid :: "bytes \<Rightarrow> nat option"
  ne_forward_to_syslog :: bool
  ne_forward_to_console :: bool

definition allow_object_pid :: "native_env \<Rightarrow> bool" where
  "allow_object_pid NE \<longleftrightarrow> ne_uid NE = Some 0"

definition message_object :: "native_env \<Rightarrow> nat \<Rightarrow> bytes list" where
  "message_object NE pid = (if pid = 0 then [] else ne_object NE pid)"

text \<open>
  The calls that processing a datagram makes, in order: an entry with its priority is dispatched, a
  message is forwarded to the syslog socket in its form there, as it came, or to the console.
\<close>

datatype daemon_call =
    Dispatch "bytes list" nat
  | ForwardSyslog nat "bytes option" bytes
  | ForwardRaw nat bytes
  | ForwardConsole nat "bytes option" bytes

text \<open>The variables of the function; \<open>ns_allocated\<close> says whether the array of vectors is.\<close>

record native_state =
  ns_iovec :: "bytes list"
  ns_allocated :: bool
  ns_entry_size :: nat
  ns_priority :: nat
  ns_identifier :: "bytes option"
  ns_message :: "bytes option"
  ns_object_pid :: nat

definition native_start :: native_state where
  "native_start = \<lparr>ns_iovec = [], ns_allocated = False, ns_entry_size = 0, ns_priority = LOG_INFO, ns_identifier = None,
     ns_message = None, ns_object_pid = 0\<rparr>"

definition add_iovec :: "bytes \<Rightarrow> native_state \<Rightarrow> native_state" where
  "add_iovec x st = st\<lparr>ns_iovec := ns_iovec st @ [x], ns_entry_size := ns_entry_size st + length x\<rparr>"

definition is_digit :: "u8 \<Rightarrow> bool" where
  "is_digit c \<longleftrightarrow> c \<ge> 0x30 \<and> c \<le> 0x39"

definition dec_digit :: "u8 \<Rightarrow> nat" where
  "dec_digit c = unat (c - 0x30)"

abbreviation c_string_of :: "bytes \<Rightarrow> bytes" where
  "c_string_of s \<equiv> takeWhile (\<lambda>c. c \<noteq> 0) s"

definition accept_line :: "native_env \<Rightarrow> bytes \<Rightarrow> native_state \<Rightarrow> native_state" where
  "accept_line NE p st =
     (let st = add_iovec p st; l = length p in
      if l = 10 \<and> startswith p (ascii ''PRIORITY='') \<and> is_digit (p ! 9)
      then st\<lparr>ns_priority := (ns_priority st AND LOG_FACMASK) OR dec_digit (p ! 9)\<rparr>
      else if l = 17 \<and> startswith p (ascii ''SYSLOG_FACILITY='') \<and> is_digit (p ! 16)
      then st\<lparr>ns_priority := (ns_priority st AND LOG_PRIMASK) OR push_bit 3 (dec_digit (p ! 16))\<rparr>
      else if l = 18 \<and> startswith p (ascii ''SYSLOG_FACILITY='') \<and> is_digit (p ! 16) \<and> is_digit (p ! 17)
      then st\<lparr>ns_priority := (ns_priority st AND LOG_PRIMASK) OR push_bit 3 (dec_digit (p ! 16) * 10 + dec_digit (p ! 17))\<rparr>
      else if l \<ge> 19 \<and> startswith p (ascii ''SYSLOG_IDENTIFIER='')
      then st\<lparr>ns_identifier := Some (c_string_of (drop 18 p))\<rparr>
      else if l \<ge> 8 \<and> startswith p (ascii ''MESSAGE='')
      then st\<lparr>ns_message := Some (c_string_of (drop 8 p))\<rparr>
      else if l > 11 \<and> l < 11 + 12 \<and> startswith p (ascii ''OBJECT_PID='') \<and> allow_object_pid NE
      then (case ne_object_pid NE (drop 11 p) of None \<Rightarrow> st | Some pid \<Rightarrow> st\<lparr>ns_object_pid := pid\<rparr>)
      else st)"

text \<open>
  The loop over the datagram.  An entry that is too big at a separator leaves the position where it is;
  a separator before the first field finds no array, and the assertion in \<open>dispatch_message_real\<close> ends the
  program.
\<close>

partial_function (option) native_loop ::
  "native_env \<Rightarrow> bytes \<Rightarrow> native_state \<Rightarrow> daemon_call list \<Rightarrow> (native_state \<times> daemon_call list) option" where
  "native_loop NE p st evs =
     (if p = [] then Some (st, evs)
      else case memchr 0x0a p of
        None \<Rightarrow> Some (st, evs)
      | Some e \<Rightarrow>
          if e = 0 then
            if ns_entry_size st + length (ns_iovec st) + 1 > ENTRY_SIZE_MAX then native_loop NE p st evs
            else if \<not> ns_allocated st then None
            else native_loop NE (drop 1 p) (st\<lparr>ns_iovec := [], ns_priority := LOG_INFO, ns_entry_size := 0\<rparr>)
              (evs @ [Dispatch (ns_iovec st @ ne_meta NE @ message_object NE (ns_object_pid st)) (ns_priority st)])
          else if p ! 0 = 0x2e \<or> p ! 0 = 0x23 then native_loop NE (drop (e + 1) p) st evs
          else
            let st = st\<lparr>ns_allocated := True\<rparr> in
            case memchr 0x3d (take e p) of
              Some q \<Rightarrow>
                native_loop NE (drop (e + 1) p) (if valid_user_field (take q p) False then accept_line NE (take e p) st else st) evs
            | None \<Rightarrow>
                if length p < e + 1 + 8 + 1 then Some (st, evs)
                else
                  let l = le_value (take 8 (drop (e + 1) p)) in
                  if l > DATA_SIZE_MAX then Some (st, evs)
                  else if length p < e + 1 + 8 + l + 1 \<or> p ! (e + 1 + 8 + l) \<noteq> 0x0a then Some (st, evs)
                  else
                    let k = take e p @ [0x3d] @ take l (drop (e + 1 + 8) p) in
                    native_loop NE (drop (e + 1 + 8 + l + 1) p)
                      (if valid_user_field (take e p) False then add_iovec k st else st) evs)"

definition native_finish :: "native_env \<Rightarrow> native_state \<Rightarrow> daemon_call list" where
  "native_finish NE st =
     (if ns_iovec st = [] then []
      else
        let st = add_iovec (ascii ''_TRANSPORT=journal'') st in
        if ns_entry_size st + length (ns_iovec st) + 1 > ENTRY_SIZE_MAX then []
        else
          (case ns_message st of
             None \<Rightarrow> []
           | Some msg \<Rightarrow>
               (if ne_forward_to_syslog NE then [ForwardSyslog (ns_priority st) (ns_identifier st) msg] else []) @
               (if ne_forward_to_console NE then [ForwardConsole (ns_priority st) (ns_identifier st) msg] else [])) @
          [Dispatch (ns_iovec st @ ne_meta NE @ message_object NE (ns_object_pid st)) (ns_priority st)])"

definition server_process_native_message :: "native_env \<Rightarrow> bytes \<Rightarrow> daemon_call list option" where
  "server_process_native_message NE buffer =
     (case native_loop NE buffer native_start [] of
        None \<Rightarrow> None
      | Some (st, evs) \<Rightarrow> Some (evs @ native_finish NE st))"

section \<open>An empty line first\<close>


section \<open>Processing ends\<close>

lemma memchr_Some: "memchr c bs = Some i \<longleftrightarrow> i < length bs \<and> bs ! i = c \<and> c \<notin> set (take i bs)"
proof
  assume "memchr c bs = Some i"
  then have i: "i = length (takeWhile (\<lambda>b. b \<noteq> c) bs)" "i < length bs" by (auto simp: memchr_def Let_def split: if_splits)
  then have "bs ! i = c" using nth_length_takeWhile [of "\<lambda>b. b \<noteq> c" bs] by simp
  moreover have "take i bs = takeWhile (\<lambda>b. b \<noteq> c) bs" using i takeWhile_eq_take by metis
  ultimately show "i < length bs \<and> bs ! i = c \<and> c \<notin> set (take i bs)" using i(2) set_takeWhileD by fastforce
next
  assume h: "i < length bs \<and> bs ! i = c \<and> c \<notin> set (take i bs)"
  then have "takeWhile (\<lambda>b. b \<noteq> c) bs = take i bs"
    by (intro takeWhile_eq_take_P_nth) (auto simp: in_set_conv_nth)
  with h show "memchr c bs = Some i" by (simp add: memchr_def Let_def)
qed

lemma memchr_None: "memchr c bs = None \<longleftrightarrow> c \<notin> set bs"
proof -
  have "length (takeWhile (\<lambda>b. b \<noteq> c) bs) < length bs \<longleftrightarrow> takeWhile (\<lambda>b. b \<noteq> c) bs \<noteq> bs"
    by (metis length_takeWhile_le nat_less_le takeWhile_eq_take take_all_iff)
  then show ?thesis by (auto simp: memchr_def Let_def takeWhile_eq_all_conv)
qed

text \<open>The size of the entry is at most what was read.\<close>

abbreviation weight :: "native_state \<Rightarrow> nat" where
  "weight st \<equiv> ns_entry_size st + length (ns_iovec st)"

lemma weight_accept: "weight (accept_line NE p st) = weight st + length p + 1"
  by (simp add: accept_line_def add_iovec_def Let_def split: option.split)

lemma allocated_simps [simp]: "ns_allocated (accept_line NE p st) = ns_allocated st" "ns_allocated (add_iovec p st) = ns_allocated st"
  by (simp_all add: accept_line_def add_iovec_def Let_def split: option.split)

lemma native_loop_returns:
  "ns_allocated st \<or> p = [] \<or> hd p \<notin> {0x0a, 0x2e, 0x23} \<Longrightarrow> weight st + length p + 1 \<le> ENTRY_SIZE_MAX \<Longrightarrow>
   \<exists>r. native_loop NE p st evs = Some r"
proof (induction "length p" arbitrary: p st evs rule: less_induct)
  case less
  show ?case
  proof (cases "memchr 0x0a p")
    case None
    then show ?thesis by (subst native_loop.simps) simp
  next
    case (Some e)
    then have e: "e < length p" "p \<noteq> []" by (auto simp: memchr_Some)
    let ?st = "st\<lparr>ns_allocated := True\<rparr>"
    have w: "weight ?st = weight st" by simp
    have IH: "\<exists>r. native_loop NE (drop k p) s ev = Some r"
      if "0 < k" "ns_allocated s" "weight s + length p + 1 \<le> ENTRY_SIZE_MAX + k" for k s ev
      using less.hyps [of "drop k p" s ev] that e(2) less.prems(2) by (cases "k \<le> length p") (auto simp: native_loop.simps)
    consider (separator) "e = 0" | (comment) "e \<noteq> 0" "p ! 0 = 0x2e \<or> p ! 0 = 0x23"
      | (field) "e \<noteq> 0" "\<not> (p ! 0 = 0x2e \<or> p ! 0 = 0x23)" by blast
    then show ?thesis
    proof cases
      case separator
      then have "hd p = 0x0a" using Some e(2) by (simp add: memchr_Some hd_conv_nth)
      then have a: "ns_allocated st" using less.prems(1) e(2) by auto
      have "\<not> weight st + 1 > ENTRY_SIZE_MAX" using less.prems(2) by simp
      moreover let ?s = "st\<lparr>ns_iovec := [], ns_priority := LOG_INFO, ns_entry_size := 0\<rparr>"
      have "\<exists>r. native_loop NE (drop 1 p) ?s ev = Some r" for ev using IH [of 1 ?s ev] a less.prems(2) by simp
      ultimately show ?thesis using separator Some a e(2) by (subst native_loop.simps) simp
    next
      case comment
      then have a: "ns_allocated st" using less.prems(1) e(2) by (auto simp: hd_conv_nth)
      show ?thesis using comment Some a e IH [of "e + 1" st evs] less.prems(2) by (subst native_loop.simps) auto
    next
      case field
      show ?thesis
      proof (cases "memchr 0x3d (take e p)")
        case (Some q)
        let ?s = "if valid_user_field (take q p) False then accept_line NE (take e p) ?st else ?st"
        have "weight ?s \<le> weight st + e + 1" using weight_accept [of NE "take e p" ?st] w e by auto
        then have "\<exists>r. native_loop NE (drop (e + 1) p) ?s evs = Some r"
          using IH [of "e + 1" ?s evs] less.prems(2) by auto
        then show ?thesis using field Some \<open>memchr 0x0a p = Some e\<close> e by (subst native_loop.simps) (simp add: Let_def)
      next
        case None
        let ?l = "le_value (take 8 (drop (e + 1) p))"
        let ?k = "take e p @ [0x3d] @ take ?l (drop (e + 1 + 8) p)"
        let ?s = "if valid_user_field (take e p) False then add_iovec ?k ?st else ?st"
        have "weight ?s \<le> weight st + (e + 1 + 8 + ?l + 1)" using e by (auto simp: add_iovec_def)
        then have r: "\<exists>r. native_loop NE (drop (e + 1 + 8 + ?l + 1) p) ?s evs = Some r"
          using IH [of "e + 1 + 8 + ?l + 1" ?s evs] less.prems(2) by auto
        show ?thesis using field None \<open>memchr 0x0a p = Some e\<close> e r
          by (subst native_loop.simps) (auto simp: Let_def)
      qed
    qed
  qed
qed



section \<open>The priorities\<close>

fun call_priority :: "daemon_call \<Rightarrow> nat" where
  "call_priority (Dispatch _ k) = k"
| "call_priority (ForwardSyslog k _ _) = k"
| "call_priority (ForwardRaw k _) = k"
| "call_priority (ForwardConsole k _ _) = k"

lemma dec_digit_le: "is_digit c \<Longrightarrow> dec_digit c \<le> 9"
proof -
  assume c: "is_digit c"
  then have "unat (c - 0x30) = unat c - 0x30" by (simp add: is_digit_def unat_sub)
  moreover have "unat c \<le> 0x39" using c by (simp add: is_digit_def word_le_nat_alt)
  ultimately show ?thesis by (simp add: dec_digit_def)
qed

text \<open>The facility stays below one hundred, also when the digit of a priority reaches into it.\<close>

lemma priority_bits:
  assumes "p div 8 \<le> 99" and "d \<le> 9"
  shows "((p AND LOG_FACMASK) OR d) div 8 \<le> 99"
proof -
  have m: "drop_bit 3 p AND 127 = drop_bit 3 p"
  proof -
    have "drop_bit 3 p AND 127 = take_bit 7 (drop_bit 3 p)" by (simp add: take_bit_eq_mask mask_numeral)
    then show ?thesis using assms(1) by (simp add: take_bit_nat_eq_self drop_bit_nat_eq)
  qed
  have "((p AND LOG_FACMASK) OR d) div 8 = drop_bit 3 ((p AND LOG_FACMASK) OR d)" by (simp add: drop_bit_nat_eq)
  also have "\<dots> = drop_bit 3 p OR drop_bit 3 d" using m by (simp add: LOG_FACMASK_def)
  finally have e: "((p AND LOG_FACMASK) OR d) div 8 = p div 8 OR d div 8" by (simp add: drop_bit_nat_eq)
  have "d div 8 = 0 \<or> d div 8 = 1" using assms(2) by auto
  then show ?thesis
  proof
    assume "d div 8 = 1"
    then have "((p AND LOG_FACMASK) OR d) div 8 = p div 8 + of_bool (even (p div 8))" using e or_one_eq [of "p div 8"] by simp
    then show ?thesis using assms(1) by (cases "p div 8 = 99") (auto simp: of_bool_def)
  qed (use e assms(1) in simp)
qed

lemma facility_bits:
  assumes "f \<le> 99"
  shows "((p AND LOG_PRIMASK) OR push_bit 3 f) div 8 \<le> 99"
proof -
  have "((p AND LOG_PRIMASK) OR push_bit 3 f) div 8 = drop_bit 3 ((p AND LOG_PRIMASK) OR push_bit 3 f)" by (simp add: drop_bit_nat_eq)
  also have "\<dots> = f" by (simp add: LOG_PRIMASK_def) (simp add: push_bit_nat_eq drop_bit_nat_eq)
  finally show ?thesis using assms by simp
qed

lemma accept_priority: "ns_priority st div 8 \<le> 99 \<Longrightarrow> ns_priority (accept_line NE p st) div 8 \<le> 99"
proof -
  have two: "dec_digit (p ! 16) * 10 + dec_digit (p ! 17) \<le> 99" if "is_digit (p ! 16)" "is_digit (p ! 17)"
    using dec_digit_le [OF that(1)] dec_digit_le [OF that(2)] by linarith
  assume "ns_priority st div 8 \<le> 99"
  note ok = this priority_bits [OF this dec_digit_le] facility_bits [OF two] facility_bits [OF order_trans [OF dec_digit_le]]
  show ?thesis unfolding accept_line_def Let_def add_iovec_def by (simp add: ok split: option.split)
qed

definition priorities_ok :: "native_state \<Rightarrow> daemon_call list \<Rightarrow> bool" where
  "priorities_ok st evs \<longleftrightarrow> ns_priority st div 8 \<le> 99 \<and> (\<forall>ev\<in>set evs. call_priority ev \<le> 999)"

lemma priorities_ok_step:
  assumes "priorities_ok st evs"
  shows "priorities_ok (st\<lparr>ns_allocated := True\<rparr>) evs" "priorities_ok (accept_line NE x (st\<lparr>ns_allocated := True\<rparr>)) evs"
    "priorities_ok (add_iovec x (st\<lparr>ns_allocated := True\<rparr>)) evs"
    "priorities_ok (st\<lparr>ns_iovec := [], ns_priority := LOG_INFO, ns_entry_size := 0\<rparr>) (evs @ [Dispatch xs (ns_priority st)])"
proof -
  have "ns_priority st \<le> 999" using assms unfolding priorities_ok_def by linarith
  then show "priorities_ok (st\<lparr>ns_allocated := True\<rparr>) evs" "priorities_ok (accept_line NE x (st\<lparr>ns_allocated := True\<rparr>)) evs"
    "priorities_ok (add_iovec x (st\<lparr>ns_allocated := True\<rparr>)) evs"
    "priorities_ok (st\<lparr>ns_iovec := [], ns_priority := LOG_INFO, ns_entry_size := 0\<rparr>) (evs @ [Dispatch xs (ns_priority st)])"
    using assms accept_priority [of "st\<lparr>ns_allocated := True\<rparr>"] by (auto simp: priorities_ok_def add_iovec_def LOG_INFO_def)
qed

lemma native_loop_priority: "native_loop NE p st evs = Some r \<Longrightarrow> priorities_ok st evs \<longrightarrow> priorities_ok (fst r) (snd r)"
  apply (erule native_loop.raw_induct [where P = "\<lambda>NE p st evs r. priorities_ok st evs \<longrightarrow> priorities_ok (fst r) (snd r)", rotated])
  subgoal premises step for loop NE p st evs r
    using step(2) priorities_ok_step [of st evs] unfolding Let_def
    by (auto split: if_splits option.splits dest!: step(1))
  done

lemma native_priority:
  assumes "server_process_native_message NE buffer = Some evs"
  shows "\<forall>ev\<in>set evs. call_priority ev \<le> 999"
proof -
  obtain st ev1 where l: "native_loop NE buffer native_start [] = Some (st, ev1)" and e: "evs = ev1 @ native_finish NE st"
    using assms by (auto simp: server_process_native_message_def split: option.splits)
  have "priorities_ok native_start []" by (simp add: native_start_def LOG_INFO_def priorities_ok_def)
  with native_loop_priority [OF l] have p: "ns_priority st div 8 \<le> 99" "\<forall>ev\<in>set ev1. call_priority ev \<le> 999" by (auto simp: priorities_ok_def)
  from p(1) have "ns_priority st \<le> 999" by linarith
  then have "\<forall>ev\<in>set (native_finish NE st). call_priority ev \<le> 999"
    by (auto simp: native_finish_def add_iovec_def Let_def split: option.split)
  with p(2) e show ?thesis by auto
qed

section \<open>What is sent is received\<close>

lemma le_bytes_value: "le_value (le_bytes k n) = n mod 256 ^ k"
proof (induction k arbitrary: n)
  case (Suc k)
  have "n mod (256 * 256 ^ k) = 256 * (n div 256 mod 256 ^ k) + n mod 256" by (rule mod_mult2_eq)
  then show ?case using Suc by (simp add: unat_of_nat)
qed simp

lemma le64_value: "n < 2 ^ 64 \<Longrightarrow> le_value (le64_bytes n) = n"
  by (simp add: le64_bytes_def le_bytes_value)

lemma le64_length [simp]: "length (le64_bytes n) = 8"
proof -
  have "length (le_bytes k n) = k" for k by (induction k arbitrary: n) simp_all
  then show ?thesis by (simp add: le64_bytes_def)
qed

text \<open>A field that the daemon takes from a client: a name it accepts and a value within the limit.\<close>

definition user_field :: "bytes \<Rightarrow> bool" where
  "user_field x \<longleftrightarrow> (\<exists>c. memchr 0x3d x = Some c \<and> valid_user_field (take c x) False) \<and> length x \<le> DATA_SIZE_MAX"

lemma valid_chars:
  assumes "valid_user_field p a"
  shows "p \<noteq> []" "0x0a \<notin> set p" "0x3d \<notin> set p" "p ! 0 \<noteq> 0x2e" "p ! 0 \<noteq> 0x23"
proof -
  have ne: "p \<noteq> []" and fc: "\<forall>c\<in>set p. field_char c" using assms by (auto simp: valid_user_field_def list_all_iff split: if_splits)
  have "\<not> field_char 0x0a" "\<not> field_char 0x3d" "\<not> field_char 0x2e" "\<not> field_char 0x23" by (simp_all add: field_char_def)
  then show "0x0a \<notin> set p" "0x3d \<notin> set p" "p ! 0 \<noteq> 0x2e" "p ! 0 \<noteq> 0x23" "p \<noteq> []"
    using fc ne nth_mem [of 0 p] by (metis, metis, metis length_greater_0_conv, metis length_greater_0_conv, simp)
qed

text \<open>A field without a newline: one line.\<close>

lemma native_line:
  assumes x: "memchr 0x3d x = Some c" "valid_user_field (take c x) False" and nl: "0x0a \<notin> set x"
  shows "native_loop NE (x @ [0x0a] @ rest) st evs = native_loop NE rest (accept_line NE x (st\<lparr>ns_allocated := True\<rparr>)) evs"
proof -
  note v = valid_chars [OF x(2)]
  have c: "c < length x" "x ! c = 0x3d" "0x3d \<notin> set (take c x)" using x(1) by (auto simp: memchr_Some)
  have "0 < c" using v(1) by (cases c) auto
  then have h: "x ! 0 = take c x ! 0" by simp
  have e: "memchr 0x0a (x @ [0x0a] @ rest) = Some (length x)" using nl by (simp add: memchr_Some)
  have q: "memchr 0x3d (take (length x) (x @ [0x0a] @ rest)) = Some c" using x(1) by simp
  have t: "take c (x @ [0x0a] @ rest) = take c x" "(x @ [0x0a] @ rest) ! 0 = x ! 0" using c(1) \<open>0 < c\<close> by (auto simp: nth_append)
  have "x \<noteq> []" using c(1) by auto
  then show ?thesis
    using e q t x(2) v(4,5) h by (subst native_loop.simps) (simp add: Let_def)
qed

text \<open>A field with a newline in its value: its name, the size and the value.\<close>

lemma native_binary:
  assumes n: "valid_user_field name False" and l: "length v \<le> DATA_SIZE_MAX"
  shows "native_loop NE (name @ [0x0a] @ le64_bytes (length v) @ v @ [0x0a] @ rest) st evs =
    native_loop NE rest (add_iovec (name @ [0x3d] @ v) (st\<lparr>ns_allocated := True\<rparr>)) evs"
proof -
  note c = valid_chars [OF n]
  let ?p = "name @ [0x0a] @ le64_bytes (length v) @ v @ [0x0a] @ rest" and ?n = "length name"
  have e: "memchr 0x0a ?p = Some ?n" using c(2) by (simp add: memchr_Some)
  have q: "memchr 0x3d (take ?n ?p) = None" using c(3) by (simp add: memchr_None)
  have "length v < 2 ^ 64" using l by (simp add: DATA_SIZE_MAX_def)
  note lv = le64_value [OF this]
  have t: "take 8 (drop (?n + 1) ?p) = le64_bytes (length v)" "drop (?n + 1 + 8) ?p = v @ [0x0a] @ rest"
    "?p ! (?n + 1 + 8 + length v) = 0x0a" "take ?n ?p = name" "?p ! 0 = name ! 0" "?n \<noteq> 0"
    using c(1) by (auto simp: nth_append)
  have t': "drop (?n + 1 + 8 + length v + 1) ?p = rest"
  proof -
    have "drop (?n + 1 + 8 + length v + 1) ?p = drop (length v + 1) (drop (?n + 1 + 8) ?p)"
      by (simp only: drop_drop add.assoc add.commute add.left_commute)
    then show ?thesis unfolding t(2) by simp
  qed
  have len: "\<not> length ?p < ?n + 1 + 8 + 1" "\<not> length ?p < ?n + 1 + 8 + length v + 1" by simp_all
  show ?thesis
    by (subst native_loop.simps) (use q t(5,6) c(1,4,5) len l n in \<open>simp only: e option.case Let_def t(1-4) t' lv list.distinct append_is_Nil_conv
      if_False if_True simp_thms\<close>, simp)
qed

definition received :: "native_env \<Rightarrow> bytes \<Rightarrow> native_state \<Rightarrow> native_state" where
  "received NE x st = (if 0x0a \<in> set x then add_iovec x (st\<lparr>ns_allocated := True\<rparr>) else accept_line NE x (st\<lparr>ns_allocated := True\<rparr>))"

lemma sendv_item_received:
  assumes x: "user_field x" and s: "sendv_item x = Inr b"
  shows "native_loop NE (b @ rest) st evs = native_loop NE rest (received NE x st) evs"
proof -
  from x obtain c where c: "memchr 0x3d x = Some c" "valid_user_field (take c x) False" "length x \<le> DATA_SIZE_MAX"
    by (auto simp: user_field_def)
  show ?thesis
  proof (cases "0x0a \<in> set x")
    case False
    then have "memchr 0x0a x = None" by (simp add: memchr_None)
    then have "b = x @ [0x0a]" using s c(1) by (auto simp: sendv_item_def split: if_splits)
    then show ?thesis using native_line [OF c(1,2) False] False by (simp add: received_def)
  next
    case True
    then obtain nl where nl: "memchr 0x0a x = Some nl" using memchr_None by fastforce
    have b: "b = take c x @ [0x0a] @ le64_bytes (length x - c - 1) @ drop (c + 1) x @ [0x0a]"
      using s c(1) nl by (auto simp: sendv_item_def split: if_splits)
    have cx: "c < length x" "x ! c = 0x3d" using c(1) by (auto simp: memchr_Some)
    then have "take c x @ [0x3d] @ drop (c + 1) x = x" by (metis Suc_eq_plus1 append_Cons append_Nil id_take_nth_drop)
    moreover have "length (drop (c + 1) x) = length x - c - 1" by simp
    ultimately show ?thesis
      using native_binary [OF c(2), of "drop (c + 1) x" NE rest st evs] c(3) True b by (simp add: received_def)
  qed
qed

lemma sendv_items_received:
  "list_all user_field iov \<Longrightarrow> sendv_items iov = Inr w \<Longrightarrow>
   native_loop NE (w @ rest) st evs = native_loop NE rest (fold (received NE) iov st) evs"
proof (induction iov arbitrary: w st)
  case (Cons x xs)
  from Cons.prems obtain b bs where b: "sendv_item x = Inr b" "sendv_items xs = Inr bs" "w = b @ bs" by (auto split: sum.splits)
  then show ?case using sendv_item_received [of x b NE "bs @ rest" st evs] Cons by simp
qed simp

lemma received_iovec:
  "ns_iovec (fold (received NE) iov st) = ns_iovec st @ iov"
  "ns_entry_size (fold (received NE) iov st) = ns_entry_size st + sum_list (map length iov)"
proof -
  have "ns_iovec (received NE x st) = ns_iovec st @ [x]" "ns_entry_size (received NE x st) = ns_entry_size st + length x" for x st
    by (auto simp: received_def accept_line_def add_iovec_def Let_def split: option.split)
  then show "ns_iovec (fold (received NE) iov st) = ns_iovec st @ iov"
    "ns_entry_size (fold (received NE) iov st) = ns_entry_size st + sum_list (map length iov)"
    by (induction iov arbitrary: st) simp_all
qed

text \<open>The fields a client sends, with the name of the program when it does not give one itself.\<close>

definition sent_fields :: "bytes \<Rightarrow> bytes list \<Rightarrow> bytes list" where
  "sent_fields program iov =
     iov @ (if \<exists>x\<in>set iov. names_program x then [] else [ascii ''SYSLOG_IDENTIFIER='' @ program])"

text \<open>The entry that is dispatched for what was sent.\<close>

lemma sendv_dispatched:
  assumes "sd_journal_sendv program iov = Inr datagram" and "list_all user_field iov"
    and "0x0a \<notin> set program"
    and "sum_list (map length (sent_fields program iov)) + length (sent_fields program iov) + 20 \<le> ENTRY_SIZE_MAX"
  shows "\<exists>fwd priority pid. server_process_native_message NE datagram =
      Some (fwd @ [Dispatch (sent_fields program iov @ [ascii ''_TRANSPORT=journal''] @ ne_meta NE @ message_object NE pid) priority]) \<and>
    (\<forall>ev\<in>set fwd. \<forall>xs k. ev \<noteq> Dispatch xs k)"
proof -
  let ?id = "ascii ''SYSLOG_IDENTIFIER='' @ program"
  let ?st = "fold (received NE) (sent_fields program iov) native_start"
  from assms(1) obtain w where w: "sendv_items iov = Inr w"
    and d: "datagram = (if \<exists>x\<in>set iov. names_program x then w else w @ ?id @ [0x0a])"
    by (auto simp: sd_journal_sendv_def split: if_splits sum.splits)
  have "memchr 0x3d ?id = Some 17" by (simp add: memchr_def ascii_def)
  moreover have "valid_user_field (take 17 ?id) False" by (simp add: ascii_def valid_user_field_def field_char_def)
  moreover have "0x0a \<notin> set ?id" using assms(3) by (simp add: ascii_def)
  ultimately have id: "native_loop NE (?id @ [0x0a] @ rest) st evs = native_loop NE rest (received NE ?id st) evs" for rest st evs
    using native_line [of ?id 17 NE rest st evs] by (simp add: received_def)
  have e: "native_loop NE [] st evs = Some (st, evs)" for st evs by (subst native_loop.simps) simp
  have "native_loop NE datagram native_start [] = Some (?st, [])"
  proof (cases "\<exists>x\<in>set iov. names_program x")
    case True
    then show ?thesis using sendv_items_received [OF assms(2) w, of NE "[]"] e unfolding d sent_fields_def by simp
  next
    case False
    then show ?thesis using sendv_items_received [OF assms(2) w, of NE "?id @ [0x0a]"] id [of "[]"] e unfolding d sent_fields_def by simp
  qed
  then have r: "server_process_native_message NE datagram = Some (native_finish NE ?st)"
    by (simp add: server_process_native_message_def)
  have v: "ns_iovec ?st = sent_fields program iov" "ns_entry_size ?st = sum_list (map length (sent_fields program iov))"
    using received_iovec [of NE "sent_fields program iov" native_start] by (simp_all add: native_start_def)
  have "iov \<noteq> []" using assms(1) by (auto simp: sd_journal_sendv_def split: if_splits)
  then have "ns_iovec ?st \<noteq> []" unfolding v by (simp add: sent_fields_def)
  moreover have "length (ascii ''_TRANSPORT=journal'') = 18" by (simp add: ascii_def)
  moreover have "ns_entry_size ?st + length (ns_iovec ?st) + 20 \<le> ENTRY_SIZE_MAX" using assms(4) v by simp
  ultimately show ?thesis
    unfolding r native_finish_def Let_def add_iovec_def by (auto simp: v split: option.split)
qed

text \<open>
  C8: What a client sends is what the daemon dispatches: the datagram of a list of fields with valid
  names, values with newlines and binary values included, is taken apart into exactly these fields, in
  their order, and dispatched as one entry, with the transport and what is added about the sender.
\<close>

theorem native_roundtrip:
  assumes "sd_journal_sendv program iov = Inr datagram" and "list_all user_field iov"
    and "0x0a \<notin> set program"
    and "sum_list (map length (sent_fields program iov)) + length (sent_fields program iov) + 20 \<le> ENTRY_SIZE_MAX"
  shows "\<exists>fwd priority pid. server_process_native_message NE datagram =
      Some (fwd @ [Dispatch (sent_fields program iov @ [ascii ''_TRANSPORT=journal''] @ ne_meta NE @ message_object NE pid) priority]) \<and>
    (\<forall>ev\<in>set fwd. \<forall>xs k. ev \<noteq> Dispatch xs k)"
  using assms by (rule sendv_dispatched)

section \<open>A datagram\<close>

text \<open>A sender that is not root and a daemon that forwards to the console.\<close>

definition native_env_example :: native_env where
  "native_env_example = \<lparr>ne_uid = Some 1000, ne_meta = [ascii ''_PID=77''], ne_object = (\<lambda>_. []), ne_object_pid = (\<lambda>_. None),
     ne_forward_to_syslog = False, ne_forward_to_console = True\<rparr>"

definition native_fields_example :: "bytes list" where
  "native_fields_example = [ascii ''MESSAGE=hi'', ascii ''A=x'' @ [0x0a] @ ascii ''y'', ascii ''PRIORITY=3'']"

lemma native_fields_fine: "list_all user_field native_fields_example"
  by (simp add: native_fields_example_def user_field_def memchr_def ascii_def valid_user_field_def field_char_def DATA_SIZE_MAX_def)

text \<open>The result of sending them and receiving the datagram.\<close>

lemma native_roundtrip_witness:
  "\<exists>fwd priority pid. server_process_native_message native_env_example
      (projr (sd_journal_sendv (ascii ''prog'') native_fields_example)) =
    Some (fwd @ [Dispatch (sent_fields (ascii ''prog'') native_fields_example @ [ascii ''_TRANSPORT=journal''] @
      ne_meta native_env_example @ message_object native_env_example pid) priority]) \<and>
    (\<forall>ev\<in>set fwd. \<forall>xs k. ev \<noteq> Dispatch xs k)"
proof -
  have s: "sd_journal_sendv (ascii ''prog'') native_fields_example = Inr (projr (sd_journal_sendv (ascii ''prog'') native_fields_example))"
    by (simp add: native_fields_example_def sd_journal_sendv_def sendv_item_def memchr_def ascii_def)
  show ?thesis
    by (rule native_roundtrip [OF s native_fields_fine])
      (simp_all add: ascii_def sent_fields_def native_fields_example_def names_program_def ENTRY_SIZE_MAX_def memchr_def)
qed


end
