(* ===== verification/Escapes.thy ===== *)
theory Escapes
  imports Utils
begin

text \<open>
  The digits and the C style escapes of \<open>shared/util.c\<close>: \<open>cescape\<close> and \<open>xescape\<close> write them, \<open>cunescape\<close> reads
  them; the latter gives back what was escaped.
\<close>

section \<open>Operations\<close>

definition hexchar :: "nat \<Rightarrow> u8" where
  "hexchar x = ascii ''0123456789abcdef'' ! (x AND 15)"

definition unhexchar :: "u8 \<Rightarrow> nat option" where
  "unhexchar c =
     (if c \<ge> 0x30 \<and> c \<le> 0x39 then Some (unat (c - 0x30))
      else if c \<ge> 0x61 \<and> c \<le> 0x66 then Some (unat (c - 0x61) + 10)
      else if c \<ge> 0x41 \<and> c \<le> 0x46 then Some (unat (c - 0x41) + 10)
      else None)"

definition octchar :: "nat \<Rightarrow> u8" where
  "octchar x = 0x30 + of_nat (x AND 7)"

definition unoctchar :: "u8 \<Rightarrow> nat option" where
  "unoctchar c = (if c \<ge> 0x30 \<and> c \<le> 0x37 then Some (unat (c - 0x30)) else None)"

definition undecchar :: "u8 \<Rightarrow> nat option" where
  "undecchar c = (if c \<ge> 0x30 \<and> c \<le> 0x39 then Some (unat (c - 0x30)) else None)"

text \<open>A character whose type is signed is below the blank also when its highest bit is set.\<close>

definition cescape_char :: "u8 \<Rightarrow> bytes" where
  "cescape_char f =
     (if f = 0x07 then [0x5c, 0x61]
      else if f = 0x08 then [0x5c, 0x62]
      else if f = 0x0c then [0x5c, 0x66]
      else if f = 0x0a then [0x5c, 0x6e]
      else if f = 0x0d then [0x5c, 0x72]
      else if f = 0x09 then [0x5c, 0x74]
      else if f = 0x0b then [0x5c, 0x76]
      else if f = 0x5c then [0x5c, 0x5c]
      else if f = 0x22 then [0x5c, 0x22]
      else if f = 0x27 then [0x5c, 0x27]
      else if f < 0x20 \<or> f \<ge> 127
      then [0x5c, octchar (drop_bit 6 (unat f)), octchar (drop_bit 3 (unat f)), octchar (unat f)]
      else [f])"

definition cescape :: "bytes \<Rightarrow> bytes" where
  "cescape s = concat (map cescape_char s)"

definition simple_escape :: "u8 \<Rightarrow> u8 option" where
  "simple_escape f =
     (if f = 0x61 then Some 0x07
      else if f = 0x62 then Some 0x08
      else if f = 0x66 then Some 0x0c
      else if f = 0x6e then Some 0x0a
      else if f = 0x72 then Some 0x0d
      else if f = 0x74 then Some 0x09
      else if f = 0x76 then Some 0x0b
      else if f = 0x5c then Some 0x5c
      else if f = 0x22 then Some 0x22
      else if f = 0x27 then Some 0x27
      else if f = 0x73 then Some 0x20
      else None)"

text \<open>
  The rest of the string and how many of its characters are to be read; an escape may reach over the
  end of these.
\<close>

function cunescape_loop :: "bytes \<Rightarrow> nat \<Rightarrow> bytes" where
  "cunescape_loop s n =
     (if n = 0 then []
      else if byte_at s 0 \<noteq> 0x5c then byte_at s 0 # cunescape_loop (drop 1 s) (n - 1)
      else
        let f = byte_at s 1 in
        case simple_escape f of
          Some c \<Rightarrow> c # cunescape_loop (drop 2 s) (n - 2)
        | None \<Rightarrow>
            if f = 0x78 then
              (case (unhexchar (byte_at s 2), unhexchar (byte_at s 3)) of
                 (Some a, Some b) \<Rightarrow> of_nat (push_bit 4 a OR b) # cunescape_loop (drop 4 s) (n - 4)
               | _ \<Rightarrow> 0x5c # 0x78 # cunescape_loop (drop 2 s) (n - 2))
            else if f \<ge> 0x30 \<and> f \<le> 0x37 then
              (case (unoctchar f, unoctchar (byte_at s 2), unoctchar (byte_at s 3)) of
                 (Some a, Some b, Some c) \<Rightarrow>
                   of_nat (push_bit 6 a OR push_bit 3 b OR c) # cunescape_loop (drop 4 s) (n - 4)
               | _ \<Rightarrow> 0x5c # f # cunescape_loop (drop 2 s) (n - 2))
            else if f = 0 then [0x5c]
            else 0x5c # f # cunescape_loop (drop 2 s) (n - 2))"
  by pat_completeness auto
termination
  by (relation "measure (\<lambda>(s, n). n)") auto

declare cunescape_loop.simps [simp del]

definition cunescape_length_with_prefix :: "bytes \<Rightarrow> nat \<Rightarrow> bytes \<Rightarrow> bytes" where
  "cunescape_length_with_prefix s len prefix = prefix @ cunescape_loop s len"

definition cunescape_length :: "bytes \<Rightarrow> nat \<Rightarrow> bytes" where
  "cunescape_length s len = cunescape_length_with_prefix s len []"

definition cunescape :: "bytes \<Rightarrow> bytes" where
  "cunescape s = cunescape_length s (length s)"

definition xescape_char :: "bytes \<Rightarrow> u8 \<Rightarrow> bytes" where
  "xescape_char bad f =
     (if f < 0x20 \<or> f \<ge> 127 \<or> f = 0x5c \<or> f \<in> set bad
      then [0x5c, 0x78, hexchar (drop_bit 4 (unat f)), hexchar (unat f)]
      else [f])"

definition xescape :: "bytes \<Rightarrow> bytes \<Rightarrow> bytes" where
  "xescape s bad = concat (map (xescape_char bad) s)"

section \<open>Reading back\<close>

lemma and_low: "x AND 7 = take_bit 3 x" "x AND 15 = take_bit 4 x" for x :: nat
  by (simp_all add: take_bit_eq_mask mask_numeral)

lemma less_eight: "k < (8 :: nat) \<Longrightarrow> k \<in> {0, 1, 2, 3, 4, 5, 6, 7}"
  by auto

lemma less_sixteen: "k < (16 :: nat) \<Longrightarrow> k \<in> {0, 1, 2, 3, 4, 5, 6, 7, 8, 9, 10, 11, 12, 13, 14, 15}"
proof -
  assume "k < 16"
  then have "k \<in> set [0..<16]" by simp
  then show ?thesis by (simp add: upt_rec numeral_eq_Suc)
qed

lemma octal_digit_value:
  "0x30 \<le> octchar x \<and> octchar x \<le> 0x37 \<and> unoctchar (octchar x) = Some (take_bit 3 x) \<and>
   simple_escape (octchar x) = None \<and> octchar x \<noteq> 0x78"
proof -
  have "take_bit 3 x < 8" by (simp add: take_bit_eq_mod)
  then show ?thesis unfolding octchar_def and_low
    by (elim less_eight [THEN insertE]) (auto simp: unoctchar_def simple_escape_def)
qed

lemma hex_digit_value: "unhexchar (hexchar x) = Some (take_bit 4 x)"
proof -
  have "take_bit 4 x < 16" by (simp add: take_bit_eq_mod)
  then show ?thesis unfolding hexchar_def and_low
    by (elim less_sixteen [THEN insertE]) (auto simp: unhexchar_def ascii_def)
qed

lemma octal_bits: "n < 256 \<Longrightarrow> push_bit 6 (take_bit 3 (drop_bit 6 n)) OR push_bit 3 (take_bit 3 (drop_bit 3 n)) OR take_bit 3 n = n"
  for n :: nat
proof -
  assume "n < 256"
  then have "take_bit 9 n = n" by (simp add: take_bit_nat_eq_self)
  moreover have "push_bit 6 (take_bit 3 (drop_bit 6 n)) OR push_bit 3 (take_bit 3 (drop_bit 3 n)) OR take_bit 3 n = take_bit 9 n"
  proof (rule bit_eqI)
    show "bit (push_bit 6 (take_bit 3 (drop_bit 6 n)) OR push_bit 3 (take_bit 3 (drop_bit 3 n)) OR take_bit 3 n) i = bit (take_bit 9 n) i" for i
      by (cases "6 \<le> i") (auto simp: bit_simps)
  qed
  ultimately show ?thesis by simp
qed

lemma hex_bits: "n < 256 \<Longrightarrow> push_bit 4 (take_bit 4 (drop_bit 4 n)) OR take_bit 4 n = n" for n :: nat
proof -
  assume "n < 256"
  then have "take_bit 8 n = n" by (simp add: take_bit_nat_eq_self)
  moreover have "push_bit 4 (take_bit 4 (drop_bit 4 n)) OR take_bit 4 n = take_bit 8 n"
    by (rule bit_eqI) (auto simp: bit_simps)
  ultimately show ?thesis by simp
qed

lemma byte_less: "unat (c :: u8) < 256"
  using unsigned_less [of c, where ?'a = nat] by simp

lemma byte_at_Cons [simp]: "byte_at (x # xs) 0 = x" "byte_at (x # xs) (Suc n) = byte_at xs n" "byte_at (x # xs) (numeral k) = byte_at xs (pred_numeral k)"
  by (simp_all add: byte_at_def)

lemma cunescape_cescape_char:
  "cunescape_loop (cescape_char c @ rest) (length (cescape_char c) + n) = c # cunescape_loop rest n"
proof -
  consider (plain) "cescape_char c = [c]" "c \<noteq> 0x5c"
    | (simple) d where "cescape_char c = [0x5c, d]" "simple_escape d = Some c"
    | (octal) "cescape_char c = [0x5c, octchar (drop_bit 6 (unat c)), octchar (drop_bit 3 (unat c)), octchar (unat c)]"
    by (fastforce simp: cescape_char_def simple_escape_def split: if_splits)
  then show ?thesis
  proof cases
    case plain
    then show ?thesis by (simp add: cunescape_loop.simps [of "c # rest"])
  next
    case simple
    then show ?thesis by (simp add: cunescape_loop.simps [of "_ # _ # rest"])
  next
    case octal
    then show ?thesis by (simp add: cunescape_loop.simps [of "_ # _ # _ # _ # rest"] octal_digit_value octal_bits byte_less)
  qed
qed

lemma cunescape_xescape_char:
  "cunescape_loop (xescape_char bad c @ rest) (length (xescape_char bad c) + n) = c # cunescape_loop rest n"
proof (cases "xescape_char bad c = [c]")
  case True
  then have "c \<noteq> 0x5c" by (auto simp: xescape_char_def split: if_splits)
  with True show ?thesis by (simp add: cunescape_loop.simps [of "c # rest"])
next
  case False
  then have x: "xescape_char bad c = [0x5c, 0x78, hexchar (drop_bit 4 (unat c)), hexchar (unat c)]"
    by (simp add: xescape_char_def split: if_splits)
  show ?thesis unfolding x
    by (simp add: cunescape_loop.simps [of "_ # _ # _ # _ # rest"] simple_escape_def hex_digit_value hex_bits byte_less)
qed

lemma cunescape_concat:
  assumes "\<And>c rest n. cunescape_loop (esc c @ rest) (length (esc c) + n) = c # cunescape_loop rest n"
  shows "cunescape_loop (concat (map esc s)) (length (concat (map esc s))) = s"
  by (induction s) (simp_all add: assms cunescape_loop.simps [of _ 0])

text \<open>
  C15: Escaping is undone by reading back, for the escapes with letters and octal numbers and for those
  with hexadecimal numbers, whatever the bytes of the string.
\<close>

theorem cunescape_cescape: "cunescape (cescape s) = s \<and> cunescape (xescape s bad) = s"
  unfolding cunescape_def cunescape_length_def cunescape_length_with_prefix_def cescape_def xescape_def
  by (simp add: cunescape_concat cunescape_cescape_char cunescape_xescape_char)

end
