(* ===== verification/Syslog_Protocol.thy ===== *)
theory Syslog_Protocol
  imports Native_Protocol Escapes
begin

text \<open>
  The syslog protocol (\<open>src/core/journald-syslog.c\<close>): the priority, the date and the identifier of a message
  are taken off and the rest is dispatched with them; a message that is forwarded gets them in front.  A
  forwarded message is read back as it was, and every message gives an entry.
\<close>

section \<open>Parsing a message\<close>

definition whitespace :: "u8 \<Rightarrow> bool" where
  "whitespace c \<longleftrightarrow> c = 0x20 \<or> c = 0x09 \<or> c = 0x0a \<or> c = 0x0d"

abbreviation strspn :: "bytes \<Rightarrow> nat" where
  "strspn s \<equiv> length (takeWhile whitespace s)"

abbreviation strcspn :: "bytes \<Rightarrow> nat" where
  "strcspn s \<equiv> length (takeWhile (\<lambda>c. \<not> whitespace c) s)"

definition strstrip :: "bytes \<Rightarrow> bytes" where
  "strstrip s = (let s = drop (strspn s) s in rev (dropWhile whitespace (rev s)))"

definition LOG_USER :: nat where "LOG_USER = 8"

definition LOG_PRI :: "nat \<Rightarrow> nat" where
  "LOG_PRI p = p AND LOG_PRIMASK"

definition LOG_FAC :: "nat \<Rightarrow> nat" where
  "LOG_FAC p = drop_bit 3 (p AND LOG_FACMASK)"

definition syslog_fixup_facility :: "nat \<Rightarrow> nat" where
  "syslog_fixup_facility priority =
     (if priority AND LOG_FACMASK = 0 then (priority AND LOG_PRIMASK) OR LOG_USER else priority)"

text \<open>The search for the bracket before the number of the process, backwards from \<open>k\<close>.\<close>

fun pid_start :: "bytes \<Rightarrow> nat \<Rightarrow> nat \<Rightarrow> nat \<times> bytes option" where
  "pid_start p l k =
     (if p ! k = 0x5b then (k, Some (take (l - k - 2) (drop (k + 1) p)))
      else if k = 0 then (l, None)
      else pid_start p l (k - 1))"

declare pid_start.simps [simp del]

text \<open>
  The result is the number that is returned, the rest of the buffer, the identifier and the process.
  A word that is just a colon makes the code look at the byte before the word: \<open>before\<close> is the byte before
  the buffer.  When it finds a closing bracket there it goes on backwards out of the buffer, and there
  is no result.
\<close>

definition syslog_parse_identifier :: "u8 \<Rightarrow> bytes \<Rightarrow> (nat \<times> bytes \<times> bytes option \<times> bytes option) option" where
  "syslog_parse_identifier before buf =
     (let n = strspn buf; p = drop n buf; l = strcspn p in
      if l \<le> 0 \<or> p ! (l - 1) \<noteq> 0x3a then Some (0, buf, None, None)
      else
        let e = l; l = l - 1 in
        if l = 0 \<and> (if n = 0 then before else buf ! (n - 1)) = 0x5d then None
        else
          let (l, pid) = (if l > 0 \<and> p ! (l - 1) = 0x5d then pid_start p l (l - 1) else (l, None));
              e = e + strspn (drop e p)
          in Some (e, drop e p, Some (take l p), pid))"

text \<open>
  The code looks at up to four bytes after the first, also when the string ends before; what is there
  makes no difference, as the character after the first is then no digit.
\<close>

definition priority_digits :: "bytes \<Rightarrow> (nat option \<times> nat option \<times> nat option \<times> nat) option" where
  "priority_digits p =
     (if byte_at p 2 = 0x3e then Some (Some 0, Some 0, undecchar (byte_at p 1), 3)
      else if byte_at p 3 = 0x3e then Some (Some 0, undecchar (byte_at p 1), undecchar (byte_at p 2), 4)
      else if byte_at p 4 = 0x3e
      then Some (undecchar (byte_at p 1), undecchar (byte_at p 2), undecchar (byte_at p 3), 5)
      else None)"

definition syslog_parse_priority :: "bytes \<Rightarrow> nat \<Rightarrow> bool \<Rightarrow> bytes \<times> nat" where
  "syslog_parse_priority p priority with_facility =
     (if byte_at p 0 \<noteq> 0x3c then (p, priority)
      else if 0x3e \<notin> set p then (p, priority)
      else case priority_digits p of
        Some (Some a, Some b, Some c, k) \<Rightarrow>
          if \<not> with_facility \<and> (a \<noteq> 0 \<or> b \<noteq> 0 \<or> c > 7) then (p, priority)
          else (drop k p, if with_facility then a * 100 + b * 10 + c else (priority AND LOG_FACMASK) OR c)
      | _ \<Rightarrow> (p, priority))"

datatype date_part = LETTER | SPACE | NUMBER | SPACE_OR_NUMBER | COLON

definition date_sequence :: "date_part list" where
  "date_sequence =
     [LETTER, LETTER, LETTER, SPACE, SPACE_OR_NUMBER, NUMBER, SPACE, SPACE_OR_NUMBER, NUMBER, COLON,
      SPACE_OR_NUMBER, NUMBER, COLON, SPACE_OR_NUMBER, NUMBER, SPACE]"

fun date_part_fits :: "date_part \<Rightarrow> u8 \<Rightarrow> bool" where
  "date_part_fits SPACE c \<longleftrightarrow> c = 0x20"
| "date_part_fits SPACE_OR_NUMBER c \<longleftrightarrow> c = 0x20 \<or> \<not> (c < 0x30 \<or> c > 0x39)"
| "date_part_fits NUMBER c \<longleftrightarrow> \<not> (c < 0x30 \<or> c > 0x39)"
| "date_part_fits LETTER c \<longleftrightarrow> c \<ge> 0x41 \<and> c \<le> 0x5a \<or> c \<ge> 0x61 \<and> c \<le> 0x7a"
| "date_part_fits COLON c \<longleftrightarrow> c = 0x3a"

fun skip_date_loop :: "date_part list \<Rightarrow> bytes \<Rightarrow> bytes option" where
  "skip_date_loop [] p = Some p"
| "skip_date_loop (x # xs) [] = None"
| "skip_date_loop (x # xs) (c # p) = (if date_part_fits x c then skip_date_loop xs p else None)"

definition syslog_skip_date :: "bytes \<Rightarrow> bytes" where
  "syslog_skip_date buf = (case skip_date_loop date_sequence buf of None \<Rightarrow> buf | Some p \<Rightarrow> p)"

text \<open>Numbers as \<open>printf\<close> writes them.\<close>

fun dec_bytes :: "nat \<Rightarrow> bytes" where
  "dec_bytes n = (if n < 10 then [] else dec_bytes (n div 10)) @ [0x30 + of_nat (n mod 10)]"

declare dec_bytes.simps [simp del]

definition syslog_fields :: "nat \<Rightarrow> bytes option \<Rightarrow> bytes option \<Rightarrow> bytes \<Rightarrow> bytes list" where
  "syslog_fields priority identifier pid message =
     [ascii ''_TRANSPORT=syslog'', ascii ''PRIORITY='' @ dec_bytes (priority AND LOG_PRIMASK)] @
     (if priority AND LOG_FACMASK \<noteq> 0 then [ascii ''SYSLOG_FACILITY='' @ dec_bytes (LOG_FAC priority)] else []) @
     (case identifier of None \<Rightarrow> [] | Some t \<Rightarrow> [ascii ''SYSLOG_IDENTIFIER='' @ t]) @
     (case pid of None \<Rightarrow> [] | Some t \<Rightarrow> [ascii ''SYSLOG_PID='' @ t]) @
     [ascii ''MESSAGE='' @ message]"

definition server_process_syslog_message :: "native_env \<Rightarrow> u8 \<Rightarrow> bytes \<Rightarrow> daemon_call list option" where
  "server_process_syslog_message NE before buf =
     (let orig = buf;
          (buf, priority) = syslog_parse_priority buf (LOG_USER OR LOG_INFO) True;
          buf = syslog_skip_date buf;
          k = length orig - length buf
      in case syslog_parse_identifier (if k = 0 then before else orig ! (k - 1)) buf of
           None \<Rightarrow> None
         | Some (_, buf, identifier, pid) \<Rightarrow>
             Some ((if ne_forward_to_syslog NE then [ForwardRaw priority orig] else []) @
               (if ne_forward_to_console NE then [ForwardConsole priority identifier buf] else []) @
               [Dispatch (syslog_fields priority identifier pid buf @ ne_meta NE) priority]))"

section \<open>Forwarding a message\<close>

text \<open>The local time, and its form \<open>%h %e %T\<close> with a blank after it.\<close>

record tm =
  tm_mon :: nat
  tm_mday :: nat
  tm_hour :: nat
  tm_min :: nat
  tm_sec :: nat

definition month_names :: "string list" where
  "month_names = [''Jan'', ''Feb'', ''Mar'', ''Apr'', ''May'', ''Jun'', ''Jul'', ''Aug'', ''Sep'', ''Oct'', ''Nov'', ''Dec'']"

definition two_digits :: "u8 \<Rightarrow> nat \<Rightarrow> bytes" where
  "two_digits pad n = [if n < 10 then pad else 0x30 + of_nat (n div 10), 0x30 + of_nat (n mod 10)]"

definition header_time :: "tm \<Rightarrow> bytes" where
  "header_time t = ascii (month_names ! tm_mon t) @ [0x20] @ two_digits 0x20 (tm_mday t) @ [0x20] @
     two_digits 0x30 (tm_hour t) @ [0x3a] @ two_digits 0x30 (tm_min t) @ [0x3a] @ two_digits 0x30 (tm_sec t) @ [0x20]"

text \<open>
  The datagram that is sent, if there is one.  The process of the sender, the name of this process and the
  local time are arguments.
\<close>

definition forward_syslog_raw :: "nat \<Rightarrow> nat \<Rightarrow> bytes \<Rightarrow> bytes option" where
  "forward_syslog_raw max_level priority buffer = (if LOG_PRI priority > max_level then None else Some buffer)"

definition server_forward_syslog ::
  "nat \<Rightarrow> nat \<Rightarrow> bytes option \<Rightarrow> bytes \<Rightarrow> nat option \<Rightarrow> bytes option \<Rightarrow> tm option \<Rightarrow> bytes option" where
  "server_forward_syslog max_level priority identifier message ucred comm tm =
     (if LOG_PRI priority > max_level then None
      else case tm of
        None \<Rightarrow> None
      | Some t \<Rightarrow>
          Some ([0x3c] @ dec_bytes priority @ [0x3e] @ header_time t @
            (case ucred of
               Some pid \<Rightarrow>
                 (case (case identifier of None \<Rightarrow> comm | Some i \<Rightarrow> Some i) of None \<Rightarrow> [] | Some i \<Rightarrow> i) @
                 [0x5b] @ dec_bytes pid @ ascii '']: ''
             | None \<Rightarrow> (case identifier of None \<Rightarrow> [] | Some i \<Rightarrow> i @ ascii '': '')) @
            message))"

section \<open>A forwarded message is read back\<close>

lemma undecchar_digit: "d < 10 \<Longrightarrow> undecchar (0x30 + of_nat d) = Some d \<and> (0x30 :: u8) + of_nat d \<noteq> 0x3e"
proof -
  assume "d < 10"
  then have "d \<in> {0, 1, 2, 3, 4, 5, 6, 7, 8, 9}" by auto
  then show ?thesis by (elim insertE) (auto simp: undecchar_def)
qed

lemma digit_char:
  assumes "d < 10"
  shows "\<not> (0x30 + of_nat d < (0x30 :: u8))" "\<not> (0x30 + of_nat d > (0x39 :: u8))" "\<not> whitespace (0x30 + of_nat d)"
    "0x30 + of_nat d \<noteq> (0x5b :: u8)" "0x30 + of_nat d \<noteq> (0x0 :: u8)"
proof -
  have "d \<in> {0, 1, 2, 3, 4, 5, 6, 7, 8, 9}" using assms by auto
  then show "\<not> (0x30 + of_nat d < (0x30 :: u8))" "\<not> (0x30 + of_nat d > (0x39 :: u8))" "\<not> whitespace (0x30 + of_nat d)"
    "0x30 + of_nat d \<noteq> (0x5b :: u8)" "0x30 + of_nat d \<noteq> (0x0 :: u8)"
    by (auto simp: whitespace_def)
qed

lemma dec_bytes_digits: "c \<in> set (dec_bytes n) \<Longrightarrow> \<exists>d < 10. c = 0x30 + of_nat d"
proof (induction n rule: dec_bytes.induct)
  case (1 n)
  then show ?case by (subst (asm) (2) dec_bytes.simps) (auto split: if_splits intro: exI [of _ "n mod 10"])
qed

lemma parse_priority_back:
  assumes "priority \<le> 999"
  shows "syslog_parse_priority ([0x3c] @ dec_bytes priority @ [0x3e] @ rest) old True = (rest, priority)"
proof -
  consider (one) "priority < 10" | (two) "10 \<le> priority" "priority < 100" | (three) "100 \<le> priority" by linarith
  then show ?thesis
  proof cases
    case one
    then have "dec_bytes priority = [0x30 + of_nat priority]" by (simp add: dec_bytes.simps)
    then show ?thesis using undecchar_digit [OF one]
      by (simp add: syslog_parse_priority_def priority_digits_def)
  next
    case two
    then have "dec_bytes priority = [0x30 + of_nat (priority div 10), 0x30 + of_nat (priority mod 10)]"
      by (simp add: dec_bytes.simps [of priority] dec_bytes.simps [of "priority div 10"])
    then show ?thesis using undecchar_digit [of "priority div 10"] undecchar_digit [of "priority mod 10"] two
      by (simp add: syslog_parse_priority_def priority_digits_def)
  next
    case three
    have "dec_bytes (priority div 100) = [0x30 + of_nat (priority div 100)]"
      using assms by (subst dec_bytes.simps) simp
    moreover have "dec_bytes (priority div 10) = dec_bytes (priority div 100) @ [0x30 + of_nat (priority div 10 mod 10)]"
      using three by (subst dec_bytes.simps) (simp add: div_mult2_eq [symmetric] div_less_iff_less_mult)
    moreover have "dec_bytes priority = dec_bytes (priority div 10) @ [0x30 + of_nat (priority mod 10)]"
      using three by (subst dec_bytes.simps) simp
    ultimately have d: "dec_bytes priority =
        [0x30 + of_nat (priority div 100), 0x30 + of_nat (priority div 10 mod 10), 0x30 + of_nat (priority mod 10)]" by simp
    have "priority div 100 * 100 + priority div 10 mod 10 * 10 + priority mod 10 = priority"
    proof -
      have "priority div 10 div 10 = priority div 100" by (simp add: div_mult2_eq [symmetric])
      then show ?thesis using div_mult_mod_eq [of priority 10] div_mult_mod_eq [of "priority div 10" 10] by linarith
    qed
    then show ?thesis
      using undecchar_digit [of "priority div 100"] undecchar_digit [of "priority div 10 mod 10"] undecchar_digit [of "priority mod 10"] assms d
      by (simp add: syslog_parse_priority_def priority_digits_def)
  qed
qed

definition tm_ok :: "tm \<Rightarrow> bool" where
  "tm_ok t \<longleftrightarrow> tm_mon t < 12 \<and> 1 \<le> tm_mday t \<and> tm_mday t \<le> 31 \<and> tm_hour t < 24 \<and> tm_min t < 60 \<and> tm_sec t \<le> 60"

lemma two_digits_fit:
  assumes "n < 100" "pad = 0x20 \<or> pad = 0x30"
  shows "\<exists>x y. two_digits pad n = [x, y] \<and> date_part_fits SPACE_OR_NUMBER x \<and> date_part_fits NUMBER y"
  using assms digit_char [of "n div 10"] digit_char [of "n mod 10"] by (auto simp: two_digits_def)

lemma month_letters: "m < 12 \<Longrightarrow> \<exists>x y z. ascii (month_names ! m) = [x, y, z] \<and> date_part_fits LETTER x \<and> date_part_fits LETTER y \<and> date_part_fits LETTER z"
proof -
  have "\<forall>m\<in>set month_names. \<exists>x y z. ascii m = [x, y, z] \<and> date_part_fits LETTER x \<and> date_part_fits LETTER y \<and> date_part_fits LETTER z"
    by (simp add: month_names_def ascii_def)
  moreover assume "m < 12"
  then have "month_names ! m \<in> set month_names" by (intro nth_mem) (simp add: month_names_def)
  ultimately show ?thesis by blast
qed

lemma skip_date_back:
  assumes "tm_ok t"
  shows "syslog_skip_date (header_time t @ rest) = rest"
proof -
  obtain x y z where m: "ascii (month_names ! tm_mon t) = [x, y, z]" "date_part_fits LETTER x" "date_part_fits LETTER y" "date_part_fits LETTER z"
    using month_letters [of "tm_mon t"] assms by (auto simp: tm_ok_def)
  have lim: "tm_mday t < 100" "tm_hour t < 100" "tm_min t < 100" "tm_sec t < 100" using assms by (auto simp: tm_ok_def)
  from two_digits_fit [OF lim(1), where pad = "0x20"] two_digits_fit [OF lim(2), where pad = "0x30"] two_digits_fit [OF lim(3), where pad = "0x30"] two_digits_fit [OF lim(4), where pad = "0x30"]
  obtain d e h i m' n s u where "two_digits 0x20 (tm_mday t) = [d, e]" "two_digits 0x30 (tm_hour t) = [h, i]"
    "two_digits 0x30 (tm_min t) = [m', n]" "two_digits 0x30 (tm_sec t) = [s, u]"
    "list_all (date_part_fits SPACE_OR_NUMBER) [d, h, m', s]" "list_all (date_part_fits NUMBER) [e, i, n, u]"
    by auto
  with m show ?thesis by (simp add: syslog_skip_date_def header_time_def date_sequence_def)
qed

lemma header_time_last: "header_time t \<noteq> [] \<and> last (header_time t) = 0x20"
  by (simp add: header_time_def)

lemma pid_start_back:
  assumes "0x5b \<notin> set ds" and "j \<le> length ds"
  shows "pid_start (i @ [0x5b] @ ds @ rest) l (length i + j) = (length i, Some (take (l - length i - 2) (ds @ rest)))"
  using assms(2)
proof (induction j)
  case 0
  then show ?case by (simp add: pid_start.simps nth_append)
next
  case (Suc j)
  then have "(i @ [0x5b] @ ds @ rest) ! (length i + Suc j) = ds ! j" by (simp add: nth_append)
  moreover have "ds ! j \<noteq> 0x5b" using assms(1) Suc.prems by (metis Suc_le_eq nth_mem)
  ultimately show ?case using Suc by (subst pid_start.simps) simp
qed

lemma whitespace_chars [simp]: "whitespace 0x20" "\<not> whitespace 0x5b" "\<not> whitespace 0x5d" "\<not> whitespace 0x3a" "\<not> whitespace 0x3c"
  by (simp_all add: whitespace_def)

lemma parse_identifier_back:
  assumes i: "\<forall>c\<in>set i. \<not> whitespace c" and m: "rest = [] \<or> (\<exists>m. rest = 0x20 # m \<and> (m = [] \<or> \<not> whitespace (hd m)))"
  shows "\<exists>e. syslog_parse_identifier before (i @ [0x5b] @ dec_bytes pid @ [0x5d, 0x3a] @ rest) =
    Some (e, drop 1 rest, Some i, Some (dec_bytes pid))"
proof -
  let ?w = "i @ [0x5b] @ dec_bytes pid @ [0x5d, 0x3a]"
  have "\<forall>c\<in>set (dec_bytes pid). \<not> whitespace c \<and> c \<noteq> 0x5b" using dec_bytes_digits digit_char(3,4) by metis
  then have ds: "\<forall>c\<in>set (dec_bytes pid). \<not> whitespace c" "0x5b \<notin> set (dec_bytes pid)" by auto
  have w: "\<forall>c\<in>set ?w. \<not> whitespace c" using i ds(1) by auto
  have h: "\<not> whitespace (hd ?w)" using w by (metis append_is_Nil_conv hd_in_set list.distinct(1))
  have s: "strspn (?w @ rest) = 0"
  proof -
    have "hd (?w @ rest) = hd ?w" by (cases i) simp_all
    then show ?thesis using h by (cases "?w @ rest") auto
  qed
  have c: "strcspn (?w @ rest) = length ?w"
    using w m by (subst takeWhile_append2) auto
  have t: "take (length i) (?w @ rest) = i" by simp
  let ?l = "length ?w - 1"
  have l: "?l > 0" "(?w @ rest) ! ?l = 0x3a" "(?w @ rest) ! (?l - 1) = 0x5d" by (simp_all add: nth_append)
  have "pid_start (?w @ rest) ?l (?l - 1) = (length i, Some (take (?l - length i - 2) (dec_bytes pid @ [0x5d] @ [0x3a] @ rest)))"
  proof -
    have "?l - 1 = length i + Suc (length (dec_bytes pid))" by simp
    moreover have "0x5b \<notin> set (dec_bytes pid @ [0x5d])" using ds(2) by simp
    ultimately show ?thesis
      using pid_start_back [of "dec_bytes pid @ [0x5d]" "Suc (length (dec_bytes pid))" i "[0x3a] @ rest" ?l] by simp
  qed
  then have ps: "pid_start (?w @ rest) ?l (?l - 1) = (length i, Some (dec_bytes pid))" by simp
  have e: "drop (length ?w + strspn (drop (length ?w) (?w @ rest))) (?w @ rest) = drop 1 rest"
  proof -
    have "strspn rest = (if rest = [] then 0 else 1)" using m by (auto simp: neq_Nil_conv takeWhile_eq_Nil_iff)
    moreover have "drop (length w + k) (w @ rest) = drop k rest" "drop (length w) (w @ rest) = rest" for w :: bytes and k by simp_all
    ultimately show ?thesis by (simp only: split: if_split) simp
  qed
  have "syslog_parse_identifier before (?w @ rest) =
      Some (length ?w + strspn (drop (length ?w) (?w @ rest)), drop 1 rest, Some i, Some (dec_bytes pid))"
    unfolding syslog_parse_identifier_def Let_def s c drop_0 using l ps e t by simp
  then show ?thesis by auto
qed

lemma strstrip_whole:
  assumes "s \<noteq> []" "\<not> whitespace (hd s)" "\<not> whitespace (last s)"
  shows "strstrip s = s" "strstrip (s @ [0x20]) = s"
proof -
  have h: "strspn s = 0" "strspn (s @ [0x20]) = 0" using assms(1,2) by (cases s; simp)+
  obtain t where t: "rev s = last s # t" using assms(1) by (metis append_butlast_last_id rev_eq_Cons_iff rev_rev_ident)
  have "dropWhile whitespace (rev s) = rev s" unfolding t using assms(3) by simp
  then show "strstrip s = s" "strstrip (s @ [0x20]) = s" using h by (simp_all add: strstrip_def)
qed

text \<open>
  C9: A message that the daemon forwards to a syslog socket is read back, by the function that parses such
  messages, with the same priority, identifier, process and text: the entry dispatched for it has exactly
  these fields.
\<close>

theorem syslog_forward_roundtrip:
  assumes "server_forward_syslog max_level priority identifier message (Some pid) comm (Some t) = Some datagram"
    and "(case identifier of None \<Rightarrow> comm | Some i \<Rightarrow> Some i) = Some i" and "priority \<le> 999" and "tm_ok t"
    and "\<forall>c\<in>set i. \<not> whitespace c" and "message = [] \<or> \<not> whitespace (hd message) \<and> \<not> whitespace (last message)"
  shows "\<exists>fwd. server_process_syslog_message NE before (strstrip datagram) =
      Some (fwd @ [Dispatch (syslog_fields priority (Some i) (Some (dec_bytes pid)) message @ ne_meta NE) priority]) \<and>
    (\<forall>ev\<in>set fwd. \<forall>xs k. ev \<noteq> Dispatch xs k)"
proof -
  let ?rest = "if message = [] then [] else 0x20 # message"
  let ?word = "i @ [0x5b] @ dec_bytes pid @ [0x5d, 0x3a]"
  let ?head = "[0x3c] @ dec_bytes priority @ [0x3e] @ header_time t"
  have d: "datagram = ?head @ ?word @ 0x20 # message"
    using assms(1,2) by (auto simp: server_forward_syslog_def ascii_def split: if_splits)
  have st: "strstrip datagram = ?head @ ?word @ ?rest"
  proof (cases "message = []")
    case True
    then show ?thesis unfolding d using strstrip_whole(2) [of "?head @ ?word"] by simp
  next
    case False
    then show ?thesis unfolding d using strstrip_whole(1) [of "?head @ ?word @ 0x20 # message"] assms(6) by simp
  qed
  have "?rest = [] \<or> (\<exists>m. ?rest = 0x20 # m \<and> (m = [] \<or> \<not> whitespace (hd m)))" using assms(6) by auto
  then obtain e where e: "syslog_parse_identifier 0x20 (?word @ ?rest) = Some (e, drop 1 ?rest, Some i, Some (dec_bytes pid))"
    using parse_identifier_back [OF assms(5), where rest = ?rest and before = "0x20" and pid = pid] by auto
  have p: "syslog_parse_priority (?head @ ?word @ ?rest) old True = (header_time t @ ?word @ ?rest, priority)" for old
    using parse_priority_back [OF assms(3), where rest = "header_time t @ ?word @ ?rest" and old = old] by simp
  have s: "syslog_skip_date (header_time t @ ?word @ ?rest) = ?word @ ?rest" by (rule skip_date_back [OF assms(4)])
  have k: "length (?head @ ?word @ ?rest) - length (?word @ ?rest) = length ?head" by simp
  have b: "(?head @ ?word @ ?rest) ! (length ?head - 1) = 0x20"
  proof -
    have "(?head @ ?word @ ?rest) ! (length ?head - 1) = last ?head" by (subst nth_append) (simp add: last_conv_nth nth_append)
    then show ?thesis using header_time_last by simp
  qed
  have m: "drop 1 ?rest = message" by simp
  show ?thesis
    unfolding server_process_syslog_message_def st Let_def p prod.case s k b
    using e m by (auto simp: Let_def)
qed

section \<open>Every message gives an entry\<close>

lemma priority_consumed:
  assumes "syslog_parse_priority p old True = (q, priority)" and "old \<le> 999"
  shows "priority \<le> 999" "q = p \<or> (\<exists>k. q = drop k p \<and> 0 < k \<and> k \<le> length p \<and> p ! (k - 1) = 0x3e)"
proof -
  have in_range: "i < length p \<and> p ! i = 0x3e" if "byte_at p i = 0x3e" for i
    using that by (auto simp: byte_at_def split: if_splits)
  have dec: "d \<le> 9" if "undecchar c = Some d" for c d
    using that dec_digit_le [of c] by (auto simp: undecchar_def is_digit_def dec_digit_def split: if_splits)
  show "priority \<le> 999"
    using assms by (auto simp: syslog_parse_priority_def priority_digits_def split: if_splits option.splits prod.splits dest!: dec)
  show "q = p \<or> (\<exists>k. q = drop k p \<and> 0 < k \<and> k \<le> length p \<and> p ! (k - 1) = 0x3e)"
    using assms(1) in_range [of 2] in_range [of 3] in_range [of 4]
    by (auto simp: syslog_parse_priority_def priority_digits_def Suc_le_eq split: if_splits option.splits prod.splits)
qed

lemma skip_date_loop_Some:
  "skip_date_loop xs p = Some q \<Longrightarrow> q = drop (length xs) p \<and> length xs \<le> length p \<and> (\<forall>i < length xs. date_part_fits (xs ! i) (p ! i))"
proof (induction xs p rule: skip_date_loop.induct)
  case (3 x xs c p)
  then show ?case by (auto simp: nth_Cons split: if_splits nat.splits)
qed auto

lemma date_consumed:
  "syslog_skip_date p = p \<or> (\<exists>k. syslog_skip_date p = drop k p \<and> 0 < k \<and> k \<le> length p \<and> p ! (k - 1) = 0x20)"
proof (cases "skip_date_loop date_sequence p")
  case (Some q)
  have len: "length date_sequence = 16" and sp: "date_sequence ! 15 = SPACE" by (simp_all add: date_sequence_def)
  from skip_date_loop_Some [OF Some] have "q = drop 16 p" "16 \<le> length p" and fits: "\<forall>i < 16. date_part_fits (date_sequence ! i) (p ! i)"
    unfolding len by blast+
  from fits sp have "p ! 15 = 0x20" by (metis date_part_fits.simps(1) numeral_less_iff semiring_norm(76,78,81,77,80))
  with \<open>q = drop 16 p\<close> \<open>16 \<le> length p\<close> Some show ?thesis by (auto simp: syslog_skip_date_def intro!: exI [of _ 16])
qed (simp add: syslog_skip_date_def)

text \<open>The byte before what is left is the end of the priority or of the date.\<close>

lemma consumed_before:
  assumes "syslog_parse_priority orig old True = (q, priority)" and "old \<le> 999" and "buf = syslog_skip_date q" and "length orig - length buf \<noteq> 0"
  shows "orig ! (length orig - length buf - 1) \<noteq> 0x5d" "buf = drop (length orig - length buf) orig"
proof -
  from priority_consumed(2) [OF assms(1,2)] obtain i where i: "q = drop i orig" "i \<le> length orig" "0 < i \<longrightarrow> orig ! (i - 1) = 0x3e"
    by (metis drop_0 le0 less_irrefl)
  from date_consumed [of q] obtain j where j: "buf = drop j q" "j \<le> length q" "0 < j \<longrightarrow> q ! (j - 1) = 0x20"
    unfolding assms(3) by (metis drop_0 le0 less_irrefl)
  have k: "length orig - length buf = i + j" using i(1,2) j(1,2) by simp
  show "buf = drop (length orig - length buf) orig" unfolding k using i(1) j(1) by (simp add: add.commute)
  show "orig ! (length orig - length buf - 1) \<noteq> 0x5d"
  proof (cases "j = 0")
    case True
    then show ?thesis unfolding k using assms(4) i(3) k by simp
  next
    case False
    then have "orig ! (i + j - 1) = q ! (j - 1)" using i(1,2) j(2) by simp
    then show ?thesis unfolding k using j(3) False by simp
  qed
qed

lemma parse_identifier_some:
  assumes "before \<noteq> 0x5d"
  shows "\<exists>e k identifier pid. syslog_parse_identifier before buf = Some (e, drop k buf, identifier, pid)"
proof -
  let ?n = "strspn buf"
  have ws: "?n \<noteq> 0 \<Longrightarrow> buf ! (?n - 1) \<noteq> 0x5d"
  proof -
    assume "?n \<noteq> 0"
    then have "takeWhile whitespace buf ! (?n - 1) \<in> set (takeWhile whitespace buf)" by (intro nth_mem) simp
    then have "whitespace (takeWhile whitespace buf ! (?n - 1))" by (rule set_takeWhileD [THEN conjunct2])
    then show ?thesis using \<open>?n \<noteq> 0\<close> by (auto simp: takeWhile_nth whitespace_def)
  qed
  let ?p = "drop ?n buf"
  let ?l = "strcspn ?p"
  let ?r = "if ?l - 1 > 0 \<and> ?p ! (?l - 1 - 1) = 0x5d then pid_start ?p (?l - 1) (?l - 1 - 1) else (?l - 1, None)"
  let ?e = "?l + strspn (drop ?l ?p)"
  have b: "(if ?n = 0 then before else buf ! (?n - 1)) \<noteq> 0x5d" using assms ws by simp
  have "syslog_parse_identifier before buf =
      (if ?l \<le> 0 \<or> ?p ! (?l - 1) \<noteq> 0x3a then Some (0, drop 0 buf, None, None)
       else Some (?e, drop (?e + ?n) buf, Some (take (fst ?r) ?p), snd ?r))"
    using b unfolding syslog_parse_identifier_def Let_def by (simp only: drop_drop simp_thms if_False drop_0 case_prod_beta)
  then show ?thesis by metis
qed


section \<open>A message\<close>

lemma syslog_forward_roundtrip_witness:
  "\<exists>fwd. server_process_syslog_message native_env_example 0
      (strstrip (the (server_forward_syslog 7 30 None (ascii ''on fire'') (Some 42) (Some (ascii ''lp[0]''))
        (Some \<lparr>tm_mon = 1, tm_mday = 3, tm_hour = 4, tm_min = 5, tm_sec = 16\<rparr>)))) =
      Some (fwd @ [Dispatch (syslog_fields 30 (Some (ascii ''lp[0]'')) (Some (dec_bytes 42)) (ascii ''on fire'') @ ne_meta native_env_example) 30]) \<and>
    (\<forall>ev\<in>set fwd. \<forall>xs k. ev \<noteq> Dispatch xs k)"
proof -
  let ?t = "\<lparr>tm_mon = 1, tm_mday = 3, tm_hour = 4, tm_min = 5, tm_sec = 16\<rparr>"
  have "server_forward_syslog 7 30 None (ascii ''on fire'') (Some 42) (Some (ascii ''lp[0]'')) (Some ?t) =
    Some (the (server_forward_syslog 7 30 None (ascii ''on fire'') (Some 42) (Some (ascii ''lp[0]'')) (Some ?t)))"
    by (simp add: server_forward_syslog_def LOG_PRI_def LOG_PRIMASK_def)
  then show ?thesis by (rule syslog_forward_roundtrip) (simp_all add: tm_ok_def ascii_def whitespace_def)
qed


end
