(* ===== verification/Rate_Limit.thy ===== *)
theory Rate_Limit
  imports Prelude
begin

text \<open>
  The rate limit of the daemon (\<open>src/core/journald-rate-limit.c\<close>): five pools of priorities, each with
  its interval, the messages in it and the messages suppressed.  Over every sequence of messages the
  limiter accounts for all of them, and in one interval exactly the burst and one more pass.
\<close>

section \<open>Operations\<close>

definition POOLS_MAX :: nat where "POOLS_MAX = 5"
definition DEFAULT_INTERVAL :: nat where "DEFAULT_INTERVAL = 30 * 1000000"
definition DEFAULT_BURST :: u32 where "DEFAULT_BURST = 1000"

definition priority_map :: "nat list" where
  "priority_map = [0, 0, 0, 1, 2, 3, 3, 4]"

record rate_pool =
  rp_begin :: nat
  rp_num :: u32
  rp_suppressed :: u32

record rate_limit =
  rl_interval :: nat
  rl_burst :: u32
  rl_pools :: "rate_pool list"

definition journal_rate_limit_new :: "nat \<Rightarrow> u32 \<Rightarrow> rate_limit option" where
  "journal_rate_limit_new interval burst =
     (if \<not> (interval > 0 \<or> burst = 0) then None
      else Some \<lparr>rl_interval = (if interval > 0 then interval else DEFAULT_INTERVAL),
             rl_burst = (if burst > 0 then burst else DEFAULT_BURST),
             rl_pools = replicate POOLS_MAX \<lparr>rp_begin = 0, rp_num = 0, rp_suppressed = 0\<rparr>\<rparr>)"

text \<open>The index of the highest bit that is set.\<close>

fun u64log2 :: "nat \<Rightarrow> nat" where
  "u64log2 n = (if n > 1 then Suc (u64log2 (n div 2)) else 0)"

declare u64log2.simps [simp del]

definition burst_modulate :: "u32 \<Rightarrow> nat \<Rightarrow> u32" where
  "burst_modulate burst available =
     (let k = u64log2 available in
      if k \<le> 20 then burst else burst * of_nat (k - 20) div 4)"

text \<open>
  The result is the number of messages that are accounted for: none when the message is suppressed,
  otherwise the message itself and those suppressed in the interval that has ended.  The time is an
  argument.
\<close>

definition pool_test :: "nat \<Rightarrow> u32 \<Rightarrow> nat \<Rightarrow> rate_pool \<Rightarrow> int \<times> rate_pool" where
  "pool_test interval burst ts p =
     (if rp_begin p \<le> 0 then (1, p\<lparr>rp_suppressed := 0, rp_num := 1, rp_begin := ts\<rparr>)
      else if add64 (rp_begin p) interval < ts then
        (sint (1 + rp_suppressed p), p\<lparr>rp_suppressed := 0, rp_num := 1, rp_begin := ts\<rparr>)
      else if rp_num p \<le> burst then (1, p\<lparr>rp_num := rp_num p + 1\<rparr>)
      else (0, p\<lparr>rp_suppressed := rp_suppressed p + 1\<rparr>))"

definition journal_rate_limit_test :: "rate_limit option \<Rightarrow> nat \<Rightarrow> nat \<Rightarrow> nat \<Rightarrow> int \<times> rate_limit option" where
  "journal_rate_limit_test r priority available ts =
     (case r of
        None \<Rightarrow> (1, None)
      | Some r \<Rightarrow>
          if rl_interval r = 0 \<or> rl_burst r = 0 then (1, Some r)
          else
            let burst = burst_modulate (rl_burst r) available;
                i = priority_map ! priority;
                (res, p) = pool_test (rl_interval r) burst ts (rl_pools r ! i)
            in (res, Some (r\<lparr>rl_pools := (rl_pools r)[i := p]\<rparr>)))"

text \<open>A sequence of messages, each with its priority, the space available and the time.\<close>

fun rate_limit_run :: "rate_limit option \<Rightarrow> (nat \<times> nat \<times> nat) list \<Rightarrow> int list \<times> rate_limit option" where
  "rate_limit_run r [] = ([], r)"
| "rate_limit_run r ((priority, available, ts) # ms) =
     (let (res, r) = journal_rate_limit_test r priority available ts; (rs, r) = rate_limit_run r ms in (res # rs, r))"

section \<open>No message is lost from the account\<close>

definition pending :: "rate_limit option \<Rightarrow> nat" where
  "pending r = (case r of None \<Rightarrow> 0 | Some r \<Rightarrow> sum_list (map (unat \<circ> rp_suppressed) (rl_pools r)))"

definition limiter_ok :: "rate_limit option \<Rightarrow> bool" where
  "limiter_ok r \<longleftrightarrow>
     (case r of
        None \<Rightarrow> True
      | Some r \<Rightarrow> length (rl_pools r) = POOLS_MAX \<and> (\<forall>p\<in>set (rl_pools r). rp_begin p = 0 \<longrightarrow> rp_suppressed p = 0))"

lemma sint_small:
  fixes x :: u32
  assumes "unat x < 2 ^ 31"
  shows "sint x = int (unat x)"
proof -
  have u: "int (unat x) = uint x" by simp
  have "int (unat x) < int (2 ^ 31)" using assms by (simp only: of_nat_less_iff)
  then have "uint x < 2 ^ 31" unfolding u by simp
  moreover have "- (2 ^ 31) \<le> uint x" by (rule order_trans [OF _ uint_ge_0]) simp
  ultimately have "signed_take_bit 31 (uint x) = uint x" by (intro signed_take_bit_int_eq_self)
  then show ?thesis unfolding u by (simp add: sint_uint)
qed

lemma unat_Suc_small:
  fixes x :: u32
  assumes "unat x + 1 < 2 ^ 32"
  shows "unat (x + 1) = unat x + 1" "unat (1 + x) = unat x + 1"
proof -
  show "unat (x + 1) = unat x + 1" using assms by (simp add: unat_word_ariths unat_1)
  then show "unat (1 + x) = unat x + 1" by (simp add: add.commute)
qed

lemma pool_account:
  assumes "unat (rp_suppressed p) + 1 < 2 ^ 31" "rp_begin p = 0 \<longrightarrow> rp_suppressed p = 0"
    and r: "pool_test interval burst ts p = (res, p')"
  shows "res + int (unat (rp_suppressed p')) = int (unat (rp_suppressed p)) + 1" "0 \<le> res"
    "rp_begin p' = 0 \<longrightarrow> ts = 0 \<and> rp_suppressed p' = 0 \<or> rp_begin p = 0"
proof -
  have s: "unat (1 + rp_suppressed p) = unat (rp_suppressed p) + 1" "unat (rp_suppressed p + 1) = unat (rp_suppressed p) + 1"
    using unat_Suc_small [of "rp_suppressed p"] assms(1) by auto
  have g: "sint (1 + rp_suppressed p) = int (unat (rp_suppressed p)) + 1"
    using sint_small [of "1 + rp_suppressed p"] s(1) assms(1) by linarith
  note d = pool_test_def unat_0
  from r s g assms(2) show "res + int (unat (rp_suppressed p')) = int (unat (rp_suppressed p)) + 1"
    by (auto simp: d simp del: of_nat_unat split: if_splits)
  from r s g assms(2) show "0 \<le> res" by (auto simp: d simp del: of_nat_unat split: if_splits)
  from r show "rp_begin p' = 0 \<longrightarrow> ts = 0 \<and> rp_suppressed p' = 0 \<or> rp_begin p = 0"
    by (auto simp: d split: if_splits)
qed

lemma sum_list_le: "i < length xs \<Longrightarrow> xs ! i \<le> sum_list xs" for xs :: "nat list"
  by (induction xs arbitrary: i) (auto simp: nth_Cons split: nat.splits intro: trans_le_add2)

lemma sum_list_swap: "i < length xs \<Longrightarrow> sum_list (xs[i := y]) + xs ! i = sum_list xs + y" for xs :: "nat list"
  by (induction xs arbitrary: i) (auto simp: nth_Cons split: nat.splits)

lemma priority_index: "priority < 8 \<Longrightarrow> priority_map ! priority < POOLS_MAX"
proof -
  have "\<forall>i\<in>set [0..<8]. priority_map ! i < POOLS_MAX" by (simp add: upt_rec priority_map_def POOLS_MAX_def)
  then show "priority < 8 \<Longrightarrow> ?thesis" by simp
qed

lemma test_account:
  assumes ok: "limiter_ok r" and p: "priority < 8" "ts > 0" and few: "pending r + 1 < 2 ^ 31"
    and t: "journal_rate_limit_test r priority available ts = (res, r')"
  shows "res + int (pending r') = int (pending r) + 1" "0 \<le> res" "limiter_ok r'"
proof -
  have "res + int (pending r') = int (pending r) + 1 \<and> 0 \<le> res \<and> limiter_ok r'"
  proof (cases "\<exists>l. r = Some l \<and> \<not> (rl_interval l = 0 \<or> rl_burst l = 0)")
    case False
    then have "res = 1 \<and> r' = r" using t by (cases r) (auto simp: journal_rate_limit_test_def)
    then show ?thesis using ok by auto
  next
    case True
    then obtain l where l: "r = Some l" "\<not> (rl_interval l = 0 \<or> rl_burst l = 0)" by blast
    let ?i = "priority_map ! priority"
    let ?old = "rl_pools l ! ?i"
    have i: "?i < length (rl_pools l)" using ok l priority_index [OF p(1)] by (simp add: limiter_ok_def)
    obtain new where n: "pool_test (rl_interval l) (burst_modulate (rl_burst l) available) ts ?old = (res, new)"
      "r' = Some (l\<lparr>rl_pools := (rl_pools l)[?i := new]\<rparr>)"
      using t l by (auto simp: journal_rate_limit_test_def Let_def split: prod.splits)
    have old: "?old \<in> set (rl_pools l)" using i by simp
    then have o: "rp_begin ?old = 0 \<longrightarrow> rp_suppressed ?old = 0" using ok l by (auto simp: limiter_ok_def)
    have "unat (rp_suppressed ?old) \<le> pending r"
      using sum_list_le [of ?i "map (unat \<circ> rp_suppressed) (rl_pools l)"] i l by (simp add: pending_def)
    then have "unat (rp_suppressed ?old) + 1 < 2 ^ 31" using few by linarith
    note a = pool_account [OF this o n(1)]
    have "pending r' + unat (rp_suppressed ?old) = pending r + unat (rp_suppressed new)"
      using sum_list_swap [of ?i "map (unat \<circ> rp_suppressed) (rl_pools l)" "unat (rp_suppressed new)"] i l n(2)
      by (simp add: pending_def map_update)
    then have "res + int (pending r') = int (pending r) + 1" using a(1) by linarith
    moreover have "rp_begin new = 0 \<longrightarrow> rp_suppressed new = 0" using a(3) o n(1) p(2) by (auto simp: pool_test_def split: if_splits)
    then have "limiter_ok r'" using ok l n(2) by (auto simp: limiter_ok_def dest!: subsetD [OF set_update_subset_insert])
    ultimately show ?thesis using a(2) by blast
  qed
  then show "res + int (pending r') = int (pending r) + 1" "0 \<le> res" "limiter_ok r'" by auto
qed

lemma run_account:
  "limiter_ok r \<Longrightarrow> \<forall>(priority, available, ts)\<in>set ms. priority < 8 \<and> ts > 0 \<Longrightarrow> pending r + length ms < 2 ^ 31 \<Longrightarrow>
   rate_limit_run r ms = (rs, r') \<Longrightarrow>
   length rs = length ms \<and> (\<forall>res\<in>set rs. 0 \<le> res) \<and> sum_list rs + int (pending r') = int (pending r) + int (length ms)"
proof (induction ms arbitrary: r rs)
  case (Cons m ms)
  obtain priority available ts where m: "m = (priority, available, ts)" by (cases m) auto
  obtain res r1 where t: "journal_rate_limit_test r priority available ts = (res, r1)" by (cases "journal_rate_limit_test r priority available ts") auto
  obtain rs1 where run: "rate_limit_run r1 ms = (rs1, r')" "rs = res # rs1"
    using Cons.prems(4) m t by (auto simp: Let_def split: prod.splits)
  have "priority < 8" "ts > 0" "pending r + 1 < 2 ^ 31" using Cons.prems(2,3) m by auto
  note a = test_account [OF Cons.prems(1) this t]
  have "pending r1 \<le> pending r + 1" using a(1,2) by linarith
  then have "pending r1 + length ms < 2 ^ 31" using Cons.prems(3) by simp
  from Cons.IH [OF a(3) _ this run(1)] Cons.prems(2) a run(2) show ?case by simp
qed simp

lemma new_ok:
  assumes "journal_rate_limit_new interval burst = Some r"
  shows "limiter_ok (Some r)" "pending (Some r) = 0"
  using assms by (auto simp: journal_rate_limit_new_def limiter_ok_def pending_def POOLS_MAX_def split: if_splits)

text \<open>
  The limiter accounts for every message: over any sequence of fewer than \<open>2 ^ 31\<close> messages, the
  messages let through, those reported as suppressed and those still to be reported are all the
  messages there were.
\<close>

theorem rate_limit_account:
  assumes "journal_rate_limit_new interval burst = Some r"
    and "\<forall>(priority, available, ts)\<in>set ms. priority < 8 \<and> ts > 0" and "length ms < 2 ^ 31"
    and "rate_limit_run (Some r) ms = (rs, r')"
  shows "sum_list rs + int (pending r') = int (length ms) \<and> (\<forall>res\<in>set rs. 0 \<le> res)"
  using run_account [OF new_ok(1) [OF assms(1)] assms(2) _ assms(4)] assms(3) new_ok(2) [OF assms(1)] by simp_all

section \<open>How many messages pass\<close>

lemma window_run:
  assumes "\<forall>(priority, available, ts)\<in>set ms. priority_map ! priority = i \<and> priority < 8 \<and> available = av \<and> ts \<le> add64 b (rl_interval l)"
    and "rl_interval l \<noteq> 0" "rl_burst l \<noteq> 0" "b > 0" "length (rl_pools l) = POOLS_MAX"
    and "unat (rp_num (rl_pools l ! i)) + length ms < 2 ^ 32" "rp_begin (rl_pools l ! i) = b"
  shows "fst (rate_limit_run (Some l) ms) =
    map (\<lambda>k. if unat (rp_num (rl_pools l ! i)) + k \<le> unat (burst_modulate (rl_burst l) av) then 1 else 0) [0..<length ms]"
  using assms
proof (induction ms arbitrary: l)
  case (Cons m ms)
  let ?p = "rl_pools l ! i" and ?B = "burst_modulate (rl_burst l) av"
  obtain priority ts where m: "m = (priority, av, ts)" "priority_map ! priority = i" "priority < 8" "ts \<le> add64 b (rl_interval l)"
    using Cons.prems(1) by (cases m) auto
  have i: "i < length (rl_pools l)" using priority_index [OF m(3)] m(2) Cons.prems(5) by simp
  let ?q = "snd (pool_test (rl_interval l) ?B ts ?p)"
  let ?l = "l\<lparr>rl_pools := (rl_pools l)[i := ?q]\<rparr>"
  have n1: "unat (rp_num ?p + 1) = unat (rp_num ?p) + 1" using Cons.prems(6) by (intro unat_Suc_small) simp
  have t: "pool_test (rl_interval l) ?B ts ?p =
      (if rp_num ?p \<le> ?B then (1, ?p\<lparr>rp_num := rp_num ?p + 1\<rparr>) else (0, ?p\<lparr>rp_suppressed := rp_suppressed ?p + 1\<rparr>))"
    using Cons.prems(4,7) m(4) by (simp add: pool_test_def)
  have run: "fst (rate_limit_run (Some l) (m # ms)) = (if rp_num ?p \<le> ?B then 1 else 0) # fst (rate_limit_run (Some ?l) ms)"
    using m(1,2) Cons.prems(2,3) t by (auto simp: journal_rate_limit_test_def Let_def split: prod.splits)
  have q: "rl_pools ?l ! i = ?q" "rp_begin ?q = b" using i t Cons.prems(7) by auto
  have q': "unat (rp_num ?q) = (if rp_num ?p \<le> ?B then unat (rp_num ?p) + 1 else unat (rp_num ?p))" using t n1 by simp
  have IH: "fst (rate_limit_run (Some ?l) ms) =
      map (\<lambda>k. if unat (rp_num ?q) + k \<le> unat ?B then 1 else 0) [0..<length ms]"
    using Cons.IH [of ?l] Cons.prems q q' by (simp split: if_splits)
  have up: "[0..<length (m # ms)] = 0 # map Suc [0..<length ms]" by (simp add: map_Suc_upt upt_conv_Cons del: upt_Suc)
  show ?case
    unfolding run IH up q' by (auto simp: word_le_nat_alt)
qed simp


section \<open>The burst and the space\<close>

text \<open>
  The comment in the code gives twice the rate for 16 megabytes; the code gives the rate itself, and a
  quarter of it for 2 megabytes, less than for one.
\<close>

lemma burst_modulate_small: "burst_modulate 1000 (2 ^ 24) = 1000" "burst_modulate 1000 (2 ^ 21) = 250" "burst_modulate 1000 (2 ^ 20) = 1000"
  by (simp_all add: burst_modulate_def u64log2.simps)

section \<open>Six messages\<close>

text \<open>A burst of two in an interval of ten: three pass, the fourth is suppressed and reported in the next interval.\<close>

definition limiter_example :: rate_limit where
  "limiter_example = \<lparr>rl_interval = 10, rl_burst = 2, rl_pools = replicate POOLS_MAX \<lparr>rp_begin = 0, rp_num = 0, rp_suppressed = 0\<rparr>\<rparr>"

definition limiter_messages :: "(nat \<times> nat \<times> nat) list" where
  "limiter_messages = [(6, 0, 100), (5, 0, 101), (6, 0, 102), (6, 0, 103), (3, 0, 104), (5, 0, 120)]"

lemma limiter_example_new: "journal_rate_limit_new 10 2 = Some limiter_example"
  by (simp add: journal_rate_limit_new_def limiter_example_def)

lemma five_pools: "replicate POOLS_MAX p = [p, p, p, p, p]"
  by (simp add: POOLS_MAX_def numeral_eq_Suc)

lemma limiter_example_run: "fst (rate_limit_run (Some limiter_example) limiter_messages) = [1, 1, 1, 0, 1, 2]"
  by (simp add: limiter_messages_def limiter_example_def journal_rate_limit_test_def pool_test_def burst_modulate_def u64log2.simps
    priority_map_def five_pools add64_def two64_def Let_def)

lemma rate_limit_account_witness:
  "sum_list (fst (rate_limit_run (Some limiter_example) limiter_messages)) +
     int (pending (snd (rate_limit_run (Some limiter_example) limiter_messages))) = 6 \<and>
   (\<forall>res\<in>set (fst (rate_limit_run (Some limiter_example) limiter_messages)). 0 \<le> res)"
proof -
  have l: "length limiter_messages = 6" by (simp add: limiter_messages_def)
  show ?thesis
    using rate_limit_account [OF limiter_example_new, of limiter_messages, OF _ _ prod.collapse [symmetric]] l
    by (simp add: limiter_messages_def)
qed


end
