(* ===== verification/Server_Dispatch.thy ===== *)
theory Server_Dispatch
  imports Syslog_Protocol Rate_Limit
begin

text \<open>
  How the daemon handles a datagram (\<open>src/core/journald-server.c\<close>, \<open>journald-console.c\<close>): the calls that parsing it
  gives are carried out, the messages pass the limits for their level and their rate, and what is left
  is written to the journal of a user.  This puts the client, the two protocols and the rate limit
  together.
\<close>

section \<open>State\<close>

text \<open>
  The parts of the server that taking a message depends on, and what it finds when it does: the sender,
  the times and the space left, and its own credentials.  \<open>se_stack\<close> is what is read from a buffer in a
  stack frame that has been left: \<open>dispatch_message\<close> leaves the two strings it has made itself in such a
  buffer.
\<close>

record server =
  sv_max_level_store :: nat
  sv_max_level_syslog :: nat
  sv_max_level_console :: nat
  sv_rate_limit :: "rate_limit option"
  sv_boot_id :: bytes
  sv_hostname :: bytes

record sender_env =
  se_uid :: "nat option"
  se_pid :: "nat option"
  se_comm :: "bytes option"
  se_tv :: "nat option"
  se_tm :: "tm option"
  se_monotonic :: "(nat \<times> nat) option"
  se_now :: nat
  se_available :: nat
  se_stack :: "bytes \<Rightarrow> bytes"
  se_own_uid :: nat
  se_own_meta :: "bytes list"

text \<open>What the server does: it writes an entry to the journal of a user, or sends a text on.\<close>

datatype daemon_output =
    Write nat "bytes list" nat
  | ToSyslog bytes
  | ToConsole bytes

section \<open>Operations\<close>

definition LINE_MAX :: nat where "LINE_MAX = 2048"

definition dispatch_message :: "sender_env \<Rightarrow> server \<Rightarrow> nat option \<Rightarrow> bytes list" where
  "dispatch_message SE s tv =
     (case tv of None \<Rightarrow> [] | Some t \<Rightarrow> [se_stack SE (ascii ''_SOURCE_REALTIME_TIMESTAMP='' @ dec_bytes t)]) @
     (if \<not> uuid_is_null (sv_boot_id s) then [se_stack SE (ascii ''_BOOT_ID='' @ uuid_to_str (sv_boot_id s))] else []) @
     (if sv_hostname s \<noteq> [] then [ascii ''_HOSTNAME='' @ sv_hostname s] else [])"

definition server_driver_message :: "sender_env \<Rightarrow> server \<Rightarrow> bytes \<Rightarrow> daemon_output list" where
  "server_driver_message SE s text =
     [Write (se_own_uid SE)
        ([ascii ''PRIORITY=6'', ascii ''_TRANSPORT=driver'', ascii ''MESSAGE='' @ take (16 + LINE_MAX + 1 - 8 - 1) text] @
         se_own_meta SE @ dispatch_message SE s None) LOG_INFO]"

definition suppressed_text :: "nat \<Rightarrow> nat \<Rightarrow> bytes" where
  "suppressed_text n uid = ascii ''Suppressed '' @ dec_bytes n @ ascii '' messages from uid '' @ dec_bytes uid"

definition server_dispatch_message :: "sender_env \<Rightarrow> server \<Rightarrow> bytes list \<Rightarrow> nat \<Rightarrow> server \<times> daemon_output list" where
  "server_dispatch_message SE s iovec priority =
     (if iovec = [] then (s, [])
      else if LOG_PRI priority > sv_max_level_store s then (s, [])
      else case se_uid SE of
        None \<Rightarrow> (s, [Write 0 (iovec @ dispatch_message SE s (se_tv SE)) priority])
      | Some uid \<Rightarrow>
          let (rl, r) = journal_rate_limit_test (sv_rate_limit s) (priority AND LOG_PRIMASK) (se_available SE) (se_now SE);
              s = s\<lparr>sv_rate_limit := r\<rparr>
          in if rl = 0 then (s, [])
             else (s, (if rl > 1 then server_driver_message SE s (suppressed_text (nat (rl - 1)) uid) else []) @
                    [Write uid (iovec @ dispatch_message SE s (se_tv SE)) priority]))"

text \<open>The line for the console: the time since boot, the identifier and the process, the text.\<close>

definition pad_left :: "u8 \<Rightarrow> nat \<Rightarrow> bytes \<Rightarrow> bytes" where
  "pad_left c n s = replicate (n - length s) c @ s"

definition server_forward_console :: "sender_env \<Rightarrow> server \<Rightarrow> nat \<Rightarrow> bytes option \<Rightarrow> bytes \<Rightarrow> daemon_output list" where
  "server_forward_console SE s priority identifier message =
     (if LOG_PRI priority > sv_max_level_console s then []
      else
        [ToConsole
          ((case se_monotonic SE of
              None \<Rightarrow> []
            | Some (sec, nsec) \<Rightarrow>
                [0x5b] @ pad_left 0x20 5 (dec_bytes sec) @ [0x2e] @ pad_left 0x30 6 (dec_bytes (nsec div 1000)) @ ascii ''] '') @
           (case se_pid SE of
              Some pid \<Rightarrow>
                (case (case identifier of None \<Rightarrow> se_comm SE | Some i \<Rightarrow> Some i) of None \<Rightarrow> [] | Some i \<Rightarrow> i) @
                [0x5b] @ dec_bytes pid @ ascii '']: ''
            | None \<Rightarrow> (case identifier of None \<Rightarrow> [] | Some i \<Rightarrow> i @ ascii '': '')) @
           message @ [0x0a])])"

fun handle_call :: "sender_env \<Rightarrow> daemon_call \<Rightarrow> server \<Rightarrow> server \<times> daemon_output list" where
  "handle_call SE (Dispatch xs priority) s = server_dispatch_message SE s xs priority"
| "handle_call SE (ForwardSyslog priority identifier message) s =
     (s, case server_forward_syslog (sv_max_level_syslog s) priority identifier message (se_pid SE) (se_comm SE) (se_tm SE) of
           None \<Rightarrow> [] | Some d \<Rightarrow> [ToSyslog d])"
| "handle_call SE (ForwardRaw priority buf) s =
     (s, case forward_syslog_raw (sv_max_level_syslog s) priority buf of None \<Rightarrow> [] | Some d \<Rightarrow> [ToSyslog d])"
| "handle_call SE (ForwardConsole priority identifier message) s = (s, server_forward_console SE s priority identifier message)"

fun handle_calls :: "sender_env \<Rightarrow> daemon_call list \<Rightarrow> server \<Rightarrow> server \<times> daemon_output list" where
  "handle_calls SE [] s = (s, [])"
| "handle_calls SE (c # cs) s =
     (let (s, out) = handle_call SE c s; (s, outs) = handle_calls SE cs s in (s, out @ outs))"

text \<open>
  One datagram from one of the two sockets.  \<open>before\<close> is the byte before the buffer; the text of a syslog
  message ends at a zero byte.
\<close>

definition process_datagram ::
  "sender_env \<Rightarrow> native_env \<Rightarrow> u8 \<Rightarrow> server \<Rightarrow> bool \<Rightarrow> bytes \<Rightarrow> (server \<times> daemon_output list) option" where
  "process_datagram SE NE before s is_syslog buffer =
     (if buffer = [] then Some (s, [])
      else case (if is_syslog
                 then let str = c_string_of buffer in
                   server_process_syslog_message NE (if strspn str = 0 then before else str ! (strspn str - 1)) (strstrip str)
                 else server_process_native_message NE buffer) of
        None \<Rightarrow> None
      | Some calls \<Rightarrow> Some (handle_calls SE calls s))"

section \<open>What is written\<close>

fun is_write :: "daemon_output \<Rightarrow> bool" where
  "is_write (Write _ _ _) = True"
| "is_write _ = False"

fun is_dispatch :: "daemon_call \<Rightarrow> bool" where
  "is_dispatch (Dispatch _ _) = True"
| "is_dispatch _ = False"

lemma handle_calls_append:
  "handle_calls SE (cs @ ds) s =
     (let (s, out) = handle_calls SE cs s; (s, outs) = handle_calls SE ds s in (s, out @ outs))"
  by (induction cs arbitrary: s) (auto simp: Let_def split: prod.splits)

lemma forwards_write_nothing:
  "\<forall>c\<in>set cs. \<not> is_dispatch c \<Longrightarrow> \<exists>out. handle_calls SE cs s = (s, out) \<and> (\<forall>w\<in>set out. \<not> is_write w)"
proof (induction cs)
  case (Cons c cs)
  then obtain out where "handle_calls SE cs s = (s, out)" "\<forall>w\<in>set out. \<not> is_write w" by auto
  moreover have "\<exists>y. handle_call SE c s = (s, y) \<and> (\<forall>x\<in>set y. \<not> is_write x)"
    using Cons.prems by (cases c) (auto simp: server_forward_console_def split: option.split)
  ultimately show ?case by auto
qed simp

lemma dispatch_written:
  assumes "xs \<noteq> []" and "7 \<le> sv_max_level_store s" and "se_uid SE = Some uid"
    and "\<forall>k < 8. fst (journal_rate_limit_test (sv_rate_limit s) k (se_available SE) (se_now SE)) = 1"
  shows "\<exists>r. server_dispatch_message SE s xs priority =
    (s\<lparr>sv_rate_limit := r\<rparr>, [Write uid (xs @ dispatch_message SE s (se_tv SE)) priority])"
proof -
  have m: "priority AND LOG_PRIMASK < 8"
  proof -
    have "priority AND LOG_PRIMASK = take_bit 3 priority" by (simp add: LOG_PRIMASK_def take_bit_eq_mask mask_numeral)
    then show ?thesis by (simp add: take_bit_eq_mod)
  qed
  then have "\<not> LOG_PRI priority > sv_max_level_store s" using assms(2) by (simp add: LOG_PRI_def)
  moreover obtain r where "journal_rate_limit_test (sv_rate_limit s) (priority AND LOG_PRIMASK) (se_available SE) (se_now SE) = (1, r)"
    using assms(4) m by (metis prod.collapse)
  moreover have "dispatch_message SE (s\<lparr>sv_rate_limit := r\<rparr>) tv = dispatch_message SE s tv" for r tv by (simp add: dispatch_message_def)
  ultimately show ?thesis using assms(1,3) by (auto simp: server_dispatch_message_def)
qed

lemma calls_written:
  assumes calls: "\<forall>c\<in>set fwd. \<not> is_dispatch c" and "xs \<noteq> []" and "7 \<le> sv_max_level_store s" and "se_uid SE = Some uid"
    and "\<forall>k < 8. fst (journal_rate_limit_test (sv_rate_limit s) k (se_available SE) (se_now SE)) = 1"
  shows "\<exists>r out. handle_calls SE (fwd @ [Dispatch xs priority]) s =
      (s\<lparr>sv_rate_limit := r\<rparr>, out @ [Write uid (xs @ dispatch_message SE s (se_tv SE)) priority]) \<and> (\<forall>w\<in>set out. \<not> is_write w)"
  using forwards_write_nothing [OF calls, of SE s] dispatch_written [OF assms(2-5), of priority]
  by (auto simp: handle_calls_append)

lemma no_dispatch: "(\<forall>ev\<in>set fwd. \<forall>xs k. ev \<noteq> Dispatch xs k) \<longleftrightarrow> (\<forall>c\<in>set fwd. \<not> is_dispatch c)"
proof -
  have "(\<forall>xs k. ev \<noteq> Dispatch xs k) \<longleftrightarrow> \<not> is_dispatch ev" for ev by (cases ev) auto
  then show ?thesis by blast
qed


section \<open>What is suppressed is reported\<close>

text \<open>
  Messages with their time, the space and the priority; each entry written, and each message that tells
  how many were suppressed.
\<close>

fun server_run :: "sender_env \<Rightarrow> (bytes list \<times> nat \<times> nat \<times> nat) list \<Rightarrow> server \<Rightarrow> server \<times> daemon_output list" where
  "server_run SE [] s = (s, [])"
| "server_run SE ((xs, priority, available, ts) # ms) s =
     (let (s, out) = server_dispatch_message (SE\<lparr>se_available := available, se_now := ts\<rparr>) s xs priority;
          (s, outs) = server_run SE ms s
      in (s, out @ outs))"

definition message_output :: "sender_env \<Rightarrow> server \<Rightarrow> nat \<Rightarrow> bytes list \<times> nat \<times> nat \<times> nat \<Rightarrow> int \<Rightarrow> daemon_output list" where
  "message_output SE s uid m n =
     (if n > 1 then server_driver_message SE s (suppressed_text (nat (n - 1)) uid) else []) @
     (if n = 0 then [] else [Write uid (fst m @ dispatch_message SE s (se_tv SE)) (fst (snd m))])"

fun limiter_input :: "bytes list \<times> nat \<times> nat \<times> nat \<Rightarrow> nat \<times> nat \<times> nat" where
  "limiter_input (xs, priority, available, ts) = (LOG_PRI priority, available, ts)"

lemma added_fields [simp]:
  "dispatch_message SE (s\<lparr>sv_rate_limit := r\<rparr>) tv = dispatch_message SE s tv"
  "dispatch_message (SE\<lparr>se_available := a, se_now := t\<rparr>) s tv = dispatch_message SE s tv"
  "server_driver_message SE (s\<lparr>sv_rate_limit := r\<rparr>) x = server_driver_message SE s x"
  "server_driver_message (SE\<lparr>se_available := a, se_now := t\<rparr>) s x = server_driver_message SE s x"
  by (simp_all add: dispatch_message_def server_driver_message_def split: option.split)

lemma dispatch_output:
  assumes "xs \<noteq> []" "LOG_PRI priority \<le> sv_max_level_store s" "se_uid SE = Some uid"
  shows "server_dispatch_message (SE\<lparr>se_available := available, se_now := ts\<rparr>) (s\<lparr>sv_rate_limit := r\<rparr>) xs priority =
    (let (n, r') = journal_rate_limit_test r (LOG_PRI priority) available ts in
     (s\<lparr>sv_rate_limit := r'\<rparr>, message_output SE s uid (xs, priority, available, ts) n))"
proof (cases "journal_rate_limit_test r (LOG_PRI priority) available ts")
  case (Pair n r')
  have "\<not> sv_max_level_store s < LOG_PRI priority" using assms(2) by simp
  with Pair assms(1,3) show ?thesis
    by (simp add: server_dispatch_message_def message_output_def LOG_PRI_def)
qed

lemma server_run_output:
  assumes "se_uid SE = Some uid"
  shows "\<forall>(xs, priority, available, ts)\<in>set ms. xs \<noteq> [] \<and> LOG_PRI priority \<le> sv_max_level_store s \<Longrightarrow>
    rate_limit_run r (map limiter_input ms) = (ns, r') \<Longrightarrow>
    server_run SE ms (s\<lparr>sv_rate_limit := r\<rparr>) = (s\<lparr>sv_rate_limit := r'\<rparr>, concat (map2 (message_output SE s uid) ms ns))"
proof (induction ms arbitrary: r ns)
  case (Cons m ms)
  obtain xs priority available ts where m: "m = (xs, priority, available, ts)" by (cases m) auto
  obtain n r1 where t: "journal_rate_limit_test r (LOG_PRI priority) available ts = (n, r1)" by fastforce
  obtain ns1 where run: "rate_limit_run r1 (map limiter_input ms) = (ns1, r')" "ns = n # ns1"
    using Cons.prems(2) m t by (auto simp: Let_def split: prod.splits)
  have "server_run SE ms (s\<lparr>sv_rate_limit := r1\<rparr>) = (s\<lparr>sv_rate_limit := r'\<rparr>, concat (map2 (message_output SE s uid) ms ns1))"
    using Cons.IH [OF _ run(1)] Cons.prems(1) by simp
  then show ?case
    using dispatch_output [of xs priority s SE uid ts available r] Cons.prems(1) assms m t run(2) by simp
qed simp

lemma reported_sum:
  fixes ns :: "int list"
  assumes "\<forall>n\<in>set ns. 0 \<le> n"
  shows "int (length (filter (\<lambda>n. n \<noteq> 0) ns)) + (\<Sum>n\<leftarrow>ns. if n > 1 then n - 1 else 0) = sum_list ns"
  using assms by (induction ns) auto

text \<open>
  C7: No message is lost without a trace: of the messages a user sends, each one is written, or counted in
  a message of the daemon that tells how many were suppressed, or still to be told; the three numbers add
  up to all the messages.
\<close>

theorem suppressed_reported:
  assumes "journal_rate_limit_new interval burst = Some r" and "se_uid SE = Some uid" and "length ms < 2 ^ 31"
    and "\<forall>(xs, priority, available, ts)\<in>set ms. xs \<noteq> [] \<and> LOG_PRI priority \<le> sv_max_level_store s \<and> ts > 0"
  shows "\<exists>ns r'. server_run SE ms (s\<lparr>sv_rate_limit := Some r\<rparr>) =
      (s\<lparr>sv_rate_limit := r'\<rparr>, concat (map2 (message_output SE s uid) ms ns)) \<and> length ns = length ms \<and>
    int (length (filter (\<lambda>n. n \<noteq> 0) ns)) + (\<Sum>n\<leftarrow>ns. if n > 1 then n - 1 else 0) + int (pending r') = int (length ms)"
proof -
  obtain ns r' where run: "rate_limit_run (Some r) (map limiter_input ms) = (ns, r')" by fastforce
  have level: "LOG_PRI p < 8" for p
    using take_bit_nat_less_exp [of 3 p] by (simp add: LOG_PRI_def LOG_PRIMASK_def take_bit_eq_mask mask_numeral)
  have "\<forall>(priority, available, ts)\<in>set (map limiter_input ms). priority < 8 \<and> ts > 0"
    using assms(4) level by fastforce
  from run_account [OF new_ok(1) [OF assms(1)] this _ run] have a: "length ns = length ms" "\<forall>n\<in>set ns. 0 \<le> n"
    "sum_list ns + int (pending r') = int (length ms)"
    using assms(3) new_ok(2) [OF assms(1)] by auto
  have "server_run SE ms (s\<lparr>sv_rate_limit := Some r\<rparr>) = (s\<lparr>sv_rate_limit := r'\<rparr>, concat (map2 (message_output SE s uid) ms ns))"
    using assms(2,4) run by (intro server_run_output) auto
  then show ?thesis using a reported_sum [OF a(2)] by (intro exI [of _ ns] exI [of _ r']) simp
qed

section \<open>The priorities\<close>

text \<open>
  C13: Whatever a datagram contains, from either socket, the priority of everything that is dispatched or
  forwarded for it is at most 999, as the forwarding asserts.
\<close>

theorem datagram_priorities:
  assumes "(if is_syslog then server_process_syslog_message NE before buffer else server_process_native_message NE buffer) = Some calls"
  shows "\<forall>c\<in>set calls. call_priority c \<le> 999"
proof (cases is_syslog)
  case False
  then show ?thesis using assms native_priority by simp
next
  case True
  obtain q priority where q: "syslog_parse_priority buffer (LOG_USER OR LOG_INFO) True = (q, priority)" by fastforce
  have "priority \<le> 999" using priority_consumed(1) [OF q] by (simp add: LOG_USER_def LOG_INFO_def)
  then show ?thesis using assms True q by (auto simp: server_process_syslog_message_def Let_def split: option.splits if_splits)
qed

section \<open>A datagram through the daemon\<close>

definition sender_env_example :: sender_env where
  "sender_env_example = \<lparr>se_uid = Some 1000, se_pid = Some 77, se_comm = None, se_tv = Some 5, se_tm = None, se_monotonic = Some (12, 345678),
     se_now = 100, se_available = 0, se_stack = (\<lambda>x. x), se_own_uid = 0, se_own_meta = []\<rparr>"

definition server_example :: server where
  "server_example = \<lparr>sv_max_level_store = 7, sv_max_level_syslog = 7, sv_max_level_console = 6, sv_rate_limit = Some limiter_example,
     sv_boot_id = replicate 16 1, sv_hostname = ascii ''box''\<rparr>"


lemma suppressed_reported_witness:
  "\<exists>ns r'. server_run sender_env_example (map (\<lambda>(priority, available, ts). ([ascii ''MESSAGE=x''], priority, available, ts)) limiter_messages)
      (server_example\<lparr>sv_rate_limit := Some limiter_example\<rparr>) =
      (server_example\<lparr>sv_rate_limit := r'\<rparr>, concat (map2 (message_output sender_env_example server_example 1000)
        (map (\<lambda>(priority, available, ts). ([ascii ''MESSAGE=x''], priority, available, ts)) limiter_messages) ns)) \<and>
      length ns = length (map (\<lambda>(priority, available, ts). ([ascii ''MESSAGE=x''], priority, available, ts)) limiter_messages) \<and>
    int (length (filter (\<lambda>n. n \<noteq> 0) ns)) + (\<Sum>n\<leftarrow>ns. if n > 1 then n - 1 else 0) + int (pending r') =
      int (length (map (\<lambda>(priority, available, ts). ([ascii ''MESSAGE=x''], priority, available, ts)) limiter_messages))"
  by (rule suppressed_reported [OF limiter_example_new])
    (simp_all add: sender_env_example_def limiter_messages_def server_example_def LOG_PRI_def LOG_PRIMASK_def)

lemma datagram_priorities_witness:
  "list_all (\<lambda>c. call_priority c \<le> 999) (the (server_process_native_message native_env_example (ascii ''PRIORITY=9'' @ [0x0a])))"
proof -
  have "server_process_native_message native_env_example (ascii ''PRIORITY=9'' @ [0x0a]) =
      Some (the (server_process_native_message native_env_example (ascii ''PRIORITY=9'' @ [0x0a])))"
    by (simp add: server_process_native_message_def native_loop.simps memchr_def ascii_def Let_def)
  then show ?thesis
    using datagram_priorities [of False native_env_example 0 "ascii ''PRIORITY=9'' @ [0x0a]"] by (simp add: list_all_iff)
qed

end
