(* ===== verification/Linked_Lists.thy ===== *)
theory Linked_Lists
  imports Prelude
begin

text \<open>
  Doubly linked lists in a memory of cells, and tables of such lists.  The fields of the cells are
  functions of the address; the lemmas say what taking a cell out and putting one in does to the
  lists, and that lists of other cells stay as they are.
\<close>

section \<open>Segments\<close>

text \<open>Addresses; the null pointer is 0.  The field of a structure is a function of the address.\<close>

type_synonym addr = nat

primrec seg :: "(addr \<Rightarrow> addr) \<Rightarrow> (addr \<Rightarrow> addr) \<Rightarrow> addr \<Rightarrow> addr list \<Rightarrow> addr \<Rightarrow> bool" where
  "seg nx pv p [] q \<longleftrightarrow> True"
| "seg nx pv p (x # xs) q \<longleftrightarrow> pv x = p \<and> nx x = hd (xs @ [q]) \<and> seg nx pv x xs q"

lemma seg_append: "seg nx pv p (xs @ ys) q \<longleftrightarrow> seg nx pv p xs (hd (ys @ [q])) \<and> seg nx pv (last (p # xs)) ys q"
  by (induction xs arbitrary: p) (auto simp: hd_append)

lemma seg_frame: "seg nx pv p xs q \<Longrightarrow> \<forall>x\<in>set xs. nx' x = nx x \<and> pv' x = pv x \<Longrightarrow> seg nx' pv' p xs q"
  by (induction xs arbitrary: p) auto

text \<open>A change of the pointer at an end.\<close>

lemma seg_first: "seg nx pv p (x # xs) q \<Longrightarrow> x \<notin> set xs \<Longrightarrow> seg nx (pv(x := p')) p' (x # xs) q"
  by (auto intro: seg_frame)

lemma seg_last: "seg nx pv p (xs @ [x]) q \<Longrightarrow> x \<notin> set xs \<Longrightarrow> seg (nx(x := q')) pv p (xs @ [x]) q'"
  by (auto simp: seg_append intro: seg_frame)

definition dlist :: "(addr \<Rightarrow> addr) \<Rightarrow> (addr \<Rightarrow> addr) \<Rightarrow> addr list \<Rightarrow> bool" where
  "dlist nx pv xs \<longleftrightarrow> seg nx pv 0 xs 0 \<and> distinct xs \<and> 0 \<notin> set xs"

abbreviation head_addr :: "addr list \<Rightarrow> addr" where "head_addr xs \<equiv> hd (xs @ [0])"
abbreviation tail_addr :: "addr list \<Rightarrow> addr" where "tail_addr xs \<equiv> last (0 # xs)"

lemma dlist_frame: "dlist nx pv xs \<Longrightarrow> \<forall>x\<in>set xs. nx' x = nx x \<and> pv' x = pv x \<Longrightarrow> dlist nx' pv' xs"
  by (auto simp: dlist_def intro: seg_frame)

lemma dlist_Nil [simp]: "dlist nx pv []"
  by (simp add: dlist_def)

lemma head_addr_zero: "dlist nx pv xs \<Longrightarrow> head_addr xs = 0 \<longleftrightarrow> xs = []"
  by (cases xs) (auto simp: dlist_def)

lemma tail_addr_zero: "dlist nx pv xs \<Longrightarrow> tail_addr xs = 0 \<longleftrightarrow> xs = []"
  by (cases xs rule: rev_cases) (auto simp: dlist_def)

section \<open>Operations\<close>

text \<open>Taking a cell out of a list, and putting one in at either end.\<close>

definition next_without :: "(addr \<Rightarrow> addr) \<Rightarrow> (addr \<Rightarrow> addr) \<Rightarrow> addr \<Rightarrow> addr \<Rightarrow> addr" where
  "next_without nx pv e = (if pv e \<noteq> 0 then nx(pv e := nx e) else nx)"

definition previous_without :: "(addr \<Rightarrow> addr) \<Rightarrow> (addr \<Rightarrow> addr) \<Rightarrow> addr \<Rightarrow> addr \<Rightarrow> addr" where
  "previous_without nx pv e = (if nx e \<noteq> 0 then pv(nx e := pv e) else pv)"

lemma dlist_split:
  assumes "dlist nx pv (as @ e # bs)"
  shows "pv e = tail_addr as" "nx e = head_addr bs" "e \<noteq> 0" "pv e = 0 \<longleftrightarrow> as = []" "nx e = 0 \<longleftrightarrow> bs = []"
    "pv e \<noteq> 0 \<Longrightarrow> pv e \<in> set as" "nx e \<noteq> 0 \<Longrightarrow> nx e \<in> set bs"
proof -
  show p: "pv e = tail_addr as" "nx e = head_addr bs" "e \<noteq> 0" using assms by (auto simp: dlist_def seg_append)
  have z1: "pv e = 0 \<longleftrightarrow> as = []" unfolding p(1) using assms by (cases as rule: rev_cases) (auto simp: dlist_def)
  have z2: "nx e = 0 \<longleftrightarrow> bs = []" unfolding p(2) using assms by (cases bs) (auto simp: dlist_def)
  note z = z1 z2
  from z1 z2 show "pv e = 0 \<longleftrightarrow> as = []" "nx e = 0 \<longleftrightarrow> bs = []" .
  show "pv e \<noteq> 0 \<Longrightarrow> pv e \<in> set as" "nx e \<noteq> 0 \<Longrightarrow> nx e \<in> set bs"
    using p(1,2) z by (auto simp: hd_append split: if_splits)
qed

lemma dlist_remove:
  assumes d: "dlist nx pv (as @ e # bs)"
  shows "dlist (next_without nx pv e) (previous_without nx pv e) (as @ bs)"
    "head_addr (as @ bs) = (if pv e = 0 then nx e else head_addr (as @ e # bs))"
    "tail_addr (as @ bs) = (if nx e = 0 then pv e else tail_addr (as @ e # bs))"
proof -
  note s = dlist_split [OF d]
  from d have dis: "distinct (as @ e # bs)" "0 \<notin> set (as @ e # bs)" and sg: "seg nx pv 0 as e" "seg nx pv e bs 0"
    by (auto simp: dlist_def seg_append)
  have A: "seg (next_without nx pv e) (previous_without nx pv e) 0 as (head_addr bs)"
  proof (cases as rule: rev_cases)
    case (snoc as' a)
    have "seg (nx(a := head_addr bs)) pv 0 as (head_addr bs)" using seg_last [of nx pv 0 as' a e "head_addr bs"] sg(1) snoc dis by simp
    then show ?thesis
      by (rule seg_frame) (use s dis snoc in \<open>auto simp: next_without_def previous_without_def\<close>)
  qed simp
  have pb: "pv e \<notin> set bs" using s(6) dis by (cases "pv e = 0") auto
  have B: "seg (next_without nx pv e) (previous_without nx pv e) (tail_addr as) bs 0"
  proof (cases bs)
    case (Cons b bs')
    have "seg nx (pv(b := tail_addr as)) (tail_addr as) bs 0" using seg_first [of nx pv e b bs' 0 "tail_addr as"] sg(2) Cons dis by simp
    then show ?thesis
      by (rule seg_frame) (use s(1,2) pb dis Cons in \<open>auto simp: next_without_def previous_without_def\<close>)
  qed simp
  show "dlist (next_without nx pv e) (previous_without nx pv e) (as @ bs)"
    using A B dis by (auto simp: dlist_def seg_append)
  show "head_addr (as @ bs) = (if pv e = 0 then nx e else head_addr (as @ e # bs))"
    using s(1,2,4) by (cases as) auto
  show "tail_addr (as @ bs) = (if nx e = 0 then pv e else tail_addr (as @ e # bs))"
    using s(1,2,5) by (cases bs rule: rev_cases) auto
qed

lemma without_other:
  assumes "dlist nx pv (as @ e # bs)" and "x \<notin> set (as @ bs)"
  shows "next_without nx pv e x = nx x" "previous_without nx pv e x = pv x"
  using assms(2) dlist_split(6,7) [OF assms(1)] by (auto simp: next_without_def previous_without_def)

lemma dlist_push:
  assumes d: "dlist nx pv xs" and e: "e \<noteq> 0" "e \<notin> set xs"
  shows "dlist (nx(e := head_addr xs)) (if head_addr xs \<noteq> 0 then (pv(e := 0))(head_addr xs := e) else pv(e := 0)) (e # xs)"
proof (cases xs)
  case Nil
  then show ?thesis using e by (simp add: dlist_def)
next
  case (Cons x ys)
  have "seg nx (pv(x := e)) e (x # ys) 0" using seg_first [of nx pv 0 x ys 0 e] d Cons by (auto simp: dlist_def)
  then have "seg (nx(e := x)) ((pv(e := 0))(x := e)) e (x # ys) 0"
    by (rule seg_frame) (use e Cons in auto)
  then show ?thesis using d e Cons by (auto simp: dlist_def)
qed

lemma dlist_snoc:
  assumes d: "dlist nx pv xs" and e: "e \<noteq> 0" "e \<notin> set xs"
  shows "dlist (if tail_addr xs \<noteq> 0 then (nx(e := 0))(tail_addr xs := e) else nx(e := 0)) (pv(e := tail_addr xs)) (xs @ [e])"
proof (cases xs rule: rev_cases)
  case Nil
  then show ?thesis using e by (simp add: dlist_def)
next
  case (snoc ys x)
  have "seg (nx(x := e)) pv 0 (ys @ [x]) e" using seg_last [of nx pv 0 ys x 0 e] d snoc by (auto simp: dlist_def)
  then have "seg ((nx(e := 0))(x := e)) (pv(e := x)) 0 (ys @ [x]) e"
    by (rule seg_frame) (use e snoc in auto)
  then show ?thesis using d e snoc by (auto simp: dlist_def seg_append)
qed

section \<open>Tables of lists\<close>

text \<open>
  A table of list heads: the list at each index has exactly the addresses of the set that belong there.
\<close>

definition btable :: "(addr \<Rightarrow> nat) \<Rightarrow> addr set \<Rightarrow> (addr \<Rightarrow> addr) \<Rightarrow> (addr \<Rightarrow> addr) \<Rightarrow> addr list \<Rightarrow> bool" where
  "btable at S nx pv bk \<longleftrightarrow>
     (\<forall>i < length bk. \<exists>xs. dlist nx pv xs \<and> bk ! i = head_addr xs \<and> set xs = {e \<in> S. at e = i})"

lemma btable_frame:
  "btable at S nx pv bk \<Longrightarrow> \<forall>x\<in>S. nx' x = nx x \<and> pv' x = pv x \<and> at' x = at x \<Longrightarrow> btable at' S nx' pv' bk"
  unfolding btable_def
proof (intro allI impI)
  fix i
  assume b: "\<forall>i<length bk. \<exists>xs. dlist nx pv xs \<and> bk ! i = head_addr xs \<and> set xs = {e \<in> S. at e = i}"
    and eq: "\<forall>x\<in>S. nx' x = nx x \<and> pv' x = pv x \<and> at' x = at x" and "i < length bk"
  then obtain xs where "dlist nx pv xs" "bk ! i = head_addr xs" "set xs = {e \<in> S. at e = i}" by blast
  moreover have "{e \<in> S. at' e = i} = {e \<in> S. at e = i}" using eq by auto
  ultimately show "\<exists>xs. dlist nx' pv' xs \<and> bk ! i = head_addr xs \<and> set xs = {e \<in> S. at' e = i}"
    using eq by (intro exI [of _ xs] conjI) (auto intro: dlist_frame)
qed

lemma btable_remove:
  assumes b: "btable at S nx pv bk" and e: "e \<in> S" "at e < length bk"
  shows "btable at (S - {e}) (next_without nx pv e) (previous_without nx pv e) (if pv e = 0 then bk[at e := nx e] else bk)"
    "\<And>x. x \<notin> S - {e} \<Longrightarrow> next_without nx pv e x = nx x \<and> previous_without nx pv e x = pv x"
proof -
  from b e obtain xs where xs: "dlist nx pv xs" "bk ! at e = head_addr xs" "set xs = {x \<in> S. at x = at e}"
    unfolding btable_def by blast
  then have "e \<in> set xs" using e(1) by simp
  then obtain as bs where s: "xs = as @ e # bs" by (meson split_list)
  note r = dlist_remove [OF xs(1) [unfolded s]] and o = without_other [OF xs(1) [unfolded s]]
  have dis: "set (as @ bs) = {x \<in> S - {e}. at x = at e}" using xs(1,3) by (auto simp: s dlist_def)
  show "\<And>x. x \<notin> S - {e} \<Longrightarrow> next_without nx pv e x = nx x \<and> previous_without nx pv e x = pv x"
    using o dis by blast
  show "btable at (S - {e}) (next_without nx pv e) (previous_without nx pv e) (if pv e = 0 then bk[at e := nx e] else bk)"
    unfolding btable_def
  proof (intro allI impI)
    fix i
    assume i: "i < length (if pv e = 0 then bk[at e := nx e] else bk)"
    show "\<exists>xs. dlist (next_without nx pv e) (previous_without nx pv e) xs \<and>
        (if pv e = 0 then bk[at e := nx e] else bk) ! i = head_addr xs \<and> set xs = {x \<in> S - {e}. at x = i}"
    proof (cases "i = at e")
      case True
      have "(if pv e = 0 then bk[at e := nx e] else bk) ! i = head_addr (as @ bs)" using r(2) xs(2) True e(2) by (simp add: s)
      then show ?thesis using r(1) dis True by (intro exI [of _ "as @ bs"]) auto
    next
      case False
      have "i < length bk" using i by (simp split: if_splits)
      then obtain ys where ys: "dlist nx pv ys" "bk ! i = head_addr ys" "set ys = {x \<in> S. at x = i}" using b unfolding btable_def by blast
      have "\<forall>x\<in>set ys. next_without nx pv e x = nx x \<and> previous_without nx pv e x = pv x" using o ys(3) dis False by auto
      from dlist_frame [OF ys(1) this] show ?thesis using ys(2,3) False by (intro exI [of _ ys]) auto
    qed
  qed
qed

lemma btable_push:
  assumes b: "btable at S nx pv bk" and e: "e \<notin> S" "e \<noteq> 0" "at e < length bk"
  defines "nx' \<equiv> nx(e := bk ! at e)" and "pv' \<equiv> if bk ! at e \<noteq> 0 then (pv(e := 0))(bk ! at e := e) else pv(e := 0)"
  shows "btable at (insert e S) nx' pv' (bk[at e := e])" "\<And>x. x \<notin> insert e S \<Longrightarrow> nx' x = nx x \<and> pv' x = pv x"
proof -
  from b e obtain xs where xs: "dlist nx pv xs" "bk ! at e = head_addr xs" "set xs = {x \<in> S. at x = at e}"
    unfolding btable_def by blast
  have d: "dlist nx' pv' (e # xs)" unfolding nx'_def pv'_def xs(2) using dlist_push [OF xs(1) e(2)] e(1) xs(3) by simp
  have h: "bk ! at e \<noteq> 0 \<Longrightarrow> bk ! at e \<in> set xs" unfolding xs(2) by (cases xs) auto
  have o: "nx' x = nx x \<and> pv' x = pv x" if "x \<noteq> e" "x \<notin> set xs" for x using that h by (auto simp: nx'_def pv'_def)
  then show "\<And>x. x \<notin> insert e S \<Longrightarrow> nx' x = nx x \<and> pv' x = pv x" using xs(3) by auto
  show "btable at (insert e S) nx' pv' (bk[at e := e])"
    unfolding btable_def
  proof (intro allI impI)
    fix i
    assume "i < length (bk[at e := e])"
    then have i: "i < length bk" by simp
    show "\<exists>xs. dlist nx' pv' xs \<and> bk[at e := e] ! i = head_addr xs \<and> set xs = {x \<in> insert e S. at x = i}"
    proof (cases "i = at e")
      case True
      then show ?thesis using d xs(3) e(3) by (intro exI [of _ "e # xs"]) auto
    next
      case False
      obtain ys where ys: "dlist nx pv ys" "bk ! i = head_addr ys" "set ys = {x \<in> S. at x = i}" using b i unfolding btable_def by blast
      have "\<forall>x\<in>set ys. nx' x = nx x \<and> pv' x = pv x"
      proof
        fix x
        assume "x \<in> set ys"
        then have "x \<noteq> e" "x \<notin> set xs" using ys(3) xs(3) e(1) False by auto
        then show "nx' x = nx x \<and> pv' x = pv x" by (rule o)
      qed
      from dlist_frame [OF ys(1) this] show ?thesis using ys(2,3) False by (intro exI [of _ ys]) auto
    qed
  qed
qed

lemma btable_empty: "btable at {} nx pv (replicate n 0)"
  unfolding btable_def by (intro allI impI exI [of _ "[]"]) auto

end
