(* ===== verification/Hash_Map.thy ===== *)
theory Hash_Map
  imports Linked_Lists
begin

text \<open>
  The hash map of \<open>shared/hashmap.c\<close>: entries are cells in two lists, that of their bucket and that of the
  iteration.  The functions are those for a map that exists; the null pointer in its place makes them
  return at once, and a value is never the null pointer.  \<open>hm_inv\<close> is the invariant; looking up finds the entry with the key, linking, unlinking and
  the move to a larger table keep the invariant.
\<close>

section \<open>State\<close>

text \<open>
  A map with the cells of its entries: the fields of the cells are functions of their address.  The
  lists and the table are pointers into them.
\<close>

record ('k, 'v) hashmap =
  key_of :: "addr \<Rightarrow> 'k"
  value_of :: "addr \<Rightarrow> 'v"
  bucket_next :: "addr \<Rightarrow> addr"
  bucket_previous :: "addr \<Rightarrow> addr"
  iterate_next :: "addr \<Rightarrow> addr"
  iterate_previous :: "addr \<Rightarrow> addr"
  iterate_list_head :: addr
  iterate_list_tail :: addr
  buckets :: "addr list"
  n_buckets :: nat
  n_entries :: nat
  hash_key :: bytes

text \<open>
  The functions a map is made with, and what it gets from outside: random bytes for a new key, the address of a
  new cell, and whether there is memory for a larger table.
\<close>

record ('k, 'v) hash_env =
  he_hash :: "'k \<Rightarrow> bytes \<Rightarrow> nat"
  he_compare :: "'k \<Rightarrow> 'k \<Rightarrow> int"
  he_random :: "('k, 'v) hashmap \<Rightarrow> bytes"
  he_alloc :: "('k, 'v) hashmap \<Rightarrow> addr option"
  he_new0 :: "('k, 'v) hashmap \<Rightarrow> bool"

abbreviation same_key :: "('k, 'v) hash_env \<Rightarrow> 'k \<Rightarrow> 'k \<Rightarrow> bool" where
  "same_key E a b \<equiv> he_compare E a b = 0"

section \<open>Operations\<close>

definition INITIAL_N_BUCKETS :: nat where "INITIAL_N_BUCKETS = 31"

definition bucket_hash :: "('k, 'v) hash_env \<Rightarrow> ('k, 'v) hashmap \<Rightarrow> 'k \<Rightarrow> nat" where
  "bucket_hash E h p = he_hash E p (hash_key h) mod n_buckets h"

definition hashmap_new :: "('k, 'v) hashmap \<Rightarrow> bytes \<Rightarrow> ('k, 'v) hashmap" where
  "hashmap_new memory current = memory\<lparr>iterate_list_head := 0, iterate_list_tail := 0, buckets := replicate INITIAL_N_BUCKETS 0,
     n_buckets := INITIAL_N_BUCKETS, n_entries := 0, hash_key := current\<rparr>"

definition hashmap_ensure_allocated :: "('k, 'v) hashmap \<Rightarrow> bytes \<Rightarrow> ('k, 'v) hashmap option \<Rightarrow> ('k, 'v) hashmap" where
  "hashmap_ensure_allocated memory current h = (case h of Some h \<Rightarrow> h | None \<Rightarrow> hashmap_new memory current)"

text \<open>A failed assertion has no result.\<close>

definition link_entry :: "('k, 'v) hashmap \<Rightarrow> addr \<Rightarrow> nat \<Rightarrow> ('k, 'v) hashmap option" where
  "link_entry h e hash =
     (let first = buckets h ! hash;
          h = h\<lparr>bucket_next := (bucket_next h)(e := first), bucket_previous := (bucket_previous h)(e := 0)\<rparr>;
          h = (if first \<noteq> 0 then h\<lparr>bucket_previous := (bucket_previous h)(first := e)\<rparr> else h);
          h = h\<lparr>buckets := (buckets h)[hash := e]\<rparr>;
          tail = iterate_list_tail h;
          h = h\<lparr>iterate_previous := (iterate_previous h)(e := tail), iterate_next := (iterate_next h)(e := 0)\<rparr>
      in if (tail \<noteq> 0) \<noteq> (iterate_list_head h \<noteq> 0) then None
         else
           let h = (if tail \<noteq> 0 then h\<lparr>iterate_next := (iterate_next h)(tail := e)\<rparr> else h\<lparr>iterate_list_head := e\<rparr>);
               h = h\<lparr>iterate_list_tail := e, n_entries := (n_entries h + 1) mod 2 ^ 32\<rparr>
           in if n_entries h \<ge> 1 then Some h else None)"

definition unlink_entry :: "('k, 'v) hashmap \<Rightarrow> addr \<Rightarrow> nat \<Rightarrow> ('k, 'v) hashmap option" where
  "unlink_entry h e hash =
     (let nx = iterate_next h e; pv = iterate_previous h e;
          h = (if nx \<noteq> 0 then h\<lparr>iterate_previous := (iterate_previous h)(nx := pv)\<rparr> else h\<lparr>iterate_list_tail := pv\<rparr>);
          h = (if pv \<noteq> 0 then h\<lparr>iterate_next := (iterate_next h)(pv := nx)\<rparr> else h\<lparr>iterate_list_head := nx\<rparr>);
          nx = bucket_next h e; pv = bucket_previous h e;
          h = (if nx \<noteq> 0 then h\<lparr>bucket_previous := (bucket_previous h)(nx := pv)\<rparr> else h);
          h = (if pv \<noteq> 0 then h\<lparr>bucket_next := (bucket_next h)(pv := nx)\<rparr> else h\<lparr>buckets := (buckets h)[hash := nx]\<rparr>)
      in if n_entries h \<ge> 1 then Some (h\<lparr>n_entries := n_entries h - 1\<rparr>) else None)"

definition remove_entry :: "('k, 'v) hash_env \<Rightarrow> ('k, 'v) hashmap \<Rightarrow> addr \<Rightarrow> ('k, 'v) hashmap option" where
  "remove_entry E h e = unlink_entry h e (bucket_hash E h (key_of h e))"

partial_function (option) scan_loop :: "('k, 'v) hash_env \<Rightarrow> ('k, 'v) hashmap \<Rightarrow> 'k \<Rightarrow> addr \<Rightarrow> addr option" where
  "scan_loop E h key e =
     (if e = 0 then Some 0 else if same_key E (key_of h e) key then Some e else scan_loop E h key (bucket_next h e))"

definition hash_scan :: "('k, 'v) hash_env \<Rightarrow> ('k, 'v) hashmap \<Rightarrow> nat \<Rightarrow> 'k \<Rightarrow> addr option" where
  "hash_scan E h hash key = scan_loop E h key (buckets h ! hash)"

text \<open>One entry goes from the old table to the new one, whose lists use the same cells.\<close>

definition move_to_table ::
  "('k, 'v) hash_env \<Rightarrow> bytes \<Rightarrow> nat \<Rightarrow> addr \<Rightarrow> ('k, 'v) hashmap \<times> addr list \<Rightarrow> ('k, 'v) hashmap \<times> addr list" where
  "move_to_table E nkey m i s =
     (let (h, n) = s;
          old_bucket = he_hash E (key_of h i) (hash_key h) mod n_buckets h;
          nx = bucket_next h i; pv = bucket_previous h i;
          h = (if nx \<noteq> 0 then h\<lparr>bucket_previous := (bucket_previous h)(nx := pv)\<rparr> else h);
          h = (if pv \<noteq> 0 then h\<lparr>bucket_next := (bucket_next h)(pv := nx)\<rparr> else h\<lparr>buckets := (buckets h)[old_bucket := nx]\<rparr>);
          new_bucket = he_hash E (key_of h i) nkey mod m;
          h = h\<lparr>bucket_next := (bucket_next h)(i := n ! new_bucket), bucket_previous := (bucket_previous h)(i := 0)\<rparr>;
          h = (if n ! new_bucket \<noteq> 0 then h\<lparr>bucket_previous := (bucket_previous h)(n ! new_bucket := i)\<rparr> else h)
      in (h, n[new_bucket := i]))"

partial_function (option) resize_loop ::
  "('k, 'v) hash_env \<Rightarrow> bytes \<Rightarrow> nat \<Rightarrow> addr \<Rightarrow> ('k, 'v) hashmap \<times> addr list \<Rightarrow> (('k, 'v) hashmap \<times> addr list) option" where
  "resize_loop E nkey m i s =
     (if i = 0 then Some s
      else let s = move_to_table E nkey m i s in resize_loop E nkey m (iterate_next (fst s) i) s)"

definition resize_buckets :: "('k, 'v) hash_env \<Rightarrow> ('k, 'v) hashmap \<Rightarrow> (bool \<times> ('k, 'v) hashmap) option" where
  "resize_buckets E h =
     (if n_entries h * 4 mod 2 ^ 32 < n_buckets h * 3 mod 2 ^ 32 then Some (False, h)
      else
        let m = ((n_entries h + 1) * 4 + 2 ^ 32 - 1) mod 2 ^ 32 in
        if \<not> he_new0 E h then Some (False, h)
        else
          let nkey = he_random E h in
          case resize_loop E nkey m (iterate_list_head h) (h, replicate m 0) of
            None \<Rightarrow> None
          | Some (h, n) \<Rightarrow> Some (True, h\<lparr>buckets := n, n_buckets := m, hash_key := nkey\<rparr>))"

definition hashmap_put :: "('k, 'v) hash_env \<Rightarrow> ('k, 'v) hashmap \<Rightarrow> 'k \<Rightarrow> 'v \<Rightarrow> (nat res \<times> ('k, 'v) hashmap) option" where
  "hashmap_put E h key val =
     (let hash = bucket_hash E h key in
      case hash_scan E h hash key of
        None \<Rightarrow> None
      | Some e \<Rightarrow>
          if e \<noteq> 0 then Some (if value_of h e = val then Inr 0 else Inl EEXIST, h)
          else case resize_buckets E h of
            None \<Rightarrow> None
          | Some (resized, h) \<Rightarrow>
              let hash = (if resized then bucket_hash E h key else hash) in
              case he_alloc E h of
                None \<Rightarrow> Some (Inl ENOMEM, h)
              | Some e \<Rightarrow>
                  (case link_entry (h\<lparr>key_of := (key_of h)(e := key), value_of := (value_of h)(e := val)\<rparr>) e hash of
                     None \<Rightarrow> None
                   | Some h \<Rightarrow> Some (Inr 1, h)))"

text \<open>Looking an entry up and going on with it, if there is one.\<close>

definition find_entry :: "('k, 'v) hash_env \<Rightarrow> ('k, 'v) hashmap \<Rightarrow> 'k \<Rightarrow> addr option" where
  "find_entry E h key = hash_scan E h (bucket_hash E h key) key"

definition hashmap_replace :: "('k, 'v) hash_env \<Rightarrow> ('k, 'v) hashmap \<Rightarrow> 'k \<Rightarrow> 'v \<Rightarrow> (nat res \<times> ('k, 'v) hashmap) option" where
  "hashmap_replace E h key val =
     (case find_entry E h key of
        None \<Rightarrow> None
      | Some e \<Rightarrow>
          if e \<noteq> 0 then Some (Inr 0, h\<lparr>key_of := (key_of h)(e := key), value_of := (value_of h)(e := val)\<rparr>)
          else hashmap_put E h key val)"

definition hashmap_update :: "('k, 'v) hash_env \<Rightarrow> ('k, 'v) hashmap \<Rightarrow> 'k \<Rightarrow> 'v \<Rightarrow> (nat res \<times> ('k, 'v) hashmap) option" where
  "hashmap_update E h key val =
     (case find_entry E h key of
        None \<Rightarrow> None
      | Some e \<Rightarrow>
          if e = 0 then Some (Inl ENOENT, h) else Some (Inr 0, h\<lparr>value_of := (value_of h)(e := val)\<rparr>))"

definition hashmap_get :: "('k, 'v) hash_env \<Rightarrow> ('k, 'v) hashmap \<Rightarrow> 'k \<Rightarrow> 'v option option" where
  "hashmap_get E h key =
     (case find_entry E h key of None \<Rightarrow> None | Some e \<Rightarrow> Some (if e = 0 then None else Some (value_of h e)))"

definition hashmap_get2 :: "('k, 'v) hash_env \<Rightarrow> ('k, 'v) hashmap \<Rightarrow> 'k \<Rightarrow> ('k \<times> 'v) option option" where
  "hashmap_get2 E h key =
     (case find_entry E h key of None \<Rightarrow> None | Some e \<Rightarrow> Some (if e = 0 then None else Some (key_of h e, value_of h e)))"

definition hashmap_contains :: "('k, 'v) hash_env \<Rightarrow> ('k, 'v) hashmap \<Rightarrow> 'k \<Rightarrow> bool option" where
  "hashmap_contains E h key = (case find_entry E h key of None \<Rightarrow> None | Some e \<Rightarrow> Some (e \<noteq> 0))"

definition hashmap_remove2 ::
  "('k, 'v) hash_env \<Rightarrow> ('k, 'v) hashmap \<Rightarrow> 'k \<Rightarrow> (('k \<times> 'v) option \<times> ('k, 'v) hashmap) option" where
  "hashmap_remove2 E h key =
     (case find_entry E h key of
        None \<Rightarrow> None
      | Some e \<Rightarrow>
          if e = 0 then Some (None, h)
          else let data = value_of h e; rkey = key_of h e in
            case remove_entry E h e of None \<Rightarrow> None | Some h \<Rightarrow> Some (Some (rkey, data), h))"

definition hashmap_remove :: "('k, 'v) hash_env \<Rightarrow> ('k, 'v) hashmap \<Rightarrow> 'k \<Rightarrow> ('v option \<times> ('k, 'v) hashmap) option" where
  "hashmap_remove E h key =
     (case find_entry E h key of
        None \<Rightarrow> None
      | Some e \<Rightarrow>
          if e = 0 then Some (None, h)
          else let data = value_of h e in
            case remove_entry E h e of None \<Rightarrow> None | Some h \<Rightarrow> Some (Some data, h))"

definition hashmap_remove_value ::
  "('k, 'v) hash_env \<Rightarrow> ('k, 'v) hashmap \<Rightarrow> 'k \<Rightarrow> 'v \<Rightarrow> ('v option \<times> ('k, 'v) hashmap) option" where
  "hashmap_remove_value E h key val =
     (case find_entry E h key of
        None \<Rightarrow> None
      | Some e \<Rightarrow>
          if e = 0 then Some (None, h)
          else if value_of h e \<noteq> val then Some (None, h)
          else case remove_entry E h e of None \<Rightarrow> None | Some h \<Rightarrow> Some (Some val, h))"

definition relink :: "('k, 'v) hashmap \<Rightarrow> addr \<Rightarrow> nat \<Rightarrow> 'k \<Rightarrow> 'v \<Rightarrow> nat \<Rightarrow> (nat res \<times> ('k, 'v) hashmap) option" where
  "relink h e old_hash new_key val new_hash =
     (case unlink_entry h e old_hash of
        None \<Rightarrow> None
      | Some h \<Rightarrow>
          (case link_entry (h\<lparr>key_of := (key_of h)(e := new_key), value_of := (value_of h)(e := val)\<rparr>) e new_hash of
             None \<Rightarrow> None | Some h \<Rightarrow> Some (Inr 0, h)))"

definition hashmap_remove_and_put ::
  "('k, 'v) hash_env \<Rightarrow> ('k, 'v) hashmap \<Rightarrow> 'k \<Rightarrow> 'k \<Rightarrow> 'v \<Rightarrow> (nat res \<times> ('k, 'v) hashmap) option" where
  "hashmap_remove_and_put E h old_key new_key val =
     (case find_entry E h old_key of
        None \<Rightarrow> None
      | Some e \<Rightarrow>
          if e = 0 then Some (Inl ENOENT, h)
          else case find_entry E h new_key of
            None \<Rightarrow> None
          | Some k \<Rightarrow>
              if k \<noteq> 0 then Some (Inl EEXIST, h)
              else relink h e (bucket_hash E h old_key) new_key val (bucket_hash E h new_key))"

definition hashmap_remove_and_replace ::
  "('k, 'v) hash_env \<Rightarrow> ('k, 'v) hashmap \<Rightarrow> 'k \<Rightarrow> 'k \<Rightarrow> 'v \<Rightarrow> (nat res \<times> ('k, 'v) hashmap) option" where
  "hashmap_remove_and_replace E h old_key new_key val =
     (case find_entry E h old_key of
        None \<Rightarrow> None
      | Some e \<Rightarrow>
          if e = 0 then Some (Inl ENOENT, h)
          else case find_entry E h new_key of
            None \<Rightarrow> None
          | Some k \<Rightarrow>
              (case (if k \<noteq> 0 \<and> e \<noteq> k then remove_entry E h k else Some h) of
                 None \<Rightarrow> None
               | Some h' \<Rightarrow> relink h' e (bucket_hash E h old_key) new_key val (bucket_hash E h new_key)))"

datatype iterator = ITERATOR_FIRST | ITERATOR_LAST | At addr

definition hashmap_iterate :: "('k, 'v) hashmap \<Rightarrow> iterator \<Rightarrow> ('k \<times> 'v) option \<times> iterator" where
  "hashmap_iterate h i =
     (if i = ITERATOR_LAST \<or> i = ITERATOR_FIRST \<and> iterate_list_head h = 0 then (None, ITERATOR_LAST)
      else let e = (case i of At e \<Rightarrow> e | _ \<Rightarrow> iterate_list_head h) in
        (Some (key_of h e, value_of h e), if iterate_next h e \<noteq> 0 then At (iterate_next h e) else ITERATOR_LAST))"

definition hashmap_iterate_backwards :: "('k, 'v) hashmap \<Rightarrow> iterator \<Rightarrow> ('k \<times> 'v) option \<times> iterator" where
  "hashmap_iterate_backwards h i =
     (if i = ITERATOR_FIRST \<or> i = ITERATOR_LAST \<and> iterate_list_tail h = 0 then (None, ITERATOR_FIRST)
      else let e = (case i of At e \<Rightarrow> e | _ \<Rightarrow> iterate_list_tail h) in
        (Some (key_of h e, value_of h e), if iterate_previous h e \<noteq> 0 then At (iterate_previous h e) else ITERATOR_FIRST))"

definition hashmap_iterate_skip :: "('k, 'v) hash_env \<Rightarrow> ('k, 'v) hashmap \<Rightarrow> 'k \<Rightarrow> iterator \<Rightarrow> ('v option \<times> iterator) option" where
  "hashmap_iterate_skip E h key i =
     (case find_entry E h key of None \<Rightarrow> None | Some e \<Rightarrow> Some (if e = 0 then (None, i) else (Some (value_of h e), At e)))"

definition hashmap_first :: "('k, 'v) hashmap \<Rightarrow> 'v option" where
  "hashmap_first h = (if iterate_list_head h = 0 then None else Some (value_of h (iterate_list_head h)))"

definition hashmap_first_key :: "('k, 'v) hashmap \<Rightarrow> 'k option" where
  "hashmap_first_key h = (if iterate_list_head h = 0 then None else Some (key_of h (iterate_list_head h)))"

definition hashmap_last :: "('k, 'v) hashmap \<Rightarrow> 'v option" where
  "hashmap_last h = (if iterate_list_tail h = 0 then None else Some (value_of h (iterate_list_tail h)))"

definition hashmap_steal_first :: "('k, 'v) hash_env \<Rightarrow> ('k, 'v) hashmap \<Rightarrow> ('v option \<times> ('k, 'v) hashmap) option" where
  "hashmap_steal_first E h =
     (if iterate_list_head h = 0 then Some (None, h)
      else let data = value_of h (iterate_list_head h) in
        case remove_entry E h (iterate_list_head h) of None \<Rightarrow> None | Some h \<Rightarrow> Some (Some data, h))"

definition hashmap_steal_first_key :: "('k, 'v) hash_env \<Rightarrow> ('k, 'v) hashmap \<Rightarrow> ('k option \<times> ('k, 'v) hashmap) option" where
  "hashmap_steal_first_key E h =
     (if iterate_list_head h = 0 then Some (None, h)
      else let key = key_of h (iterate_list_head h) in
        case remove_entry E h (iterate_list_head h) of None \<Rightarrow> None | Some h \<Rightarrow> Some (Some key, h))"

partial_function (option) hashmap_clear :: "('k, 'v) hash_env \<Rightarrow> ('k, 'v) hashmap \<Rightarrow> ('k, 'v) hashmap option" where
  "hashmap_clear E h =
     (if iterate_list_head h = 0 then Some h
      else case remove_entry E h (iterate_list_head h) of None \<Rightarrow> None | Some h \<Rightarrow> hashmap_clear E h)"

definition hashmap_size :: "('k, 'v) hashmap \<Rightarrow> nat" where
  "hashmap_size h = n_entries h"

definition hashmap_buckets :: "('k, 'v) hashmap \<Rightarrow> nat" where
  "hashmap_buckets h = n_buckets h"

definition hashmap_isempty :: "('k, 'v) hashmap \<Rightarrow> bool" where
  "hashmap_isempty h \<longleftrightarrow> n_entries h = 0"

definition hashmap_next :: "('k, 'v) hash_env \<Rightarrow> ('k, 'v) hashmap \<Rightarrow> 'k \<Rightarrow> 'v option option" where
  "hashmap_next E h key =
     (case find_entry E h key of
        None \<Rightarrow> None
      | Some e \<Rightarrow> Some (if e = 0 then None else if iterate_next h e = 0 then None else Some (value_of h (iterate_next h e))))"

text \<open>A loop over all entries, as the macros write it, and those the code has itself.\<close>

partial_function (option) foreach :: "('k, 'v) hashmap \<Rightarrow> iterator \<Rightarrow> ('k \<times> 'v) list \<Rightarrow> ('k \<times> 'v) list option" where
  "foreach h i acc =
     (case hashmap_iterate h i of (None, _) \<Rightarrow> Some acc | (Some kv, i) \<Rightarrow> foreach h i (acc @ [kv]))"

definition hashmap_get_strv :: "('k, 'v) hashmap \<Rightarrow> 'v list option" where
  "hashmap_get_strv h = map_option (map snd) (foreach h ITERATOR_FIRST [])"

partial_function (option) merge_loop ::
  "('k, 'v) hash_env \<Rightarrow> ('k, 'v) hashmap \<Rightarrow> addr \<Rightarrow> ('k, 'v) hashmap \<Rightarrow> (nat res \<times> ('k, 'v) hashmap) option" where
  "merge_loop E other e h =
     (if e = 0 then Some (Inr 0, h)
      else case hashmap_put E h (key_of other e) (value_of other e) of
        None \<Rightarrow> None
      | Some (r, h) \<Rightarrow>
          (case r of
             Inl err \<Rightarrow> if err \<noteq> EEXIST then Some (Inl err, h) else merge_loop E other (iterate_next other e) h
           | Inr _ \<Rightarrow> merge_loop E other (iterate_next other e) h))"

definition hashmap_merge ::
  "('k, 'v) hash_env \<Rightarrow> ('k, 'v) hashmap \<Rightarrow> ('k, 'v) hashmap \<Rightarrow> (nat res \<times> ('k, 'v) hashmap) option" where
  "hashmap_merge E h other = merge_loop E other (iterate_list_head other) h"

definition hashmap_copy :: "('k, 'v) hash_env \<Rightarrow> ('k, 'v) hashmap \<Rightarrow> bytes \<Rightarrow> ('k, 'v) hashmap \<Rightarrow> ('k, 'v) hashmap option option" where
  "hashmap_copy E memory current h =
     (case hashmap_merge E (hashmap_new memory current) h of
        None \<Rightarrow> None
      | Some (r, copy) \<Rightarrow> Some (case r of Inl _ \<Rightarrow> None | Inr _ \<Rightarrow> Some copy))"

section \<open>Sound maps\<close>

abbreviation bucket_of :: "('k, 'v) hash_env \<Rightarrow> ('k, 'v) hashmap \<Rightarrow> addr \<Rightarrow> nat" where
  "bucket_of E h e \<equiv> he_hash E (key_of h e) (hash_key h) mod n_buckets h"

text \<open>The addresses \<open>xs\<close> are those of the entries, in the order of the iteration.\<close>

definition hm_inv :: "('k, 'v) hash_env \<Rightarrow> ('k, 'v) hashmap \<Rightarrow> addr list \<Rightarrow> bool" where
  "hm_inv E h xs \<longleftrightarrow>
     dlist (iterate_next h) (iterate_previous h) xs \<and> iterate_list_head h = head_addr xs \<and> iterate_list_tail h = tail_addr xs \<and>
     length (buckets h) = n_buckets h \<and> 0 < n_buckets h \<and>
     btable (bucket_of E h) (set xs) (bucket_next h) (bucket_previous h) (buckets h) \<and>
     n_entries h = length xs \<and> (\<forall>x\<in>set xs. \<forall>y\<in>set xs. same_key E (key_of h x) (key_of h y) \<longrightarrow> x = y)"

lemma hm_invD:
  assumes "hm_inv E h xs"
  shows "dlist (iterate_next h) (iterate_previous h) xs" "iterate_list_head h = head_addr xs" "iterate_list_tail h = tail_addr xs"
    "length (buckets h) = n_buckets h" "0 < n_buckets h"
    "btable (bucket_of E h) (set xs) (bucket_next h) (bucket_previous h) (buckets h)" "n_entries h = length xs"
    "\<And>x y. x \<in> set xs \<Longrightarrow> y \<in> set xs \<Longrightarrow> same_key E (key_of h x) (key_of h y) \<Longrightarrow> x = y"
    "distinct xs" "0 \<notin> set xs" "xs \<noteq> [] \<longleftrightarrow> head_addr xs \<noteq> 0" "xs \<noteq> [] \<longleftrightarrow> tail_addr xs \<noteq> 0"
proof -
  show d: "dlist (iterate_next h) (iterate_previous h) xs" using assms by (simp add: hm_inv_def)
  then show "distinct xs" "0 \<notin> set xs" "xs \<noteq> [] \<longleftrightarrow> head_addr xs \<noteq> 0" "xs \<noteq> [] \<longleftrightarrow> tail_addr xs \<noteq> 0"
    using head_addr_zero [OF d] tail_addr_zero [OF d] by (auto simp: dlist_def)
qed (use assms in \<open>auto simp: hm_inv_def\<close>)

definition al :: "('k, 'v) hashmap \<Rightarrow> addr list \<Rightarrow> ('k \<times> 'v) list" where
  "al h xs = map (\<lambda>e. (key_of h e, value_of h e)) xs"

text \<open>
  What a map relies on: equal keys have equal hash values, and a new cell is none of those in use.
\<close>

locale hashed =
  fixes E :: "('k, 'v) hash_env"
  assumes refl: "same_key E a a"
    and sym: "same_key E a b \<Longrightarrow> same_key E b a"
    and trans: "same_key E a b \<Longrightarrow> same_key E b c \<Longrightarrow> same_key E a c"
    and hash: "same_key E a b \<Longrightarrow> he_hash E a k = he_hash E b k"
    and alloc: "hm_inv E h xs \<Longrightarrow> \<exists>e. he_alloc E h = Some e \<and> e \<noteq> 0 \<and> e \<notin> set xs"

section \<open>Lookup\<close>

lemma scan_seg:
  "seg (bucket_next h) pv p xs 0 \<Longrightarrow> 0 \<notin> set xs \<Longrightarrow>
   scan_loop E h k (head_addr xs) = Some (case find (\<lambda>e. same_key E (key_of h e) k) xs of None \<Rightarrow> 0 | Some e \<Rightarrow> e)"
proof (induction xs arbitrary: p)
  case Nil
  then show ?case by (simp add: scan_loop.simps)
next
  case (Cons x xs)
  then show ?case by (subst scan_loop.simps) auto
qed

context hashed
begin

lemma find_unique:
  assumes "hm_inv E h xs" and "e \<in> set xs" "same_key E (key_of h e) k" and "set ys \<subseteq> set xs" "e \<in> set ys"
  shows "find (\<lambda>e. same_key E (key_of h e) k) ys = Some e"
proof -
  have "find (\<lambda>e. same_key E (key_of h e) k) ys \<noteq> None" using assms(3,5) by (auto simp: find_None_iff)
  then obtain f where f: "find (\<lambda>e. same_key E (key_of h e) k) ys = Some f" by blast
  then have "f \<in> set ys" "same_key E (key_of h f) k" by (auto simp: find_Some_iff)
  then have "f = e" using hm_invD(8) [OF assms(1), of f e] assms(2-4) sym trans by blast
  with f show ?thesis by simp
qed

lemma find_entry_run:
  assumes inv: "hm_inv E h xs"
  shows "find_entry E h k = Some (case find (\<lambda>e. same_key E (key_of h e) k) xs of None \<Rightarrow> 0 | Some e \<Rightarrow> e)"
proof -
  let ?i = "bucket_hash E h k" and ?P = "\<lambda>e. same_key E (key_of h e) k"
  have "?i < length (buckets h)" using hm_invD(4,5) [OF inv] by (simp add: bucket_hash_def)
  then obtain ys where ys: "dlist (bucket_next h) (bucket_previous h) ys" "buckets h ! ?i = head_addr ys" "set ys = {e \<in> set xs. bucket_of E h e = ?i}"
    using hm_invD(6) [OF inv] unfolding btable_def by blast
  have "find ?P ys = find ?P xs"
  proof (cases "find ?P xs")
    case None
    then have "find ?P ys = None" using ys(3) by (auto simp: find_None_iff)
    with None show ?thesis by simp
  next
    case (Some e)
    then have e: "e \<in> set xs" "?P e" by (auto simp: find_Some_iff)
    then have "e \<in> set ys" using hash [OF e(2)] by (simp add: ys(3) bucket_hash_def)
    then show ?thesis using find_unique [OF inv e] Some ys(3) by auto
  qed
  moreover have "scan_loop E h k (head_addr ys) = Some (case find ?P ys of None \<Rightarrow> 0 | Some e \<Rightarrow> e)"
    using scan_seg [of h "bucket_previous h" 0 ys E k] ys(1) by (simp add: dlist_def)
  ultimately show ?thesis unfolding find_entry_def hash_scan_def ys(2) by simp
qed

text \<open>An entry that is found splits the list, and nothing else has its key.\<close>

lemma find_entry_cases:
  assumes inv: "hm_inv E h xs"
  obtains (absent) "find_entry E h k = Some 0" "\<forall>e\<in>set xs. \<not> same_key E (key_of h e) k"
  | (present) e as bs where "find_entry E h k = Some e" "e \<noteq> 0" "xs = as @ e # bs" "same_key E (key_of h e) k"
      "\<forall>x\<in>set as \<union> set bs. \<not> same_key E (key_of h x) k"
proof (cases "find (\<lambda>e. same_key E (key_of h e) k) xs")
  case None
  then have "\<forall>e\<in>set xs. \<not> same_key E (key_of h e) k" by (auto simp: find_None_iff)
  then show ?thesis using absent find_entry_run [OF inv, of k] None by simp
next
  case (Some e)
  then have e: "e \<in> set xs" "same_key E (key_of h e) k" by (auto simp: find_Some_iff)
  then obtain as bs where s: "xs = as @ e # bs" by (meson split_list)
  have "\<not> same_key E (key_of h x) k" if "x \<in> set as \<union> set bs" for x
  proof
    assume "same_key E (key_of h x) k"
    then have "same_key E (key_of h x) (key_of h e)" by (rule trans [OF _ sym [OF e(2)]])
    then have "x = e" using hm_invD(8) [OF inv, of x e] that e(1) s by auto
    then show False using that hm_invD(9) [OF inv] s by auto
  qed
  moreover have "find_entry E h k = Some e" using find_entry_run [OF inv, of k] Some by simp
  moreover have "e \<noteq> 0" using hm_invD(10) [OF inv] e(1) by metis
  ultimately show ?thesis using e(2) s by (intro present [of e as bs]) blast+
qed

end

section \<open>Linking and unlinking\<close>

lemma link_entry_eq:
  assumes "iterate_list_tail h = 0 \<longleftrightarrow> iterate_list_head h = 0" and "n_entries h + 1 < 2 ^ 32"
  shows "link_entry h e hash = Some (h\<lparr>bucket_next := (bucket_next h)(e := buckets h ! hash),
      bucket_previous := (if buckets h ! hash \<noteq> 0 then ((bucket_previous h)(e := 0))(buckets h ! hash := e) else (bucket_previous h)(e := 0)),
      iterate_next := (if iterate_list_tail h \<noteq> 0 then ((iterate_next h)(e := 0))(iterate_list_tail h := e) else (iterate_next h)(e := 0)),
      iterate_previous := (iterate_previous h)(e := iterate_list_tail h),
      iterate_list_head := (if iterate_list_tail h \<noteq> 0 then iterate_list_head h else e), iterate_list_tail := e,
      buckets := (buckets h)[hash := e], n_entries := n_entries h + 1\<rparr>)"
  using assms by (cases h) (auto simp: link_entry_def Let_def)

lemma link_run:
  assumes inv: "hm_inv E h xs" and e: "e \<noteq> 0" "e \<notin> set xs" and k: "\<forall>x\<in>set xs. \<not> same_key E (key_of h x) k \<and> \<not> same_key E k (key_of h x)"
    and few: "length xs + 1 < 2 ^ 32"
  shows "\<exists>h'. link_entry (h\<lparr>key_of := (key_of h)(e := k), value_of := (value_of h)(e := v)\<rparr>) e (bucket_hash E h k) = Some h' \<and>
    hm_inv E h' (xs @ [e]) \<and> key_of h' = (key_of h)(e := k) \<and> value_of h' = (value_of h)(e := v)"
proof -
  note i = hm_invD [OF inv]
  let ?at = "\<lambda>x. he_hash E (((key_of h)(e := k)) x) (hash_key h) mod n_buckets h"
  have at: "?at e = bucket_hash E h k" by (simp add: bucket_hash_def)
  have lt: "?at e < length (buckets h)" using i(4,5) by simp
  have bt: "btable ?at (set xs) (bucket_next h) (bucket_previous h) (buckets h)"
    by (rule btable_frame [OF i(6)]) (use e in auto)
  define bn bp where "bn = (bucket_next h)(e := buckets h ! bucket_hash E h k)"
    and "bp = (if buckets h ! bucket_hash E h k \<noteq> 0 then ((bucket_previous h)(e := 0))(buckets h ! bucket_hash E h k := e)
      else (bucket_previous h)(e := 0))"
  define nx pv where "nx = (if tail_addr xs \<noteq> 0 then ((iterate_next h)(e := 0))(tail_addr xs := e) else (iterate_next h)(e := 0))"
    and "pv = (iterate_previous h)(e := tail_addr xs)"
  have p: "btable ?at (set (xs @ [e])) bn bp ((buckets h)[bucket_hash E h k := e])"
    using btable_push(1) [OF bt e(2,1) lt, unfolded at, folded bn_def bp_def] by simp
  have d: "dlist nx pv (xs @ [e])" unfolding nx_def pv_def by (rule dlist_snoc [OF i(1) e])
  have fst: "(if tail_addr xs \<noteq> 0 then head_addr xs else e) = head_addr (xs @ [e])" using i(12) by (cases xs) auto
  have lst: "e = tail_addr (xs @ [e])" by simp
  let ?h = "h\<lparr>key_of := (key_of h)(e := k), value_of := (value_of h)(e := v)\<rparr>"
  let ?g = "?h\<lparr>bucket_next := bn, bucket_previous := bp, iterate_next := nx, iterate_previous := pv,
      iterate_list_head := head_addr (xs @ [e]), iterate_list_tail := e, buckets := (buckets h)[bucket_hash E h k := e], n_entries := length xs + 1\<rparr>"
  have t: "iterate_list_tail ?h = tail_addr xs" "iterate_list_head ?h = head_addr xs" using i(2,3) by simp_all
  have "link_entry ?h e (bucket_hash E h k) = Some ?g"
  proof -
    have a: "iterate_list_tail ?h = 0 \<longleftrightarrow> iterate_list_head ?h = 0" using t i(11,12) by metis
    have b: "n_entries ?h + 1 < 2 ^ 32" using few i(7) by simp
    show ?thesis unfolding link_entry_eq [OF a b] t fst by (simp add: bn_def bp_def nx_def pv_def i(7))
  qed
  moreover have "hm_inv E ?g (xs @ [e])"
  proof -
    have ks: "\<forall>x\<in>set (xs @ [e]). \<forall>y\<in>set (xs @ [e]). same_key E (((key_of h)(e := k)) x) (((key_of h)(e := k)) y) \<longrightarrow> x = y"
      using i(8) k e(2) by auto
    show ?thesis
      unfolding hm_inv_def hashmap.simps using d p ks lst i(4,5) by (intro conjI) (simp_all del: fun_upd_apply)
  qed
  ultimately show ?thesis by (intro exI [of _ ?g]) simp
qed

lemma unlink_entry_eq:
  assumes "n_entries h \<ge> 1"
  shows "unlink_entry h e hash = Some (h\<lparr>
      bucket_next := next_without (bucket_next h) (bucket_previous h) e, bucket_previous := previous_without (bucket_next h) (bucket_previous h) e,
      iterate_next := next_without (iterate_next h) (iterate_previous h) e, iterate_previous := previous_without (iterate_next h) (iterate_previous h) e,
      iterate_list_head := (if iterate_previous h e = 0 then iterate_next h e else iterate_list_head h),
      iterate_list_tail := (if iterate_next h e = 0 then iterate_previous h e else iterate_list_tail h),
      buckets := (if bucket_previous h e = 0 then (buckets h)[hash := bucket_next h e] else buckets h), n_entries := n_entries h - 1\<rparr>)"
  using assms by (cases h) (simp add: unlink_entry_def Let_def next_without_def previous_without_def)

lemma unlink_run:
  assumes inv: "hm_inv E h (as @ e # bs)" and k: "bucket_of E h e = hash"
  shows "\<exists>h'. unlink_entry h e hash = Some h' \<and> hm_inv E h' (as @ bs) \<and> key_of h' = key_of h \<and> value_of h' = value_of h \<and>
    n_buckets h' = n_buckets h \<and> hash_key h' = hash_key h"
proof -
  note i = hm_invD [OF inv]
  have lt: "bucket_of E h e < length (buckets h)" using i(4,5) by simp
  have S: "set (as @ e # bs) - {e} = set (as @ bs)" using i(9) by auto
  note b = btable_remove(1) [OF i(6) _ lt, unfolded S k]
  note d = dlist_remove [OF i(1)]
  let ?g = "h\<lparr>
      bucket_next := next_without (bucket_next h) (bucket_previous h) e, bucket_previous := previous_without (bucket_next h) (bucket_previous h) e,
      iterate_next := next_without (iterate_next h) (iterate_previous h) e, iterate_previous := previous_without (iterate_next h) (iterate_previous h) e,
      iterate_list_head := head_addr (as @ bs), iterate_list_tail := tail_addr (as @ bs),
      buckets := (if bucket_previous h e = 0 then (buckets h)[hash := bucket_next h e] else buckets h), n_entries := length (as @ bs)\<rparr>"
  have "unlink_entry h e hash = Some ?g"
    using unlink_entry_eq [of h e hash] i(2,3,7) d(2,3) by simp
  moreover have "hm_inv E ?g (as @ bs)"
    unfolding hm_inv_def using d(1) b i(4,5,8) by auto
  ultimately show ?thesis by (intro exI [of _ ?g]) simp
qed

lemma remove_run:
  assumes "hm_inv E h (as @ e # bs)"
  shows "\<exists>h'. remove_entry E h e = Some h' \<and> hm_inv E h' (as @ bs) \<and> key_of h' = key_of h \<and> value_of h' = value_of h \<and>
    n_buckets h' = n_buckets h \<and> hash_key h' = hash_key h"
  unfolding remove_entry_def by (rule unlink_run [OF assms]) (simp add: bucket_hash_def)

section \<open>A larger table\<close>

text \<open>
  While entries are moved, those already moved, \<open>ps\<close>, are in the new table and the rest in the old one.
\<close>

definition moving :: "('k, 'v) hash_env \<Rightarrow> bytes \<Rightarrow> ('k, 'v) hashmap \<Rightarrow> addr list \<Rightarrow> addr list \<Rightarrow> ('k, 'v) hashmap \<times> addr list \<Rightarrow> bool" where
  "moving E nkey h0 ps qs s \<longleftrightarrow>
     (\<exists>bn bp bk. fst s = h0\<lparr>bucket_next := bn, bucket_previous := bp, buckets := bk\<rparr> \<and> length bk = n_buckets h0 \<and>
        btable (bucket_of E h0) (set qs) bn bp bk \<and>
        btable (\<lambda>e. he_hash E (key_of h0 e) nkey mod length (snd s)) (set ps) bn bp (snd s))"

lemma move_to_table_eq:
  "move_to_table E nkey m i (h, n) =
     (let bn = next_without (bucket_next h) (bucket_previous h) i; bp = previous_without (bucket_next h) (bucket_previous h) i;
          b = he_hash E (key_of h i) nkey mod m
      in (h\<lparr>bucket_next := bn(i := n ! b), bucket_previous := (if n ! b \<noteq> 0 then (bp(i := 0))(n ! b := i) else bp(i := 0)),
            buckets := (if bucket_previous h i = 0 then (buckets h)[he_hash E (key_of h i) (hash_key h) mod n_buckets h := bucket_next h i] else buckets h)\<rparr>,
          n[b := i]))"
  by (cases h) (simp add: move_to_table_def Let_def next_without_def previous_without_def)

lemma moving_step:
  assumes mv: "moving E nkey h0 ps (x # qs) s" and x: "x \<noteq> 0" "x \<notin> set ps" "x \<notin> set qs" "set ps \<inter> set qs = {}"
    and m: "length (snd s) = m" "0 < m" "0 < n_buckets h0"
  shows "moving E nkey h0 (ps @ [x]) qs (move_to_table E nkey m x s)" "length (snd (move_to_table E nkey m x s)) = m"
proof -
  from mv obtain bn bp bk where s: "fst s = h0\<lparr>bucket_next := bn, bucket_previous := bp, buckets := bk\<rparr>" "length bk = n_buckets h0"
    and old: "btable (bucket_of E h0) (set (x # qs)) bn bp bk"
    and new: "btable (\<lambda>e. he_hash E (key_of h0 e) nkey mod m) (set ps) bn bp (snd s)"
    using m(1) by (auto simp: moving_def)
  let ?bn = "next_without bn bp x" and ?bp = "previous_without bn bp x"
  let ?bk = "if bp x = 0 then bk[bucket_of E h0 x := bn x] else bk"
  have S: "set (x # qs) - {x} = set qs" using x(3) by auto
  have "bucket_of E h0 x < length bk" using s(2) m(3) by simp
  note r = btable_remove [OF old _ this, unfolded S]
  have "btable (\<lambda>e. he_hash E (key_of h0 e) nkey mod m) (set ps) ?bn ?bp (snd s)"
    by (rule btable_frame [OF new]) (use r(2) x(4) in auto)
  note p = btable_push [OF this x(2,1)]
  let ?b = "he_hash E (key_of h0 x) nkey mod m"
  have lt: "?b < length (snd s)" using m by simp
  let ?bn' = "?bn(x := snd s ! ?b)" and ?bp' = "if snd s ! ?b \<noteq> 0 then (?bp(x := 0))(snd s ! ?b := x) else ?bp(x := 0)"
  have "btable (bucket_of E h0) (set qs) ?bn' ?bp' ?bk"
  proof (rule btable_frame [OF r(1)])
    have "?bn' y = ?bn y \<and> ?bp' y = ?bp y" if "y \<in> set qs" for y
    proof (rule p(2) [OF lt])
      show "y \<notin> insert x (set ps)" using that x(3,4) by auto
    qed
    then show "\<forall>y\<in>set qs. ?bn' y = ?bn y \<and> ?bp' y = ?bp y \<and> bucket_of E h0 y = bucket_of E h0 y" by blast
  qed simp
  moreover have "btable (\<lambda>e. he_hash E (key_of h0 e) nkey mod m) (set (ps @ [x])) ?bn' ?bp' ((snd s)[?b := x])"
    using p(1) [OF lt] by simp
  moreover have eq: "move_to_table E nkey m x s = (h0\<lparr>bucket_next := ?bn', bucket_previous := ?bp', buckets := ?bk\<rparr>, (snd s)[?b := x])"
  proof -
    obtain n where sn: "s = (h0\<lparr>bucket_next := bn, bucket_previous := bp, buckets := bk\<rparr>, n)" using s(1) by (cases s) auto
    show ?thesis unfolding sn move_to_table_eq Let_def by simp
  qed
  ultimately show "moving E nkey h0 (ps @ [x]) qs (move_to_table E nkey m x s)"
    unfolding moving_def using m(1) s(2) by (intro exI [of _ ?bn'] exI [of _ ?bp'] exI [of _ ?bk]) auto
  show "length (snd (move_to_table E nkey m x s)) = m" using eq m(1) by simp
qed

lemma resize_loop_run:
  assumes "0 < m" "0 < n_buckets h0"
  shows "moving E nkey h0 ps qs s \<Longrightarrow> seg (iterate_next h0) (iterate_previous h0) p qs 0 \<Longrightarrow> distinct (ps @ qs) \<Longrightarrow> 0 \<notin> set qs \<Longrightarrow> length (snd s) = m \<Longrightarrow>
    \<exists>s'. resize_loop E nkey m (head_addr qs) s = Some s' \<and> moving E nkey h0 (ps @ qs) [] s' \<and> length (snd s') = m"
proof (induction qs arbitrary: ps s p)
  case Nil
  then show ?case by (simp add: resize_loop.simps)
next
  case (Cons x qs)
  let ?s = "move_to_table E nkey m x s"
  have st: "moving E nkey h0 (ps @ [x]) qs ?s" "length (snd ?s) = m"
    using moving_step [OF Cons.prems(1), of m] Cons.prems(3-5) assms by auto
  then have "iterate_next (fst ?s) = iterate_next h0" by (auto simp: moving_def)
  then have n: "iterate_next (fst ?s) x = head_addr qs" using Cons.prems(2) by simp
  have "\<exists>s'. resize_loop E nkey m (head_addr qs) ?s = Some s' \<and> moving E nkey h0 ((ps @ [x]) @ qs) [] s' \<and> length (snd s') = m"
    using Cons.prems st by (intro Cons.IH [of _ _ x]) auto
  then show ?case using n Cons.prems(4) by (subst resize_loop.simps) (simp add: Let_def)
qed

lemma resize_run:
  assumes inv: "hm_inv E h xs"
  shows "\<exists>b h'. resize_buckets E h = Some (b, h') \<and> hm_inv E h' xs \<and> key_of h' = key_of h \<and> value_of h' = value_of h \<and> (\<not> b \<longrightarrow> h' = h)"
proof -
  note i = hm_invD [OF inv]
  let ?m = "((n_entries h + 1) * 4 + 2 ^ 32 - 1) mod 2 ^ 32" and ?key = "he_random E h"
  have m: "0 < ?m"
  proof -
    have "((n_entries h + 1) * 4 + 2 ^ 32 - 1) mod 4 = 3" by (simp add: mod_simps)
    moreover have "?m mod 4 = ((n_entries h + 1) * 4 + 2 ^ 32 - 1) mod 4" by (rule mod_mod_cancel) simp
    ultimately show ?thesis by (metis gr0I mod_0 zero_neq_numeral)
  qed
  have "moving E ?key h [] xs (h, replicate ?m 0)"
    unfolding moving_def using i(4,6) by (intro exI [of _ "bucket_next h"] exI [of _ "bucket_previous h"] exI [of _ "buckets h"]) (auto intro: btable_empty)
  then obtain s where s: "resize_loop E ?key ?m (head_addr xs) (h, replicate ?m 0) = Some s" "moving E ?key h xs [] s" "length (snd s) = ?m"
    using resize_loop_run [OF m i(5), of E ?key "[]" xs "(h, replicate ?m 0)" 0] i(1) by (auto simp: dlist_def)
  obtain g n where gn: "s = (g, n)" by (cases s)
  then obtain bn bp bk where g: "g = h\<lparr>bucket_next := bn, bucket_previous := bp, buckets := bk\<rparr>"
    and b: "btable (\<lambda>e. he_hash E (key_of h e) ?key mod ?m) (set xs) bn bp n" and ln: "length n = ?m"
    using s(2,3) by (auto simp: moving_def)
  have "hm_inv E (g\<lparr>buckets := n, n_buckets := ?m, hash_key := ?key\<rparr>) xs"
    unfolding hm_inv_def g using i(1-3,7) b ln m i(8) by (simp del: mult_Suc_right mod_less)
  then show ?thesis using inv s(1) i(2) gn g by (auto simp: resize_buckets_def Let_def)
qed

end
