(* ===== verification/Siphash.thy ===== *)
theory Siphash
  imports Utils
begin

text \<open>
  The keyed hash function (\<open>shared/siphash24.c\<close>) and the functions for hashing and comparing keys of
  \<open>shared/hashmap.c\<close>.
\<close>

section \<open>SipHash\<close>

definition U8TO64_LE :: "bytes \<Rightarrow> u64" where
  "U8TO64_LE p =
     ucast (p ! 0) OR push_bit 8 (ucast (p ! 1)) OR push_bit 16 (ucast (p ! 2)) OR push_bit 24 (ucast (p ! 3)) OR
     push_bit 32 (ucast (p ! 4)) OR push_bit 40 (ucast (p ! 5)) OR push_bit 48 (ucast (p ! 6)) OR push_bit 56 (ucast (p ! 7))"

definition ROTL :: "u64 \<Rightarrow> nat \<Rightarrow> u64" where
  "ROTL x b = push_bit b x OR drop_bit (64 - b) x"

type_synonym sip_state = "u64 \<times> u64 \<times> u64 \<times> u64"

definition SIPROUND :: "sip_state \<Rightarrow> sip_state" where
  "SIPROUND s =
     (let (v0, v1, v2, v3) = s;
          v0 = v0 + v1; v1 = ROTL v1 13; v1 = v1 XOR v0; v0 = ROTL v0 32;
          v2 = v2 + v3; v3 = ROTL v3 16; v3 = v3 XOR v2;
          v0 = v0 + v3; v3 = ROTL v3 21; v3 = v3 XOR v0;
          v2 = v2 + v1; v1 = ROTL v1 17; v1 = v1 XOR v2; v2 = ROTL v2 32
      in (v0, v1, v2, v3))"

definition sip_block :: "u64 \<Rightarrow> sip_state \<Rightarrow> sip_state" where
  "sip_block m s =
     (let (v0, v1, v2, v3) = s; v3 = v3 XOR m; (v0, v1, v2, v3) = SIPROUND (SIPROUND (v0, v1, v2, v3)) in (v0 XOR m, v1, v2, v3))"

fun sip_loop :: "bytes \<Rightarrow> sip_state \<Rightarrow> sip_state \<times> bytes" where
  "sip_loop inp s = (if length inp < 8 then (s, inp) else sip_loop (drop 8 inp) (sip_block (U8TO64_LE inp) s))"

declare sip_loop.simps [simp del]

definition sip_tail :: "bytes \<Rightarrow> u64 \<Rightarrow> u64" where
  "sip_tail inp b =
     (let left = length inp;
          b = (if left \<ge> 7 then b OR push_bit 48 (ucast (inp ! 6)) else b);
          b = (if left \<ge> 6 then b OR push_bit 40 (ucast (inp ! 5)) else b);
          b = (if left \<ge> 5 then b OR push_bit 32 (ucast (inp ! 4)) else b);
          b = (if left \<ge> 4 then b OR push_bit 24 (ucast (inp ! 3)) else b);
          b = (if left \<ge> 3 then b OR push_bit 16 (ucast (inp ! 2)) else b);
          b = (if left \<ge> 2 then b OR push_bit 8 (ucast (inp ! 1)) else b)
      in if left \<ge> 1 then b OR ucast (inp ! 0) else b)"

text \<open>The result as a number; it is stored with the lowest byte first.\<close>

definition siphash24 :: "bytes \<Rightarrow> bytes \<Rightarrow> u64" where
  "siphash24 inp k =
     (let k0 = U8TO64_LE k; k1 = U8TO64_LE (drop 8 k);
          s = (0x736f6d6570736575 XOR k0, 0x646f72616e646f6d XOR k1, 0x6c7967656e657261 XOR k0, 0x7465646279746573 XOR k1);
          b = push_bit 56 (of_nat (length inp));
          (s, rest) = sip_loop inp s;
          b = sip_tail rest b;
          (v0, v1, v2, v3) = sip_block b s;
          v2 = v2 XOR 0xff;
          (v0, v1, v2, v3) = SIPROUND (SIPROUND (SIPROUND (SIPROUND (v0, v1, v2, v3))))
      in v0 XOR v1 XOR v2 XOR v3)"

section \<open>Keys\<close>

text \<open>A pointer or a number as a key, and a string.\<close>

definition trivial_hash_func :: "u64 \<Rightarrow> bytes \<Rightarrow> nat" where
  "trivial_hash_func p hkey = unat (siphash24 (le64_bytes (unat p)) hkey)"

definition trivial_compare_func :: "u64 \<Rightarrow> u64 \<Rightarrow> int" where
  "trivial_compare_func a b = (if a < b then -1 else if a > b then 1 else 0)"

definition uint64_hash_func :: "u64 \<Rightarrow> bytes \<Rightarrow> nat" where
  "uint64_hash_func p hkey = unat (siphash24 (le64_bytes (unat p)) hkey)"

definition uint64_compare_func :: "u64 \<Rightarrow> u64 \<Rightarrow> int" where
  "uint64_compare_func a b = (if a < b then -1 else if a > b then 1 else 0)"

definition string_hash_func :: "bytes \<Rightarrow> bytes \<Rightarrow> nat" where
  "string_hash_func p hkey = unat (siphash24 p hkey)"

text \<open>\<open>strcmp\<close> on strings without the zero at their end.\<close>

fun string_compare_func :: "bytes \<Rightarrow> bytes \<Rightarrow> int" where
  "string_compare_func [] [] = 0"
| "string_compare_func [] (b # bs) = -1"
| "string_compare_func (a # as) [] = 1"
| "string_compare_func (a # as) (b # bs) = (if a < b then -1 else if a > b then 1 else string_compare_func as bs)"

lemma compare_eq [simp]: "trivial_compare_func a b = 0 \<longleftrightarrow> a = b" "uint64_compare_func a b = 0 \<longleftrightarrow> a = b" "string_compare_func s t = 0 \<longleftrightarrow> s = t"
  by (auto simp: trivial_compare_func_def uint64_compare_func_def)
    (induction s t rule: string_compare_func.induct; auto split: if_splits)+

end
