(* ===== verification/Hash_Map_Refine.thy ===== *)
theory Hash_Map_Refine
  imports Hash_Map Siphash
begin

text \<open>
  The hash map is a list of pairs in the order of their insertion: every call does to the map what the
  specification does to the list, and an iteration gives the list.  Maps with the keys the program uses
  (pointers, numbers and strings) are instances.
\<close>

section \<open>The specification: a list of pairs in the order of their insertion\<close>

definition al_find :: "('k \<Rightarrow> 'k \<Rightarrow> bool) \<Rightarrow> 'k \<Rightarrow> ('k \<times> 'v) list \<Rightarrow> ('k \<times> 'v) option" where
  "al_find eq k l = find (\<lambda>p. eq (fst p) k) l"

definition al_drop :: "('k \<Rightarrow> 'k \<Rightarrow> bool) \<Rightarrow> 'k \<Rightarrow> ('k \<times> 'v) list \<Rightarrow> ('k \<times> 'v) list" where
  "al_drop eq k l = filter (\<lambda>p. \<not> eq (fst p) k) l"

datatype ('k, 'v) hm_op =
    Put 'k 'v | Replace 'k 'v | Update 'k 'v | Get 'k | Contains 'k | Remove 'k | RemoveValue 'k 'v
  | RemoveAndPut 'k 'k 'v | RemoveAndReplace 'k 'k 'v | First | Last | StealFirst | Next 'k | Clear | Size

datatype 'v hm_result = Code "nat res" | Value "'v option" | Flag bool | Number nat | Done

fun al_step :: "('k \<Rightarrow> 'k \<Rightarrow> bool) \<Rightarrow> ('k, 'v) hm_op \<Rightarrow> ('k \<times> 'v) list \<Rightarrow> 'v hm_result \<times> ('k \<times> 'v) list" where
  "al_step eq (Put k v) l =
     (case al_find eq k l of Some p \<Rightarrow> (Code (if snd p = v then Inr 0 else Inl EEXIST), l) | None \<Rightarrow> (Code (Inr 1), l @ [(k, v)]))"
| "al_step eq (Replace k v) l =
     (case al_find eq k l of
        Some _ \<Rightarrow> (Code (Inr 0), map (\<lambda>p. if eq (fst p) k then (k, v) else p) l) | None \<Rightarrow> (Code (Inr 1), l @ [(k, v)]))"
| "al_step eq (Update k v) l =
     (case al_find eq k l of
        Some _ \<Rightarrow> (Code (Inr 0), map (\<lambda>p. if eq (fst p) k then (fst p, v) else p) l) | None \<Rightarrow> (Code (Inl ENOENT), l))"
| "al_step eq (Get k) l = (Value (map_option snd (al_find eq k l)), l)"
| "al_step eq (Contains k) l = (Flag (al_find eq k l \<noteq> None), l)"
| "al_step eq (Remove k) l = (Value (map_option snd (al_find eq k l)), al_drop eq k l)"
| "al_step eq (RemoveValue k v) l =
     (if map_option snd (al_find eq k l) = Some v then (Value (Some v), al_drop eq k l) else (Value None, l))"
| "al_step eq (RemoveAndPut old new v) l =
     (if al_find eq old l = None then (Code (Inl ENOENT), l)
      else if al_find eq new l \<noteq> None then (Code (Inl EEXIST), l)
      else (Code (Inr 0), al_drop eq old l @ [(new, v)]))"
| "al_step eq (RemoveAndReplace old new v) l =
     (if al_find eq old l = None then (Code (Inl ENOENT), l)
      else (Code (Inr 0), al_drop eq new (al_drop eq old l) @ [(new, v)]))"
| "al_step eq First l = (Value (case l of [] \<Rightarrow> None | p # _ \<Rightarrow> Some (snd p)), l)"
| "al_step eq Last l = (Value (if l = [] then None else Some (snd (last l))), l)"
| "al_step eq StealFirst l = (Value (case l of [] \<Rightarrow> None | p # _ \<Rightarrow> Some (snd p)), tl l)"
| "al_step eq (Next k) l = (Value (case dropWhile (\<lambda>p. \<not> eq (fst p) k) l of _ # p # _ \<Rightarrow> Some (snd p) | _ \<Rightarrow> None), l)"
| "al_step eq Clear l = (Done, [])"
| "al_step eq Size l = (Number (length l), l)"

fun al_run :: "('k \<Rightarrow> 'k \<Rightarrow> bool) \<Rightarrow> ('k, 'v) hm_op list \<Rightarrow> ('k \<times> 'v) list \<Rightarrow> 'v hm_result list \<times> ('k \<times> 'v) list" where
  "al_run eq [] l = ([], l)"
| "al_run eq (x # xs) l = (let (r, l) = al_step eq x l; (rs, l) = al_run eq xs l in (r # rs, l))"

section \<open>The same calls on the map\<close>

fun hm_step :: "('k, 'v) hash_env \<Rightarrow> ('k, 'v) hm_op \<Rightarrow> ('k, 'v) hashmap \<Rightarrow> ('v hm_result \<times> ('k, 'v) hashmap) option" where
  "hm_step E (Put k v) h = map_option (apfst Code) (hashmap_put E h k v)"
| "hm_step E (Replace k v) h = map_option (apfst Code) (hashmap_replace E h k v)"
| "hm_step E (Update k v) h = map_option (apfst Code) (hashmap_update E h k v)"
| "hm_step E (Get k) h = map_option (\<lambda>v. (Value v, h)) (hashmap_get E h k)"
| "hm_step E (Contains k) h = map_option (\<lambda>b. (Flag b, h)) (hashmap_contains E h k)"
| "hm_step E (Remove k) h = map_option (apfst Value) (hashmap_remove E h k)"
| "hm_step E (RemoveValue k v) h = map_option (apfst Value) (hashmap_remove_value E h k v)"
| "hm_step E (RemoveAndPut old new v) h = map_option (apfst Code) (hashmap_remove_and_put E h old new v)"
| "hm_step E (RemoveAndReplace old new v) h = map_option (apfst Code) (hashmap_remove_and_replace E h old new v)"
| "hm_step E First h = Some (Value (hashmap_first h), h)"
| "hm_step E Last h = Some (Value (hashmap_last h), h)"
| "hm_step E StealFirst h = map_option (apfst Value) (hashmap_steal_first E h)"
| "hm_step E (Next k) h = map_option (\<lambda>v. (Value v, h)) (hashmap_next E h k)"
| "hm_step E Clear h = map_option (\<lambda>h. (Done, h)) (hashmap_clear E h)"
| "hm_step E Size h = Some (Number (hashmap_size h), h)"

fun hm_run :: "('k, 'v) hash_env \<Rightarrow> ('k, 'v) hm_op list \<Rightarrow> ('k, 'v) hashmap \<Rightarrow> ('v hm_result list \<times> ('k, 'v) hashmap) option" where
  "hm_run E [] h = Some ([], h)"
| "hm_run E (x # xs) h =
     (case hm_step E x h of
        None \<Rightarrow> None
      | Some (r, h) \<Rightarrow> (case hm_run E xs h of None \<Rightarrow> None | Some (rs, h) \<Rightarrow> Some (r # rs, h)))"

section \<open>Every call does what the specification says\<close>

lemma al_simps [simp]:
  "al h [] = []" "al h (x # xs) = (key_of h x, value_of h x) # al h xs" "al h (xs @ ys) = al h xs @ al h ys" "length (al h xs) = length xs"
  "al h xs = [] \<longleftrightarrow> xs = []"
  by (simp_all add: al_def)

lemma al_cong: "\<forall>x\<in>set xs. key_of h' x = key_of h x \<and> value_of h' x = value_of h x \<Longrightarrow> al h' xs = al h xs"
  by (simp add: al_def)

lemma al_absent:
  assumes "\<forall>x\<in>set xs. \<not> eq (key_of h x) k"
  shows "al_find eq k (al h xs) = None" "al_drop eq k (al h xs) = al h xs" "map (\<lambda>p. if eq (fst p) k then f p else p) (al h xs) = al h xs"
    "dropWhile (\<lambda>p. \<not> eq (fst p) k) (al h xs) = []"
  using assms by (auto simp: al_find_def al_drop_def al_def find_None_iff filter_id_conv dropWhile_eq_Nil_conv)

lemma al_present:
  assumes "eq (key_of h e) k" "\<forall>x\<in>set as \<union> set bs. \<not> eq (key_of h x) k"
  shows "al_find eq k (al h (as @ e # bs)) = Some (key_of h e, value_of h e)"
    "al_drop eq k (al h (as @ e # bs)) = al h (as @ bs)"
    "map (\<lambda>p. if eq (fst p) k then f p else p) (al h (as @ e # bs)) = al h as @ f (key_of h e, value_of h e) # al h bs"
    "dropWhile (\<lambda>p. \<not> eq (fst p) k) (al h (as @ e # bs)) = al h (e # bs)"
proof -
  have a: "\<forall>x\<in>set as. \<not> eq (key_of h x) k" and b: "\<forall>x\<in>set bs. \<not> eq (key_of h x) k" using assms(2) by auto
  note A = al_absent [of as eq h k, OF a] and B = al_absent [of bs eq h k, OF b]
  have d: "al_drop eq k (xs @ ys) = al_drop eq k xs @ al_drop eq k ys" for xs ys :: "('a \<times> 'b) list" by (simp add: al_drop_def)
  show "al_drop eq k (al h (as @ e # bs)) = al h (as @ bs)" using A(2) B(2) assms(1) by (simp add: d) (simp add: al_drop_def)
  show "map (\<lambda>p. if eq (fst p) k then f p else p) (al h (as @ e # bs)) = al h as @ f (key_of h e, value_of h e) # al h bs"
    using A(3) B(3) assms(1) by simp
  have "\<forall>p\<in>set (al h as). \<not> eq (fst p) k" using a by (auto simp: al_def)
  then show "dropWhile (\<lambda>p. \<not> eq (fst p) k) (al h (as @ e # bs)) = al h (e # bs)" using assms(1) by (simp add: dropWhile_append2)
  have "find P (xs @ y # ys) = Some y" if "\<forall>x\<in>set xs. \<not> P x" "P y" for P and xs ys :: "('a \<times> 'b) list" and y
    using that by (induction xs) auto
  from this [of "al h as" "\<lambda>p. eq (fst p) k"] show "al_find eq k (al h (as @ e # bs)) = Some (key_of h e, value_of h e)"
    using \<open>\<forall>p\<in>set (al h as). \<not> eq (fst p) k\<close> assms(1) by (simp add: al_find_def)
qed

definition refines :: "('k, 'v) hash_env \<Rightarrow> ('k, 'v) hm_op \<Rightarrow> ('k, 'v) hashmap \<Rightarrow> addr list \<Rightarrow> bool" where
  "refines E op h xs \<longleftrightarrow>
     (\<exists>r h' xs'. hm_step E op h = Some (r, h') \<and> hm_inv E h' xs' \<and> al_step (same_key E) op (al h xs) = (r, al h' xs'))"

lemma refinesI:
  "hm_step E op h = Some (r, h') \<Longrightarrow> hm_inv E h' xs' \<Longrightarrow> al_step (same_key E) op (al h xs) = (r, al h' xs') \<Longrightarrow> refines E op h xs"
  unfolding refines_def by blast

context hashed
begin

lemma put_absent:
  assumes inv: "hm_inv E h xs" and k: "find_entry E h k = Some 0" "\<forall>e\<in>set xs. \<not> same_key E (key_of h e) k" and few: "length xs + 1 < 2 ^ 32"
  shows "\<exists>h' e. hashmap_put E h k v = Some (Inr 1, h') \<and> hm_inv E h' (xs @ [e]) \<and> al h' (xs @ [e]) = al h xs @ [(k, v)]"
proof -
  obtain b g where g: "resize_buckets E h = Some (b, g)" "hm_inv E g xs" "key_of g = key_of h" "value_of g = value_of h" "\<not> b \<longrightarrow> g = h"
    using resize_run [OF inv] by blast
  obtain e where e: "he_alloc E g = Some e" "e \<noteq> 0" "e \<notin> set xs" using alloc [OF g(2)] by blast
  have "\<forall>x\<in>set xs. \<not> same_key E (key_of g x) k \<and> \<not> same_key E k (key_of g x)" using k(2) sym unfolding g(3) by blast
  from link_run [OF g(2) e(2,3) this few, of v] obtain h' where
    h': "link_entry (g\<lparr>key_of := (key_of g)(e := k), value_of := (value_of g)(e := v)\<rparr>) e (bucket_hash E g k) = Some h'"
    "hm_inv E h' (xs @ [e])" "key_of h' = (key_of g)(e := k)" "value_of h' = (value_of g)(e := v)" by blast
  have "(if b then bucket_hash E g k else bucket_hash E h k) = bucket_hash E g k" using g(5) by auto
  then have "hashmap_put E h k v = Some (Inr 1, h')"
    using k(1) g(1) e(1) h'(1) by (simp add: hashmap_put_def find_entry_def Let_def)
  moreover have "al h' (xs @ [e]) = al h xs @ [(k, v)]"
    using al_cong [of xs h' h] e(3) h'(3,4) g(3,4) by simp
  ultimately show ?thesis using h'(2) by blast
qed

lemma put_refines: "hm_inv E h xs \<Longrightarrow> length xs + 1 < 2 ^ 32 \<Longrightarrow> refines E (Put k v) h xs"
proof -
  assume inv: "hm_inv E h xs" and few: "length xs + 1 < 2 ^ 32"
  from inv show ?thesis
  proof (cases rule: find_entry_cases [where k = k])
    case absent
    obtain h' e where h': "hashmap_put E h k v = Some (Inr 1, h')" "hm_inv E h' (xs @ [e])" "al h' (xs @ [e]) = al h xs @ [(k, v)]"
      using put_absent [OF inv absent few, of v] by blast
    show ?thesis
      by (rule refinesI [OF _ h'(2)]) (simp_all add: h'(1) h'(3) [symmetric] al_absent(1) [of xs "same_key E" h k, OF absent(2)] del: al_simps)
  next
    case (present e as bs)
    note p = al_present(1) [of "same_key E" h e k as bs, OF present(4,5), folded present(3)]
    have "hashmap_put E h k v = Some (if value_of h e = v then Inr 0 else Inl EEXIST, h)"
      using present(1,2) by (simp add: hashmap_put_def find_entry_def Let_def)
    then show ?thesis using p inv by (auto simp: refines_def)
  qed
qed

lemma same_inv:
  assumes inv: "hm_inv E h (as @ e # bs)" and k: "same_key E (key_of h e) k"
  shows "hm_inv E (h\<lparr>key_of := (key_of h)(e := k), value_of := f\<rparr>) (as @ e # bs)"
    "hm_inv E (h\<lparr>value_of := f\<rparr>) (as @ e # bs)"
proof -
  note i = hm_invD [OF inv]
  let ?h = "h\<lparr>key_of := (key_of h)(e := k), value_of := f\<rparr>"
  have hs: "he_hash E (((key_of h)(e := k)) x) r = he_hash E (key_of h x) r" for x r using hash [OF k] by simp
  have "btable (bucket_of E ?h) (set (as @ e # bs)) (bucket_next h) (bucket_previous h) (buckets h)"
    by (rule btable_frame [OF i(6)]) (simp add: hs del: fun_upd_apply)
  moreover have "\<forall>x\<in>set (as @ e # bs). \<forall>y\<in>set (as @ e # bs). same_key E (((key_of h)(e := k)) x) (((key_of h)(e := k)) y) \<longrightarrow> x = y"
  proof (intro ballI impI)
    fix x y
    assume x: "x \<in> set (as @ e # bs)" "y \<in> set (as @ e # bs)" and s: "same_key E (((key_of h)(e := k)) x) (((key_of h)(e := k)) y)"
    have "same_key E (key_of h z) (((key_of h)(e := k)) z)" for z using k refl by simp
    then have "same_key E (key_of h x) (key_of h y)" using s trans sym by blast
    then show "x = y" by (rule i(8) [OF x])
  qed
  ultimately show "hm_inv E ?h (as @ e # bs)"
    unfolding hm_inv_def hashmap.simps using i(1-5,7) by (intro conjI) (simp_all del: fun_upd_apply)
  show "hm_inv E (h\<lparr>value_of := f\<rparr>) (as @ e # bs)" using inv by (simp add: hm_inv_def)
qed

lemma replace_refines: "hm_inv E h xs \<Longrightarrow> length xs + 1 < 2 ^ 32 \<Longrightarrow> refines E (Replace k v) h xs"
proof -
  assume inv: "hm_inv E h xs" and few: "length xs + 1 < 2 ^ 32"
  from inv show ?thesis
  proof (cases rule: find_entry_cases [where k = k])
    case absent
    obtain h' e where h': "hashmap_put E h k v = Some (Inr 1, h')" "hm_inv E h' (xs @ [e])" "al h' (xs @ [e]) = al h xs @ [(k, v)]"
      using put_absent [OF inv absent few, of v] by blast
    show ?thesis
      by (rule refinesI [OF _ h'(2)])
        (simp_all add: hashmap_replace_def absent(1) h'(1) h'(3) [symmetric] al_absent(1) [of xs "same_key E" h k, OF absent(2)] del: al_simps)
  next
    case (present e as bs)
    note p = al_present [of "same_key E" h e k as bs, OF present(4,5), folded present(3)]
    let ?h = "h\<lparr>key_of := (key_of h)(e := k), value_of := (value_of h)(e := v)\<rparr>"
    have "e \<notin> set as" "e \<notin> set bs" using hm_invD(9) [OF inv] present(3) by auto
    then have "al ?h xs = al h as @ (k, v) # al h bs" using al_cong [of as ?h h] al_cong [of bs ?h h] present(3) by simp
    moreover have "hm_inv E ?h xs" using same_inv(1) [of h as e bs k] inv present(3,4) by simp
    moreover have "hashmap_replace E h k v = Some (Inr 0, ?h)" using present(1,2) by (simp add: hashmap_replace_def)
    ultimately show ?thesis using p(1) p(3) [of "\<lambda>_. (k, v)"] unfolding refines_def by (intro exI [of _ "Code (Inr 0)"] exI [of _ ?h] exI [of _ xs]) simp
  qed
qed

lemma update_refines: "hm_inv E h xs \<Longrightarrow> refines E (Update k v) h xs"
proof -
  assume inv: "hm_inv E h xs"
  from inv show ?thesis
  proof (cases rule: find_entry_cases [where k = k])
    case absent
    then show ?thesis using al_absent(1) [of xs "same_key E" h k] inv by (auto simp: refines_def hashmap_update_def)
  next
    case (present e as bs)
    note p = al_present [of "same_key E" h e k as bs, OF present(4,5), folded present(3)]
    let ?h = "h\<lparr>value_of := (value_of h)(e := v)\<rparr>"
    have "e \<notin> set as" "e \<notin> set bs" using hm_invD(9) [OF inv] present(3) by auto
    then have "al ?h xs = al h as @ (key_of h e, v) # al h bs" using al_cong [of as ?h h] al_cong [of bs ?h h] present(3) by simp
    moreover have "hm_inv E ?h xs" using same_inv(2) [of h as e bs k] inv present(3,4) by simp
    moreover have "hashmap_update E h k v = Some (Inr 0, ?h)" using present(1,2) by (simp add: hashmap_update_def)
    ultimately show ?thesis using p(1) p(3) [of "\<lambda>p. (fst p, v)"] unfolding refines_def by (intro exI [of _ "Code (Inr 0)"] exI [of _ ?h] exI [of _ xs]) simp
  qed
qed

lemma lookup_refines: "hm_inv E h xs \<Longrightarrow> refines E (Get k) h xs \<and> refines E (Contains k) h xs \<and> refines E (Next k) h xs"
proof -
  assume inv: "hm_inv E h xs"
  from inv show ?thesis
  proof (cases rule: find_entry_cases [where k = k])
    case absent
    note a = al_absent [of xs "same_key E" h k, OF absent(2)]
    show ?thesis by (intro conjI; rule refinesI [OF _ inv]) (simp_all add: a absent(1) hashmap_get_def hashmap_contains_def hashmap_next_def)
  next
    case (present e as bs)
    note p = al_present [of "same_key E" h e k as bs, OF present(4,5), folded present(3)]
    have "iterate_next h e = head_addr bs" "iterate_next h e = 0 \<longleftrightarrow> bs = []"
      using dlist_split(2,5) [of _ _ as e bs] hm_invD(1) [OF inv] present(3) by blast+
    then show ?thesis using present(1,2) p(1,4) inv
      by (cases bs) (auto simp: refines_def hashmap_get_def hashmap_contains_def hashmap_next_def)
  qed
qed

lemma remove_refines: "hm_inv E h xs \<Longrightarrow> refines E (Remove k) h xs \<and> refines E (RemoveValue k v) h xs"
proof -
  assume inv: "hm_inv E h xs"
  from inv show ?thesis
  proof (cases rule: find_entry_cases [where k = k])
    case absent
    then show ?thesis using al_absent [of xs "same_key E" h k] inv
      by (auto simp: refines_def hashmap_remove_def hashmap_remove_value_def)
  next
    case (present e as bs)
    note p = al_present [of "same_key E" h e k as bs, OF present(4,5), folded present(3)]
    obtain h' where h': "remove_entry E h e = Some h'" "hm_inv E h' (as @ bs)" "key_of h' = key_of h" "value_of h' = value_of h"
      using remove_run [of E h as e bs] inv present(3) by auto
    have "al h' (as @ bs) = al h (as @ bs)" using h'(3,4) by (intro al_cong) simp
    then show ?thesis using present(1,2) p(1,2) inv h'(1,2)
      by (auto simp: refines_def hashmap_remove_def hashmap_remove_value_def Let_def)
  qed
qed

lemma relink_run:
  assumes inv: "hm_inv E h (as @ e # bs)" and old: "bucket_of E h e = old_hash"
    and k: "\<forall>x\<in>set (as @ bs). \<not> same_key E (key_of h x) k" and few: "length (as @ e # bs) < 2 ^ 32"
  shows "\<exists>h'. relink h e old_hash k v (bucket_hash E h k) = Some (Inr 0, h') \<and> hm_inv E h' (as @ bs @ [e]) \<and>
    al h' (as @ bs @ [e]) = al h (as @ bs) @ [(k, v)]"
proof -
  obtain g where g: "unlink_entry h e old_hash = Some g" "hm_inv E g (as @ bs)" "key_of g = key_of h" "value_of g = value_of h"
    "n_buckets g = n_buckets h" "hash_key g = hash_key h"
    using unlink_run [OF inv old] by blast
  have e: "e \<noteq> 0" "e \<notin> set (as @ bs)" using hm_invD(9,10) [OF inv] by auto
  have "\<forall>x\<in>set (as @ bs). \<not> same_key E (key_of g x) k \<and> \<not> same_key E k (key_of g x)" using k sym unfolding g(3) by blast
  from link_run [OF g(2) e this, of v] few obtain h' where
    h': "link_entry (g\<lparr>key_of := (key_of g)(e := k), value_of := (value_of g)(e := v)\<rparr>) e (bucket_hash E g k) = Some h'"
    "hm_inv E h' ((as @ bs) @ [e])" "key_of h' = (key_of g)(e := k)" "value_of h' = (value_of g)(e := v)" by auto
  have "bucket_hash E g k = bucket_hash E h k" using g(5,6) by (simp add: bucket_hash_def)
  moreover have "al h' (as @ bs) = al h (as @ bs)" using e(2) h'(3,4) g(3,4) by (intro al_cong) auto
  ultimately show ?thesis using g(1) h' by (auto simp: relink_def)
qed

lemma remove_and_put_refines: "hm_inv E h xs \<Longrightarrow> length xs + 1 < 2 ^ 32 \<Longrightarrow> refines E (RemoveAndPut old new v) h xs"
proof -
  assume inv: "hm_inv E h xs" and few: "length xs + 1 < 2 ^ 32"
  from inv show ?thesis
  proof (cases rule: find_entry_cases [where k = old])
    case absent
    then show ?thesis using al_absent [of xs "same_key E" h old] inv by (auto simp: refines_def hashmap_remove_and_put_def)
  next
    case (present e as bs)
    note p = al_present [of "same_key E" h e old as bs, OF present(4,5), folded present(3)]
    from inv show ?thesis
    proof (cases rule: find_entry_cases [where k = new])
      case (present f cs ds)
      then show ?thesis using p(1) al_present(1) [of "same_key E" h f new cs ds, OF present(4,5), folded present(3)] inv
        \<open>find_entry E h old = Some e\<close> \<open>e \<noteq> 0\<close> by (auto simp: refines_def hashmap_remove_and_put_def)
    next
      case absent
      have "bucket_of E h e = bucket_hash E h old" using hash [OF present(4)] by (simp add: bucket_hash_def)
      then obtain h' where "relink h e (bucket_hash E h old) new v (bucket_hash E h new) = Some (Inr 0, h')" "hm_inv E h' (as @ bs @ [e])"
        "al h' (as @ bs @ [e]) = al h (as @ bs) @ [(new, v)]"
        using relink_run [of h as e bs "bucket_hash E h old" new v] inv absent(2) few present(3) by auto
      then show ?thesis using p(1,2) al_absent(1) [of xs "same_key E" h new, OF absent(2)] present(1,2) absent(1)
        unfolding refines_def by (intro exI [of _ "Code (Inr 0)"] exI [of _ h'] exI [of _ "as @ bs @ [e]"]) (simp add: hashmap_remove_and_put_def)
    qed
  qed
qed

lemma steal_refines: "hm_inv E h xs \<Longrightarrow> refines E StealFirst h xs \<and> refines E First h xs \<and> refines E Last h xs \<and> refines E Size h xs"
proof -
  assume inv: "hm_inv E h xs"
  note i = hm_invD [OF inv]
  show ?thesis
  proof (cases xs)
    case Nil
    then show ?thesis using inv i(2,3,7)
      by (auto simp: refines_def hashmap_steal_first_def hashmap_first_def hashmap_last_def hashmap_size_def)
  next
    case (Cons x ys)
    then obtain h' where h': "remove_entry E h x = Some h'" "hm_inv E h' ys" "key_of h' = key_of h" "value_of h' = value_of h"
      using remove_run [of E h "[]" x ys] inv by auto
    have "al h' ys = al h ys" using h'(3,4) by (intro al_cong) simp
    moreover have "last (al h xs) = (key_of h (last xs), value_of h (last xs))" using Cons by (simp add: al_def last_map del: list.map)
    moreover have "last xs \<in> set xs" using Cons by (intro last_in_set) simp
    then have "x \<noteq> 0" "last xs \<noteq> 0" using i(10) Cons by (metis list.set_intros(1), metis)
    ultimately show ?thesis using inv h'(1,2) i(2,3,7) Cons
      by (auto simp: refines_def hashmap_steal_first_def hashmap_first_def hashmap_last_def hashmap_size_def Let_def)
  qed
qed

lemma clear_run: "hm_inv E h xs \<Longrightarrow> \<exists>h'. hashmap_clear E h = Some h' \<and> hm_inv E h' []"
proof (induction xs arbitrary: h)
  case Nil
  then show ?case using hm_invD(2) [OF Nil] by (subst hashmap_clear.simps) simp
next
  case (Cons x xs)
  then obtain g where g: "remove_entry E h x = Some g" "hm_inv E g xs" using remove_run [of E h "[]" x xs] by auto
  have "iterate_list_head h = x" "x \<noteq> 0" using hm_invD(2,10) [OF Cons.prems] by auto
  then show ?case using Cons.IH [OF g(2)] g(1) by (subst hashmap_clear.simps) simp
qed

end

section \<open>Replacing under another key\<close>

lemma al_drop_drop: "al_drop eq a (al_drop eq b l) = al_drop eq b (al_drop eq a l)"
  by (simp add: al_drop_def conj_commute)

context hashed
begin

lemma bucket_of_same: "same_key E (key_of h e) k \<Longrightarrow> bucket_of E h e = bucket_hash E h k"
  using hash by (metis bucket_hash_def)

lemma replace_other:
  assumes inv: "hm_inv E h xs" and few: "length xs < 2 ^ 32"
    and e: "xs = as @ e # bs" "same_key E (key_of h e) old" "\<forall>x\<in>set as \<union> set bs. \<not> same_key E (key_of h x) old"
    and f: "xs = cs @ f # ds" "same_key E (key_of h f) new" "\<forall>x\<in>set cs \<union> set ds. \<not> same_key E (key_of h x) new" and ne: "e \<noteq> f"
  shows "\<exists>g h' xs'. remove_entry E h f = Some g \<and>
    relink g e (bucket_hash E h old) new v (bucket_hash E h new) = Some (Inr 0, h') \<and> hm_inv E h' xs' \<and>
    al h' xs' = al_drop (same_key E) new (al_drop (same_key E) old (al h xs)) @ [(new, v)]"
proof -
  obtain g where g: "remove_entry E h f = Some g" "hm_inv E g (cs @ ds)" "key_of g = key_of h" "value_of g = value_of h"
    "n_buckets g = n_buckets h" "hash_key g = hash_key h"
    using remove_run [of E h cs f ds] inv f(1) by auto
  have "e \<in> set xs" using e(1) by simp
  then have "e \<in> set (cs @ ds)" using f(1) ne by auto
  then obtain ps qs where pq: "cs @ ds = ps @ e # qs" by (meson split_list)
  have dis: "e \<notin> set (ps @ qs)" using hm_invD(9) [OF g(2)] pq by auto
  have hs: "bucket_hash E g k = bucket_hash E h k" for k using g(5,6) by (simp add: bucket_hash_def)
  have old: "bucket_of E g e = bucket_hash E h old" using bucket_of_same [of g e old] e(2) hs unfolding g(3) by metis
  have "set (ps @ qs) \<subseteq> set cs \<union> set ds" using arg_cong [OF pq, of set] by auto
  then have "\<forall>x\<in>set (ps @ qs). \<not> same_key E (key_of g x) new" using f(3) unfolding g(3) by blast
  moreover have "length (ps @ e # qs) < 2 ^ 32" using few f(1) arg_cong [OF pq, of length] by simp
  ultimately obtain h' where h': "relink g e (bucket_hash E h old) new v (bucket_hash E g new) = Some (Inr 0, h')"
    "hm_inv E h' (ps @ qs @ [e])" "al h' (ps @ qs @ [e]) = al g (ps @ qs) @ [(new, v)]"
    using relink_run [of g ps e qs "bucket_hash E h old" new v] g(2) pq old by auto
  have "set (ps @ qs) \<subseteq> set as \<union> set bs"
    using arg_cong [OF pq, of set] arg_cong [OF HOL.trans [OF e(1) [symmetric] f(1)], of set] dis by auto
  then have "\<forall>x\<in>set ps \<union> set qs. \<not> same_key E (key_of h x) old" using e(3) by auto
  then have "al_drop (same_key E) old (al h (cs @ ds)) = al h (ps @ qs)" unfolding pq by (rule al_present(2) [where eq = "same_key E", OF e(2)])
  moreover have "al_drop (same_key E) new (al h xs) = al h (cs @ ds)" unfolding f(1) by (rule al_present(2) [where eq = "same_key E", OF f(2,3)])
  moreover have "al g (ps @ qs) = al h (ps @ qs)" using g(3,4) by (intro al_cong) simp
  ultimately have "al_drop (same_key E) new (al_drop (same_key E) old (al h xs)) = al g (ps @ qs)"
    by (simp only: al_drop_drop [of "same_key E" new old])
  then show ?thesis using g(1) h' unfolding hs
    by (intro exI [of _ g] exI [of _ h'] exI [of _ "ps @ qs @ [e]"] conjI) (simp_all only:)
qed

lemma remove_and_replace_refines: "hm_inv E h xs \<Longrightarrow> length xs + 1 < 2 ^ 32 \<Longrightarrow> refines E (RemoveAndReplace old new v) h xs"
proof -
  assume inv: "hm_inv E h xs" and few: "length xs + 1 < 2 ^ 32"
  from inv show ?thesis
  proof (cases rule: find_entry_cases [where k = old])
    case absent
    then show ?thesis using al_absent [of xs "same_key E" h old] inv by (auto simp: refines_def hashmap_remove_and_replace_def)
  next
    case (present e as bs)
    note p = present al_present [of "same_key E" h e old as bs, OF present(4,5), folded present(3)]
    have relinked: "refines E (RemoveAndReplace old new v) h xs"
      if k: "\<forall>x\<in>set (as @ bs). \<not> same_key E (key_of h x) new" and f: "find_entry E h new = Some 0 \<or> find_entry E h new = Some e"
    proof -
      obtain h' where h': "relink h e (bucket_hash E h old) new v (bucket_hash E h new) = Some (Inr 0, h')" "hm_inv E h' (as @ bs @ [e])"
        "al h' (as @ bs @ [e]) = al h (as @ bs) @ [(new, v)]"
        using relink_run [OF _ bucket_of_same [OF p(4)] k, of v] inv few p(3) by auto
      show ?thesis
        by (rule refinesI [OF _ h'(2)])
          (use f p(1,2) in \<open>auto simp: hashmap_remove_and_replace_def h'(1,3) p(6,7) al_absent(2) [of "as @ bs" "same_key E" h new, OF k] simp del: al_simps\<close>)
    qed
    from inv show ?thesis
    proof (cases rule: find_entry_cases [where k = new])
      case absent
      then show ?thesis using p(3) by (intro relinked) auto
    next
      case (present f cs ds)
      show ?thesis
      proof (cases "e = f")
        case True
        have "distinct (as @ e # bs)" using hm_invD(9) [OF inv] p(3) by simp
        moreover have "as @ e # bs = cs @ e # ds" using p(3) present(3) True by simp
        ultimately have "as = cs \<and> bs = ds" by (metis append_eq_Cons_conv append_Cons_eq_iff distinct.simps(2) distinct_append not_distinct_conv_prefix)
        then show ?thesis using present(1,5) True by (intro relinked) auto
      next
        case False
        obtain g h' xs' where g: "remove_entry E h f = Some g"
          "relink g e (bucket_hash E h old) new v (bucket_hash E h new) = Some (Inr 0, h')" "hm_inv E h' xs'"
          "al h' xs' = al_drop (same_key E) new (al_drop (same_key E) old (al h xs)) @ [(new, v)]"
          using replace_other [OF inv _ p(3-5) present(3-5) False, of v] few by auto
        show ?thesis
          by (rule refinesI [OF _ g(3)])
            (use p(1,2) present(1,2) False in \<open>auto simp: hashmap_remove_and_replace_def g(1,2,4) p(6) simp del: al_simps\<close>)
      qed
    qed
  qed
qed

lemma clear_refines: "hm_inv E h xs \<Longrightarrow> refines E Clear h xs"
  using clear_run [of h xs] by (auto simp: refines_def intro!: exI [of _ "[]"])

lemma step_refines: "hm_inv E h xs \<Longrightarrow> length xs + 1 < 2 ^ 32 \<Longrightarrow> refines E op h xs"
  by (cases op) (simp_all add: put_refines replace_refines update_refines lookup_refines remove_refines remove_and_put_refines
    remove_and_replace_refines steal_refines clear_refines)

lemma al_step_length: "length (snd (al_step eq op l)) \<le> length l + 1"
proof -
  have d: "length (al_drop eq k m) \<le> length m" for k m by (simp add: al_drop_def)
  then have "length (al_drop eq k m) \<le> Suc (length m)" "length (al_drop eq k (al_drop eq k' m)) \<le> length m" for k k' m
    by (meson le_Suc_eq, meson order_trans)
  with d show ?thesis by (cases op) (auto split: option.split)
qed

lemma run_refines:
  "hm_inv E h xs \<Longrightarrow> length xs + length ops < 2 ^ 32 \<Longrightarrow>
   \<exists>rs h' xs'. hm_run E ops h = Some (rs, h') \<and> hm_inv E h' xs' \<and> al_run (same_key E) ops (al h xs) = (rs, al h' xs')"
proof (induction ops arbitrary: h xs)
  case (Cons op ops)
  obtain r g ys where s: "hm_step E op h = Some (r, g)" "hm_inv E g ys" "al_step (same_key E) op (al h xs) = (r, al g ys)"
    using step_refines [OF Cons.prems(1), of op] Cons.prems(2) by (auto simp: refines_def)
  have "length ys \<le> length xs + 1" using al_step_length [of "same_key E" op "al h xs"] s(3) by simp
  then obtain rs h' xs' where "hm_run E ops g = Some (rs, h')" "hm_inv E h' xs'" "al_run (same_key E) ops (al g ys) = (rs, al h' xs')"
    using Cons.IH [OF s(2)] Cons.prems(2) by auto
  with s show ?case by auto
qed auto

lemma new_inv: "hm_inv E (hashmap_new memory current) []"
  by (simp add: hm_inv_def hashmap_new_def INITIAL_N_BUCKETS_def btable_empty)

end

section \<open>Iteration\<close>

lemma foreach_at:
  "seg (iterate_next h) (iterate_previous h) p (x # xs) 0 \<Longrightarrow> 0 \<notin> set xs \<Longrightarrow> foreach h (At x) acc = Some (acc @ al h (x # xs))"
proof (induction xs arbitrary: p x acc)
  case Nil
  then show ?case by (simp add: foreach.simps hashmap_iterate_def)
next
  case (Cons y ys)
  then have "iterate_next h x = y" "y \<noteq> 0" by auto
  then have "foreach h (At x) acc = foreach h (At y) (acc @ [(key_of h x, value_of h x)])"
    by (subst foreach.simps) (simp add: hashmap_iterate_def)
  also have "\<dots> = Some ((acc @ [(key_of h x, value_of h x)]) @ al h (y # ys))" using Cons.prems by (intro Cons.IH [of x]) auto
  finally show ?case by simp
qed

lemma foreach_run:
  assumes inv: "hm_inv E h xs"
  shows "foreach h ITERATOR_FIRST [] = Some (al h xs)"
proof (cases xs)
  case Nil
  then show ?thesis using hm_invD(2) [OF inv] by (simp add: foreach.simps hashmap_iterate_def)
next
  case (Cons x ys)
  then have "foreach h ITERATOR_FIRST [] = foreach h (At x) []"
    using hm_invD(2,10) [OF inv] by (subst (1 2) foreach.simps) (simp add: hashmap_iterate_def)
  then show ?thesis using foreach_at [of h 0 x ys "[]"] hm_invD(1) [OF inv] Cons by (simp add: dlist_def)
qed

text \<open>
  C6: A hash map, whatever is done with it, behaves like a list of pairs in the order of their insertion:
  over any sequence of calls, with the tables growing as they fill, the results are those of the list,
  and an iteration gives exactly the pairs of the list in their order.
\<close>

theorem hashmap_refines_list:
  assumes "hashed E" and "length ops < 2 ^ 32"
  shows "\<exists>rs h l. hm_run E ops (hashmap_new memory current) = Some (rs, h) \<and> al_run (same_key E) ops [] = (rs, l) \<and>
    foreach h ITERATOR_FIRST [] = Some l"
proof -
  obtain rs h xs where "hm_run E ops (hashmap_new memory current) = Some (rs, h)" "hm_inv E h xs"
    "al_run (same_key E) ops (al (hashmap_new memory current) []) = (rs, al h xs)"
    using hashed.run_refines [OF assms(1) hashed.new_inv [OF assms(1)]] assms(2) by (metis add_0 list.size(3))
  then show ?thesis using foreach_run by auto
qed

section \<open>Merging and copying\<close>

context hashed
begin

lemma merge_loop_run:
  "seg (iterate_next other) (iterate_previous other) p ys 0 \<Longrightarrow> 0 \<notin> set ys \<Longrightarrow> hm_inv E h xs \<Longrightarrow> length xs + length ys < 2 ^ 32 \<Longrightarrow>
   \<exists>h' xs'. merge_loop E other (head_addr ys) h = Some (Inr 0, h') \<and> hm_inv E h' xs' \<and>
     al h' xs' = foldl (\<lambda>l p. snd (al_step (same_key E) (Put (fst p) (snd p)) l)) (al h xs) (al other ys)"
proof (induction ys arbitrary: p h xs)
  case Nil
  then show ?case by (auto simp: merge_loop.simps)
next
  case (Cons y ys)
  let ?op = "Put (key_of other y) (value_of other y)"
  obtain r g zs where s: "hm_step E ?op h = Some (r, g)" "hm_inv E g zs" "al_step (same_key E) ?op (al h xs) = (r, al g zs)"
    using step_refines [OF Cons.prems(3), of ?op] Cons.prems(4) by (auto simp: refines_def)
  have "length zs \<le> length xs + 1" using al_step_length [of "same_key E" ?op "al h xs"] s(3) by simp
  then have few: "length zs + length ys < 2 ^ 32" using Cons.prems(4) by simp
  obtain c where c: "hashmap_put E h (key_of other y) (value_of other y) = Some (c, g)" "r = Code c" using s(1) by auto
  have "c = Inl EEXIST \<or> (\<exists>n. c = Inr n)" using s(3) c(2) by (auto split: option.splits if_splits)
  then have "merge_loop E other (head_addr (y # ys)) h = merge_loop E other (head_addr ys) g"
    using c(1) Cons.prems(1,2) by (subst merge_loop.simps) auto
  moreover obtain h' xs' where "merge_loop E other (head_addr ys) g = Some (Inr 0, h')" "hm_inv E h' xs'"
    "al h' xs' = foldl (\<lambda>l p. snd (al_step (same_key E) (Put (fst p) (snd p)) l)) (al g zs) (al other ys)"
    using Cons.IH [of y g zs] Cons.prems(1,2) s(2) few by auto
  ultimately show ?case using s(3) by (intro exI [of _ h'] exI [of _ xs']) (simp del: al_step.simps)
qed

lemma puts_append:
  assumes "distinct ys" "\<forall>x\<in>set ys. \<forall>y\<in>set ys. same_key E (key_of h x) (key_of h y) \<longrightarrow> x = y"
    and "\<forall>x\<in>set ys. \<forall>p\<in>set l. \<not> same_key E (fst p) (key_of h x)"
  shows "foldl (\<lambda>l p. snd (al_step (same_key E) (Put (fst p) (snd p)) l)) l (al h ys) = l @ al h ys"
  using assms
proof (induction ys arbitrary: l)
  case (Cons y ys)
  have "al_find (same_key E) (key_of h y) l = None" using Cons.prems(3) by (auto simp: al_find_def find_None_iff)
  then have "snd (al_step (same_key E) (Put (key_of h y) (value_of h y)) l) = l @ [(key_of h y, value_of h y)]" by simp
  moreover have "\<forall>x\<in>set ys. \<forall>p\<in>set (l @ [(key_of h y, value_of h y)]). \<not> same_key E (fst p) (key_of h x)"
    using Cons.prems by auto
  ultimately show ?case using Cons.IH [of "l @ [(key_of h y, value_of h y)]"] Cons.prems(1,2) by (simp del: al_step.simps)
qed simp

lemma copy_run:
  assumes inv: "hm_inv E h xs" and "length xs < 2 ^ 32"
  shows "\<exists>c ys. hashmap_copy E memory current h = Some (Some c) \<and> hm_inv E c ys \<and> al c ys = al h xs"
proof -
  note i = hm_invD [OF inv]
  obtain c ys where m: "merge_loop E h (head_addr xs) (hashmap_new memory current) = Some (Inr 0, c)" "hm_inv E c ys"
    "al c ys = foldl (\<lambda>l p. snd (al_step (same_key E) (Put (fst p) (snd p)) l)) (al (hashmap_new memory current) []) (al h xs)"
  proof -
    have "seg (iterate_next h) (iterate_previous h) 0 xs 0" using i(1) by (simp add: dlist_def)
    moreover have "length ([] :: addr list) + length xs < 2 ^ 32" using assms(2) by simp
    ultimately show ?thesis using merge_loop_run [OF _ i(10) new_inv] that by blast
  qed
  have "al c ys = al h xs" unfolding m(3) using puts_append [of xs h "[]"] i(8,9) by (simp del: al_step.simps)
  then show ?thesis using m(1,2) i(2) by (auto simp: hashmap_copy_def hashmap_merge_def)
qed

end

section \<open>The maps of the program\<close>

text \<open>
  Maps with pointers or numbers and with strings as keys.  A new cell is one that no entry uses.
\<close>

primrec walk :: "('k, 'v) hashmap \<Rightarrow> nat \<Rightarrow> addr \<Rightarrow> addr list" where
  "walk h 0 p = []"
| "walk h (Suc n) p = p # walk h n (iterate_next h p)"

definition fresh_cell :: "('k, 'v) hashmap \<Rightarrow> addr option" where
  "fresh_cell h = Some (Suc (sum_list (walk h (n_entries h) (iterate_list_head h))))"

lemma walk_seg: "seg (iterate_next h) pv p xs 0 \<Longrightarrow> walk h (length xs) (head_addr xs) = xs"
  by (induction xs arbitrary: p) auto

lemma fresh_cell_ok: "hm_inv E h xs \<Longrightarrow> \<exists>e. fresh_cell h = Some e \<and> e \<noteq> 0 \<and> e \<notin> set xs"
proof -
  assume inv: "hm_inv E h xs"
  have "walk h (n_entries h) (iterate_list_head h) = xs"
    using walk_seg hm_invD(1,2,7) [OF inv] by (auto simp: dlist_def)
  moreover have "x \<le> sum_list xs" if "x \<in> set xs" for x using member_le_sum_list [OF that] by simp
  ultimately show ?thesis by (force simp: fresh_cell_def)
qed

definition map_env :: "('k \<Rightarrow> bytes \<Rightarrow> nat) \<Rightarrow> ('k \<Rightarrow> 'k \<Rightarrow> int) \<Rightarrow> (('k, 'v) hashmap \<Rightarrow> bytes) \<Rightarrow> (('k, 'v) hashmap \<Rightarrow> bool) \<Rightarrow> ('k, 'v) hash_env" where
  "map_env hash_func compare_func random room =
     \<lparr>he_hash = hash_func, he_compare = compare_func, he_random = random, he_alloc = fresh_cell, he_new0 = room\<rparr>"

lemma map_env_hashed: "(\<And>a b. compare_func a b = 0 \<longleftrightarrow> a = b) \<Longrightarrow> hashed (map_env hash_func compare_func random room)"
  by unfold_locales (use fresh_cell_ok in \<open>auto simp: map_env_def\<close>)

interpretation pointer_map: hashed "map_env trivial_hash_func trivial_compare_func random room" for random room
  by (rule map_env_hashed) simp

interpretation number_map: hashed "map_env uint64_hash_func uint64_compare_func random room" for random room
  by (rule map_env_hashed) simp

interpretation string_map: hashed "map_env string_hash_func string_compare_func random room" for random room
  by (rule map_env_hashed) simp

section \<open>A map of strings\<close>

definition map_example :: "(bytes, nat) hash_env" where
  "map_example = map_env string_hash_func string_compare_func (\<lambda>_. replicate 16 7) (\<lambda>_. True)"

definition memory_example :: "(bytes, nat) hashmap" where
  "memory_example = \<lparr>key_of = (\<lambda>_. []), value_of = (\<lambda>_. 0), bucket_next = (\<lambda>_. 0), bucket_previous = (\<lambda>_. 0), iterate_next = (\<lambda>_. 0),
     iterate_previous = (\<lambda>_. 0), iterate_list_head = 0, iterate_list_tail = 0, buckets = [], n_buckets = 0, n_entries = 0, hash_key = []\<rparr>"

lemma hashmap_refines_list_witness:
  "\<exists>h. hm_run map_example [Put [1] 10, Put [2] 20, Put [1] 11, Replace [2] 21, Put [3] 30, RemoveAndReplace [1] [2] 5, Get [2], StealFirst, Size]
      (hashmap_new memory_example (replicate 16 0)) =
      Some ([Code (Inr 1), Code (Inr 1), Code (Inl EEXIST), Code (Inr 0), Code (Inr 1), Code (Inr 0), Value (Some 5), Value (Some 30), Number 1], h) \<and>
    foreach h ITERATOR_FIRST [] = Some [([2], 5)]"
proof -
  let ?ops = "[Put [1] 10, Put [2] 20, Put [1] 11, Replace [2] 21, Put [3] 30, RemoveAndReplace [1] [2] 5, Get [2], StealFirst, Size] :: (bytes, nat) hm_op list"
  have E: "hashed map_example" unfolding map_example_def by (rule map_env_hashed) simp
  have "al_run (same_key map_example) ?ops [] =
    ([Code (Inr 1), Code (Inr 1), Code (Inl EEXIST), Code (Inr 0), Code (Inr 1), Code (Inr 0), Value (Some 5), Value (Some 30), Number 1], [([2], 5)])"
    by (simp add: map_example_def map_env_def al_find_def al_drop_def)
  then show ?thesis using hashmap_refines_list [OF E, of ?ops memory_example "replicate 16 0"] by auto
qed

end
