(* ===== verification/Spec2Isabelle.thy ===== *)
theory Spec2Isabelle
  imports Lookup3 Utils Reader_Example Server_Dispatch Hash_Map_Refine
begin

text \<open>
  A verification development for the journal: a daemon collects log messages of the kernel, of system
  services and of users, writes them into journal files, and programs read them back through a library.

  \<^bold>\<open>The program.\<close>  A journal file (\<open>src/lib/journal-def.h\<close>, \<open>src/lib/journal-file.c\<close>) is a header and a sequence of
  objects.  A log entry refers to data objects, one for each \<open>FIELD=value\<close>; data and field objects are interned by
  hash tables; every entry is listed in a chain of entry arrays of the file and in one of each of its
  data objects, in which a reader bisects.  The daemon creates, rotates and archives files and appends
  entries.  The reader (\<open>src/lib/sd-journal.c\<close>) opens many files, merges their entries by sequence number and time,
  and restricts them to those that satisfy a formula of matches.

  \<^bold>\<open>How C is modelled.\<close>  \<open>Prelude\<close> has the error numbers and 64-bit arithmetic with its wrap-around (\<open>add64\<close>,
  \<open>sub64\<close>, \<open>mul64\<close>).  \<open>Err_Monad\<close> is the control flow: a function on a mutable object takes its state to
  \<open>None\<close>, when it does not return or an assertion ends the program, or to a result and the new state; the result is an
  error number or a value, and the state is kept when there is an error, as the code does not undo
  what it wrote.  A function that returns 0, 1 or a negative error number has an option as its value.
  Loops are structural recursion where they are over a list, otherwise \<open>partial_function (option)\<close>; there is no fuel in
  the model of the code.  Every statement below about a function with such a loop says that it
  returns.  The only count is the one of \<open>read_entries\<close>, a client that reads until the end: any number above that of
  the matching entries is enough, which is part of the statement.
  What is not under \<open>src\<close> is a parameter: the record \<open>env\<close> (\<open>File_Objects\<close>) has the results of \<open>posix_fallocate\<close>,
  \<open>fstat\<close>, \<open>statvfs\<close>, \<open>mmap\<close> and \<open>ftruncate\<close> and the compression library, the record \<open>open_env\<close> (\<open>File_Open\<close>) those of \<open>open\<close> and
  \<open>pwrite\<close>, random bytes, the boot identifier and the time.  The hypotheses \<open>env_ok\<close> (the size of a page is a power of
  two, no file grows to \<open>2 ^ 63\<close> bytes), \<open>mmap_ok\<close> (what is inside the file can be mapped), \<open>space_ok\<close> and \<open>open_ok\<close> say what is
  relied on; the \<open>Example\<close> theories have environments and files that satisfy them.

  \<^bold>\<open>Theories.\<close>
  \<^item> \<open>Lookup3\<close>: the hash functions of \<open>src/lib/hash\<close>, on a byte memory with addresses, for every alignment of the
    key and both byte orders.  The unrolled loops and tails all compute a reference hash of the
    bytes (locale \<open>block_reader\<close>, interpreted for each of them).
  \<^item> \<open>Utils\<close>: \<open>src/lib/utils\<close>: strings, numbers, identifiers.
  \<^item> \<open>File_Objects\<close>: the structures of the file as datatypes and records, the file as a map from offsets to
    objects (\<open>journal_file\<close>), allocation, moving to an object, appending one; the invariant \<open>layout\<close>: objects are aligned, do
    not overlap, and lie in the arena.
  \<^item> \<open>Chains\<close>, \<open>File_Hash\<close>, \<open>File_Intern\<close>: the hash tables for data and fields.  \<open>file_ok\<close> is the invariant of a sound
    file; appending keeps it in every outcome, and interning (locale \<open>interned\<close>, interpreted for data and
    fields) gives one object for each value.
  \<^item> \<open>File_Entry\<close>, \<open>Entry_Arrays\<close>, \<open>Entry_Append\<close>: appending entries.  \<open>entry_lists f L\<close> abstracts the chains of arrays to a list
    \<open>L w\<close> of entries for each owner \<open>w\<close>; \<open>entry_added\<close> is the specification of an append.
  \<^item> \<open>File_Seek\<close>, \<open>Seek_Array\<close>, \<open>Seek_Chain\<close>, \<open>Seek_File\<close>: the chain cache, access by index, bisection, moving by offset,
    sequence number and time, stepping and skipping.  Every operation refines one on the list \<open>L w\<close>, whatever
    the cache holds (locale \<open>entry_cursor\<close>).
  \<^item> \<open>File_Open\<close>, \<open>File_Create\<close>, \<open>File_Copy\<close>: opening, verifying, creating, closing and rotating files, default limits, copying
    entries between files.
  \<^item> \<open>Match_Tree\<close>, \<open>Match_Search\<close>: the formula of matches of the reader as a tree, its documented meaning, and the
    search of a file for it (locale \<open>searcher\<close>).
  \<^item> \<open>Reader\<close>, \<open>Reader_File\<close>, \<open>Reader_Merge\<close>: the reader with its position, moving over all files, seeking; the
    invariant \<open>reader_at\<close> of a reader that has got to an entry (locale \<open>locator\<close> for what a position means in
    one file).
  \<^item> \<open>Reader_Data\<close>, \<open>Reader_Cursor\<close>: times and data of the current entry, with the decompression as a parameter
    (\<open>decompress_ok\<close> says that it gives back what was compressed), and cursors, the text form of a position.
  \<^item> \<open>File_Example\<close>, \<open>Open_Example\<close>, \<open>Reader_Example\<close>: concrete files, environments and readers for which the hypotheses of
    the properties hold.
  \<^item> \<open>Native_Protocol\<close>: the datagram of \<open>sd_journal_sendv\<close> (\<open>src/lib/journal-send.c\<close>) and \<open>server_process_native_message\<close>
    (\<open>src/src/core/journald-native.c\<close>).  Parsing gives the list of calls it makes (\<open>daemon_call\<close>): entries dispatched, texts
    forwarded.  Its loop is a \<open>partial_function (option)\<close>: without result where an assertion fails or the loop does not end.
  \<^item> \<open>Escapes\<close>, \<open>Syslog_Protocol\<close>: the C style escapes of \<open>src/shared/util.c\<close>; the parsing and formatting of syslog messages
    (\<open>src/src/core/journald-syslog.c\<close>).
  \<^item> \<open>Linked_Lists\<close>, \<open>Hash_Map\<close>, \<open>Siphash\<close>, \<open>Hash_Map_Refine\<close>: the hash map of \<open>src/shared/hashmap.c\<close> with its cells and pointers,
    as a refinement of a list of pairs in the order of insertion (locale \<open>hashed\<close> for what it relies on,
    interpreted for the three kinds of keys of the program with \<open>siphash24\<close>).
  \<^item> \<open>Rate_Limit\<close>: \<open>src/src/core/journald-rate-limit.c\<close>, with 32-bit counters.
  \<^item> \<open>Server_Dispatch\<close>: carrying out the calls (\<open>src/src/core/journald-server.c\<close>, \<open>journald-console.c\<close>): level, rate limit, the
    fields that are added, the message about suppression, and the entry for \<open>write_to_journal\<close>.  \<open>sender_env\<close> and
    \<open>native_env\<close> have what is read about the sender, the times and the space left.

  \<^bold>\<open>What is shown.\<close>  Writing: each operation keeps the soundness of a file, errors included; data are interned; an
  append adds exactly one entry, at the end.  Reading: every search and step gives what the search of
  the list of entries gives, with the exception of moving up in chains that are filled to the last
  slot, where the statements have the result of the code, which is not the intended one.  Both
  together: an entry that was appended is found by its number and by its data, with exactly its data;
  and reading with any formula of matches, over several files, ends and gives exactly the entries
  that satisfy the formula, once and in order.  The cursor of an entry leads back to it.
  The daemon: what a client sends is taken apart into exactly its fields and, while the rate limit lets it
  through, written as one entry; a syslog message that is forwarded is read back as it was; every message
  of a user is written, reported as suppressed or still to be reported; every datagram from the syslog
  socket gives one entry, and a native one comes to its end unless it begins with an empty line or a comment
  or reaches the largest size of an entry.
  The hash map: any sequence of calls gives the results of the list, and iterating gives the list; this is
  why the reader's map of files is a list in the model.

  \<^bold>\<open>Not modelled.\<close>  Windows into files (\<open>src/lib/mmap\<close>): a file is read and written by offset.  The bytes of objects:
  they are records, so that a damaged file is one with wrong fields, not with arbitrary bytes.  In the
  daemon: the choice, rotation and vacuuming of files around an append, which depend on directories, the
  records of the kernel, the configuration file, and the release of memory.  The vectors that
  \<open>dispatch_message_real\<close> fills point into a stack frame that has been left; what is found there is a parameter.
  Moving entries between hash maps and their pools of cells, UTF-8, time spans, the verifier and the output of the command
  line program.  System calls, sockets, the event loop.  Failing allocations of memory.
\<close>

end
